(* ===== verification/Prelude.thy ===== *)
theory Prelude
  imports Main "HOL-Library.Word" "HOL-Library.Monad_Syntax"
begin

unbundle bit_operations_syntax

text \<open>
  Shared types, automation collections and helper lemmas of the syslib model.

  Machine addresses and \<open>unsigned long\<close> values are 64-bit words.  A C function that
  changes memory takes the memory it works on and returns \<open>Some (result, memory')\<close>;
  \<open>None\<close> stands for a run that the C code does not survive: a null pointer
  is dereferenced, a buffer is accessed out of its bounds, or a loop never ends.
  Status codes (\<open>long\<close> results that are 0 or -1) are of type \<open>int\<close>.
\<close>

type_synonym u64 = "64 word"
type_synonym u32 = "32 word"
type_synonym u16 = "16 word"
type_synonym byte = "8 word"
type_synonym ptr = "64 word"

named_theorems mem_defs \<open>definitions of the loads and stores of a component's memory\<close>
named_theorems frame \<open>what an update of one field leaves alone\<close>

section \<open>Pointers\<close>

text \<open>Every access through a pointer first needs the pointer to be non-null.\<close>

definition deref :: "ptr \<Rightarrow> 'a \<Rightarrow> 'a option" where
  "deref p x = (if p = 0 then None else Some x)"

lemma deref_Some [simp]: "p \<noteq> 0 \<Longrightarrow> deref p x = Some x"
  by (simp add: deref_def)

lemma deref_null [simp]: "deref 0 x = None"
  by (simp add: deref_def)

lemma deref_eq_Some: "deref p x = Some y \<longleftrightarrow> p \<noteq> 0 \<and> x = y"
  by (simp add: deref_def)

section \<open>Lists\<close>

lemma list_split_mem:
  assumes "x \<in> set xs" and "distinct xs"
  obtains ys zs where "xs = ys @ x # zs" and "x \<notin> set ys" and "x \<notin> set zs"
proof -
  from assms(1) obtain ys zs where xs: "xs = ys @ x # zs"
    by (auto simp: in_set_conv_decomp)
  with assms(2) have "x \<notin> set ys" and "x \<notin> set zs" by auto
  with xs show thesis by (rule that)
qed

lemma remove1_split [simp]: "x \<notin> set ys \<Longrightarrow> remove1 x (ys @ x # zs) = ys @ zs"
  by (simp add: remove1_append)

section \<open>Words\<close>

lemma word_add_self_iff [simp]:
  fixes a b :: "'a::len word"
  shows "a + b = a \<longleftrightarrow> b = 0"
  by simp

lemma unat_less [simp]: "unat (w :: 'a::len word) < 2 ^ LENGTH('a)"
  by (rule unsigned_less)

lemma uint_power_u64: "k < 64 \<Longrightarrow> uint (2 ^ k :: u64) = 2 ^ k"
  by (rule uint_2p) (simp add: word_neq_0_conv [symmetric])

lemma unat_of_int_u64: "0 \<le> c \<Longrightarrow> c < 2 ^ 64 \<Longrightarrow> unat (of_int c :: u64) = nat c"
  by (simp add: unsigned_of_int take_bit_int_eq_self)

lemma uint_of_int_u64: "0 \<le> c \<Longrightarrow> c < 2 ^ 64 \<Longrightarrow> uint (of_int c :: u64) = c"
  by (simp add: unsigned_of_int take_bit_int_eq_self)

lemma uint_of_int_u32: "0 \<le> k \<Longrightarrow> k < 2 ^ 32 \<Longrightarrow> uint (of_int k :: u32) = k"
  by (simp add: unsigned_of_int take_bit_int_eq_self)

lemma uint_ucast_32: "uint (ucast (w :: u32) :: u64) = uint w"
proof -
  have "uint w < 2 ^ 64" using uint_lt2p [of w] by simp
  then show ?thesis by (simp add: unsigned_ucast_eq take_bit_int_eq_self)
qed

text \<open>An address whose two low bits are clear, as carrier of a two-bit field.\<close>

lemma low_bits:
  assumes "x AND 3 = (0 :: u64)"
  shows "x AND - 4 = x" and "(x OR (v AND 3)) AND - 4 = x" and "(x OR (v AND 3)) AND 3 = v AND 3"
proof -
  have "x = x AND (3 OR (- 4))" by simp
  also have "\<dots> = (x AND 3) OR (x AND (- 4))" by (rule bit.conj_disj_distrib)
  finally show x: "x AND - 4 = x" using assms by simp
  have "(v AND 3) AND - 4 = 0" by (simp add: and.assoc)
  then show "(x OR (v AND 3)) AND - 4 = x" using x by (simp add: bit.conj_disj_distrib2)
  show "(x OR (v AND 3)) AND 3 = v AND 3" using assms by (simp add: bit.conj_disj_distrib2 and.assoc)
qed

lemma low_bits_of_page:
  assumes "2 \<le> k" and "2 ^ k dvd uint (x :: u64)" shows "x AND 3 = 0"
proof -
  have "(2 :: int) ^ 2 dvd uint x" using assms by (meson dvd_trans le_imp_power_dvd)
  then show ?thesis using and_mask_dvd [of 2 x] by (simp add: mask_eq_exp_minus_1)
qed

lemma word_of_nat_less: "i < unat (w :: 'a::len word) \<Longrightarrow> of_nat i < w"
  by (simp add: word_less_nat_alt unat_of_nat) (rule le_less_trans [OF mod_less_eq_dividend])

lemma unat_ucast_le: "unat (ucast (w :: 'a::len word) :: 'b::len word) \<le> unat w"
  by (simp add: unsigned_ucast_eq take_bit_nat_eq_self_iff take_bit_nat_less_eq_self)

end
