(* ===== verification/Misc.thy ===== *)
theory Misc
  imports Prelude
begin

unbundle bit_operations_syntax

text \<open>
  The bit arithmetic of \<open>src/src/misc.c\<close> and the copy routines of \<open>src/src/asm_misc.s\<close>.

  \<open>bsrq\<close> and \<open>bsfq\<close> leave their destination register undefined for a zero
  operand; \<open>log_2\<close> does not exclude zero, so it takes what the register holds
  as the argument \<open>junk\<close>.  The literal \<open>1\<close> of \<open>round_up_2power\<close> and
  \<open>round_down_2power\<close> is an \<open>int\<close>: the shift is a 32-bit one, whose count the
  machine takes modulo 32, and its result is sign-extended to \<open>unsigned long\<close>.
\<close>

section \<open>Bit scans\<close>

fun msb_index :: "nat \<Rightarrow> nat" where
  "msb_index n = (if n < 2 then 0 else Suc (msb_index (n div 2)))"

fun lsb_index :: "nat \<Rightarrow> nat" where
  "lsb_index n = (if n = 0 \<or> odd n then 0 else Suc (lsb_index (n div 2)))"

declare msb_index.simps [simp del] lsb_index.simps [simp del]

definition log_2 :: "u64 \<Rightarrow> u64 \<Rightarrow> u64" where
  "log_2 junk val = (if val = 0 then junk else of_nat (msb_index (unat val)))"

definition bsf :: "u64 \<Rightarrow> int" where
  "bsf val = (if val \<noteq> 0 then int (lsb_index (unat val)) else -1)"

definition bsr :: "u64 \<Rightarrow> int" where
  "bsr val = (if val \<noteq> 0 then int (msb_index (unat val)) else -1)"

section \<open>Powers of two\<close>

definition shl_int_one :: "u64 \<Rightarrow> u64" where
  "shl_int_one n = (let r = push_bit (unat n mod 32) (1 :: u32) in scast r)"

definition round_up_2power :: "u64 \<Rightarrow> u64 \<Rightarrow> u64" where
  "round_up_2power junk val = shl_int_one (log_2 junk (val - 1) + 1)"

definition round_down_2power :: "u64 \<Rightarrow> u64 \<Rightarrow> u64" where
  "round_down_2power junk val = shl_int_one (log_2 junk val)"

definition is_2power :: "u64 \<Rightarrow> u64 \<Rightarrow> bool" where
  "is_2power junk val \<longleftrightarrow> round_up_2power junk val = round_down_2power junk val"

section \<open>Alignment\<close>

definition align8 :: "u64 \<Rightarrow> u64" where
  "align8 val = (val + 7) AND NOT 7"

definition align16 :: "u64 \<Rightarrow> u64" where
  "align16 val = (val + 15) AND NOT 15"

definition round_up :: "u64 \<Rightarrow> u64 \<Rightarrow> u64" where
  "round_up val boundary = (val + boundary - 1) AND NOT (boundary - 1)"

definition round_down :: "u64 \<Rightarrow> u64 \<Rightarrow> u64" where
  "round_down val boundary = val AND NOT (boundary - 1)"

definition move_ptr_align8 :: "ptr \<Rightarrow> u64 \<Rightarrow> ptr" where
  "move_ptr_align8 p offset = (p + offset + 7) AND NOT 7"

definition move_ptr_align16 :: "ptr \<Rightarrow> u64 \<Rightarrow> ptr" where
  "move_ptr_align16 p offset = (p + offset + 15) AND NOT 15"

definition move_ptr_align64 :: "ptr \<Rightarrow> u64 \<Rightarrow> ptr" where
  "move_ptr_align64 p offset = (p + offset + 63) AND NOT 63"

definition move_ptr_align128 :: "ptr \<Rightarrow> u64 \<Rightarrow> ptr" where
  "move_ptr_align128 p offset = (p + offset + 127) AND NOT 127"

definition move_ptr_roundup :: "ptr \<Rightarrow> u64 \<Rightarrow> u64 \<Rightarrow> ptr" where
  "move_ptr_roundup p offset align = (p + offset + (align - 1)) AND NOT (align - 1)"

section \<open>Copying\<close>

text \<open>A byte memory; \<open>memcpy\<close> copies \<open>n\<close> bytes that do not overlap.\<close>

type_synonym bytes = "ptr \<Rightarrow> byte"

definition memcpy :: "ptr \<Rightarrow> ptr \<Rightarrow> u64 \<Rightarrow> bytes \<Rightarrow> bytes" where
  "memcpy dst src n m = (\<lambda>a. if a - dst < n then m (src + (a - dst)) else m a)"

text \<open>
  The loop of \<open>quick_mmcpy_a\<close> and \<open>quick_mmcpy_u\<close>: 16 bytes are loaded and stored while the
  counter in \<open>%rdx\<close>, tested as a signed number, is positive.
\<close>

function mmcpy_loop :: "ptr \<Rightarrow> ptr \<Rightarrow> u64 \<Rightarrow> bytes \<Rightarrow> bytes" where
  "mmcpy_loop dst src n m =
     (if sint n \<le> 0 then m
      else mmcpy_loop (dst + 16) (src + 16) (n - 16) (memcpy dst src 16 m))"
  by pat_completeness auto

lemma sint_minus_16:
  assumes "0 < sint (n :: u64)"
  shows "sint (n - 16) = sint n - 16"
proof -
  have "sint n < 2 ^ 63" using sint_lt [of n] by simp
  then have "signed_take_bit 63 (sint n - 16) = sint n - 16"
    using assms by (simp add: signed_take_bit_int_eq_self)
  moreover have "sint (n - 16) = signed_take_bit 63 (sint n - sint (16 :: u64))"
    by (simp add: sint_word_ariths(2) signed_take_bit_eq_if_positive)
  ultimately show ?thesis by simp
qed

termination mmcpy_loop
  by (relation "measure (\<lambda>(dst, src, n, m). nat (sint n))") (auto simp: sint_minus_16)

declare mmcpy_loop.simps [simp del]

definition quick_mmcpy_a :: "ptr \<Rightarrow> ptr \<Rightarrow> u64 \<Rightarrow> bytes \<Rightarrow> int \<times> bytes" where
  "quick_mmcpy_a dst src n m =
     (if (src OR dst) AND 0xf \<noteq> 0 then (-1, m)
      else if n AND 0xf \<noteq> 0 then (-1, m)
      else (0, mmcpy_loop dst src n m))"

definition quick_mmcpy_u :: "ptr \<Rightarrow> ptr \<Rightarrow> u64 \<Rightarrow> bytes \<Rightarrow> int \<times> bytes" where
  "quick_mmcpy_u dst src n m =
     (if n AND 0xf \<noteq> 0 then (-1, m) else (0, mmcpy_loop dst src n m))"

definition quick_mmcpy :: "ptr \<Rightarrow> ptr \<Rightarrow> u64 \<Rightarrow> bytes \<Rightarrow> int \<times> bytes" where
  "quick_mmcpy dst src n m =
     (let s1 = n - (align16 n - 16);
          (dst, src, n, m) =
            (if 0 < sint s1 then (dst + s1, src + s1, n - s1, memcpy dst src s1 m)
             else (dst, src, n, m))
      in if n = 0 then (0, m)
         else if dst AND 0xf = 0 \<and> src AND 0xf = 0 \<and> n AND 0xf = 0
         then quick_mmcpy_a dst src n m
         else if n AND 0xf = 0 then quick_mmcpy_u dst src n m
         else (0, m))"


section \<open>Lemmas: bit scans\<close>

lemma msb_index_bounds:
  assumes "0 < n" shows "2 ^ msb_index n \<le> n \<and> n < 2 ^ Suc (msb_index n)"
  using assms
proof (induction n rule: msb_index.induct)
  case (1 n)
  show ?case
  proof (cases "n < 2")
    case True
    with "1.prems" show ?thesis by (subst (1 2) msb_index.simps) auto
  next
    case False
    with "1.IH" have "2 ^ msb_index (n div 2) \<le> n div 2 \<and> n div 2 < 2 ^ Suc (msb_index (n div 2))"
      by simp
    with False show ?thesis by (subst (1 2) msb_index.simps) auto
  qed
qed

lemma msb_index_unique:
  assumes "2 ^ k \<le> n" and "n < 2 ^ Suc k" shows "msb_index n = k"
proof -
  have "(1 :: nat) \<le> 2 ^ k" by simp
  then have "0 < n" using assms(1) by linarith
  then have b: "2 ^ msb_index n \<le> n" "n < 2 ^ Suc (msb_index n)"
    using msb_index_bounds by blast+
  have "k < Suc (msb_index n)"
    by (rule power_less_imp_less_exp [of "2 :: nat"]) (use assms(1) b(2) in linarith)+
  moreover have "msb_index n < Suc k"
    by (rule power_less_imp_less_exp [of "2 :: nat"]) (use assms(2) b(1) in linarith)+
  ultimately show ?thesis by simp
qed

lemma msb_index_power [simp]: "msb_index (2 ^ k) = k"
  by (rule msb_index_unique) auto

lemma msb_index_less:
  assumes "n < 2 ^ k" and "0 < k" shows "msb_index n < k"
proof (cases "n = 0")
  case True
  then show ?thesis using assms by (simp add: msb_index.simps)
next
  case False
  then have "2 ^ msb_index n \<le> n" using msb_index_bounds by blast
  then have "(2 :: nat) ^ msb_index n < 2 ^ k" using assms(1) by linarith
  then show ?thesis by (rule power_less_imp_less_exp [rotated]) simp
qed

lemma msb_index_u64 [simp]: "msb_index (unat (val :: u64)) < 64"
  using unat_less [of val] by (intro msb_index_less) auto

lemma unat_log_2: "val \<noteq> 0 \<Longrightarrow> unat (log_2 junk val) = msb_index (unat val)"
proof -
  assume "val \<noteq> 0"
  moreover have "msb_index (unat val) < 2 ^ 64"
    using msb_index_u64 [of val] by (rule less_trans) simp
  ultimately show ?thesis by (simp add: log_2_def unat_of_nat)
qed

lemma log_2_bounds:
  assumes "val \<noteq> 0"
  shows "2 ^ unat (log_2 junk val) \<le> unat val" and "unat val < 2 ^ Suc (unat (log_2 junk val))"
  using assms msb_index_bounds [of "unat val"] by (auto simp: unat_log_2 unat_gt_0)

lemma lsb_index_odd: "odd n \<Longrightarrow> lsb_index n = 0"
  by (simp add: lsb_index.simps)

lemma lsb_index_bit:
  assumes "0 < n" shows "bit n (lsb_index n) \<and> (\<forall>i < lsb_index n. \<not> bit n i)"
  using assms
proof (induction n rule: lsb_index.induct)
  case (1 n)
  show ?case
  proof (cases "odd n")
    case True
    then show ?thesis by (simp add: lsb_index_odd bit_0)
  next
    case False
    with "1.prems" have lsb: "lsb_index n = Suc (lsb_index (n div 2))" by (simp add: lsb_index.simps)
    from False "1.prems" have "0 < n div 2" by presburger
    with False "1.IH" "1.prems"
    have IH: "bit (n div 2) (lsb_index (n div 2)) \<and> (\<forall>i < lsb_index (n div 2). \<not> bit (n div 2) i)"
      by simp
    have "\<not> bit n i" if "i < lsb_index n" for i
      using that IH False lsb by (cases i) (auto simp: bit_0 bit_Suc)
    with IH lsb show ?thesis by (simp add: bit_Suc)
  qed
qed

section \<open>Lemmas: powers of two\<close>

lemma unat_shl_int_one:
  assumes "unat n < 31" shows "unat (shl_int_one n) = 2 ^ unat n"
proof -
  have b: "(2 :: int) ^ unat n < 2 ^ 31" using assms by (intro power_strict_increasing) auto
  then have "uint (word_of_int (2 ^ unat n) :: u32) = 2 ^ unat n"
    by (simp add: uint_word_of_int del: word_of_int_power_hom of_int_power)
  then have "uint (push_bit (unat n) (1 :: u32)) = 2 ^ unat n"
    by (simp add: push_bit_eq_mult)
  moreover have "- (2 ^ 31) \<le> (2 :: int) ^ unat n" by (rule order_trans [of _ 0]) simp_all
  with b have "signed_take_bit 31 ((2 :: int) ^ unat n) = 2 ^ unat n"
    by (rule signed_take_bit_int_eq_self [rotated])
  ultimately have "sint (push_bit (unat n) (1 :: u32)) = 2 ^ unat n"
    by (simp add: sint_uint)
  moreover have "shl_int_one n = word_of_int (sint (push_bit (unat n) (1 :: u32)))"
    using assms by (simp add: shl_int_one_def)
  ultimately have "shl_int_one n = word_of_int (2 ^ unat n)"
    by (simp only:)
  then have "uint (shl_int_one n) = 2 ^ unat n"
    using b by (simp add: uint_word_of_int del: word_of_int_power_hom of_int_power)
  then show ?thesis
    by (metis nat_int of_nat_numeral of_nat_power unat_eq_nat_uint)
qed

text \<open>
  For arguments whose rounded value fits the 31 value bits of the shifted \<open>int\<close>,
  the two roundings are what their names say.
\<close>

lemma log_2_less_30: "val \<noteq> 0 \<Longrightarrow> unat val < 2 ^ 30 \<Longrightarrow> unat (log_2 junk val) < 30"
  using msb_index_less [of "unat val" 30] by (simp add: unat_log_2)

lemma unat_minus_1: "val \<noteq> 0 \<Longrightarrow> unat (val - 1) = unat (val :: 'a::len word) - 1"
  by (rule unat_minus_one)

lemma round_down_2power_bounds:
  assumes "val \<noteq> 0" and "unat val < 2 ^ 30"
  shows "\<exists>k. unat (round_down_2power junk val) = 2 ^ k \<and> 2 ^ k \<le> unat val \<and> unat val < 2 ^ Suc k"
proof -
  have "unat (log_2 junk val) < 31" using log_2_less_30 [OF assms, of junk] by linarith
  then have "unat (round_down_2power junk val) = 2 ^ unat (log_2 junk val)"
    by (simp add: round_down_2power_def unat_shl_int_one)
  with log_2_bounds [OF assms(1), of junk] show ?thesis by blast
qed

lemma round_up_2power_bounds:
  assumes "2 \<le> unat val" and "unat val \<le> 2 ^ 30"
  shows "\<exists>k. unat (round_up_2power junk val) = 2 ^ Suc k \<and> 2 ^ k < unat val \<and> unat val \<le> 2 ^ Suc k"
proof -
  let ?l = "log_2 junk (val - 1)"
  have v: "val \<noteq> 0" using assms(1) by auto
  then have u: "unat (val - 1) = unat val - 1" by (rule unat_minus_1)
  then have v1: "val - 1 \<noteq> 0" using assms(1) by (metis Suc_1 diff_is_0_eq not_less_eq_eq unat_0 le_0_eq zero_diff)
  have l: "unat ?l < 30" using u assms by (intro log_2_less_30 v1) auto
  then have "unat (?l + 1) = Suc (unat ?l)" by (simp add: unat_word_ariths)
  with l have r: "unat (round_up_2power junk val) = 2 ^ Suc (unat ?l)"
    by (simp add: round_up_2power_def unat_shl_int_one)
  have "2 ^ unat ?l \<le> unat val - 1" and "unat val - 1 < 2 ^ Suc (unat ?l)"
    using log_2_bounds [OF v1, of junk] by (simp_all add: u)
  then have "2 ^ unat ?l < unat val \<and> unat val \<le> 2 ^ Suc (unat ?l)"
    using assms(1) by linarith
  with r show ?thesis by blast
qed

lemma power_two_squeeze:
  assumes "(2 :: nat) ^ k \<le> n" and "n < 2 ^ Suc k" and "2 ^ j \<le> n" and "n < 2 ^ Suc j"
  shows "k = j"
  using msb_index_unique [OF assms(1,2)] msb_index_unique [OF assms(3,4)] by simp

lemma is_2power_iff:
  assumes "2 \<le> unat val" and "unat val < 2 ^ 30"
  shows "is_2power junk val \<longleftrightarrow> (\<exists>k. unat val = 2 ^ k)"
proof -
  have v: "val \<noteq> 0" using assms(1) by auto
  obtain k where k: "unat (round_down_2power junk val) = 2 ^ k" "2 ^ k \<le> unat val" "unat val < 2 ^ Suc k"
    using round_down_2power_bounds [OF v assms(2)] by blast
  have "unat val \<le> 2 ^ 30" using assms(2) by simp
  then obtain j where j: "unat (round_up_2power junk val) = 2 ^ Suc j" "2 ^ j < unat val" "unat val \<le> 2 ^ Suc j"
    using round_up_2power_bounds [OF assms(1)] by blast
  show ?thesis
  proof
    assume "is_2power junk val"
    with j k have "(2 :: nat) ^ Suc j = 2 ^ k" by (simp add: is_2power_def)
    with j k have "unat val = 2 ^ k" by linarith
    then show "\<exists>k. unat val = 2 ^ k" ..
  next
    assume "\<exists>k. unat val = 2 ^ k"
    then obtain i where i: "unat val = 2 ^ i" ..
    have "i = k" by (rule power_two_squeeze [of _ "unat val"]) (use i k in auto)
    moreover have "i \<le> Suc j"
      using j(3) unfolding i by (rule power_le_imp_le_exp [rotated]) simp
    moreover have "j < i"
      using j(2) unfolding i by (rule power_less_imp_less_exp [rotated]) simp
    ultimately have "i = Suc j" and "i = k" by simp_all
    with j k show "is_2power junk val"
      by (simp add: is_2power_def word_unat_eq_iff)
  qed
qed

section \<open>Lemmas: rounding to a boundary\<close>

lemma unat_and_not_mask:
  "unat (w AND NOT (mask n) :: 'a::len word) = unat w - unat w mod 2 ^ n"
proof -
  have m: "uint (w AND mask n) = uint w mod 2 ^ n"
    by (metis take_bit_eq_mask unsigned_take_bit_eq take_bit_eq_mod)
  have "w AND NOT (mask n) = push_bit n (drop_bit n w)"
    by (rule bit_eqI) (auto simp: bit_simps)
  then have "w AND NOT (mask n) = w - (w AND mask n)"
    using bits_ident [of n w] by (metis take_bit_eq_mask add_diff_cancel_right')
  moreover have "uint (w AND mask n) \<le> uint w" by (simp add: m zmod_le_nonneg_dividend)
  ultimately have "uint (w AND NOT (mask n)) = uint w - uint w mod 2 ^ n"
    using uint_sub_lem [of "w AND mask n" w] by (simp add: m)
  also have "\<dots> = int (unat w - unat w mod 2 ^ n)"
    by (simp only: uint_nat of_nat_diff mod_less_eq_dividend of_nat_mod of_nat_power of_nat_numeral)
  finally show ?thesis by (simp only: unat_eq_nat_uint nat_int)
qed

lemma mask_numerals:
  "(7 :: 'a::len word) = mask 3" "(15 :: 'a word) = mask 4" "(63 :: 'a word) = mask 6" "(127 :: 'a word) = mask 7"
  by (simp_all add: mask_eq_exp_minus_1)

lemma round_down_nat:
  fixes a b :: nat assumes "0 < b"
  shows "b dvd a - a mod b" and "a - a mod b \<le> a" and "a < a - a mod b + b"
proof -
  show "b dvd a - a mod b" by (rule dvd_minus_mod)
  show "a - a mod b \<le> a" by simp
  show "a < a - a mod b + b"
    using mod_less_divisor [OF assms, of a] mod_less_eq_dividend [of a b] by linarith
qed

lemma round_up_nat:
  fixes a b :: nat assumes "0 < b"
  shows "b dvd (a + (b - 1)) - (a + (b - 1)) mod b"
    and "a \<le> (a + (b - 1)) - (a + (b - 1)) mod b"
    and "(a + (b - 1)) - (a + (b - 1)) mod b < a + b"
  using assms round_down_nat [of b "a + (b - 1)"] by auto

text \<open>A boundary that is a power of two, as every caller passes.\<close>

lemma power_minus_1_mask: "(2 :: 'a::len word) ^ k - 1 = mask k"
  by (simp add: mask_eq_exp_minus_1)

lemma unat_round_down:
  "unat (round_down val (2 ^ k)) = unat val - unat val mod 2 ^ k"
  by (simp add: round_down_def power_minus_1_mask unat_and_not_mask)

lemma unat_mask:
  assumes "k < 64" shows "unat (mask k :: u64) = 2 ^ k - 1"
proof -
  have "uint (mask k :: u64) = mask k" using assms by (simp add: uint_mask_eq min_def)
  also have "\<dots> = int (2 ^ k - 1)" by (simp add: mask_eq_exp_minus_1 of_nat_diff)
  finally show ?thesis by (simp only: unat_eq_nat_uint nat_int)
qed

lemma unat_round_up:
  assumes "k < 64" and "unat val + (2 ^ k - 1) < 2 ^ 64"
  shows "unat (round_up val (2 ^ k)) = (unat val + (2 ^ k - 1)) - (unat val + (2 ^ k - 1)) mod 2 ^ k"
proof -
  have "unat (mask k :: u64) = 2 ^ k - 1"
    using assms(1) by (rule unat_mask)
  then have "unat (val + mask k) = unat val + (2 ^ k - 1)"
    using assms(2) unat_add_lem [of val "mask k"] by simp
  moreover have "val + 2 ^ k - 1 = val + mask k"
    by (simp add: mask_eq_exp_minus_1)
  ultimately show ?thesis
    by (simp only: round_up_def power_minus_1_mask unat_and_not_mask)
qed

lemma round_up_uint:
  assumes "k < 64" and "uint (v :: u64) + 2 ^ k \<le> 2 ^ 64"
  shows "2 ^ k dvd uint (round_up v (2 ^ k))" and "uint v \<le> uint (round_up v (2 ^ k))"
    and "uint (round_up v (2 ^ k)) < uint v + 2 ^ k"
proof -
  have "int (unat v + 2 ^ k) \<le> int (2 ^ 64)" using assms(2) by (simp add: uint_nat [symmetric])
  then have "unat v + 2 ^ k \<le> 2 ^ 64" by (simp only: of_nat_le_iff)
  then have "unat v + (2 ^ k - 1) < 2 ^ 64" using zero_less_power [of "2 :: nat" k] by linarith
  note n = round_up_nat [of "2 ^ k" "unat v", folded unat_round_up [OF assms(1) this]]
  have "int (2 ^ k) dvd int (unat (round_up v (2 ^ k)))" using n(1) by (simp only: int_dvd_int_iff) simp
  then show "2 ^ k dvd uint (round_up v (2 ^ k))" by simp
  have "int (unat v) \<le> int (unat (round_up v (2 ^ k)))" using n(2) by (simp only: of_nat_le_iff) simp
  then show "uint v \<le> uint (round_up v (2 ^ k))" by simp
  have "int (unat (round_up v (2 ^ k))) < int (unat v + 2 ^ k)" using n(3) by (simp only: of_nat_less_iff) simp
  then show "uint (round_up v (2 ^ k)) < uint v + 2 ^ k" by simp
qed

lemma round_up_id:
  assumes "k < 64" and "2 ^ k dvd uint (v :: u64)"
  shows "round_up v (2 ^ k) = v"
proof -
  have "uint v < 2 ^ 64" using uint_lt2p [of v] by simp
  moreover have "(2 :: int) ^ k dvd 2 ^ 64" using assms(1) by (intro le_imp_power_dvd) simp
  ultimately have "uint v + 2 ^ k \<le> 2 ^ 64" using assms(2) by (metis dvd_diff zdvd_imp_le add.commute diff_gt_0_iff_gt le_diff_eq)
  note r = round_up_uint [OF assms(1) this]
  then have "2 ^ k dvd uint (round_up v (2 ^ k)) - uint v" using assms(2) by (simp add: dvd_diff)
  then have "uint (round_up v (2 ^ k)) - uint v = 0"
    using r(2,3) zdvd_imp_le [of "2 ^ k" "uint (round_up v (2 ^ k)) - uint v"] by linarith
  then show ?thesis by (simp add: word_uint_eq_iff)
qed

lemma align8_round_up: "align8 val = round_up val (2 ^ 3)"
  by (simp add: align8_def round_up_def add.commute)

lemma align16_round_up: "align16 val = round_up val (2 ^ 4)"
  by (simp add: align16_def round_up_def add.commute)

lemma move_ptr_align64_round_up: "move_ptr_align64 p off = round_up (p + off) (2 ^ 6)"
  by (simp add: move_ptr_align64_def round_up_def add.commute)

lemma move_ptr_roundup_round_up: "move_ptr_roundup p off align = round_up (p + off) align"
  by (simp add: move_ptr_roundup_def round_up_def algebra_simps)

section \<open>Lemmas: copying\<close>

lemma word_add_less_of_diff:
  fixes a i n :: "'a::len word"
  assumes "a \<le> n" and "i < n - a" shows "a + i < n"
  using assms by uint_arith

lemma word_diff_less_iff:
  fixes d a n :: "'a::len word"
  assumes "a \<le> n" shows "d - a < n - a \<longleftrightarrow> a \<le> d \<and> d < n"
  using assms by uint_arith

text \<open>Two adjacent copies are one, when the source is outside of the first destination.\<close>

lemma memcpy_append:
  assumes a: "a \<le> n" and sep: "\<And>i. i < n \<Longrightarrow> \<not> src + i - dst < n"
  shows "memcpy (dst + a) (src + a) (n - a) (memcpy dst src a m) = memcpy dst src n m"
proof
  fix x
  have d: "x - (dst + a) = (x - dst) - a" by simp
  have in_a: "\<not> src + i - dst < a" if "i < n" for i
    using sep [OF that] a by (meson less_le_trans)
  show "memcpy (dst + a) (src + a) (n - a) (memcpy dst src a m) x = memcpy dst src n m x"
  proof (cases "x - dst < n")
    case True
    have "src + a + (x - dst - a) = src + (x - dst)" by simp
    then show ?thesis
      using True in_a [OF True] word_diff_less_iff [OF a, of "x - dst"]
      by (auto simp: memcpy_def d)
  next
    case False
    then have "\<not> x - dst < a" using a by (meson less_le_trans)
    with False show ?thesis
      using word_diff_less_iff [OF a, of "x - dst"] by (auto simp: memcpy_def d)
  qed
qed

lemma memcpy_0 [simp]: "memcpy dst src 0 m = m"
  by (simp add: memcpy_def)

lemma sint_pos_uint:
  assumes "0 \<le> sint (n :: u64)" shows "uint n = sint n"
proof -
  have "sint n < 2 ^ 64" using sint_lt [of n] by simp
  with assms have "take_bit 64 (sint n) = sint n" by (simp add: take_bit_int_eq_self)
  then show ?thesis using uint_sint [of n] by simp
qed

lemma sint_eq_uint_small:
  assumes "uint (n :: u64) < 2 ^ 63" shows "sint n = uint n"
proof -
  have "- (2 ^ 63) \<le> uint n" by (rule order_trans [of _ 0]) simp_all
  with assms have "signed_take_bit 63 (uint n) = uint n"
    by (rule signed_take_bit_int_eq_self [rotated])
  then show ?thesis by (simp add: sint_uint)
qed

lemma mmcpy_loop_memcpy:
  assumes "16 dvd uint n" and "0 \<le> sint n"
    and "\<And>i. i < n \<Longrightarrow> \<not> src + i - dst < n"
  shows "mmcpy_loop dst src n m = memcpy dst src n m"
  using assms
proof (induction dst src n m rule: mmcpy_loop.induct)
  case (1 dst src n m)
  show ?case
  proof (cases "sint n \<le> 0")
    case True
    with "1.prems"(2) sint_pos_uint [of n] have "uint n = 0" by simp
    then have "n = 0" by (simp add: uint_0_iff)
    then show ?thesis by (simp add: mmcpy_loop.simps)
  next
    case False
    then have pos: "0 < sint n" by simp
    have u: "uint n = sint n" by (rule sint_pos_uint) (rule "1.prems"(2))
    with pos "1.prems"(1) have n16: "16 \<le> uint n" by (auto dest: zdvd_imp_le)
    then have le: "(16 :: u64) \<le> n" by (simp add: word_le_def)
    have s: "sint (n - 16) = sint n - 16" by (rule sint_minus_16 [OF pos])
    have um: "uint (n - 16) = uint n - 16"
      using uint_sub_lem [of "16 :: u64" n] n16 by simp
    have sep: "\<not> src + 16 + i - (dst + 16) < n - 16" if "i < n - 16" for i
    proof -
      have "i < n" using that le by uint_arith
      then have "\<not> src + i - dst < n" by (rule "1.prems"(3))
      moreover have "src + 16 + i - (dst + 16) = src + i - dst" by simp
      moreover have "n - 16 \<le> n" using le by (rule word_sub_le)
      ultimately show ?thesis by (metis less_le_trans)
    qed
    have "mmcpy_loop (dst + 16) (src + 16) (n - 16) (memcpy dst src 16 m)
        = memcpy (dst + 16) (src + 16) (n - 16) (memcpy dst src 16 m)"
      using False "1.prems"(1) n16 s u sep um by (intro "1.IH") (auto intro: dvd_diff)
    also have "\<dots> = memcpy dst src n m"
      by (rule memcpy_append [OF le "1.prems"(3)])
    finally show ?thesis using False by (simp add: mmcpy_loop.simps [of dst])
  qed
qed

text \<open>
  The first copy of \<open>quick_mmcpy\<close> takes between 1 and 16 bytes and leaves a
  multiple of 16.
\<close>

lemma quick_mmcpy_head:
  assumes "0 < sint n"
  defines "s1 \<equiv> n - (align16 n - 16)"
  shows "0 < sint s1" and "s1 \<le> n" and "16 dvd uint (n - s1)" and "0 \<le> sint (n - s1)"
proof -
  have u: "uint n = sint n" using assms(1) by (simp add: sint_pos_uint)
  have b: "uint n < 2 ^ 63" using u sint_lt [of n] by simp
  define N where "N = unat n"
  have N: "0 < N" "N < 2 ^ 63"
    using assms(1) b u by (auto simp: N_def unat_eq_nat_uint)
  have al: "unat (align16 n) = (N + 15) - (N + 15) mod 16"
    using unat_round_up [of 4 n] N by (simp add: align16_round_up N_def)
  define A where "A = (N + 15) - (N + 15) mod 16"
  have A: "16 dvd A" "N \<le> A" "A < N + 16" "16 \<le> A"
  proof -
    show "16 dvd A" "N \<le> A" "A < N + 16"
      using round_up_nat [of 16 N] by (simp_all add: A_def)
    then show "16 \<le> A" using N by (auto elim: dvdE)
  qed
  have alA: "unat (align16 n) = A" using al by (simp add: A_def)
  have d16: "unat (align16 n - 16) = A - 16"
    using unat_sub [of 16 "align16 n"] A by (simp add: alA word_le_nat_alt)
  have r: "n - s1 = align16 n - 16" by (simp add: s1_def)
  have s1: "unat s1 = N + 16 - A"
    unfolding s1_def using unat_sub [of "align16 n - 16" n] A
    by (simp add: word_le_nat_alt d16 N_def [symmetric])
  show "s1 \<le> n" using s1 A by (simp add: word_le_nat_alt N_def [symmetric])
  have "uint s1 = int (N + 16 - A)" by (simp only: uint_nat s1)
  then have "uint s1 < 2 ^ 63" and "0 < uint s1" using A by auto
  then show "0 < sint s1" by (simp add: sint_eq_uint_small)
  have un: "uint (n - s1) = int (A - 16)" by (simp only: uint_nat r d16)
  then show "16 dvd uint (n - s1)" using A by (auto elim!: dvdE)
  have "A < 2 ^ 63 + 16" using A N by linarith
  then have "uint (n - s1) < 2 ^ 63" using un A by auto
  then show "0 \<le> sint (n - s1)" by (simp add: sint_eq_uint_small)
qed

lemma and_15_iff_dvd: "(w :: u64) AND 0xf = 0 \<longleftrightarrow> 16 dvd uint w"
  using and_mask_dvd [of 4 w] by (auto simp: mask_numerals)

lemma and_15_or: "(a :: u64) AND 0xf = 0 \<Longrightarrow> b AND 0xf = 0 \<Longrightarrow> (a OR b) AND 0xf = 0"
  by (simp add: bit.conj_disj_distrib2)

text \<open>
  C27. \<open>quick_mmcpy\<close>, on a positive size and regions of which the source does not
  reach into the destination, copies exactly the requested bytes, whichever of its
  aligned and unaligned paths it takes, and reports success.
\<close>

theorem quick_mmcpy_copies:
  assumes "0 < sint n" and sep: "\<And>i. i < n \<Longrightarrow> \<not> src + i - dst < n"
  shows "quick_mmcpy dst src n m = (0, memcpy dst src n m)"
proof -
  define s where "s = n - (align16 n - 16)"
  note h = quick_mmcpy_head [OF assms(1), folded s_def]
  have lp: "mmcpy_loop (dst + s) (src + s) (n - s) (memcpy dst src s m) = memcpy dst src n m"
  proof (subst mmcpy_loop_memcpy [OF h(3,4)])
    fix i assume i: "i < n - s"
    then have "s + i < n" by (rule word_add_less_of_diff [OF h(2)])
    then have "\<not> src + (s + i) - dst < n" by (rule sep)
    then have "\<not> src + (s + i) - dst - s < n - s"
      unfolding word_diff_less_iff [OF h(2)] by simp
    then show "\<not> src + s + i - (dst + s) < n - s" by (simp add: algebra_simps)
  qed (rule memcpy_append [OF h(2) sep])
  have m16: "(n - s) AND 0xf = 0" using h(3) by (simp only: and_15_iff_dvd)
  show ?thesis
  proof (cases "n - s = 0")
    case True
    then have "s = n" by simp
    then show ?thesis using h(1) unfolding quick_mmcpy_def s_def [symmetric] by simp
  next
    case False
    then show ?thesis using h(1) lp m16
      unfolding quick_mmcpy_def s_def [symmetric] quick_mmcpy_a_def quick_mmcpy_u_def
      by (simp add: and_15_or Let_def)
  qed
qed

theorem quick_mmcpy_copies_witness:
  "quick_mmcpy 4096 8192 40 (\<lambda>a. if a = 8231 then 7 else 0) =
     (0, memcpy 4096 8192 40 (\<lambda>a. if a = 8231 then 7 else 0)) \<and>
   memcpy 4096 8192 40 (\<lambda>a. if a = 8231 then 7 else 0) 4135 = 7"
proof
  have sep: "\<not> (8192 :: u64) + i - 4096 < 40" if "i < 40" for i
  proof -
    have "unat i < 40" using that by (simp add: word_less_nat_alt)
    then show ?thesis by (simp add: word_less_nat_alt unat_word_ariths)
  qed
  show "quick_mmcpy 4096 8192 40 (\<lambda>a. if a = 8231 then 7 else 0) =
     (0, memcpy 4096 8192 40 (\<lambda>a. if a = 8231 then 7 else 0))"
    by (rule quick_mmcpy_copies) (use sep in auto)
qed (simp add: memcpy_def)

text \<open>
  A size of zero does not copy nothing: the first copy of \<open>quick_mmcpy\<close> then takes
  a whole 16-byte step, so 16 bytes are overwritten.
\<close>

theorem quick_mmcpy_zero: "quick_mmcpy dst src 0 m = (0, memcpy dst src 16 m)"
proof -
  have "mmcpy_loop (dst + 16) (src + 16) (- 16) (memcpy dst src 16 m) = memcpy dst src 16 m"
    by (subst mmcpy_loop.simps) simp
  then show ?thesis
    by (auto simp: quick_mmcpy_def quick_mmcpy_a_def quick_mmcpy_u_def align16_def and_15_or)
qed

text \<open>
  C28. For a boundary that is a power of two and no wrap-around, \<open>round_up\<close> returns the
  multiple of the boundary that is next at or above its argument, and \<open>round_down\<close> the one
  next at or below.
\<close>

theorem round_boundary:
  assumes "k < 64" and "unat val + (2 ^ k - 1) < 2 ^ 64"
  shows "2 ^ k dvd unat (round_up val (2 ^ k)) \<and> unat val \<le> unat (round_up val (2 ^ k))
       \<and> unat (round_up val (2 ^ k)) < unat val + 2 ^ k
       \<and> 2 ^ k dvd unat (round_down val (2 ^ k)) \<and> unat (round_down val (2 ^ k)) \<le> unat val
       \<and> unat val < unat (round_down val (2 ^ k)) + 2 ^ k"
  using round_up_nat [of "2 ^ k" "unat val"] round_down_nat [of "2 ^ k" "unat val"]
  by (simp only: unat_round_up [OF assms] unat_round_down) simp

theorem round_boundary_witness:
  "unat (round_up 4097 (2 ^ 12)) = 8192 \<and> unat (round_up 4097 (2 ^ 12)) < unat (4097 :: u64) + 2 ^ 12"
  using round_boundary [of 12 4097] by (simp add: round_up_def)

lemma round_up_2power_sign:
  assumes "2 ^ 30 < unat val" and "unat val \<le> 2 ^ 31"
  shows "round_up_2power junk val = - (2 ^ 31)"
proof -
  let ?l = "log_2 junk (val - 1)"
  have v: "val \<noteq> 0" using assms(1) by auto
  have u: "unat (val - 1) = unat val - 1" by (rule unat_minus_1 [OF v])
  have v1: "val - 1 \<noteq> 0" using u assms(1) by auto
  have "unat ?l = 30"
    by (rule power_two_squeeze [of _ "unat val - 1"]) (use log_2_bounds [OF v1, of junk] u assms in auto)
  then have "?l = 30" by (simp add: word_unat_eq_iff)
  then show ?thesis by (simp add: round_up_2power_def shl_int_one_def push_bit_eq_mult)
qed

text \<open>
  C29. For every argument from 2 to 2^30, \<open>round_up_2power\<close> yields the least power of two that is not below
  it (whatever \<open>bsrq\<close> leaves for a zero operand), and \<open>is_2power\<close> recognises exactly the powers of two
  from 2 to below 2^30.  Above 2^30 up to 2^31 the \<open>int\<close> that is shifted gets its sign bit, and the
  result is 2^64 - 2^31.
\<close>

theorem round_up_2power_least:
  assumes "2 \<le> unat val" and "unat val \<le> 2 ^ 31"
  shows "if unat val \<le> 2 ^ 30
     then (\<exists>k. unat (round_up_2power junk val) = 2 ^ k)
       \<and> unat val \<le> unat (round_up_2power junk val)
       \<and> (\<forall>j. unat val \<le> 2 ^ j \<longrightarrow> unat (round_up_2power junk val) \<le> 2 ^ j)
       \<and> (unat val < 2 ^ 30 \<longrightarrow> is_2power junk val = (\<exists>k. unat val = 2 ^ k))
     else round_up_2power junk val = - (2 ^ 31)"
proof (cases "unat val \<le> 2 ^ 30")
  case False
  then show ?thesis using round_up_2power_sign assms(2) by simp
next
  case True
  obtain k where k: "unat (round_up_2power junk val) = 2 ^ Suc k" "2 ^ k < unat val" "unat val \<le> 2 ^ Suc k"
    using round_up_2power_bounds [OF assms(1) True] by blast
  have least: "2 ^ Suc k \<le> (2 :: nat) ^ j" if "unat val \<le> 2 ^ j" for j
  proof -
    have "(2 :: nat) ^ k < 2 ^ j" using k(2) that by linarith
    then have "k < j" by (rule power_less_imp_less_exp [rotated]) simp
    then show ?thesis by (intro power_increasing) auto
  qed
  have "\<exists>k. unat (round_up_2power junk val) = 2 ^ k" using k(1) by blast
  moreover have "unat val \<le> unat (round_up_2power junk val)" using k(1,3) by simp
  moreover have "\<forall>j. unat val \<le> 2 ^ j \<longrightarrow> unat (round_up_2power junk val) \<le> 2 ^ j"
    using k(1) least by simp
  moreover have "unat val < 2 ^ 30 \<longrightarrow> is_2power junk val = (\<exists>k. unat val = 2 ^ k)"
    using is_2power_iff [OF assms(1)] by blast
  ultimately show ?thesis using True by (simp only: if_True)
qed

theorem round_up_2power_least_witness:
  "unat (round_up_2power 0 48) = 64 \<and> (\<exists>k. unat (round_up_2power 0 48) = 2 ^ k)"
proof
  show "unat (round_up_2power 0 48) = 64"
    by (simp add: round_up_2power_def log_2_def shl_int_one_def msb_index.simps push_bit_eq_mult)
  show "\<exists>k. unat (round_up_2power 0 48) = 2 ^ k"
    using round_up_2power_least [of 48 0] by simp
qed

end
