(* ===== verification/Mmops.thy ===== *)
theory Mmops
  imports Prelude
begin

text \<open>
  The keys of shared memory segments, \<open>src/src/mmops.c\<close> and the \<open>shmm_sub_key\<close> union of
  \<open>src/inc/mmops.h\<close>.  An \<open>int\<close> is a 32-bit word read with \<open>sint\<close>.
\<close>

datatype MM_SHM_TYPE = MM_SHM_MEMORY_SPACE | MM_SHM_IPC | MM_SHM_COUNT

fun shm_type_num :: "MM_SHM_TYPE \<Rightarrow> u32" where
  "shm_type_num MM_SHM_MEMORY_SPACE = 0"
| "shm_type_num MM_SHM_IPC = 1"
| "shm_type_num MM_SHM_COUNT = 2"

text \<open>The two overlays of the packed union, on a little-endian machine.\<close>

definition sub_key_area :: "byte \<Rightarrow> byte \<Rightarrow> u16" where
  "sub_key_area ar_idx ar_type = ucast ar_idx + push_bit 8 (ucast ar_type)"

definition sub_key_ipc :: "u32 \<Rightarrow> u16" where
  "sub_key_ipc channel_id = ucast channel_id"

definition SHM_TYPE_SHIFT :: nat where "SHM_TYPE_SHIFT = 28"
definition SHM_SYSID_SHIFT :: nat where "SHM_SYSID_SHIFT = 16"

definition mm_create_shm_key :: "u32 \<Rightarrow> u32 \<Rightarrow> u16 \<Rightarrow> u32" where
  "mm_create_shm_key shm_type sys_id sub_key =
     (if sint shm_type \<ge> sint (shm_type_num MM_SHM_COUNT) then -1
      else if sint sys_id > 2 ^ (SHM_TYPE_SHIFT - SHM_SYSID_SHIFT + 1) - 1 then -1
      else push_bit 28 shm_type + push_bit 16 sys_id + ucast sub_key)"

section \<open>Configuration and operations of a pool\<close>

text \<open>
  \<open>struct mm_config\<close>: the union after \<open>total_size\<close> is two 32-bit words, which the three kinds of pool
  name differently.
\<close>

record mm_config =
  total_size :: u64
  cfg_word0 :: u32
  cfg_word1 :: u32

abbreviation (input) min_order :: "mm_config \<Rightarrow> u32" where "min_order \<equiv> cfg_word0"
abbreviation (input) max_order :: "mm_config \<Rightarrow> u32" where "max_order \<equiv> cfg_word1"
abbreviation (input) page_size :: "mm_config \<Rightarrow> u32" where "page_size \<equiv> cfg_word0"
abbreviation (input) maxpg_count :: "mm_config \<Rightarrow> u32" where "maxpg_count \<equiv> cfg_word1"
abbreviation (input) stk_frm_size :: "mm_config \<Rightarrow> u32" where "stk_frm_size \<equiv> cfg_word0"

text \<open>\<open>struct mm_ops\<close>: the functions of a kind of pool, over the memory of the pools.\<close>

record 's mm_ops =
  create_func :: "ptr \<Rightarrow> mm_config \<Rightarrow> 's \<Rightarrow> (ptr \<times> 's) option"
  load_func :: "ptr \<Rightarrow> 's \<Rightarrow> (ptr \<times> 's) option"
  destroy_func :: "ptr \<Rightarrow> 's \<Rightarrow> 's option"
  alloc_func :: "ptr \<Rightarrow> u64 \<Rightarrow> 's \<Rightarrow> (ptr \<times> 's) option"
  free_func :: "ptr \<Rightarrow> ptr \<Rightarrow> 's \<Rightarrow> (int \<times> 's) option"
  counts_func :: "(ptr \<Rightarrow> 's \<Rightarrow> (u64 \<times> u64) option) option"

section \<open>Lemmas\<close>

lemma sint_small_u32:
  assumes "unat (w :: u32) < 2 ^ 31" shows "sint w = uint w"
proof -
  have "int (unat w) < int (2 ^ 31)" using assms by (simp only: of_nat_less_iff)
  then have "uint w < 2 ^ 31" by simp
  moreover have "- (2 ^ 31) \<le> uint w" by (rule order_trans [of _ 0]) simp_all
  ultimately have "signed_take_bit 31 (uint w) = uint w"
    by (intro signed_take_bit_int_eq_self)
  then show ?thesis by (simp add: sint_uint)
qed

lemma unat_less_uint: "unat (w :: u32) < n \<Longrightarrow> uint w < int n"
  by (simp only: uint_nat of_nat_less_iff)

lemma unat_shm_key:
  assumes "unat shm_type < 2" and "unat sys_id < 4096"
  shows "unat (mm_create_shm_key shm_type sys_id sub_key)
       = unat shm_type * 2 ^ 28 + (unat sys_id * 2 ^ 16 + unat sub_key)"
proof -
  have s: "sint shm_type = uint shm_type" "sint sys_id = uint sys_id"
    using assms by (simp_all add: sint_small_u32)
  have i: "uint shm_type < 2" "uint sys_id < 4096"
    using unat_less_uint [OF assms(1)] unat_less_uint [OF assms(2)] by simp_all
  have b: "unat sub_key < 2 ^ 16" using unat_less [of sub_key] by simp
  have "unat (ucast sub_key :: u32) = unat sub_key"
    using b by (simp add: unsigned_ucast_eq take_bit_nat_eq_self_iff)
  moreover have "unat (push_bit 28 shm_type) = unat shm_type * 2 ^ 28"
    using assms(1) by (simp add: push_bit_eq_mult unat_word_ariths)
  moreover have "unat (push_bit 16 sys_id) = unat sys_id * 2 ^ 16"
    using assms(2) by (simp add: push_bit_eq_mult unat_word_ariths)
  moreover have "mm_create_shm_key shm_type sys_id sub_key
      = push_bit 28 shm_type + push_bit 16 sys_id + ucast sub_key"
    using i by (simp add: mm_create_shm_key_def s SHM_TYPE_SHIFT_def SHM_SYSID_SHIFT_def)
  ultimately show ?thesis using assms b by (simp add: unat_word_ariths)
qed

lemma shm_fields_inj:
  fixes s s' :: nat
  assumes "s < 4096" "s' < 4096" "k < 2 ^ 16" "k' < 2 ^ 16"
    and e: "t * 2 ^ 28 + (s * 2 ^ 16 + k) = t' * 2 ^ 28 + (s' * 2 ^ 16 + k')"
  shows "t = t' \<and> s = s' \<and> k = k'"
proof -
  have r: "s * 2 ^ 16 + k < 2 ^ 28" "s' * 2 ^ 16 + k' < 2 ^ 28" using assms by simp_all
  then have t: "t = t'" using arg_cong [OF e, of "\<lambda>x. x div 2 ^ 28"] by simp
  then have sk: "s * 2 ^ 16 + k = s' * 2 ^ 16 + k'" using e by simp
  then have "s = s'" using arg_cong [OF sk, of "\<lambda>x. x div 2 ^ 16"] assms(3,4) by simp
  then show ?thesis using t sk by simp
qed

text \<open>
  C30. Two keys built from a valid type and a system id below 4096 are equal only when
  type, system id and sub key are: different areas and channels get different segments.
\<close>

theorem mm_create_shm_key_inj:
  assumes "unat t < 2" and "unat s < 4096" and "unat t' < 2" and "unat s' < 4096"
    and eq: "mm_create_shm_key t s k = mm_create_shm_key t' s' k'"
  shows "t = t' \<and> s = s' \<and> k = k'"
proof -
  have b: "unat k < 2 ^ 16" "unat k' < 2 ^ 16"
    using unat_less [of k] unat_less [of k'] by simp_all
  have e: "unat t * 2 ^ 28 + (unat s * 2 ^ 16 + unat k) = unat t' * 2 ^ 28 + (unat s' * 2 ^ 16 + unat k')"
    using eq unat_shm_key [OF assms(1,2), of k] unat_shm_key [OF assms(3,4), of k'] by simp
  have "unat t = unat t' \<and> unat s = unat s' \<and> unat k = unat k'"
    by (rule shm_fields_inj [OF assms(2,4) b e])
  then show ?thesis by (simp add: word_unat_eq_iff)
qed

theorem mm_create_shm_key_inj_witness:
  "mm_create_shm_key 1 77 5 \<noteq> mm_create_shm_key 0 77 5 \<and> (0 :: u32) = 0 \<and> (77 :: u32) = 77 \<and> (5 :: u16) = 5"
proof -
  have "mm_create_shm_key 1 77 5 = mm_create_shm_key 0 77 5 \<Longrightarrow> (1 :: u32) = 0"
    using mm_create_shm_key_inj [of 1 77 0 77 5 5] by simp
  moreover have "(1 :: u32) \<noteq> 0" by simp
  ultimately show ?thesis using mm_create_shm_key_inj [of 0 77 0 77 5 5] by auto
qed

text \<open>
  The guard lets system ids up to 8191 through, but only 12 bits lie between the system
  id and the type: a memory-space key of system id \<open>4096 + s\<close> is the inter-process key of
  system id \<open>s\<close>.
\<close>

theorem mm_create_shm_key_collision:
  assumes "unat s < 4096"
  shows "mm_create_shm_key (shm_type_num MM_SHM_MEMORY_SPACE) (4096 + s) k
       = mm_create_shm_key (shm_type_num MM_SHM_IPC) s k
       \<and> mm_create_shm_key (shm_type_num MM_SHM_IPC) s k \<noteq> -1"
proof -
  have u: "unat (4096 + s) = 4096 + unat s" using assms by (simp add: unat_word_ariths)
  have s: "sint (4096 + s) = uint (4096 + s)" "sint s = uint s"
    using assms by (simp_all add: sint_small_u32 u)
  have i: "uint (4096 + s) < 8192" "uint s < 4096"
    using unat_less_uint [of "4096 + s" 8192] unat_less_uint [OF assms] assms u by simp_all
  have p: "push_bit 16 (4096 + s) = (0x10000000 :: u32) + push_bit 16 s"
    by (simp add: push_bit_eq_mult algebra_simps)
  have "unat (mm_create_shm_key 1 s k) < 2 ^ 30"
    using unat_shm_key [of 1 s k] unat_less [of k] assms by simp
  moreover have "unat (-1 :: u32) = 4294967295"
    by (simp add: unsigned_minus_1_eq_mask mask_eq_exp_minus_1)
  ultimately have "mm_create_shm_key 1 s k \<noteq> -1" by auto
  with p i show ?thesis
    by (simp add: mm_create_shm_key_def s SHM_TYPE_SHIFT_def SHM_SYSID_SHIFT_def)
qed

theorem mm_create_shm_key_collision_witness:
  "mm_create_shm_key 0 (4096 + 3) 9 = mm_create_shm_key 1 3 9"
  using mm_create_shm_key_collision [of 3 9] by simp

end
