(* ===== verification/Dlist.thy ===== *)
theory Dlist
  imports Prelude
begin

text \<open>
  The intrusive doubly linked list of \<open>src/src/dlist.c\<close>.

  A \<open>struct dlnode\<close> is an address; its two fields are the maps \<open>dl_prev\<close> and \<open>dl_next\<close>
  of the heap.  A \<open>struct dlist\<close> at address \<open>lst\<close> is its two sentinels: \<open>head\<close> at
  offset 0 and \<open>tail\<close> at offset 16.
\<close>

record dl_heap =
  dl_prev :: "ptr \<Rightarrow> ptr"
  dl_next :: "ptr \<Rightarrow> ptr"

abbreviation (input) head_of :: "ptr \<Rightarrow> ptr" where "head_of lst \<equiv> lst"
abbreviation tail_of :: "ptr \<Rightarrow> ptr" where "tail_of lst \<equiv> lst + 16"

definition ld_prev :: "dl_heap \<Rightarrow> ptr \<Rightarrow> ptr option" where
  [mem_defs]: "ld_prev h p = deref p (dl_prev h p)"

definition ld_next :: "dl_heap \<Rightarrow> ptr \<Rightarrow> ptr option" where
  [mem_defs]: "ld_next h p = deref p (dl_next h p)"

definition st_prev :: "ptr \<Rightarrow> ptr \<Rightarrow> dl_heap \<Rightarrow> dl_heap option" where
  [mem_defs]: "st_prev p v h = deref p (h\<lparr>dl_prev := (dl_prev h)(p := v)\<rparr>)"

definition st_next :: "ptr \<Rightarrow> ptr \<Rightarrow> dl_heap \<Rightarrow> dl_heap option" where
  [mem_defs]: "st_next p v h = deref p (h\<lparr>dl_next := (dl_next h)(p := v)\<rparr>)"

section \<open>The operations\<close>

definition lst_new :: "ptr \<Rightarrow> dl_heap \<Rightarrow> (int \<times> dl_heap) option" where
  "lst_new lst h =
     (if lst = 0 then Some (-1, h)
      else do {
        h \<leftarrow> st_prev (head_of lst) 0 h;
        h \<leftarrow> st_next (head_of lst) (tail_of lst) h;
        h \<leftarrow> st_prev (tail_of lst) (head_of lst) h;
        h \<leftarrow> st_next (tail_of lst) 0 h;
        Some (0, h) })"

definition lst_clr :: "ptr \<Rightarrow> dl_heap \<Rightarrow> (int \<times> dl_heap) option" where
  "lst_clr node h =
     (if node = 0 then Some (-1, h)
      else do {
        h \<leftarrow> st_prev node 0 h;
        h \<leftarrow> st_next node 0 h;
        Some (0, h) })"

definition lst_empty :: "ptr \<Rightarrow> dl_heap \<Rightarrow> bool option" where
  "lst_empty lst h = do {
     n \<leftarrow> ld_next h (head_of lst);
     if n = tail_of lst then Some True
     else do {
       p \<leftarrow> ld_prev h (tail_of lst);
       Some (p = head_of lst) } }"

definition lst_insert_before :: "ptr \<Rightarrow> ptr \<Rightarrow> ptr \<Rightarrow> dl_heap \<Rightarrow> (int \<times> dl_heap) option" where
  "lst_insert_before lst suc node h =
     (if lst = 0 \<or> suc = 0 \<or> node = 0 then Some (-1, h)
      else if suc = head_of lst then Some (-1, h)
      else do {
        p \<leftarrow> ld_prev h suc;
        h \<leftarrow> st_prev node p h;
        h \<leftarrow> st_next node suc h;
        p \<leftarrow> ld_prev h suc;
        h \<leftarrow> st_next p node h;
        h \<leftarrow> st_prev suc node h;
        Some (0, h) })"

definition lst_insert_after :: "ptr \<Rightarrow> ptr \<Rightarrow> ptr \<Rightarrow> dl_heap \<Rightarrow> (int \<times> dl_heap) option" where
  "lst_insert_after lst prv node h =
     (if lst = 0 \<or> prv = 0 \<or> node = 0 then Some (-1, h)
      else if prv = tail_of lst then Some (-1, h)
      else do {
        h \<leftarrow> st_prev node prv h;
        n \<leftarrow> ld_next h prv;
        h \<leftarrow> st_next node n h;
        n \<leftarrow> ld_next h prv;
        h \<leftarrow> st_prev n node h;
        h \<leftarrow> st_next prv node h;
        Some (0, h) })"

text \<open>The unlinking that \<open>lst_remove\<close> and \<open>lst_remove_node\<close> share.\<close>

definition unlink_node :: "ptr \<Rightarrow> dl_heap \<Rightarrow> (int \<times> dl_heap) option" where
  "unlink_node node h = do {
     p \<leftarrow> ld_prev h node;
     n \<leftarrow> ld_next h node;
     h \<leftarrow> st_next p n h;
     n \<leftarrow> ld_next h node;
     p \<leftarrow> ld_prev h node;
     h \<leftarrow> st_prev n p h;
     h \<leftarrow> st_prev node 0 h;
     h \<leftarrow> st_next node 0 h;
     Some (0, h) }"

definition lst_remove :: "ptr \<Rightarrow> ptr \<Rightarrow> dl_heap \<Rightarrow> (int \<times> dl_heap) option" where
  "lst_remove lst node h =
     (if lst = 0 \<or> node = 0 then Some (-1, h)
      else if dl_prev h node = 0 \<or> dl_next h node = 0 then Some (-1, h)
      else if dl_prev h (tail_of lst) = head_of lst \<or> dl_next h (head_of lst) = tail_of lst
      then Some (-1, h)
      else if node = head_of lst \<or> node = tail_of lst then Some (-1, h)
      else unlink_node node h)"

definition lst_remove_node :: "ptr \<Rightarrow> dl_heap \<Rightarrow> (int \<times> dl_heap) option" where
  "lst_remove_node node h =
     (if node = 0 then Some (-1, h)
      else if dl_prev h node = 0 \<or> dl_next h node = 0 then Some (-1, h)
      else unlink_node node h)"

definition lst_push_back :: "ptr \<Rightarrow> ptr \<Rightarrow> dl_heap \<Rightarrow> (int \<times> dl_heap) option" where
  "lst_push_back lst node h = lst_insert_before lst (tail_of lst) node h"

definition lst_push_front :: "ptr \<Rightarrow> ptr \<Rightarrow> dl_heap \<Rightarrow> (int \<times> dl_heap) option" where
  "lst_push_front lst node h = lst_insert_after lst (head_of lst) node h"

definition lst_pop_back :: "ptr \<Rightarrow> dl_heap \<Rightarrow> (ptr \<times> dl_heap) option" where
  "lst_pop_back lst h =
     (if lst = 0 then Some (0, h)
      else do {
        node \<leftarrow> ld_prev h (tail_of lst);
        (r, h) \<leftarrow> lst_remove lst node h;
        if r < 0 then Some (0, h) else Some (node, h) })"

definition lst_pop_front :: "ptr \<Rightarrow> dl_heap \<Rightarrow> (ptr \<times> dl_heap) option" where
  "lst_pop_front lst h =
     (if lst = 0 then Some (0, h)
      else do {
        node \<leftarrow> ld_next h (head_of lst);
        (r, h) \<leftarrow> lst_remove lst node h;
        if r < 0 then Some (0, h) else Some (node, h) })"

definition lst_first :: "ptr \<Rightarrow> dl_heap \<Rightarrow> ptr option" where
  "lst_first lst h = ld_next h (head_of lst)"

definition lst_last :: "ptr \<Rightarrow> ptr" where
  "lst_last lst = tail_of lst"

text \<open>
  The loop check runs a fast and a slow pointer, forwards and then backwards.  \<open>None\<close> is
  a run that dereferences null or never ends.
\<close>

partial_function (option) check_fwd :: "dl_heap \<Rightarrow> ptr \<Rightarrow> ptr \<Rightarrow> ptr \<Rightarrow> int option" where
  "check_fwd h lst pf ps = do {
     stop \<leftarrow> (if pf = tail_of lst then Some True
              else do { n \<leftarrow> ld_next h pf; Some (n = tail_of lst) });
     if stop then Some 0
     else if ps = tail_of lst then Some 0
     else do {
       n \<leftarrow> ld_next h pf;
       pf' \<leftarrow> ld_next h n;
       ps' \<leftarrow> ld_next h ps;
       if pf' = ps' then Some (-1) else check_fwd h lst pf' ps' } }"

partial_function (option) check_bwd :: "dl_heap \<Rightarrow> ptr \<Rightarrow> ptr \<Rightarrow> ptr \<Rightarrow> int option" where
  "check_bwd h lst pf ps = do {
     stop \<leftarrow> (if pf = head_of lst then Some True
              else do { p \<leftarrow> ld_prev h pf; Some (p = head_of lst) });
     if stop then Some 0
     else if ps = head_of lst then Some 0
     else do {
       p \<leftarrow> ld_prev h pf;
       pf' \<leftarrow> ld_prev h p;
       ps' \<leftarrow> ld_prev h ps;
       if pf' = ps' then Some (-1) else check_bwd h lst pf' ps' } }"

definition lst_check_loop :: "ptr \<Rightarrow> dl_heap \<Rightarrow> int option" where
  "lst_check_loop lst h = do {
     p \<leftarrow> ld_next h (head_of lst);
     r \<leftarrow> check_fwd h lst p p;
     if r = -1 then Some (-1)
     else do {
       p \<leftarrow> ld_prev h (tail_of lst);
       r \<leftarrow> check_bwd h lst p p;
       if r = -1 then Some (-1) else Some 0 } }"

definition lst_check :: "ptr \<Rightarrow> dl_heap \<Rightarrow> int option" where
  "lst_check lst h = lst_check_loop lst h"

section \<open>Linked sequences\<close>

text \<open>
  \<open>linked h xs\<close>: consecutive nodes of \<open>xs\<close> point to each other.  \<open>dl_list h lst xs\<close>: the list at
  \<open>lst\<close> holds exactly the nodes \<open>xs\<close>, in this order.
\<close>

fun linked :: "dl_heap \<Rightarrow> ptr list \<Rightarrow> bool" where
  "linked h (x # y # zs) \<longleftrightarrow> dl_next h x = y \<and> dl_prev h y = x \<and> linked h (y # zs)"
| "linked h _ \<longleftrightarrow> True"

definition dl_nodes :: "ptr \<Rightarrow> ptr list \<Rightarrow> ptr list" where
  "dl_nodes lst xs = head_of lst # xs @ [tail_of lst]"

definition dl_list :: "dl_heap \<Rightarrow> ptr \<Rightarrow> ptr list \<Rightarrow> bool" where
  "dl_list h lst xs \<longleftrightarrow>
     distinct (dl_nodes lst xs) \<and> 0 \<notin> set (dl_nodes lst xs) \<and>
     dl_prev h (head_of lst) = 0 \<and> dl_next h (tail_of lst) = 0 \<and> linked h (dl_nodes lst xs)"

definition dl_same :: "ptr set \<Rightarrow> dl_heap \<Rightarrow> dl_heap \<Rightarrow> bool" where
  "dl_same S h h' \<longleftrightarrow> (\<forall>p \<in> S. dl_prev h' p = dl_prev h p \<and> dl_next h' p = dl_next h p)"

lemma linked_split: "linked h (xs @ y # zs) \<longleftrightarrow> linked h (xs @ [y]) \<and> linked h (y # zs)"
proof (induction xs)
  case Nil
  show ?case by simp
next
  case (Cons x xs)
  show ?case
  proof (cases xs)
    case Nil
    then show ?thesis by simp
  next
    case (Cons a as)
    then show ?thesis using Cons.IH by simp
  qed
qed

lemma linked_cong:
  assumes "\<And>x. x \<in> set (butlast xs) \<Longrightarrow> dl_next h' x = dl_next h x"
    and "\<And>x. x \<in> set (tl xs) \<Longrightarrow> dl_prev h' x = dl_prev h x"
  shows "linked h' xs \<longleftrightarrow> linked h xs"
  using assms by (induction h xs rule: linked.induct) auto

lemma in_set_tlD: "x \<in> set (tl xs) \<Longrightarrow> x \<in> set xs"
  by (cases xs) auto

text \<open>Only the \<open>next\<close> of the inner nodes and the \<open>prev\<close> of the later ones matter.\<close>

lemma linked_snoc_cong:
  assumes "\<And>x. x \<in> set xs \<Longrightarrow> dl_next h' x = dl_next h x"
    and "\<And>x. x \<in> set (xs @ [p]) \<Longrightarrow> dl_prev h' x = dl_prev h x"
  shows "linked h' (xs @ [p]) \<longleftrightarrow> linked h (xs @ [p])"
  using assms by (intro linked_cong) (auto dest!: in_set_tlD)

lemma linked_Cons_cong:
  assumes "\<And>x. x \<in> set (s # zs) \<Longrightarrow> dl_next h' x = dl_next h x"
    and "\<And>x. x \<in> set zs \<Longrightarrow> dl_prev h' x = dl_prev h x"
  shows "linked h' (s # zs) \<longleftrightarrow> linked h (s # zs)"
  using assms by (intro linked_cong) (auto dest!: in_set_butlastD split: if_splits)

lemma linked_pair: "linked h (xs @ p # q # zs) \<Longrightarrow> dl_next h p = q \<and> dl_prev h q = p"
  by (subst (asm) linked_split) simp

lemma dl_list_same:
  assumes "dl_same (set (dl_nodes lst xs)) h h'"
  shows "dl_list h' lst xs \<longleftrightarrow> dl_list h lst xs"
proof -
  have "linked h' (dl_nodes lst xs) \<longleftrightarrow> linked h (dl_nodes lst xs)"
    using assms by (intro linked_cong) (auto simp: dl_same_def dl_nodes_def)
  then show ?thesis using assms by (simp add: dl_list_def dl_same_def dl_nodes_def)
qed

lemma dl_same_trans: "dl_same S h h' \<Longrightarrow> dl_same S h' h'' \<Longrightarrow> dl_same S h h''"
  by (simp add: dl_same_def)

lemma dl_same_subset: "dl_same S h h' \<Longrightarrow> T \<subseteq> S \<Longrightarrow> dl_same T h h'"
  by (auto simp: dl_same_def)

lemma dl_same_refl [simp]: "dl_same S h h"
  by (simp add: dl_same_def)

section \<open>Linking and unlinking a node\<close>

definition dl_link :: "ptr \<Rightarrow> ptr \<Rightarrow> ptr \<Rightarrow> dl_heap \<Rightarrow> dl_heap" where
  "dl_link p node s h = h\<lparr>dl_prev := (dl_prev h)(node := p, s := node),
                         dl_next := (dl_next h)(node := s, p := node)\<rparr>"

definition dl_unlink :: "ptr \<Rightarrow> ptr \<Rightarrow> ptr \<Rightarrow> dl_heap \<Rightarrow> dl_heap" where
  "dl_unlink p node s h = h\<lparr>dl_prev := (dl_prev h)(s := p, node := 0),
                           dl_next := (dl_next h)(p := s, node := 0)\<rparr>"

lemma dl_link_sel [simp]:
  "dl_prev (dl_link p node s h) = (dl_prev h)(node := p, s := node)"
  "dl_next (dl_link p node s h) = (dl_next h)(node := s, p := node)"
  by (simp_all add: dl_link_def)

lemma dl_unlink_sel [simp]:
  "dl_prev (dl_unlink p node s h) = (dl_prev h)(s := p, node := 0)"
  "dl_next (dl_unlink p node s h) = (dl_next h)(p := s, node := 0)"
  by (simp_all add: dl_unlink_def)

lemma linked_link:
  assumes l: "linked h (xs @ p # s # zs)" and d: "distinct (xs @ p # s # zs)"
    and n: "node \<notin> set (xs @ p # s # zs)"
  shows "linked (dl_link p node s h) (xs @ p # node # s # zs)"
proof -
  have "linked h (xs @ [p])" and "linked h (s # zs)"
    using l linked_split [of h xs p "s # zs"] by auto
  moreover have "linked (dl_link p node s h) (xs @ [p]) = linked h (xs @ [p])"
    using d n by (intro linked_snoc_cong) auto
  moreover have "linked (dl_link p node s h) (s # zs) = linked h (s # zs)"
    using d n by (intro linked_Cons_cong) auto
  moreover have "linked (dl_link p node s h) (p # node # s # zs) = linked (dl_link p node s h) (s # zs)"
    using d n by simp
  ultimately show ?thesis
    using linked_split [of "dl_link p node s h" xs p "node # s # zs"] by blast
qed

lemma linked_unlink:
  assumes l: "linked h (xs @ p # node # s # zs)" and d: "distinct (xs @ p # node # s # zs)"
  shows "linked (dl_unlink p node s h) (xs @ p # s # zs)"
proof -
  have "linked h (xs @ [p])" and "linked h (s # zs)"
    using l linked_split [of h xs p "node # s # zs"] by auto
  moreover have "linked (dl_unlink p node s h) (xs @ [p]) = linked h (xs @ [p])"
    using d by (intro linked_snoc_cong) auto
  moreover have "linked (dl_unlink p node s h) (s # zs) = linked h (s # zs)"
    using d by (intro linked_Cons_cong) auto
  moreover have "linked (dl_unlink p node s h) (p # s # zs) = linked (dl_unlink p node s h) (s # zs)"
    using d by auto
  ultimately show ?thesis
    using linked_split [of "dl_unlink p node s h" xs p "s # zs"] by blast
qed

lemma dl_link_same: "{p, node, s} \<inter> S = {} \<Longrightarrow> dl_same S h (dl_link p node s h)"
  by (auto simp: dl_same_def)

lemma dl_unlink_same: "{p, node, s} \<inter> S = {} \<Longrightarrow> dl_same S h (dl_unlink p node s h)"
  by (auto simp: dl_same_def)

section \<open>The operations on a represented list\<close>

lemma dl_listD:
  assumes "dl_list h lst xs"
  shows "lst \<noteq> 0" "tail_of lst \<noteq> 0" "distinct xs" "lst \<notin> set xs" "tail_of lst \<notin> set xs" "0 \<notin> set xs"
    "dl_prev h lst = 0" "dl_next h (tail_of lst) = 0" "linked h (lst # xs @ [tail_of lst])"
  using assms by (auto simp: dl_list_def dl_nodes_def)

lemma dl_list_ends:
  assumes "dl_list h lst xs"
  shows "dl_next h lst = hd (xs @ [tail_of lst])" and "dl_prev h (tail_of lst) = last (lst # xs)"
proof -
  note l = dl_listD(9) [OF assms]
  show "dl_next h lst = hd (xs @ [tail_of lst])" using l by (cases xs) auto
  show "dl_prev h (tail_of lst) = last (lst # xs)"
  proof (cases xs rule: rev_cases)
    case Nil
    with l show ?thesis by simp
  next
    case (snoc ys y)
    with l linked_pair [of h "lst # ys" y "tail_of lst" "[]"] show ?thesis by simp
  qed
qed

lemma lst_new_ok:
  assumes "lst \<noteq> 0" and "tail_of lst \<noteq> 0"
  shows "\<exists>h'. lst_new lst h = Some (0, h') \<and> dl_list h' lst [] \<and> dl_same (- {lst, tail_of lst}) h h'"
  using assms by (auto simp: lst_new_def mem_defs dl_list_def dl_nodes_def dl_same_def)

lemma lst_empty_ok: "dl_list h lst xs \<Longrightarrow> lst_empty lst h = Some (xs = [])"
  using dl_list_ends [of h lst xs] dl_listD [of h lst xs]
  by (cases xs; cases xs rule: rev_cases) (auto simp: lst_empty_def mem_defs split: if_splits)

lemma lst_first_rep: "dl_list h l xs \<Longrightarrow> lst_first l h = Some (case xs of [] \<Rightarrow> tail_of l | x # _ \<Rightarrow> x)"
  using dl_list_ends(1) [of h l xs] dl_listD [of h l xs]
  by (simp add: lst_first_def ld_next_def split: list.splits)

text \<open>Neighbours of a position: the node before and the node after it.\<close>

lemma dl_list_at:
  assumes "dl_list h lst (ys @ zs)"
  shows "\<exists>A B. dl_nodes lst (ys @ zs) = A @ last (lst # ys) # hd (zs @ [tail_of lst]) # B
            \<and> (\<forall>node. dl_nodes lst (ys @ node # zs) = A @ last (lst # ys) # node # hd (zs @ [tail_of lst]) # B)"
proof (intro exI conjI allI)
  have a: "lst # ys = butlast (lst # ys) @ [last (lst # ys)]" by simp
  have z: "zs @ [tail_of lst] = hd (zs @ [tail_of lst]) # tl (zs @ [tail_of lst])" by simp
  show "dl_nodes lst (ys @ zs) = butlast (lst # ys) @ last (lst # ys) # hd (zs @ [tail_of lst]) # tl (zs @ [tail_of lst])"
    using a z unfolding dl_nodes_def by (metis append.assoc append_Cons append_Nil)
  show "dl_nodes lst (ys @ node # zs) = butlast (lst # ys) @ last (lst # ys) # node # hd (zs @ [tail_of lst]) # tl (zs @ [tail_of lst])" for node
    using a z unfolding dl_nodes_def by (metis append.assoc append_Cons append_Nil)
qed

lemma dl_list_link:
  assumes l: "dl_list h lst (ys @ zs)" and n: "node \<notin> set (dl_nodes lst (ys @ zs))" "node \<noteq> 0"
  defines "p \<equiv> last (lst # ys)" and "s \<equiv> hd (zs @ [tail_of lst])"
  shows "dl_list (dl_link p node s h) lst (ys @ node # zs)"
    and "dl_prev h s = p" and "dl_next h p = s" and "p \<noteq> 0" and "s \<noteq> 0" and "p \<noteq> s"
    and "s \<noteq> lst" and "p \<noteq> tail_of lst" and "p \<noteq> node" and "s \<noteq> node"
proof -
  obtain A B where A: "dl_nodes lst (ys @ zs) = A @ p # s # B"
    and A': "\<And>node. dl_nodes lst (ys @ node # zs) = A @ p # node # s # B"
    using dl_list_at [OF l] unfolding p_def s_def by blast
  have L: "linked h (A @ p # s # B)" and D: "distinct (A @ p # s # B)" and Z: "0 \<notin> set (A @ p # s # B)"
    using l by (simp_all add: dl_list_def A)
  have N: "node \<notin> set (A @ p # s # B)" using n by (simp add: A)
  show "dl_prev h s = p" and "dl_next h p = s" using linked_pair [OF L] by simp_all
  show "p \<noteq> 0" "s \<noteq> 0" "p \<noteq> s" "p \<noteq> node" "s \<noteq> node" using Z D N by auto
  show s: "s \<noteq> lst" using dl_listD [OF l] by (cases zs) (auto simp: s_def)
  show p: "p \<noteq> tail_of lst" using dl_listD [OF l] by (cases ys rule: rev_cases) (auto simp: p_def)
  have "lst \<noteq> node" "tail_of lst \<noteq> node" using n by (auto simp: dl_nodes_def)
  then show "dl_list (dl_link p node s h) lst (ys @ node # zs)"
    using linked_link [OF L D N] D N Z n(2) s p dl_listD [OF l] by (auto simp: dl_list_def A')
qed

lemma lst_insert_before_ok:
  assumes l: "dl_list h lst (ys @ zs)" and n: "node \<notin> set (dl_nodes lst (ys @ zs))" "node \<noteq> 0"
  shows "lst_insert_before lst (hd (zs @ [tail_of lst])) node h
       = Some (0, dl_link (last (lst # ys)) node (hd (zs @ [tail_of lst])) h)"
  using dl_list_link [OF l n] n dl_listD(1) [OF l]
  by (simp add: lst_insert_before_def mem_defs dl_link_def fun_upd_twist)

lemma lst_insert_after_ok:
  assumes l: "dl_list h lst (ys @ zs)" and n: "node \<notin> set (dl_nodes lst (ys @ zs))" "node \<noteq> 0"
  shows "lst_insert_after lst (last (lst # ys)) node h
       = Some (0, dl_link (last (lst # ys)) node (hd (zs @ [tail_of lst])) h)"
  using dl_list_link [OF l n] n dl_listD(1) [OF l]
  by (simp add: lst_insert_after_def mem_defs dl_link_def fun_upd_twist)

lemma dl_list_unlink:
  assumes l: "dl_list h lst (ys @ node # zs)"
  defines "p \<equiv> last (lst # ys)" and "s \<equiv> hd (zs @ [tail_of lst])"
  shows "dl_list (dl_unlink p node s h) lst (ys @ zs)"
    and "dl_prev h node = p" and "dl_next h node = s" and "p \<noteq> 0" and "s \<noteq> 0" and "p \<noteq> s"
    and "p \<noteq> node" and "s \<noteq> node" and "node \<noteq> 0"
proof -
  have z: "hd (node # zs @ [tail_of lst]) = node" by simp
  obtain A B where A': "dl_nodes lst (ys @ zs) = A @ p # s # B"
    and A: "dl_nodes lst (ys @ node # zs) = A @ p # node # s # B"
  proof -
    have a: "lst # ys = butlast (lst # ys) @ [p]" by (simp add: p_def)
    have z: "zs @ [tail_of lst] = s # tl (zs @ [tail_of lst])" by (simp add: s_def)
    have "dl_nodes lst (ys @ zs) = butlast (lst # ys) @ p # s # tl (zs @ [tail_of lst])"
      using a z unfolding dl_nodes_def by (metis append.assoc append_Cons append_Nil)
    moreover have "dl_nodes lst (ys @ node # zs) = butlast (lst # ys) @ p # node # s # tl (zs @ [tail_of lst])"
      using a z unfolding dl_nodes_def by (metis append.assoc append_Cons append_Nil)
    ultimately show thesis by (rule that)
  qed
  have L: "linked h (A @ p # node # s # B)" and D: "distinct (A @ p # node # s # B)"
    and Z: "0 \<notin> set (A @ p # node # s # B)"
    using l by (simp_all add: dl_list_def A)
  show "dl_prev h node = p" using linked_pair [OF L] by simp
  show "dl_next h node = s" using linked_pair [of h "A @ [p]" node s B] L by simp
  show "p \<noteq> 0" "s \<noteq> 0" "p \<noteq> s" "p \<noteq> node" "s \<noteq> node" "node \<noteq> 0" using Z D by auto
  have s: "s \<noteq> lst" using dl_listD [OF l] by (cases zs) (auto simp: s_def)
  have p: "p \<noteq> tail_of lst" using dl_listD [OF l] by (cases ys rule: rev_cases) (auto simp: p_def)
  show "dl_list (dl_unlink p node s h) lst (ys @ zs)"
    using linked_unlink [OF L D] D Z s p dl_listD [OF l] by (auto simp: dl_list_def A')
qed

lemma unlink_node_ok:
  assumes l: "dl_list h lst (ys @ node # zs)"
  shows "unlink_node node h = Some (0, dl_unlink (last (lst # ys)) node (hd (zs @ [tail_of lst])) h)"
  using dl_list_unlink [OF l]
  by (simp add: unlink_node_def mem_defs dl_unlink_def fun_upd_twist)

lemma lst_remove_ok:
  assumes l: "dl_list h lst (ys @ node # zs)"
  shows "lst_remove lst node h = Some (0, dl_unlink (last (lst # ys)) node (hd (zs @ [tail_of lst])) h)"
proof -
  have "dl_prev h (tail_of lst) \<noteq> lst" and "dl_next h lst \<noteq> tail_of lst"
    using dl_list_ends [OF l] dl_listD [OF l]
    by (cases zs rule: rev_cases, auto, cases ys, auto)
  then show ?thesis
    using dl_list_unlink [OF l] dl_listD [OF l] unlink_node_ok [OF l]
    by (auto simp: lst_remove_def)
qed

lemma lst_remove_node_ok:
  assumes l: "dl_list h lst (ys @ node # zs)"
  shows "lst_remove_node node h = Some (0, dl_unlink (last (lst # ys)) node (hd (zs @ [tail_of lst])) h)"
  using dl_list_unlink [OF l] unlink_node_ok [OF l] by (simp add: lst_remove_node_def)

text \<open>Removing from an empty list, or a node that is on no list, is refused.\<close>

lemma lst_remove_empty: "dl_list h lst [] \<Longrightarrow> lst_remove lst node h = Some (-1, h)"
  using dl_list_ends [of h lst "[]"] by (simp add: lst_remove_def)

lemma lst_remove_unlinked:
  "dl_prev h node = 0 \<or> dl_next h node = 0 \<Longrightarrow> lst_remove lst node h = Some (-1, h)"
  by (auto simp: lst_remove_def)

lemma hd_snoc_mem: "hd (zs @ [t]) \<in> set (zs @ [t])"
  by (cases zs) auto

lemma last_Cons_mem: "last (x # ys) \<in> set (x # ys)"
  by (rule last_in_set) simp

lemma lst_push_back_ok:
  assumes l: "dl_list h lst xs" and n: "node \<notin> set (dl_nodes lst xs)" "node \<noteq> 0"
  shows "\<exists>h'. lst_push_back lst node h = Some (0, h') \<and> dl_list h' lst (xs @ [node])
            \<and> dl_same (- set (dl_nodes lst (xs @ [node]))) h h'"
proof (intro exI conjI)
  show "lst_push_back lst node h = Some (0, dl_link (last (lst # xs)) node (tail_of lst) h)"
    using lst_insert_before_ok [of h lst xs "[]" node] l n by (simp add: lst_push_back_def)
  show "dl_list (dl_link (last (lst # xs)) node (tail_of lst) h) lst (xs @ [node])"
    using dl_list_link(1) [of h lst xs "[]" node] l n by simp
  show "dl_same (- set (dl_nodes lst (xs @ [node]))) h (dl_link (last (lst # xs)) node (tail_of lst) h)"
    by (rule dl_link_same) (auto simp: dl_nodes_def)
qed

lemma lst_push_front_ok:
  assumes l: "dl_list h lst xs" and n: "node \<notin> set (dl_nodes lst xs)" "node \<noteq> 0"
  shows "\<exists>h'. lst_push_front lst node h = Some (0, h') \<and> dl_list h' lst (node # xs)
            \<and> dl_same (- set (dl_nodes lst (node # xs))) h h'"
proof (intro exI conjI)
  let ?s = "hd (xs @ [tail_of lst])"
  show "lst_push_front lst node h = Some (0, dl_link lst node ?s h)"
    using lst_insert_after_ok [of h lst "[]" xs node] l n by (simp add: lst_push_front_def)
  show "dl_list (dl_link lst node ?s h) lst (node # xs)"
    using dl_list_link(1) [of h lst "[]" xs node] l n by simp
  show "dl_same (- set (dl_nodes lst (node # xs))) h (dl_link lst node ?s h)"
    by (rule dl_link_same) (cases xs; auto simp: dl_nodes_def)
qed

lemma lst_remove_list:
  assumes l: "dl_list h lst xs" and n: "node \<in> set xs"
  shows "\<exists>h'. lst_remove lst node h = Some (0, h') \<and> lst_remove_node node h = Some (0, h')
            \<and> dl_list h' lst (remove1 node xs) \<and> dl_prev h' node = 0 \<and> dl_next h' node = 0
            \<and> dl_same (- set (dl_nodes lst xs)) h h'"
proof -
  obtain ys zs where xs: "xs = ys @ node # zs" and y: "node \<notin> set ys"
    using n dl_listD(3) [OF l] by (rule list_split_mem)
  let ?h = "dl_unlink (last (lst # ys)) node (hd (zs @ [tail_of lst])) h"
  have "dl_same (- set (dl_nodes lst xs)) h ?h"
    using hd_snoc_mem [of zs "tail_of lst"] last_Cons_mem [of lst ys]
    by (intro dl_unlink_same) (auto simp: dl_nodes_def xs)
  then show ?thesis
    using lst_remove_ok [of h lst ys node zs] lst_remove_node_ok [of h lst ys node zs]
      dl_list_unlink [of h lst ys node zs] l y
    by (auto simp: xs)
qed

lemma lst_pop_front_ok:
  assumes l: "dl_list h lst (x # xs)"
  shows "\<exists>h'. lst_pop_front lst h = Some (x, h') \<and> dl_list h' lst xs \<and> dl_prev h' x = 0 \<and> dl_next h' x = 0
            \<and> dl_same (- set (dl_nodes lst (x # xs))) h h'"
  using lst_remove_list [OF l, of x] dl_list_ends [OF l] dl_listD [OF l]
  by (auto simp: lst_pop_front_def mem_defs)

lemma lst_pop_back_ok:
  assumes l: "dl_list h lst (xs @ [x])"
  shows "\<exists>h'. lst_pop_back lst h = Some (x, h') \<and> dl_list h' lst xs \<and> dl_prev h' x = 0 \<and> dl_next h' x = 0
            \<and> dl_same (- set (dl_nodes lst (xs @ [x]))) h h'"
proof -
  have "remove1 x (xs @ [x]) = xs" using dl_listD(3) [OF l] by (simp add: remove1_append)
  then show ?thesis
    using lst_remove_list [OF l, of x] dl_list_ends [OF l] dl_listD [OF l]
    by (auto simp: lst_pop_back_def mem_defs)
qed

lemma lst_pop_empty:
  assumes "dl_list h lst []"
  shows "lst_pop_front lst h = Some (0, h)" and "lst_pop_back lst h = Some (0, h)"
  using lst_remove_empty [OF assms] dl_listD [OF assms]
  by (simp_all add: lst_pop_front_def lst_pop_back_def mem_defs)

section \<open>The loop check\<close>

lemma linked_nth:
  "linked h l \<Longrightarrow> Suc i < length l \<Longrightarrow> dl_next h (l ! i) = l ! Suc i \<and> dl_prev h (l ! Suc i) = l ! i"
proof (induction h l arbitrary: i rule: linked.induct)
  case (1 h x y zs)
  then show ?case by (cases i) auto
qed auto

lemma check_fwd_chain:
  assumes "distinct L" and "0 \<notin> set L" and "length L = Suc n" and "L ! n = tail_of lst"
    and step: "\<And>i. i < n \<Longrightarrow> dl_next h (L ! i) = L ! Suc i"
    and "2 * k \<le> n"
  shows "check_fwd h lst (L ! (2 * k)) (L ! k) = Some 0"
  using assms(6)
proof (induction "n - 2 * k" arbitrary: k rule: less_induct)
  case less
  have inj: "L ! i = L ! j \<longleftrightarrow> i = j" if "i \<le> n" "j \<le> n" for i j
    using that assms(1,3) by (simp add: nth_eq_iff_index_eq)
  have nz: "L ! i \<noteq> 0" if "i \<le> n" for i using that assms(2,3) by (metis le_imp_less_Suc nth_mem)
  have t: "L ! i = tail_of lst \<longleftrightarrow> i = n" if "i \<le> n" for i using inj [OF that, of n] assms(4) by simp
  show ?case
  proof (cases "2 * k + 2 \<le> n")
    case True
    have s: "dl_next h (L ! (2 * k)) = L ! Suc (2 * k)" "dl_next h (L ! Suc (2 * k)) = L ! (2 * Suc k)"
      "dl_next h (L ! k) = L ! Suc k" using True step by simp_all
    have "check_fwd h lst (L ! (2 * Suc k)) (L ! Suc k) = Some 0"
      using True by (intro less) auto
    then show ?thesis using True
      by (subst check_fwd.simps) (simp add: mem_defs s nz t inj)
  next
    case False
    then have "2 * k = n \<or> Suc (2 * k) = n" using less.prems by linarith
    then show ?thesis
      using step [of "2 * k"] by (subst check_fwd.simps) (auto simp: mem_defs nz t)
  qed
qed

lemma check_bwd_chain:
  assumes "distinct L" and "0 \<notin> set L" and "length L = Suc n" and "L ! n = head_of lst"
    and step: "\<And>i. i < n \<Longrightarrow> dl_prev h (L ! i) = L ! Suc i"
    and "2 * k \<le> n"
  shows "check_bwd h lst (L ! (2 * k)) (L ! k) = Some 0"
  using assms(6)
proof (induction "n - 2 * k" arbitrary: k rule: less_induct)
  case less
  have inj: "L ! i = L ! j \<longleftrightarrow> i = j" if "i \<le> n" "j \<le> n" for i j
    using that assms(1,3) by (simp add: nth_eq_iff_index_eq)
  have nz: "L ! i \<noteq> 0" if "i \<le> n" for i using that assms(2,3) by (metis le_imp_less_Suc nth_mem)
  have t: "L ! i = head_of lst \<longleftrightarrow> i = n" if "i \<le> n" for i using inj [OF that, of n] assms(4) by simp
  show ?case
  proof (cases "2 * k + 2 \<le> n")
    case True
    have s: "dl_prev h (L ! (2 * k)) = L ! Suc (2 * k)" "dl_prev h (L ! Suc (2 * k)) = L ! (2 * Suc k)"
      "dl_prev h (L ! k) = L ! Suc k" using True step by simp_all
    have "check_bwd h lst (L ! (2 * Suc k)) (L ! Suc k) = Some 0"
      using True by (intro less) auto
    then show ?thesis using True
      by (subst check_bwd.simps) (simp add: mem_defs s nz t inj)
  next
    case False
    then have "2 * k = n \<or> Suc (2 * k) = n" using less.prems by linarith
    then show ?thesis
      using step [of "2 * k"] by (subst check_bwd.simps) (auto simp: mem_defs nz t)
  qed
qed

text \<open>
  C26. On a well-formed list the loop check ends and reports no loop.
\<close>

theorem lst_check_ok:
  assumes "dl_list h lst xs" shows "lst_check lst h = Some 0"
proof -
  let ?F = "xs @ [tail_of lst]" and ?B = "rev xs @ [lst]"
  note d = dl_listD [OF assms]
  have "check_fwd h lst (?F ! (2 * 0)) (?F ! 0) = Some 0"
  proof (rule check_fwd_chain)
    fix i assume "i < length xs"
    then show "dl_next h (?F ! i) = ?F ! Suc i"
      using linked_nth [OF d(9), of "Suc i"] by simp
  qed (use d in auto)
  moreover have "check_bwd h lst (?B ! (2 * 0)) (?B ! 0) = Some 0"
  proof (rule check_bwd_chain)
    fix i assume i: "i < length (rev xs)"
    have "?B @ [] = rev (lst # xs)" by simp
    then have b: "?B ! j = (lst # xs) ! (length xs - j)" if "j \<le> length xs" for j
      using that by (metis append_Nil2 diff_Suc_Suc length_Cons le_imp_less_Suc rev_nth)
    have c: "(lst # xs @ [tail_of lst]) ! j = (lst # xs) ! j" if "j \<le> length xs" for j
      using that nth_append [of "lst # xs" "[tail_of lst]" j] by simp
    have "dl_prev h ((lst # xs) ! (length xs - i)) = (lst # xs) ! (length xs - Suc i)"
      using linked_nth [OF d(9), of "length xs - Suc i"] i c [of "length xs - i"] c [of "length xs - Suc i"]
      by (simp add: Suc_diff_Suc)
    then show "dl_prev h (?B ! i) = ?B ! Suc i" using b i by simp
  qed (use d in \<open>auto simp: nth_append\<close>)
  moreover have "dl_next h lst = ?F ! 0" and "dl_prev h (tail_of lst) = ?B ! 0"
    using dl_list_ends [OF assms] by (auto simp: hd_conv_nth last_conv_nth rev_nth nth_append)
  ultimately show ?thesis using d(1,2) by (simp add: lst_check_def lst_check_loop_def mem_defs)
qed

theorem lst_check_ok_witness:
  "lst_check 64 \<lparr>dl_prev = (\<lambda>p. if p = 80 then 128 else if p = 128 then 64 else 0),
                dl_next = (\<lambda>p. if p = 64 then 128 else if p = 128 then 80 else 0)\<rparr> = Some 0"
  by (rule lst_check_ok [of _ _ "[128]"]) (simp add: dl_list_def dl_nodes_def)

text \<open>
  Iterating a function on addresses, a finite type, comes back: the fast pointer meets
  the slow one.
\<close>

lemma iterates_meet:
  fixes f :: "ptr \<Rightarrow> ptr"
  obtains k where "0 < k" and "(f ^^ (2 * k)) p = (f ^^ k) p"
proof -
  have "\<not> inj (\<lambda>n. (f ^^ n) p)"
  proof
    assume "inj (\<lambda>n. (f ^^ n) p)"
    moreover have "finite (range (\<lambda>n. (f ^^ n) p))" by (rule finite)
    ultimately have "finite (UNIV :: nat set)" by (rule finite_imageD [rotated])
    then show False using infinite_UNIV_nat by blast
  qed
  then obtain i j where ij: "i < j" "(f ^^ i) p = (f ^^ j) p"
    unfolding inj_def by (metis linorder_neqE_nat)
  define d where "d = j - i"
  have d: "0 < d" "j = i + d" using ij by (simp_all add: d_def)
  have per: "(f ^^ (n + d)) p = (f ^^ n) p" if "i \<le> n" for n
  proof -
    define m where "m = n - i"
    have n: "n = m + i" using that by (simp add: m_def)
    have "(f ^^ (n + d)) p = (f ^^ m) ((f ^^ j) p)" by (simp only: n d(2) funpow_add comp_apply add.assoc)
    moreover have "(f ^^ n) p = (f ^^ m) ((f ^^ i) p)" by (simp only: n funpow_add comp_apply)
    ultimately show ?thesis by (simp only: ij(2))
  qed
  have per_mult: "(f ^^ (n + c * d)) p = (f ^^ n) p" if "i \<le> n" for n c
  proof (induction c)
    case (Suc c)
    have e: "n + Suc c * d = (n + c * d) + d" by simp
    have "(f ^^ (n + Suc c * d)) p = (f ^^ (n + c * d)) p"
      unfolding e by (rule per) (use that in simp)
    then show ?case using Suc that by simp
  qed simp
  let ?k = "Suc i * d"
  have "i \<le> ?k" using d(1) by (cases d) auto
  then have "(f ^^ (?k + Suc i * d)) p = (f ^^ ?k) p" by (rule per_mult)
  then have "(f ^^ (2 * ?k)) p = (f ^^ ?k) p" by (simp only: mult_2)
  moreover have "0 < ?k" using d(1) by simp
  ultimately show thesis by (rule that [rotated])
qed

lemma check_fwd_loop:
  assumes inf: "\<And>i. (dl_next h ^^ i) p \<notin> {0, tail_of lst}"
    and meet: "(dl_next h ^^ (2 * k)) p = (dl_next h ^^ k) p" and "j < k"
  shows "check_fwd h lst ((dl_next h ^^ (2 * j)) p) ((dl_next h ^^ j) p) = Some (-1)"
  using \<open>j < k\<close>
proof (induction "k - j" arbitrary: j rule: less_induct)
  case less
  let ?f = "\<lambda>i. (dl_next h ^^ i) p"
  have s: "dl_next h (?f i) = ?f (Suc i)" for i by simp
  have n: "?f i \<noteq> 0" "?f i \<noteq> tail_of lst" for i using inf [of i] by auto
  have s2: "?f (Suc (Suc (2 * j))) = ?f (2 * Suc j)" by simp
  have step: "check_fwd h lst (?f (2 * j)) (?f j) =
     (if ?f (2 * Suc j) = ?f (Suc j) then Some (-1) else check_fwd h lst (?f (2 * Suc j)) (?f (Suc j)))"
    by (subst check_fwd.simps) (simp only: mem_defs s s2 n deref_Some simp_thms if_False if_True Option.bind.simps)
  show ?case
  proof (cases "?f (2 * Suc j) = ?f (Suc j)")
    case True
    then show ?thesis by (simp only: step simp_thms if_True)
  next
    case False
    then have "Suc j \<noteq> k" using meet by metis
    then have "check_fwd h lst (?f (2 * Suc j)) (?f (Suc j)) = Some (-1)"
      using less.prems by (intro less) auto
    then show ?thesis using False by (simp only: step if_False)
  qed
qed

text \<open>
  On a list whose forward chain never reaches the end (a node was linked twice, say), the
  loop check also ends, and reports the loop.
\<close>

theorem lst_check_detects_loop:
  assumes "lst \<noteq> 0" and "\<And>i. (dl_next h ^^ Suc i) lst \<notin> {0, tail_of lst}"
  shows "lst_check lst h = Some (-1)"
proof -
  let ?p = "dl_next h lst"
  have inf: "(dl_next h ^^ i) ?p \<notin> {0, tail_of lst}" for i
    using assms(2) [of i] by (simp add: funpow_swap1)
  obtain k where k: "0 < k" "(dl_next h ^^ (2 * k)) ?p = (dl_next h ^^ k) ?p"
    by (rule iterates_meet)
  have "check_fwd h lst ?p ?p = Some (-1)"
    using check_fwd_loop [of h ?p lst, OF inf k(2) k(1)] by simp
  then show ?thesis using assms(1) by (simp add: lst_check_def lst_check_loop_def mem_defs)
qed

theorem lst_check_detects_loop_witness:
  "lst_check 64 \<lparr>dl_prev = (\<lambda>p. 0), dl_next = (\<lambda>p. if p = 128 then 256 else 128)\<rparr> = Some (-1)"
proof (rule lst_check_detects_loop)
  let ?h = "\<lparr>dl_prev = (\<lambda>p. 0), dl_next = (\<lambda>p. if p = 128 then 256 else 128)\<rparr> :: dl_heap"
  fix i
  have "(dl_next ?h ^^ Suc i) 64 = 128 \<or> (dl_next ?h ^^ Suc i) 64 = 256"
    by (induction i) auto
  then show "(dl_next ?h ^^ Suc i) 64 \<notin> {0, tail_of 64}" by auto
qed simp

section \<open>The interface the clients use\<close>

text \<open>
  What hash table, timer wheel and memory pools rely on: a heap that represents lists
  at addresses, operations that act on one list as the list operations of HOL do, and a
  frame: what an operation leaves alone.
\<close>

locale intrusive_list =
  fixes rep :: "'h \<Rightarrow> ptr \<Rightarrow> ptr list \<Rightarrow> bool"
    and nodes :: "ptr \<Rightarrow> ptr list \<Rightarrow> ptr list"
    and same :: "ptr set \<Rightarrow> 'h \<Rightarrow> 'h \<Rightarrow> bool"
    and push_back :: "ptr \<Rightarrow> ptr \<Rightarrow> 'h \<Rightarrow> (int \<times> 'h) option"
    and push_front :: "ptr \<Rightarrow> ptr \<Rightarrow> 'h \<Rightarrow> (int \<times> 'h) option"
    and pop_front :: "ptr \<Rightarrow> 'h \<Rightarrow> (ptr \<times> 'h) option"
    and remove :: "ptr \<Rightarrow> ptr \<Rightarrow> 'h \<Rightarrow> (int \<times> 'h) option"
  assumes rep_same: "same (set (nodes lst xs)) h h' \<Longrightarrow> rep h' lst xs \<longleftrightarrow> rep h lst xs"
    and same_trans: "same S h h' \<Longrightarrow> same S h' h'' \<Longrightarrow> same S h h''"
    and same_subset: "same S h h' \<Longrightarrow> T \<subseteq> S \<Longrightarrow> same T h h'"
    and same_refl: "same S h h"
    and nodes_mem: "set xs \<subseteq> set (nodes lst xs)"
    and nodes_insert: "set (nodes lst (ys @ x # zs)) = insert x (set (nodes lst (ys @ zs)))"
    and rep_nodes: "rep h lst xs \<Longrightarrow> distinct xs \<and> 0 \<notin> set (nodes lst xs)"
    and node_fresh: "rep h lst (ys @ x # zs) \<Longrightarrow> x \<notin> set (nodes lst (ys @ zs))"
    and push_back_rep: "rep h lst xs \<Longrightarrow> x \<notin> set (nodes lst xs) \<Longrightarrow> x \<noteq> 0 \<Longrightarrow>
      \<exists>h'. push_back lst x h = Some (0, h') \<and> rep h' lst (xs @ [x]) \<and> same (- set (nodes lst (xs @ [x]))) h h'"
    and push_front_rep: "rep h lst xs \<Longrightarrow> x \<notin> set (nodes lst xs) \<Longrightarrow> x \<noteq> 0 \<Longrightarrow>
      \<exists>h'. push_front lst x h = Some (0, h') \<and> rep h' lst (x # xs) \<and> same (- set (nodes lst (x # xs))) h h'"
    and pop_front_rep: "rep h lst (x # xs) \<Longrightarrow>
      \<exists>h'. pop_front lst h = Some (x, h') \<and> rep h' lst xs \<and> same (- set (nodes lst (x # xs))) h h'"
    and pop_front_empty: "rep h lst [] \<Longrightarrow> pop_front lst h = Some (0, h)"
    and remove_rep: "rep h lst xs \<Longrightarrow> x \<in> set xs \<Longrightarrow>
      \<exists>h'. remove lst x h = Some (0, h') \<and> rep h' lst (remove1 x xs) \<and> same (- set (nodes lst xs)) h h'"
begin

definition disjoint :: "ptr \<Rightarrow> ptr list \<Rightarrow> ptr \<Rightarrow> ptr list \<Rightarrow> bool" where
  "disjoint a xs b ys \<longleftrightarrow> set (nodes a xs) \<inter> set (nodes b ys) = {}"

lemma rep_frame:
  "rep h b ys \<Longrightarrow> same (- set (nodes a xs)) h h' \<Longrightarrow> disjoint a xs b ys \<Longrightarrow> rep h' b ys"
  using rep_same [of b ys h h'] same_subset [of "- set (nodes a xs)" h h' "set (nodes b ys)"]
  by (auto simp: disjoint_def)

text \<open>The move of the first node of one list to the front of another, as allocators do.\<close>

lemma move_front:
  assumes "rep h a (x # xs)" and "rep h b ys" and "disjoint a (x # xs) b ys"
  shows "\<exists>h1 h2. pop_front a h = Some (x, h1) \<and> push_front b x h1 = Some (0, h2)
           \<and> rep h2 a xs \<and> rep h2 b (x # ys)"
proof -
  obtain h1 where h1: "pop_front a h = Some (x, h1)" "rep h1 a xs" "same (- set (nodes a (x # xs))) h h1"
    using pop_front_rep [OF assms(1)] by blast
  have b: "rep h1 b ys" using rep_frame [OF assms(2) h1(3) assms(3)] .
  have ins: "set (nodes a (x # xs)) = insert x (set (nodes a xs))"
    "set (nodes b (x # ys)) = insert x (set (nodes b ys))"
    using nodes_insert [of a "[]" x xs] nodes_insert [of b "[]" x ys] by simp_all
  have x: "x \<noteq> 0" using rep_nodes [OF assms(1)] ins by auto
  have nb: "x \<notin> set (nodes b ys)" using assms(3) ins by (auto simp: disjoint_def)
  obtain h2 where h2: "push_front b x h1 = Some (0, h2)" "rep h2 b (x # ys)" "same (- set (nodes b (x # ys))) h1 h2"
    using push_front_rep [OF b nb x] by blast
  have "x \<notin> set (nodes a xs)" using node_fresh [of h a "[]" x xs] assms(1) by simp
  then have "disjoint b (x # ys) a xs"
    using assms(1,3) ins by (auto simp: disjoint_def)
  then have "rep h2 a xs" using rep_frame [OF h1(2) h2(3)] by blast
  with h1 h2 show ?thesis by blast
qed

text \<open>Pushing the nodes of an array one after the other, as the pools do to fill their free lists.\<close>

fun push_all :: "ptr \<Rightarrow> ptr list \<Rightarrow> 'h \<Rightarrow> 'h option" where
  "push_all lst [] h = Some h"
| "push_all lst (x # xs) h = Option.bind (push_back lst x h) (\<lambda>(r, h). push_all lst xs h)"

lemma push_all_rep:
  assumes "rep h lst ys" and "distinct xs" and "set xs \<inter> set (nodes lst ys) = {}" and "0 \<notin> set xs"
  shows "\<exists>h'. push_all lst xs h = Some h' \<and> rep h' lst (ys @ xs) \<and> same (- (set xs \<union> set (nodes lst ys))) h h'"
  using assms
proof (induction xs arbitrary: ys h)
  case Nil
  then show ?case by (auto simp: same_refl)
next
  case (Cons x xs)
  then obtain h1 where h1: "push_back lst x h = Some (0, h1)" "rep h1 lst (ys @ [x])"
    "same (- set (nodes lst (ys @ [x]))) h h1"
    using push_back_rep [of h lst ys x] by auto
  have ins: "set (nodes lst (ys @ [x])) = insert x (set (nodes lst ys))"
    using nodes_insert [of lst ys x "[]"] by simp
  obtain h2 where h2: "push_all lst xs h1 = Some h2" "rep h2 lst ((ys @ [x]) @ xs)"
    "same (- (set xs \<union> set (nodes lst (ys @ [x])))) h1 h2"
    using Cons.IH [OF h1(2)] Cons.prems ins by auto
  have "same (- (set (x # xs) \<union> set (nodes lst ys))) h h2"
  proof (rule same_trans)
    show "same (- (set (x # xs) \<union> set (nodes lst ys))) h h1"
      by (rule same_subset [OF h1(3)]) (use ins in auto)
    show "same (- (set (x # xs) \<union> set (nodes lst ys))) h1 h2"
      by (rule same_subset [OF h2(3)]) (use ins in auto)
  qed
  with h1 h2 show ?case by auto
qed

text \<open>First in, first out: nodes pushed at the back come out at the front in their order.\<close>

fun pop_all :: "ptr \<Rightarrow> nat \<Rightarrow> 'h \<Rightarrow> (ptr list \<times> 'h) option" where
  "pop_all lst 0 h = Some ([], h)"
| "pop_all lst (Suc n) h =
     Option.bind (pop_front lst h) (\<lambda>(x, h). Option.bind (pop_all lst n h) (\<lambda>(xs, h). Some (x # xs, h)))"

lemma pop_all_rep: "rep h lst xs \<Longrightarrow> \<exists>h'. pop_all lst (length xs) h = Some (xs, h') \<and> rep h' lst []"
proof (induction xs arbitrary: h)
  case (Cons x xs)
  obtain h1 where h1: "pop_front lst h = Some (x, h1)" "rep h1 lst xs"
    using pop_front_rep [OF Cons.prems] by blast
  with Cons.IH [OF h1(2)] show ?case by auto
qed simp

lemma fifo:
  assumes "rep h lst []" and "distinct xs" and "set xs \<inter> set (nodes lst []) = {}" and "0 \<notin> set xs"
  shows "\<exists>h1 h2. push_all lst xs h = Some h1 \<and> pop_all lst (length xs) h1 = Some (xs, h2) \<and> rep h2 lst []"
proof -
  obtain h1 where h1: "push_all lst xs h = Some h1" "rep h1 lst xs"
    using push_all_rep [OF assms] by auto
  with pop_all_rep [OF h1(2)] show ?thesis by blast
qed

end

interpretation dl: intrusive_list dl_list dl_nodes dl_same lst_push_back lst_push_front lst_pop_front lst_remove
proof unfold_locales
  fix lst xs ys x zs and h :: dl_heap
  show "set (dl_nodes lst (ys @ x # zs)) = insert x (set (dl_nodes lst (ys @ zs)))"
    by (auto simp: dl_nodes_def)
  show "dl_list h lst xs \<Longrightarrow> distinct xs \<and> 0 \<notin> set (dl_nodes lst xs)"
    by (auto simp: dl_list_def dl_nodes_def)
  show "dl_list h lst (ys @ x # zs) \<Longrightarrow> x \<notin> set (dl_nodes lst (ys @ zs))"
    by (auto simp: dl_list_def dl_nodes_def)
  show "dl_list h lst xs \<Longrightarrow> x \<in> set xs \<Longrightarrow>
      \<exists>h'. lst_remove lst x h = Some (0, h') \<and> dl_list h' lst (remove1 x xs) \<and> dl_same (- set (dl_nodes lst xs)) h h'"
    using lst_remove_list by blast
  show "dl_list h lst (x # xs) \<Longrightarrow>
      \<exists>h'. lst_pop_front lst h = Some (x, h') \<and> dl_list h' lst xs \<and> dl_same (- set (dl_nodes lst (x # xs))) h h'"
    using lst_pop_front_ok by blast
  show "dl_same (set (dl_nodes lst xs)) h h' \<Longrightarrow> dl_list h' lst xs \<longleftrightarrow> dl_list h lst xs" for h'
    by (rule dl_list_same)
  show "dl_list h lst [] \<Longrightarrow> lst_pop_front lst h = Some (0, h)"
    by (rule lst_pop_empty)
  show "dl_same S h h' \<Longrightarrow> dl_same S h' h'' \<Longrightarrow> dl_same S h h''" for S h' h''
    by (rule dl_same_trans)
  show "dl_same S h h' \<Longrightarrow> T \<subseteq> S \<Longrightarrow> dl_same T h h'" for S T h'
    by (rule dl_same_subset)
  show "set xs \<subseteq> set (dl_nodes lst xs)" by (auto simp: dl_nodes_def)
qed (erule lst_push_back_ok lst_push_front_ok; assumption | rule dl_same_refl)+

section \<open>Lists as sequences\<close>

text \<open>
  C21. A new list is a queue: nodes pushed at its back come out at its front in the same order,
  and the list is empty again.
\<close>

theorem lst_fifo:
  assumes "lst \<noteq> 0" and "tail_of lst \<noteq> 0"
    and "distinct xs" and "set xs \<inter> {lst, tail_of lst} = {}" and "0 \<notin> set xs"
  shows "\<exists>h0 h1 h2. lst_new lst h = Some (0, h0) \<and> dl.push_all lst xs h0 = Some h1 \<and>
    dl.pop_all lst (length xs) h1 = Some (xs, h2) \<and> lst_empty lst h2 = Some True"
proof -
  obtain h0 where h0: "lst_new lst h = Some (0, h0)" "dl_list h0 lst []"
    using lst_new_ok [OF assms(1,2)] by blast
  obtain h1 h2 where h2: "dl.push_all lst xs h0 = Some h1" "dl.pop_all lst (length xs) h1 = Some (xs, h2)"
    "dl_list h2 lst []"
    using dl.fifo [OF h0(2) assms(3) _ assms(5)] assms(4) by (auto simp: dl_nodes_def)
  show ?thesis using h0(1) h2 lst_empty_ok [OF h2(3)] by auto
qed

definition dl_heap0 :: dl_heap where
  "dl_heap0 = \<lparr>dl_prev = \<lambda>_. 0, dl_next = \<lambda>_. 0\<rparr>"

theorem lst_fifo_witness:
  "\<exists>h0 h1 h2. lst_new 64 dl_heap0 = Some (0, h0) \<and> dl.push_all 64 [160, 128, 192] h0 = Some h1 \<and>
    dl.pop_all 64 (length [160, 128, 192 :: ptr]) h1 = Some ([160, 128, 192], h2) \<and> lst_empty 64 h2 = Some True"
  by (rule lst_fifo) simp_all

text \<open>
  C25. A node inserted behind any node of a list, the head included, stands directly behind it, and
  every other list is as before; removing the node gives the list back.
\<close>

theorem lst_insert_remove:
  assumes "dl_list h lst (ys @ zs)" and "node \<notin> set (dl_nodes lst (ys @ zs))" and "node \<noteq> 0"
    and "dl_list h other ws" and "set (dl_nodes other ws) \<inter> set (dl_nodes lst (ys @ node # zs)) = {}"
  shows "\<exists>h1 h2. lst_insert_after lst (last (lst # ys)) node h = Some (0, h1) \<and>
     lst_insert_before lst (hd (zs @ [tail_of lst])) node h = Some (0, h1) \<and>
     dl_list h1 lst (ys @ node # zs) \<and> dl_list h1 other ws \<and>
     lst_remove lst node h1 = Some (0, h2) \<and> dl_list h2 lst (ys @ zs) \<and> dl_list h2 other ws"
proof -
  let ?h1 = "dl_link (last (lst # ys)) node (hd (zs @ [tail_of lst])) h"
  have h1: "dl_list ?h1 lst (ys @ node # zs)" by (rule dl_list_link [OF assms(1-3)])
  have "last (lst # ys) \<in> set (dl_nodes lst (ys @ node # zs))" "hd (zs @ [tail_of lst]) \<in> set (dl_nodes lst (ys @ node # zs))"
    using hd_snoc_mem [of zs "tail_of lst"] last_Cons_mem [of lst ys] by (auto simp: dl_nodes_def)
  then have "dl_same (- set (dl_nodes lst (ys @ node # zs))) h ?h1"
    by (auto simp: dl_nodes_def dl_link_def dl_same_def)
  then have o1: "dl_list ?h1 other ws"
    by (rule dl.rep_frame [OF assms(4)]) (use assms(5) in \<open>simp only: dl.disjoint_def Int_commute\<close>)
  have "node \<notin> set ys" using assms(2) by (simp add: dl_nodes_def)
  then obtain h2 where h2: "lst_remove lst node ?h1 = Some (0, h2)" "dl_list h2 lst (ys @ zs)"
    "dl_same (- set (dl_nodes lst (ys @ node # zs))) ?h1 h2"
    using lst_remove_list [OF h1, of node] by auto
  have "dl_list h2 other ws"
    by (rule dl.rep_frame [OF o1 h2(3)]) (use assms(5) in \<open>simp only: dl.disjoint_def Int_commute\<close>)
  then show ?thesis
    using lst_insert_after_ok [OF assms(1-3)] lst_insert_before_ok [OF assms(1-3)] h1 o1 h2 by blast
qed

theorem lst_insert_remove_witness:
  "\<exists>h h1 h2. lst_insert_after 64 128 256 h = Some (0, h1) \<and> dl_list h1 64 [128, 256, 192] \<and>
     lst_remove 64 256 h1 = Some (0, h2) \<and> dl_list h2 64 [128, 192]"
proof -
  let ?h = "\<lparr>dl_prev = (\<lambda>p. if p = 80 then 192 else if p = 192 then 128 else if p = 128 then 64
                          else if p = 336 then 320 else 0),
             dl_next = (\<lambda>p. if p = 64 then 128 else if p = 128 then 192 else if p = 192 then 80
                          else if p = 320 then 336 else 0)\<rparr>"
  have "dl_list ?h 64 ([128] @ [192])" "dl_list ?h 320 []"
    by (simp_all add: dl_list_def dl_nodes_def)
  then show ?thesis
    using lst_insert_remove [of ?h 64 "[128]" "[192]" 256 320 "[]"] by (simp add: dl_nodes_def) blast
qed

text \<open>
  Moving the first node of one list to the front of another, as the memory pools do when they
  recycle a block, keeps both lists and every node.
\<close>

theorem lst_move_front:
  assumes "dl_list h a (x # xs)" and "dl_list h b ys"
    and "set (dl_nodes a (x # xs)) \<inter> set (dl_nodes b ys) = {}"
  shows "\<exists>h1 h2. lst_pop_front a h = Some (x, h1) \<and> lst_push_front b x h1 = Some (0, h2) \<and>
    dl_list h2 a xs \<and> dl_list h2 b (x # ys)"
  using dl.move_front [OF assms(1,2)] assms(3) by (simp add: dl.disjoint_def)

theorem lst_move_front_witness:
  "\<exists>h h1 h2. lst_pop_front 64 h = Some (128, h1) \<and> lst_push_front 320 128 h1 = Some (0, h2) \<and>
    dl_list h2 64 [] \<and> dl_list h2 320 [128]"
proof -
  let ?h = "\<lparr>dl_prev = (\<lambda>p. if p = 80 then 128 else if p = 128 then 64 else if p = 336 then 320 else 0),
             dl_next = (\<lambda>p. if p = 64 then 128 else if p = 128 then 80 else if p = 320 then 336 else 0)\<rparr>"
  have "dl_list ?h 64 [128]" "dl_list ?h 320 []"
    by (simp_all add: dl_list_def dl_nodes_def)
  then show ?thesis
    using lst_move_front [of ?h 64 128 "[]" 320 "[]"] by (simp add: dl_nodes_def) blast
qed

end
