(* ===== verification/Ringbuf.thy ===== *)
theory Ringbuf
  imports Misc
begin

text \<open>
  The ring buffer of \<open>src/src/ringbuf.c\<close>: \<open>rbuf_reset\<close>, \<open>rbuf_write_block\<close> and
  \<open>rbuf_read_block\<close> over a byte memory.

  \<open>struct _ring_buf_impl\<close> is the record \<open>ring_buf_impl\<close>; the offsets (\<open>long\<close>) are integers,
  the size (\<open>unsigned long\<close>) is a word, and where the code compares the two the comparison is
  the unsigned one.  \<open>rings\<close> maps the address of a descriptor to its value.
\<close>

record ring_buf_impl =
  rb_addr_begin :: ptr
  ring_size :: u64
  r_offset :: int
  w_offset :: int

record rb_state =
  rings :: "ptr \<Rightarrow> ring_buf_impl"
  rb_mem :: bytes

text \<open>\<open>memcpy\<close> with a \<open>long\<close> length: a negative one becomes a huge \<open>size_t\<close>.\<close>

definition memcpy_long :: "ptr \<Rightarrow> ptr \<Rightarrow> int \<Rightarrow> bytes \<Rightarrow> bytes option" where
  "memcpy_long dst src n m = (if n < 0 then None else Some (memcpy dst src (word_of_int n) m))"

definition rbuf_reset :: "ptr \<Rightarrow> rb_state \<Rightarrow> int \<times> rb_state" where
  "rbuf_reset rbuf s =
     (if rbuf = 0 then (-1, s)
      else (0, s\<lparr>rings := (rings s)(rbuf := (rings s rbuf)\<lparr>r_offset := 0, w_offset := 0\<rparr>)\<rparr>))"

definition rbuf_write_block :: "ptr \<Rightarrow> ptr \<Rightarrow> int \<Rightarrow> rb_state \<Rightarrow> (int \<times> rb_state) option" where
  "rbuf_write_block rbuf data datalen s =
     (if rbuf = 0 \<or> rb_addr_begin (rings s rbuf) = 0 then Some (-1, s)
      else
        let rbi = rings s rbuf; base = rb_addr_begin rbi; sz = ring_size rbi;
            r = r_offset rbi; w = w_offset rbi;
            done = (\<lambda>w' m'. Some (0, s\<lparr>rings := (rings s)(rbuf := rbi\<lparr>w_offset := w'\<rparr>), rb_mem := m'\<rparr>))
        in if w < r
           then if r - w < datalen then Some (-1, s)
                else do { m \<leftarrow> memcpy_long (base + word_of_int w) data datalen (rb_mem s);
                          done (w + datalen) m }
           else if word_of_int (w + datalen) < word_of_int r + sz
           then let remain = sint (sz - word_of_int w)
                in if datalen \<le> remain
                   then do { m \<leftarrow> memcpy_long (base + word_of_int w) data datalen (rb_mem s);
                             done (w + datalen) m }
                   else let remain2 = datalen - remain
                        in do { m \<leftarrow> memcpy_long (base + word_of_int w) data remain (rb_mem s);
                                m \<leftarrow> memcpy_long base (data + word_of_int remain) remain2 m;
                                done remain2 m }
           else Some (-1, s))"

definition rbuf_read_block :: "ptr \<Rightarrow> ptr \<Rightarrow> int \<Rightarrow> rb_state \<Rightarrow> (int \<times> rb_state) option" where
  "rbuf_read_block rbuf buf readlen s =
     (if rbuf = 0 \<or> rb_addr_begin (rings s rbuf) = 0 then Some (-1, s)
      else
        let rbi = rings s rbuf; base = rb_addr_begin rbi; sz = ring_size rbi;
            r = r_offset rbi; w = w_offset rbi;
            done = (\<lambda>r' m'. Some (0, s\<lparr>rings := (rings s)(rbuf := rbi\<lparr>r_offset := r'\<rparr>), rb_mem := m'\<rparr>))
        in if r \<le> w
           then if w - r < readlen then Some (-1, s)
                else do { m \<leftarrow> memcpy_long buf (base + word_of_int r) readlen (rb_mem s);
                          done (r + readlen) m }
           else if word_of_int (r + readlen) < word_of_int w + sz
           then let remain = sint (sz - word_of_int r)
                in if readlen \<le> remain
                   then do { m \<leftarrow> memcpy_long buf (base + word_of_int r) readlen (rb_mem s);
                             done (r + readlen) m }
                   else let remain2 = readlen - remain
                        in do { m \<leftarrow> memcpy_long buf (base + word_of_int r) remain (rb_mem s);
                                m \<leftarrow> memcpy_long (buf + word_of_int remain) base remain2 m;
                                done remain2 m }
           else Some (-1, s))"

section \<open>Bytes at an address\<close>

definition bytes_at :: "bytes \<Rightarrow> ptr \<Rightarrow> nat \<Rightarrow> byte list" where
  "bytes_at m p n = map (\<lambda>i. m (p + of_nat i)) [0..<n]"

text \<open>\<open>apart p m q n\<close>: the two regions have no address in common.\<close>

definition apart :: "ptr \<Rightarrow> nat \<Rightarrow> ptr \<Rightarrow> nat \<Rightarrow> bool" where
  "apart p m q n \<longleftrightarrow> unat p + m \<le> unat q \<and> unat q + n \<le> 2 ^ 64 \<or> unat q + n \<le> unat p \<and> unat p + m \<le> 2 ^ 64"

lemma length_bytes_at [simp]: "length (bytes_at m p n) = n"
  by (simp add: bytes_at_def)

lemma bytes_at_0 [simp]: "bytes_at m p 0 = []"
  by (simp add: bytes_at_def)

lemma bytes_at_append: "bytes_at m p (a + b) = bytes_at m p a @ bytes_at m (p + of_nat a) b"
proof -
  have "map f [0..<a + b] = map f [0..<a] @ map (\<lambda>i. f (a + i)) [0..<b]" for f :: "nat \<Rightarrow> byte"
    by (rule nth_equalityI) (auto simp: nth_append)
  from this [of "\<lambda>i. m (p + of_nat i)"] show ?thesis
    by (simp add: bytes_at_def add.assoc)
qed

lemma bytes_at_cong: "(\<And>i. i < n \<Longrightarrow> m' (p + of_nat i) = m (q + of_nat i)) \<Longrightarrow> bytes_at m' p n = bytes_at m q n"
  by (simp add: bytes_at_def)

lemma unat_of_nat_small: "n < 2 ^ 64 \<Longrightarrow> unat (of_nat n :: u64) = n"
  by (simp add: unat_of_nat)

lemma unat_add_of_nat: "unat p + n < 2 ^ 64 \<Longrightarrow> unat (p + of_nat n :: u64) = unat p + n"
  by (simp add: unat_word_ariths unat_of_nat)

text \<open>What a copy of \<open>n\<close> bytes leaves at its destination, and what it leaves alone.\<close>

lemma memcpy_dst:
  assumes "n < 2 ^ 64" shows "bytes_at (memcpy dst src (of_nat n) m) dst n = bytes_at m src n"
proof (rule bytes_at_cong)
  fix i assume "i < n"
  then have "(of_nat i :: u64) < of_nat n" using assms by (simp add: word_less_nat_alt unat_of_nat_small)
  then show "memcpy dst src (of_nat n) m (dst + of_nat i) = m (src + of_nat i)"
    by (simp add: memcpy_def)
qed

lemma memcpy_other:
  assumes "unat dst + n \<le> 2 ^ 64" and "unat a < unat dst \<or> unat dst + n \<le> unat a"
  shows "memcpy dst src (of_nat n) m a = m a"
proof (cases "n = 0")
  case True
  then show ?thesis by (simp add: memcpy_def)
next
  case False
  show ?thesis
  proof (cases "n = 2 ^ 64")
    case True
    then have "unat dst = 0" using assms(1) by simp
    then show ?thesis using assms(2) True unat_less [of a] by simp
  next
    case n: False
    then have n: "n < 2 ^ 64" using assms(1) by linarith
    have "\<not> a - dst < of_nat n"
      using assms n False unat_less [of a] unat_less [of dst]
      by (auto simp: word_less_nat_alt unat_of_nat_small unat_sub_if')
    then show ?thesis by (simp add: memcpy_def)
  qed
qed

lemma memcpy_apart:
  assumes "apart dst n q k" shows "bytes_at (memcpy dst src (of_nat n) m) q k = bytes_at m q k"
proof (rule bytes_at_cong)
  fix i assume i: "i < k"
  have q: "unat q + k \<le> 2 ^ 64" "unat dst + n \<le> 2 ^ 64" 
    using assms unat_less [of q] unat_less [of dst] by (auto simp: apart_def)
  then have "unat (q + of_nat i) = unat q + i" using i by (intro unat_add_of_nat) simp
  then show "memcpy dst src (of_nat n) m (q + of_nat i) = m (q + of_nat i)"
    using assms i q by (intro memcpy_other) (auto simp: apart_def)
qed

lemma memcpy_long_nat:
  "0 \<le> n \<Longrightarrow> memcpy_long dst src n m = Some (memcpy dst src (of_nat (nat n)) m)"
  by (simp add: memcpy_long_def)

section \<open>What a ring buffer holds\<close>

definition ring_inv :: "ring_buf_impl \<Rightarrow> bool" where
  "ring_inv rb \<longleftrightarrow> rb_addr_begin rb \<noteq> 0 \<and> 0 < unat (ring_size rb) \<and> unat (ring_size rb) < 2 ^ 62 \<and>
     unat (rb_addr_begin rb) + unat (ring_size rb) \<le> 2 ^ 64 \<and>
     0 \<le> r_offset rb \<and> r_offset rb \<le> uint (ring_size rb) \<and>
     0 \<le> w_offset rb \<and> w_offset rb \<le> uint (ring_size rb)"

definition ring_content :: "ring_buf_impl \<Rightarrow> bytes \<Rightarrow> byte list" where
  "ring_content rb m =
     (let base = rb_addr_begin rb; r = nat (r_offset rb); w = nat (w_offset rb); sz = unat (ring_size rb)
      in if r \<le> w then bytes_at m (base + of_nat r) (w - r)
         else bytes_at m (base + of_nat r) (sz - r) @ bytes_at m base w)"

definition ring_room :: "ring_buf_impl \<Rightarrow> int" where
  "ring_room rb = (if w_offset rb < r_offset rb then r_offset rb - w_offset rb
                   else uint (ring_size rb) + r_offset rb - w_offset rb)"

text \<open>The offsets of a buffer that satisfies the invariant, as natural numbers.\<close>

lemma ring_inv_nat:
  assumes "ring_inv rb"
  obtains R W Z where "r_offset rb = int R" "w_offset rb = int W" "unat (ring_size rb) = Z"
    "uint (ring_size rb) = int Z" "ring_size rb = of_nat Z"
    "R \<le> Z" "W \<le> Z" "0 < Z" "Z < 2 ^ 62" "unat (rb_addr_begin rb) + Z \<le> 2 ^ 64" "rb_addr_begin rb \<noteq> 0"
proof -
  show thesis
    by (rule that [of "nat (r_offset rb)" "nat (w_offset rb)" "unat (ring_size rb)"])
       (use assms in \<open>auto simp: ring_inv_def nat_le_iff\<close>)
qed

lemma ring_compare:
  assumes "a < 2 ^ 63" and "b + z < (2 :: nat) ^ 64" "z < 2 ^ 63"
  shows "(word_of_int (int a) :: u64) < word_of_int (int b) + of_nat z \<longleftrightarrow> a < b + z"
proof -
  have "(word_of_int (int a) :: u64) = of_nat a" "(word_of_int (int b) :: u64) + of_nat z = of_nat (b + z)"
    by simp_all
  moreover have "unat (of_nat a :: u64) = a" "unat (of_nat (b + z) :: u64) = b + z"
    using assms by (simp_all only: unat_of_nat_small)
       (auto intro!: unat_of_nat_small)
  ultimately show ?thesis by (simp only: word_less_nat_alt)
qed

lemma ring_remain:
  assumes "w \<le> z" and "z < 2 ^ 62"
  shows "sint (of_nat z - word_of_int (int w) :: u64) = int (z - w)"
proof -
  have "(of_nat z :: u64) - word_of_int (int w) = of_nat (z - w)" using assms(1) by (simp add: of_nat_diff)
  moreover have "uint (of_nat (z - w) :: u64) = int (z - w)"
  proof -
    have "z - w < 2 ^ 64" using assms(2) by (rule order.strict_trans1 [rotated, OF less_trans]) simp_all
    then show ?thesis by (simp only: uint_nat unat_of_nat_small)
  qed
  moreover have "uint (of_nat (z - w) :: u64) < 2 ^ 63"
    using assms calculation by simp
  ultimately show ?thesis by (simp add: sint_eq_uint_small)
qed

text \<open>Copies inside a region \<open>base .. base + Z\<close>, and between it and a region apart from it.\<close>

lemma copy_inside:
  assumes "unat base + Z \<le> 2 ^ 64" and "b + n \<le> Z" and "a + l \<le> Z" and "a + l \<le> b \<or> b + n \<le> a"
  shows "bytes_at (memcpy (base + of_nat b) src (of_nat n) m) (base + of_nat a) l
       = bytes_at m (base + of_nat a) l"
proof (cases "n = 0 \<or> l = 0")
  case False
  then have "unat (base + of_nat b) = unat base + b" "unat (base + of_nat a) = unat base + a"
    using assms by (auto intro!: unat_add_of_nat)
  then show ?thesis using assms by (intro memcpy_apart) (auto simp: apart_def)
qed (auto simp: memcpy_def)

lemma copy_apart:
  assumes "apart base Z d N" and "b + n \<le> Z" and "k + l \<le> N"
  shows "bytes_at (memcpy (base + of_nat b) src (of_nat n) m) (d + of_nat k) l = bytes_at m (d + of_nat k) l"
    and "bytes_at (memcpy (d + of_nat k) src (of_nat l) m) (base + of_nat b) n = bytes_at m (base + of_nat b) n"
proof -
  have z: "unat base + Z \<le> 2 ^ 64" "unat d + N \<le> 2 ^ 64"
    using assms(1) unat_less [of base] unat_less [of d] by (auto simp: apart_def)
  have "n \<noteq> 0 \<Longrightarrow> unat (base + of_nat b) = unat base + b"
    using z assms by (intro unat_add_of_nat) simp
  moreover have "l \<noteq> 0 \<Longrightarrow> unat (d + of_nat k) = unat d + k"
    using z assms by (intro unat_add_of_nat) simp
  ultimately have "n \<noteq> 0 \<Longrightarrow> l \<noteq> 0 \<Longrightarrow> apart (base + of_nat b) n (d + of_nat k) l"
    and "n \<noteq> 0 \<Longrightarrow> l \<noteq> 0 \<Longrightarrow> apart (d + of_nat k) l (base + of_nat b) n"
    using assms z by (auto simp: apart_def)
  then show "bytes_at (memcpy (base + of_nat b) src (of_nat n) m) (d + of_nat k) l = bytes_at m (d + of_nat k) l"
    and "bytes_at (memcpy (d + of_nat k) src (of_nat l) m) (base + of_nat b) n = bytes_at m (base + of_nat b) n"
    using memcpy_apart by (cases "n = 0 \<or> l = 0"; auto simp: memcpy_def)+
qed

definition mem_outside :: "ptr \<Rightarrow> nat \<Rightarrow> bytes \<Rightarrow> bytes \<Rightarrow> bool" where
  "mem_outside base Z m m' \<longleftrightarrow> (\<forall>a. unat a < unat base \<or> unat base + Z \<le> unat a \<longrightarrow> m' a = m a)"

lemma copy_outside:
  assumes "unat base + Z \<le> 2 ^ 64" and "b + n \<le> Z"
  shows "mem_outside base Z m (memcpy (base + of_nat b) src (of_nat n) m)"
proof (cases "n = 0")
  case False
  then have "unat (base + of_nat b) = unat base + b" using assms by (intro unat_add_of_nat) simp
  then show ?thesis using assms by (auto simp: mem_outside_def intro!: memcpy_other)
qed (simp add: mem_outside_def memcpy_def)

lemma mem_outside_trans: "mem_outside b Z m m' \<Longrightarrow> mem_outside b Z m' m'' \<Longrightarrow> mem_outside b Z m m''"
  by (simp add: mem_outside_def)

lemma copied_in:
  assumes "unat base + Z \<le> 2 ^ 64" and "b + n \<le> Z" and "n < 2 ^ 64"
  shows "bytes_at (memcpy (base + of_nat b) src (of_nat n) m) (base + of_nat b) n = bytes_at m src n"
  using assms by (intro memcpy_dst)

text \<open>Writing \<open>N\<close> bytes behind the \<open>W - R\<close> ones the buffer holds in one piece.\<close>

lemma write_linear:
  assumes z: "unat base + Z \<le> 2 ^ 64" and "R \<le> W" and "W + N \<le> Z" and "N < 2 ^ 64"
  shows "bytes_at (memcpy (base + of_nat W) src (of_nat N) m) (base + of_nat R) (W + N - R)
       = bytes_at m (base + of_nat R) (W - R) @ bytes_at m src N"
proof -
  have e: "W + N - R = (W - R) + N" using assms by simp
  have p: "base + of_nat R + of_nat (W - R) = (base + of_nat W :: u64)" using assms(2) by simp
  show ?thesis
    unfolding e bytes_at_append p
    using copy_inside [OF z, of W N R "W - R"] copied_in [OF z, of W N] assms by simp
qed

text \<open>Reading \<open>N\<close> of \<open>K\<close> bytes leaves the last \<open>K - N\<close>.\<close>

lemma bytes_at_drop:
  assumes "N \<le> K" shows "bytes_at m p K = bytes_at m p N @ bytes_at m (p + of_nat N) (K - N)"
  using bytes_at_append [of m p N "K - N"] assms by simp

section \<open>Writing\<close>

text \<open>\<open>ring_put rbuf w' m' s\<close> is the state with a new write offset and memory, as the code leaves it.\<close>

definition ring_put :: "ptr \<Rightarrow> int \<Rightarrow> bytes \<Rightarrow> rb_state \<Rightarrow> rb_state" where
  "ring_put rbuf w' m' s =
     s\<lparr>rings := (rings s)(rbuf := (rings s rbuf)\<lparr>w_offset := w'\<rparr>), rb_mem := m'\<rparr>"

lemma ring_put_sel [simp]:
  "rb_mem (ring_put rbuf w' m' s) = m'"
  "rings (ring_put rbuf w' m' s) = (rings s)(rbuf := (rings s rbuf)\<lparr>w_offset := w'\<rparr>)"
  by (simp_all add: ring_put_def)

text \<open>The descriptor at \<open>rbuf\<close>, its offsets read as natural numbers.\<close>

definition ring_at :: "ptr \<Rightarrow> rb_state \<Rightarrow> ptr \<Rightarrow> nat \<Rightarrow> nat \<Rightarrow> nat \<Rightarrow> bool" where
  "ring_at rbuf s base R W Z \<longleftrightarrow> rbuf \<noteq> 0 \<and> base \<noteq> 0 \<and> rb_addr_begin (rings s rbuf) = base \<and>
     r_offset (rings s rbuf) = int R \<and> w_offset (rings s rbuf) = int W \<and>
     ring_size (rings s rbuf) = of_nat Z \<and> R \<le> Z \<and> W \<le> Z \<and> 0 < Z \<and> Z < 2 ^ 62 \<and> unat base + Z \<le> 2 ^ 64"

lemma ring_inv_at:
  assumes "ring_inv (rings s rbuf)" and "rbuf \<noteq> 0"
  obtains R W Z where "ring_at rbuf s (rb_addr_begin (rings s rbuf)) R W Z"
    and "unat (ring_size (rings s rbuf)) = Z"
proof -
  obtain R W Z where n: "r_offset (rings s rbuf) = int R" "w_offset (rings s rbuf) = int W"
    "unat (ring_size (rings s rbuf)) = Z" "ring_size (rings s rbuf) = of_nat Z"
    "R \<le> Z" "W \<le> Z" "0 < Z" "Z < 2 ^ 62" "unat (rb_addr_begin (rings s rbuf)) + Z \<le> 2 ^ 64"
    "rb_addr_begin (rings s rbuf) \<noteq> 0"
    using ring_inv_nat [OF assms(1)] by blast
  have "ring_at rbuf s (rb_addr_begin (rings s rbuf)) R W Z"
    unfolding ring_at_def using n assms(2) by blast
  then show thesis using n(3) by (rule that)
qed

lemma ring_at_inv:
  assumes "ring_at rbuf s base R W Z"
  shows "ring_inv (rings s rbuf)" and "unat (ring_size (rings s rbuf)) = Z"
proof -
  have "Z < 2 ^ 64" using assms by (auto simp: ring_at_def)
  then show "unat (ring_size (rings s rbuf)) = Z"
    using assms by (simp only: ring_at_def unat_of_nat_small)
  moreover from this have "uint (ring_size (rings s rbuf)) = int Z" by (simp only: uint_nat)
  ultimately show "ring_inv (rings s rbuf)"
    using assms by (simp only: ring_at_def ring_inv_def) simp
qed

lemma ring_at_content:
  assumes "ring_at rbuf s base R W Z"
  shows "ring_content (rings s rbuf) m =
    (if R \<le> W then bytes_at m (base + of_nat R) (W - R)
     else bytes_at m (base + of_nat R) (Z - R) @ bytes_at m base W)"
  using assms ring_at_inv(2) [OF assms] by (simp add: ring_at_def ring_content_def Let_def)

lemma write_before:
  assumes "ring_at rbuf s base R W Z" and "W < R" "N \<le> R - W"
  shows "rbuf_write_block rbuf data (int N) s
       = Some (0, ring_put rbuf (int (W + N)) (memcpy (base + of_nat W) data (of_nat N) (rb_mem s)) s)"
  using assms
  by (simp add: ring_at_def rbuf_write_block_def memcpy_long_def Let_def ring_put_def)

lemma ring_at_compare:
  assumes "ring_at rbuf s base R W Z" and "a < 2 ^ 63" and "b \<le> Z"
  shows "(word_of_int (int a) :: u64) < word_of_int (int b) + of_nat Z \<longleftrightarrow> a < b + Z"
  using assms by (intro ring_compare) (auto simp: ring_at_def)

lemma write_fits:
  assumes at: "ring_at rbuf s base R W Z" and "R \<le> W" "N \<le> Z - W" "W + N < R + Z"
  shows "rbuf_write_block rbuf data (int N) s
       = Some (0, ring_put rbuf (int (W + N)) (memcpy (base + of_nat W) data (of_nat N) (rb_mem s)) s)"
proof -
  have "(word_of_int (int W + int N) :: u64) < word_of_int (int R) + of_nat Z"
    using ring_at_compare [OF at, of "W + N" R] assms by (simp add: ring_at_def)
  moreover have "int N \<le> int Z - int W" using assms by (auto simp: ring_at_def)
  ultimately show ?thesis
    using assms ring_remain [of W Z]
    by (simp add: ring_at_def rbuf_write_block_def memcpy_long_def Let_def ring_put_def of_nat_diff)
qed

lemma write_wraps:
  assumes at: "ring_at rbuf s base R W Z" and "R \<le> W" "Z - W < N" "W + N < R + Z"
  shows "rbuf_write_block rbuf data (int N) s
       = Some (0, ring_put rbuf (int (N - (Z - W)))
           (memcpy (base + of_nat 0) (data + of_nat (Z - W)) (of_nat (N - (Z - W)))
              (memcpy (base + of_nat W) data (of_nat (Z - W)) (rb_mem s))) s)"
proof -
  have c: "(word_of_int (int W + int N) :: u64) < word_of_int (int R) + of_nat Z"
    using ring_at_compare [OF at, of "W + N" R] assms by (simp add: ring_at_def)
  have r: "sint (of_nat Z - word_of_int (int W) :: u64) = int (Z - W)"
    using at by (intro ring_remain) (auto simp: ring_at_def)
  obtain D K where D: "Z - W = D" and K: "N = D + K" "0 < K"
    using assms(3) less_imp_add_positive by blast
  have d: "(of_nat Z :: u64) - of_nat W = of_nat D"
    using at D by (auto simp: ring_at_def)
  have r': "sint (of_nat D :: u64) = int D" using r unfolding D by (simp add: d)
  show ?thesis using at assms(2) c K(2)
    unfolding ring_at_def rbuf_write_block_def Let_def K(1) D
    by (simp add: d r' memcpy_long_def ring_put_def)
qed

lemma write_refused:
  assumes at: "ring_at rbuf s base R W Z" and "N < 2 ^ 62"
    and "if W < R then R - W < N else R + Z \<le> W + N"
  shows "rbuf_write_block rbuf data (int N) s = Some (-1, s)"
proof -
  have "\<not> (word_of_int (int W + int N) :: u64) < word_of_int (int R) + of_nat Z" if "R \<le> W"
    using ring_at_compare [OF at, of "W + N" R] assms that by (simp add: ring_at_def)
  then show ?thesis
    using assms by (auto simp: ring_at_def rbuf_write_block_def Let_def)
qed

lemma ring_put_at:
  assumes "ring_at rbuf s base R W Z" and "W' \<le> Z"
  shows "ring_at rbuf (ring_put rbuf (int W') m' s) base R W' Z"
  using assms by (simp add: ring_at_def)

text \<open>When a block of \<open>n\<close> bytes is accepted.\<close>

definition ring_accepts :: "ring_buf_impl \<Rightarrow> int \<Rightarrow> bool" where
  "ring_accepts rb n \<longleftrightarrow> (if w_offset rb < r_offset rb then n \<le> ring_room rb else n < ring_room rb)"

definition ring_others :: "ptr \<Rightarrow> rb_state \<Rightarrow> rb_state \<Rightarrow> bool" where
  "ring_others rbuf s s' \<longleftrightarrow> (\<forall>p. p \<noteq> rbuf \<longrightarrow> rings s' p = rings s p) \<and>
     (rings s' rbuf)\<lparr>r_offset := 0, w_offset := 0\<rparr> = (rings s rbuf)\<lparr>r_offset := 0, w_offset := 0\<rparr>"

lemma ring_accepts_at:
  assumes "ring_at rbuf s base R W Z"
  shows "ring_accepts (rings s rbuf) (int N) \<longleftrightarrow> (if W < R then N \<le> R - W else W + N < R + Z)"
proof -
  have "uint (ring_size (rings s rbuf)) = int Z"
    using ring_at_inv(2) [OF assms] by (simp only: uint_nat)
  then show ?thesis using assms by (auto simp: ring_accepts_def ring_room_def ring_at_def)
qed

lemma write_accepted:
  assumes at: "ring_at rbuf s base R W Z" and n: "N < 2 ^ 62" and ap: "apart base Z data N"
    and acc: "if W < R then N \<le> R - W else W + N < R + Z"
  shows "\<exists>W' m'. rbuf_write_block rbuf data (int N) s = Some (0, ring_put rbuf (int W') m' s) \<and> W' \<le> Z \<and>
     mem_outside base Z (rb_mem s) m' \<and>
     ring_content ((rings s rbuf)\<lparr>w_offset := int W'\<rparr>) m' =
       (if W < R \<and> N = R - W then []
        else ring_content (rings s rbuf) (rb_mem s) @ bytes_at (rb_mem s) data N)"
proof -
  note a = at [unfolded ring_at_def]
  have z: "unat base + Z \<le> 2 ^ 64" and n64: "N < 2 ^ 64" using a n by auto
  have con: "ring_content ((rings s rbuf)\<lparr>w_offset := int W'\<rparr>) m' =
      (if R \<le> W' then bytes_at m' (base + of_nat R) (W' - R)
       else bytes_at m' (base + of_nat R) (Z - R) @ bytes_at m' base W')" if "W' \<le> Z" for W' m'
    using ring_at_content [OF ring_put_at [OF at that]] by simp
  let ?m1 = "memcpy (base + of_nat W) data (of_nat N) (rb_mem s)"
  consider (before) "W < R" | (fits) "R \<le> W" "N \<le> Z - W" | (wraps) "R \<le> W" "Z - W < N" by linarith
  then show ?thesis
  proof cases
    case before
    have b: "W + N \<le> Z" "W + N \<le> R" "N \<le> R - W" using before acc a by auto
    have "bytes_at ?m1 base (W + N) = bytes_at (rb_mem s) base W @ bytes_at (rb_mem s) data N"
      using write_linear [of base Z 0 W N data "rb_mem s"] z b n64 by simp
    moreover have "bytes_at ?m1 (base + of_nat R) (Z - R) = bytes_at (rb_mem s) (base + of_nat R) (Z - R)"
      using a b by (intro copy_inside [OF z b(1)]) auto
    ultimately show ?thesis
      using write_before [OF at before b(3)] copy_outside [OF z b(1)] con [OF b(1), of ?m1]
        ring_at_content [OF at] before b
      by (intro exI [of _ "W + N"] exI [of _ ?m1]) auto
  next
    case fits
    have b: "W + N \<le> Z" "W + N < R + Z" using fits acc a by auto
    show ?thesis
      using write_fits [OF at fits b(2)] copy_outside [OF z b(1)] con [OF b(1), of ?m1]
        ring_at_content [OF at] fits write_linear [OF z fits(1) b(1) n64] b
      by (intro exI [of _ "W + N"] exI [of _ ?m1]) auto
  next
    case wraps
    let ?D = "Z - W" and ?K = "N - (Z - W)"
    let ?m1 = "memcpy (base + of_nat W) data (of_nat ?D) (rb_mem s)"
    let ?m2 = "memcpy (base + of_nat 0) (data + of_nat ?D) (of_nat ?K) ?m1"
    have b: "W + ?D \<le> Z" "0 + ?K \<le> Z" "?K < R" "?D + ?K = N" "?K < 2 ^ 64" "?D < 2 ^ 64" "W + N < R + Z"
      "W \<le> Z" "R \<le> Z" using wraps acc a n64 by auto
    have "bytes_at ?m2 (base + of_nat R) (Z - R) = bytes_at ?m1 (base + of_nat R) (Z - R)"
      using b by (intro copy_inside [OF z b(2)]) auto
    also have "\<dots> = bytes_at (rb_mem s) (base + of_nat R) (W - R) @ bytes_at (rb_mem s) data ?D"
      using write_linear [OF z wraps(1) b(1) b(6), of data "rb_mem s"] b by simp
    finally have r1: "bytes_at ?m2 (base + of_nat R) (Z - R) = \<dots>" .
    have "bytes_at ?m2 base ?K = bytes_at ?m1 (data + of_nat ?D) ?K"
      using copied_in [OF z b(2) b(5)] by simp
    also have "\<dots> = bytes_at (rb_mem s) (data + of_nat ?D) ?K"
      by (rule copy_apart(1) [OF ap b(1)]) (use b in simp)
    finally have r2: "bytes_at ?m2 base ?K = \<dots>" .
    have "bytes_at (rb_mem s) data N = bytes_at (rb_mem s) data ?D @ bytes_at (rb_mem s) (data + of_nat ?D) ?K"
      using bytes_at_append [of "rb_mem s" data ?D ?K] by (simp only: b(4))
    moreover have "mem_outside base Z (rb_mem s) ?m2"
      using copy_outside [OF z b(1)] copy_outside [OF z b(2)] by (rule mem_outside_trans)
    moreover have "?K \<le> Z" using b(2) by simp
    ultimately show ?thesis
      using write_wraps [OF at wraps b(7)] con [of ?K ?m2] r1 r2 b(3) wraps(1) ring_at_content [OF at]
      by (intro exI [of _ ?K] exI [of _ ?m2]) simp
  qed
qed

section \<open>Reading\<close>

definition ring_take :: "ptr \<Rightarrow> int \<Rightarrow> bytes \<Rightarrow> rb_state \<Rightarrow> rb_state" where
  "ring_take rbuf r' m' s =
     s\<lparr>rings := (rings s)(rbuf := (rings s rbuf)\<lparr>r_offset := r'\<rparr>), rb_mem := m'\<rparr>"

lemma ring_take_simps [simp]:
  "rb_mem (ring_take rbuf r' m' s) = m'"
  "rings (ring_take rbuf r' m' s) rbuf = (rings s rbuf)\<lparr>r_offset := r'\<rparr>"
  "p \<noteq> rbuf \<Longrightarrow> rings (ring_take rbuf r' m' s) p = rings s p"
  by (auto simp: ring_take_def)

lemma ring_take_at:
  assumes "ring_at rbuf s base R W Z" and "R' \<le> Z"
  shows "ring_at rbuf (ring_take rbuf (int R') m' s) base R' W Z"
  using assms by (simp add: ring_at_def)

lemma read_linear:
  assumes at: "ring_at rbuf s base R W Z" and "if R \<le> W then N \<le> W - R else N \<le> Z - R \<and> N + R < W + Z"
  shows "rbuf_read_block rbuf buf (int N) s
       = Some (0, ring_take rbuf (int (R + N)) (memcpy (buf + of_nat 0) (base + of_nat R) (of_nat N) (rb_mem s)) s)"
proof (cases "R \<le> W")
  case True
  then show ?thesis
    using assms by (simp add: ring_at_def rbuf_read_block_def memcpy_long_def Let_def ring_take_def)
next
  case False
  have "(word_of_int (int R + int N) :: u64) < word_of_int (int W) + of_nat Z"
    using ring_at_compare [OF at, of "R + N" W] assms False by (simp add: ring_at_def)
  moreover have "int N \<le> int Z - int R" using assms False by (auto simp: ring_at_def)
  ultimately show ?thesis
    using assms False ring_remain [of R Z]
    by (simp add: ring_at_def rbuf_read_block_def memcpy_long_def Let_def ring_take_def of_nat_diff)
qed

lemma read_wraps:
  assumes at: "ring_at rbuf s base R W Z" and "W < R" "Z - R < N" "N + R < W + Z"
  shows "rbuf_read_block rbuf buf (int N) s
       = Some (0, ring_take rbuf (int (N - (Z - R)))
           (memcpy (buf + of_nat (Z - R)) base (of_nat (N - (Z - R)))
              (memcpy (buf + of_nat 0) (base + of_nat R) (of_nat (Z - R)) (rb_mem s))) s)"
proof -
  have c: "(word_of_int (int R + int N) :: u64) < word_of_int (int W) + of_nat Z"
    using ring_at_compare [OF at, of "R + N" W] assms by (simp add: ring_at_def)
  have r: "sint (of_nat Z - word_of_int (int R) :: u64) = int (Z - R)"
    using at by (intro ring_remain) (auto simp: ring_at_def)
  obtain D K where D: "Z - R = D" and K: "N = D + K" "0 < K"
    using assms(3) less_imp_add_positive by blast
  have d: "(of_nat Z :: u64) - of_nat R = of_nat D"
    using at D by (auto simp: ring_at_def)
  have r': "sint (of_nat D :: u64) = int D" using r unfolding D by (simp add: d)
  have "\<not> int R \<le> int W" using assms(2) by simp
  then show ?thesis using at c K(2)
    unfolding ring_at_def rbuf_read_block_def Let_def K(1) D
    by (simp add: d r' memcpy_long_def ring_take_def)
qed

lemma read_refused:
  assumes at: "ring_at rbuf s base R W Z" and "N < 2 ^ 62"
    and "if R \<le> W then W - R < N else W + Z \<le> R + N"
  shows "rbuf_read_block rbuf buf (int N) s = Some (-1, s)"
proof -
  have "\<not> (word_of_int (int R + int N) :: u64) < word_of_int (int W) + of_nat Z" if "W < R"
    using ring_at_compare [OF at, of "R + N" W] assms that by (simp add: ring_at_def)
  then show ?thesis
    using assms by (auto simp: ring_at_def rbuf_read_block_def Let_def)
qed

definition ring_delivers :: "ring_buf_impl \<Rightarrow> int \<Rightarrow> bool" where
  "ring_delivers rb n \<longleftrightarrow>
     (if r_offset rb \<le> w_offset rb then n \<le> w_offset rb - r_offset rb
      else n < uint (ring_size rb) + w_offset rb - r_offset rb)"

lemma ring_delivers_at:
  assumes "ring_at rbuf s base R W Z"
  shows "ring_delivers (rings s rbuf) (int N) \<longleftrightarrow> (if R \<le> W then N \<le> W - R else R + N < W + Z)"
proof -
  have "uint (ring_size (rings s rbuf)) = int Z"
    using ring_at_inv(2) [OF assms] by (simp only: uint_nat)
  then show ?thesis using assms by (auto simp: ring_delivers_def ring_at_def)
qed

lemma copied_out:
  assumes ap: "apart base Z buf N" and "N < 2 ^ 62"
    and "k + n \<le> N"
  shows "bytes_at (memcpy (buf + of_nat k) src (of_nat n) m) (buf + of_nat k) n = bytes_at m src n"
    and "mem_outside buf N m (memcpy (buf + of_nat k) src (of_nat n) m)"
    and "a + l \<le> N \<Longrightarrow> a + l \<le> k \<or> k + n \<le> a \<Longrightarrow>
      bytes_at (memcpy (buf + of_nat k) src (of_nat n) m) (buf + of_nat a) l = bytes_at m (buf + of_nat a) l"
proof -
  have z: "unat buf + N \<le> 2 ^ 64" using ap unat_less [of buf] by (auto simp: apart_def)
  show "bytes_at (memcpy (buf + of_nat k) src (of_nat n) m) (buf + of_nat k) n = bytes_at m src n"
    using copied_in [OF z assms(3)] assms by simp
  show "mem_outside buf N m (memcpy (buf + of_nat k) src (of_nat n) m)"
    by (rule copy_outside [OF z assms(3)])
  show "bytes_at (memcpy (buf + of_nat k) src (of_nat n) m) (buf + of_nat a) l = bytes_at m (buf + of_nat a) l"
    if "a + l \<le> N" "a + l \<le> k \<or> k + n \<le> a"
    by (rule copy_inside [OF z assms(3) that])
qed

lemma read_accepted:
  assumes at: "ring_at rbuf s base R W Z" and n: "N < 2 ^ 62" and ap: "apart base Z buf N"
    and acc: "if R \<le> W then N \<le> W - R else R + N < W + Z"
  shows "\<exists>R' m'. rbuf_read_block rbuf buf (int N) s = Some (0, ring_take rbuf (int R') m' s) \<and> R' \<le> Z \<and>
     mem_outside buf N (rb_mem s) m' \<and>
     ring_content (rings s rbuf) (rb_mem s) =
       bytes_at m' buf N @ ring_content ((rings s rbuf)\<lparr>r_offset := int R'\<rparr>) m'"
proof -
  note a = at [unfolded ring_at_def]
  have con: "ring_content ((rings s rbuf)\<lparr>r_offset := int R'\<rparr>) m' =
      (if R' \<le> W then bytes_at m' (base + of_nat R') (W - R')
       else bytes_at m' (base + of_nat R') (Z - R') @ bytes_at m' base W)" if "R' \<le> Z" for R' m'
    using ring_at_content [OF ring_take_at [OF at that]] by simp
  consider (linear) "if R \<le> W then N \<le> W - R else N \<le> Z - R \<and> N + R < W + Z"
    | (wraps) "W < R" "Z - R < N" "N + R < W + Z" using acc by (cases "N \<le> Z - R"; cases "R \<le> W") auto
  then show ?thesis
  proof cases
    case linear
    let ?m1 = "memcpy (buf + of_nat 0) (base + of_nat R) (of_nat N) (rb_mem s)"
    have b: "R + N \<le> Z" "N \<le> Z - R" using linear a by (auto split: if_splits)
    have same: "bytes_at ?m1 (base + of_nat b) k = bytes_at (rb_mem s) (base + of_nat b) k" if "b + k \<le> Z" for b k
      using copy_apart(2) [OF ap that, of 0 N] by simp
    have got: "bytes_at ?m1 buf N = bytes_at (rb_mem s) (base + of_nat R) N"
      using copied_out(1) [OF ap n, of 0 N] by simp
    have split: "bytes_at (rb_mem s) (base + of_nat R) k =
      bytes_at ?m1 buf N @ bytes_at ?m1 (base + of_nat (R + N)) (k - N)" if "N \<le> k" "R + k \<le> Z" for k
      using bytes_at_drop [of N k "rb_mem s" "base + of_nat R"] same [of "R + N" "k - N"] got that
      by (simp add: add.assoc)
    have w: "bytes_at ?m1 base W = bytes_at (rb_mem s) base W" using same [of 0 W] a by simp
    have "ring_content (rings s rbuf) (rb_mem s) =
       bytes_at ?m1 buf N @ ring_content ((rings s rbuf)\<lparr>r_offset := int (R + N)\<rparr>) ?m1"
    proof (cases "R \<le> W")
      case True
      then have "R + N \<le> W" "N \<le> W - R" "R + (W - R) \<le> Z" using linear a by auto
      then show ?thesis using True con [OF b(1), of ?m1] ring_at_content [OF at] split [of "W - R"]
        by (simp only: if_True diff_diff_left)
    next
      case False
      then have "\<not> R + N \<le> W" "R + (Z - R) \<le> Z" using a by auto
      then show ?thesis using False con [OF b(1), of ?m1] ring_at_content [OF at] split [of "Z - R"] b(2) w
        by (simp only: if_False diff_diff_left append_assoc)
    qed
    then show ?thesis
      using read_linear [OF at linear] copied_out(2) [OF ap n, of 0 N] b(1)
      by (intro exI [of _ "R + N"] exI [of _ ?m1]) auto
  next
    case wraps
    let ?D = "Z - R" and ?K = "N - (Z - R)"
    let ?m1 = "memcpy (buf + of_nat 0) (base + of_nat R) (of_nat ?D) (rb_mem s)"
    let ?m2 = "memcpy (buf + of_nat ?D) base (of_nat ?K) ?m1"
    have b: "R + ?D \<le> Z" "?K < W" "?D + ?K = N" "0 + ?D \<le> N" "?D + ?K \<le> N" "?K \<le> Z" "?K + (W - ?K) \<le> Z" "0 + W \<le> Z"
      using wraps a by auto
    have same: "bytes_at ?m2 (base + of_nat b) k = bytes_at (rb_mem s) (base + of_nat b) k" if "b + k \<le> Z" for b k
      using copy_apart(2) [OF ap that b(4)] copy_apart(2) [OF ap that b(5)] by simp
    have same1: "bytes_at ?m1 base k = bytes_at (rb_mem s) base k" if "0 + k \<le> Z" for k
      using copy_apart(2) [OF ap that b(4)] by simp
    have "bytes_at ?m2 buf N = bytes_at ?m2 buf ?D @ bytes_at ?m2 (buf + of_nat ?D) ?K"
      using bytes_at_append [of ?m2 buf ?D ?K] by (simp only: b(3))
    also have "bytes_at ?m2 buf ?D = bytes_at (rb_mem s) (base + of_nat R) ?D"
      using copied_out(3) [OF ap n b(5), of 0 ?D] copied_out(1) [OF ap n b(4)] b(4) by simp
    also have "bytes_at ?m2 (buf + of_nat ?D) ?K = bytes_at (rb_mem s) base ?K"
      using copied_out(1) [OF ap n b(5)] same1 [of ?K] b(6) by simp
    finally have got: "bytes_at ?m2 buf N =
      bytes_at (rb_mem s) (base + of_nat R) ?D @ bytes_at (rb_mem s) base ?K" .
    have rest: "bytes_at ?m2 (base + of_nat ?K) (W - ?K) = bytes_at (rb_mem s) (base + of_nat ?K) (W - ?K)"
      by (rule same [OF b(7)])
    have all: "bytes_at (rb_mem s) base W = bytes_at (rb_mem s) base ?K @ bytes_at (rb_mem s) (base + of_nat ?K) (W - ?K)"
      using b(2) by (intro bytes_at_drop) simp
    have "ring_content (rings s rbuf) (rb_mem s) =
       bytes_at ?m2 buf N @ ring_content ((rings s rbuf)\<lparr>r_offset := int ?K\<rparr>) ?m2"
      using con [OF b(6), of ?m2] ring_at_content [OF at] wraps(1) b(2) got rest all by simp
    moreover have "mem_outside buf N (rb_mem s) ?m2"
      using copied_out(2) [OF ap n b(4)] copied_out(2) [OF ap n b(5)] by (rule mem_outside_trans)
    ultimately show ?thesis
      using read_wraps [OF at wraps] b(6) by (intro exI [of _ ?K] exI [of _ ?m2]) simp
  qed
qed

section \<open>The buffer as a queue of bytes\<close>

lemma ring_put_others: "ring_others rbuf s (ring_put rbuf w' m' s)"
  by (simp add: ring_others_def)

lemma ring_take_others: "ring_others rbuf s (ring_take rbuf r' m' s)"
  by (simp add: ring_others_def)

text \<open>
  C13. A block the buffer accepts is appended behind the bytes it holds, with one exception: a block that
  fills the gap of a wrapped buffer exactly leaves the buffer empty, without what it held and without the
  block.  Nothing outside the buffer is written.  A block it does not accept is refused and changes nothing.
\<close>

theorem rbuf_write_block_appends:
  assumes inv: "ring_inv (rings s rbuf)" and "rbuf \<noteq> 0" and n: "0 \<le> n" "n < 2 ^ 62"
    and ap: "apart (rb_addr_begin (rings s rbuf)) (unat (ring_size (rings s rbuf))) data (nat n)"
  shows "if ring_accepts (rings s rbuf) n
     then \<exists>s'. rbuf_write_block rbuf data n s = Some (0, s') \<and> ring_inv (rings s' rbuf) \<and>
       ring_content (rings s' rbuf) (rb_mem s') =
         (if w_offset (rings s rbuf) < r_offset (rings s rbuf) \<and> n = ring_room (rings s rbuf) then []
          else ring_content (rings s rbuf) (rb_mem s) @ bytes_at (rb_mem s) data (nat n)) \<and>
       mem_outside (rb_addr_begin (rings s rbuf)) (unat (ring_size (rings s rbuf))) (rb_mem s) (rb_mem s') \<and>
       ring_others rbuf s s'
     else rbuf_write_block rbuf data n s = Some (-1, s)"
proof -
  obtain R W Z where at: "ring_at rbuf s (rb_addr_begin (rings s rbuf)) R W Z"
    and Z: "unat (ring_size (rings s rbuf)) = Z" by (rule ring_inv_at [OF inv assms(2)])
  obtain N where N: "n = int N" using n(1) nonneg_int_cases by blast
  have n': "N < 2 ^ 62" using n(2) N by simp
  have ex: "(w_offset (rings s rbuf) < r_offset (rings s rbuf) \<and> n = ring_room (rings s rbuf)) \<longleftrightarrow> W < R \<and> N = R - W"
    using at N by (auto simp: ring_at_def ring_room_def)
  show ?thesis
  proof (cases "ring_accepts (rings s rbuf) n")
    case True
    then have acc: "if W < R then N \<le> R - W else W + N < R + Z"
      unfolding N by (simp only: ring_accepts_at [OF at])
    obtain W' m' where w: "rbuf_write_block rbuf data (int N) s = Some (0, ring_put rbuf (int W') m' s)" "W' \<le> Z"
      "mem_outside (rb_addr_begin (rings s rbuf)) Z (rb_mem s) m'"
      "ring_content ((rings s rbuf)\<lparr>w_offset := int W'\<rparr>) m' = (if W < R \<and> N = R - W then []
         else ring_content (rings s rbuf) (rb_mem s) @ bytes_at (rb_mem s) data N)"
      using write_accepted [OF at n' ap [unfolded Z N nat_int] acc] by blast
    show ?thesis
      using True w ring_at_inv(1) [OF ring_put_at [OF at w(2)]] ring_put_others
      unfolding ex unfolding N Z nat_int by simp
  next
    case False
    then have "if W < R then R - W < N else R + Z \<le> W + N"
      unfolding N ring_accepts_at [OF at] by (auto split: if_splits)
    then show ?thesis using False write_refused [OF at n'] unfolding N by simp
  qed
qed

text \<open>
  C24. When the buffer is wrapped and a block fills its gap exactly, the code accepts the block and
  leaves the two offsets equal: the buffer then reads as empty, and what it held and the block are lost.
\<close>

theorem rbuf_write_block_exact_fill:
  assumes inv: "ring_inv (rings s rbuf)" and "rbuf \<noteq> 0"
    and wrapped: "w_offset (rings s rbuf) < r_offset (rings s rbuf)"
    and n: "n = r_offset (rings s rbuf) - w_offset (rings s rbuf)"
  shows "\<exists>s'. rbuf_write_block rbuf data n s = Some (0, s') \<and> ring_content (rings s' rbuf) (rb_mem s') = [] \<and>
    rbuf_read_block rbuf buf 1 s' = Some (-1, s')"
proof -
  obtain R W Z where at: "ring_at rbuf s (rb_addr_begin (rings s rbuf)) R W Z"
    and Z: "unat (ring_size (rings s rbuf)) = Z" by (rule ring_inv_at [OF inv assms(2)])
  have N: "n = int (R - W)" "W < R" using n wrapped at by (auto simp: ring_at_def)
  define m' where "m' = memcpy (rb_addr_begin (rings s rbuf) + of_nat W) data (of_nat (R - W)) (rb_mem s)"
  have w: "rbuf_write_block rbuf data (int (R - W)) s = Some (0, ring_put rbuf (int R) m' s)"
    using write_before [OF at N(2) order_refl] N(2) unfolding m'_def by simp
  have R: "R \<le> Z" using at by (auto simp: ring_at_def)
  have at': "ring_at rbuf (ring_put rbuf (int R) m' s) (rb_addr_begin (rings s rbuf)) R R Z"
    by (rule ring_put_at [OF at R])
  have c: "ring_content (rings (ring_put rbuf (int R) m' s) rbuf) m' = []"
    using ring_at_content [OF at', of m'] by simp
  have "if R \<le> R then R - R < 1 else R + Z \<le> R + 1" by simp
  then have "rbuf_read_block rbuf buf (int 1) (ring_put rbuf (int R) m' s) = Some (-1, ring_put rbuf (int R) m' s)"
    by (intro read_refused [OF at']) simp
  then show ?thesis using w c unfolding N(1) by simp
qed

text \<open>
  C14. A read the buffer serves moves the oldest bytes to the caller's buffer and keeps the rest in
  order; any other read is refused and changes nothing.
\<close>

theorem rbuf_read_block_delivers:
  assumes inv: "ring_inv (rings s rbuf)" and "rbuf \<noteq> 0" and n: "0 \<le> n" "n < 2 ^ 62"
    and ap: "apart (rb_addr_begin (rings s rbuf)) (unat (ring_size (rings s rbuf))) buf (nat n)"
  shows "if ring_delivers (rings s rbuf) n
     then \<exists>s'. rbuf_read_block rbuf buf n s = Some (0, s') \<and> ring_inv (rings s' rbuf) \<and>
       bytes_at (rb_mem s') buf (nat n) = take (nat n) (ring_content (rings s rbuf) (rb_mem s)) \<and>
       ring_content (rings s' rbuf) (rb_mem s') = drop (nat n) (ring_content (rings s rbuf) (rb_mem s)) \<and>
       mem_outside buf (nat n) (rb_mem s) (rb_mem s') \<and> ring_others rbuf s s'
     else rbuf_read_block rbuf buf n s = Some (-1, s)"
proof -
  obtain R W Z where at: "ring_at rbuf s (rb_addr_begin (rings s rbuf)) R W Z"
    and Z: "unat (ring_size (rings s rbuf)) = Z" by (rule ring_inv_at [OF inv assms(2)])
  obtain N where N: "n = int N" using n(1) nonneg_int_cases by blast
  have n': "N < 2 ^ 62" using n(2) N by simp
  show ?thesis
  proof (cases "ring_delivers (rings s rbuf) n")
    case True
    then have acc: "if R \<le> W then N \<le> W - R else R + N < W + Z"
      unfolding N by (simp only: ring_delivers_at [OF at])
    obtain R' m' where w: "rbuf_read_block rbuf buf (int N) s = Some (0, ring_take rbuf (int R') m' s)" "R' \<le> Z"
      "mem_outside buf N (rb_mem s) m'"
      "ring_content (rings s rbuf) (rb_mem s) =
         bytes_at m' buf N @ ring_content ((rings s rbuf)\<lparr>r_offset := int R'\<rparr>) m'"
      using read_accepted [OF at n' ap [unfolded Z N nat_int] acc] by blast
    show ?thesis
      using True w ring_at_inv(1) [OF ring_take_at [OF at w(2)]] ring_take_others
      unfolding N Z nat_int by simp
  next
    case False
    then have "if R \<le> W then W - R < N else W + Z \<le> R + N"
      unfolding N ring_delivers_at [OF at] by (auto split: if_splits)
    then show ?thesis using False read_refused [OF at n'] unfolding N by simp
  qed
qed

text \<open>
  A wrapped buffer refuses to hand out everything it holds in one read: the comparison that
  guards the wrapped read is strict.
\<close>

theorem rbuf_read_block_no_drain:
  assumes inv: "ring_inv (rings s rbuf)" and "rbuf \<noteq> 0"
    and wrapped: "w_offset (rings s rbuf) < r_offset (rings s rbuf)"
    and n: "n = int (length (ring_content (rings s rbuf) (rb_mem s)))"
  shows "rbuf_read_block rbuf buf n s = Some (-1, s)"
proof -
  obtain R W Z where at: "ring_at rbuf s (rb_addr_begin (rings s rbuf)) R W Z"
    and Z: "unat (ring_size (rings s rbuf)) = Z" by (rule ring_inv_at [OF inv assms(2)])
  have W: "W < R" "R \<le> Z" "Z < 2 ^ 62" using wrapped at by (auto simp: ring_at_def)
  have n: "n = int ((Z - R) + W)" using n W ring_at_content [OF at] by simp
  show ?thesis unfolding n using W by (intro read_refused [OF at]) auto
qed

section \<open>Concrete runs\<close>

text \<open>A buffer of 16 bytes at address 4096 whose memory holds the low byte of each address.\<close>

definition ring_ex :: "int \<Rightarrow> int \<Rightarrow> rb_state" where
  "ring_ex r w = \<lparr>rings = \<lambda>_. \<lparr>rb_addr_begin = 4096, ring_size = 16, r_offset = r, w_offset = w\<rparr>,
                rb_mem = \<lambda>a. ucast a\<rparr>"

lemma bytes_at_Suc: "bytes_at m p (Suc n) = m p # bytes_at m (p + 1) n"
  using bytes_at_append [of m p 1 n] by (simp add: bytes_at_def)

lemma bytes_at_numeral: "bytes_at m p (numeral k) = m p # bytes_at m (p + 1) (pred_numeral k)"
  by (simp only: numeral_eq_Suc bytes_at_Suc)

lemmas ring_ex_simps = ring_ex_def ring_inv_def apart_def ring_accepts_def ring_delivers_def ring_room_def
  ring_content_def bytes_at_numeral bytes_at_Suc Let_def

theorem rbuf_write_block_appends_witness:
  "\<exists>s'. rbuf_write_block 8 256 6 (ring_ex 4 12) = Some (0, s') \<and> ring_inv (rings s' 8) \<and>
     ring_content (rings s' 8) (rb_mem s') = [4, 5, 6, 7, 8, 9, 10, 11, 0, 1, 2, 3, 4, 5]"
proof -
  have acc: "ring_accepts (rings (ring_ex 4 12) 8) 6" by (simp add: ring_ex_simps)
  have c: "ring_content (rings (ring_ex 4 12) 8) (rb_mem (ring_ex 4 12)) @ bytes_at (rb_mem (ring_ex 4 12)) 256 (nat 6)
    = [4, 5, 6, 7, 8, 9, 10, 11, 0, 1, 2, 3, 4, 5]" by (simp add: ring_ex_simps)
  have pre: "ring_inv (rings (ring_ex 4 12) 8)" "(8 :: ptr) \<noteq> 0" "(0 :: int) \<le> 6" "(6 :: int) < 2 ^ 62"
    "apart (rb_addr_begin (rings (ring_ex 4 12) 8)) (unat (ring_size (rings (ring_ex 4 12) 8))) 256 (nat 6)"
    by (simp_all add: ring_ex_simps)
  have ne: "\<not> (w_offset (rings (ring_ex 4 12) 8) < r_offset (rings (ring_ex 4 12) 8) \<and> 6 = ring_room (rings (ring_ex 4 12) 8))"
    by (simp add: ring_ex_simps)
  show ?thesis using rbuf_write_block_appends [OF pre] unfolding if_P [OF acc] if_not_P [OF ne] c by blast
qed

theorem rbuf_write_block_exact_fill_witness:
  "\<exists>s'. rbuf_write_block 8 256 8 (ring_ex 12 4) = Some (0, s') \<and> ring_content (rings s' 8) (rb_mem s') = [] \<and>
     rbuf_read_block 8 512 1 s' = Some (-1, s')"
  by (rule rbuf_write_block_exact_fill) (simp_all add: ring_ex_def ring_inv_def)

theorem rbuf_read_block_delivers_witness:
  "\<exists>s'. rbuf_read_block 8 256 6 (ring_ex 12 4) = Some (0, s') \<and> ring_inv (rings s' 8) \<and>
     bytes_at (rb_mem s') 256 6 = [12, 13, 14, 15, 0, 1] \<and> ring_content (rings s' 8) (rb_mem s') = [2, 3]"
proof -
  have acc: "ring_delivers (rings (ring_ex 12 4) 8) 6" by (simp add: ring_ex_simps)
  have c: "ring_content (rings (ring_ex 12 4) 8) (rb_mem (ring_ex 12 4)) = [12, 13, 14, 15, 0, 1, 2, 3]"
    "take 6 [12, 13, 14, 15, 0, 1, 2, 3 :: byte] = [12, 13, 14, 15, 0, 1]"
    "drop 6 [12, 13, 14, 15, 0, 1, 2, 3 :: byte] = [2, 3]" "nat 6 = 6"
    by (simp_all add: ring_ex_simps)
  have pre: "ring_inv (rings (ring_ex 12 4) 8)" "(8 :: ptr) \<noteq> 0" "(0 :: int) \<le> 6" "(6 :: int) < 2 ^ 62"
    "apart (rb_addr_begin (rings (ring_ex 12 4) 8)) (unat (ring_size (rings (ring_ex 12 4) 8))) 256 (nat 6)"
    by (simp_all add: ring_ex_simps)
  show ?thesis using rbuf_read_block_delivers [OF pre] unfolding if_P [OF acc] c by blast
qed

theorem rbuf_read_block_no_drain_witness:
  "ring_content (rings (ring_ex 12 4) 8) (rb_mem (ring_ex 12 4)) = [12, 13, 14, 15, 0, 1, 2, 3] \<and>
   rbuf_read_block 8 256 8 (ring_ex 12 4) = Some (-1, ring_ex 12 4)"
proof
  show c: "ring_content (rings (ring_ex 12 4) 8) (rb_mem (ring_ex 12 4)) = [12, 13, 14, 15, 0, 1, 2, 3]"
    by (simp add: ring_ex_simps)
  show "rbuf_read_block 8 256 8 (ring_ex 12 4) = Some (-1, ring_ex 12 4)"
  proof (rule rbuf_read_block_no_drain)
    show "(8 :: int) = int (length (ring_content (rings (ring_ex 12 4) 8) (rb_mem (ring_ex 12 4))))"
      by (simp add: c)
  qed (simp_all add: ring_ex_def ring_inv_def)
qed

end
