(* ===== verification/Rbtree.thy ===== *)
theory Rbtree
  imports Prelude
begin

text \<open>
  The red-black tree of \<open>src/src/rbtree.c\<close>.

  A node is an address; \<open>rb_key\<close>, \<open>rb_lc\<close>, \<open>rb_rc\<close> are the fields \<open>key\<close>, \<open>lchild\<close>, \<open>rchild\<close> of
  \<open>struct rbnode\<close>, and \<open>rb_pw\<close> is the word that the union of \<open>p\<close> and the two-bit field \<open>isblack\<close>
  occupies: the parent's address with the colour in its two low bits.  The record also holds the
  fields of the \<open>struct rbtree\<close> that owns the nodes.  A comparison function gets a key and a node;
  the null one stands for \<open>_def_order_func\<close>.
\<close>

section \<open>Nodes and trees\<close>

record rbtree =
  rb_key :: "ptr \<Rightarrow> u64"
  rb_lc :: "ptr \<Rightarrow> ptr"
  rb_rc :: "ptr \<Rightarrow> ptr"
  rb_pw :: "ptr \<Rightarrow> u64"
  rb_size :: int
  rb_depth :: int
  rb_root :: ptr
  rb_cfunc :: "(u64 \<Rightarrow> ptr \<Rightarrow> int) option"

definition upd_lc :: "ptr \<Rightarrow> ptr \<Rightarrow> rbtree \<Rightarrow> rbtree" where
  "upd_lc a v t = t\<lparr>rb_lc := (rb_lc t)(a := v)\<rparr>"

definition upd_rc :: "ptr \<Rightarrow> ptr \<Rightarrow> rbtree \<Rightarrow> rbtree" where
  "upd_rc a v t = t\<lparr>rb_rc := (rb_rc t)(a := v)\<rparr>"

definition upd_pw :: "ptr \<Rightarrow> u64 \<Rightarrow> rbtree \<Rightarrow> rbtree" where
  "upd_pw a v t = t\<lparr>rb_pw := (rb_pw t)(a := v)\<rparr>"

definition isblack :: "rbtree \<Rightarrow> ptr \<Rightarrow> u64" where
  "isblack t a = rb_pw t a AND 3"

definition set_isblack :: "ptr \<Rightarrow> u64 \<Rightarrow> rbtree \<Rightarrow> rbtree" where
  "set_isblack a v t = upd_pw a ((rb_pw t a AND (- 4)) OR (v AND 3)) t"

text \<open>The macros, which accept a null node.\<close>

definition is_black :: "rbtree \<Rightarrow> ptr \<Rightarrow> bool" where
  "is_black t a \<longleftrightarrow> a = 0 \<or> isblack t a \<noteq> 0"

definition is_red :: "rbtree \<Rightarrow> ptr \<Rightarrow> bool" where
  "is_red t a \<longleftrightarrow> a \<noteq> 0 \<and> isblack t a = 0"

definition set_black :: "ptr \<Rightarrow> rbtree \<Rightarrow> rbtree" where
  "set_black a t = (if a = 0 then t else set_isblack a 1 t)"

definition set_red :: "ptr \<Rightarrow> rbtree \<Rightarrow> rbtree" where
  "set_red a t = (if a = 0 then t else set_isblack a 0 t)"

definition l_child :: "rbtree \<Rightarrow> ptr \<Rightarrow> ptr" where
  "l_child t a = (if a = 0 then 0 else rb_lc t a)"

definition r_child :: "rbtree \<Rightarrow> ptr \<Rightarrow> ptr" where
  "r_child t a = (if a = 0 then 0 else rb_rc t a)"

definition cp_color :: "ptr \<Rightarrow> ptr \<Rightarrow> rbtree \<Rightarrow> rbtree" where
  "cp_color a b t = (if a = 0 then t else set_isblack a (if b = 0 then 1 else isblack t b) t)"

definition swap_color :: "ptr \<Rightarrow> ptr \<Rightarrow> rbtree \<Rightarrow> rbtree" where
  "swap_color x y t =
     (let bx = is_black t x; by = is_black t y;
          t = (if bx then set_black y t else set_red y t)
      in if by then set_black x t else set_red x t)"

definition set_parent :: "ptr \<Rightarrow> ptr \<Rightarrow> rbtree \<Rightarrow> rbtree option" where
  "set_parent a p t = deref a (upd_pw a (p OR isblack t a) t)"

definition get_parent :: "rbtree \<Rightarrow> ptr \<Rightarrow> ptr" where
  "get_parent t a = (if a = 0 then 0 else rb_pw t a AND (- 4))"

definition def_order_func :: "rbtree \<Rightarrow> u64 \<Rightarrow> ptr \<Rightarrow> int" where
  "def_order_func t key n = (if key < rb_key t n then -1 else if rb_key t n < key then 1 else 0)"

definition compare_key :: "rbtree \<Rightarrow> u64 \<Rightarrow> ptr \<Rightarrow> int" where
  "compare_key t key n =
     (case rb_cfunc t of None \<Rightarrow> def_order_func t key n | Some f \<Rightarrow> f key n)"

definition rb_init :: "(u64 \<Rightarrow> ptr \<Rightarrow> int) option \<Rightarrow> rbtree \<Rightarrow> rbtree" where
  "rb_init cf t = t\<lparr>rb_size := 0, rb_depth := 0, rb_root := 0, rb_cfunc := cf\<rparr>"

definition rb_fillnew :: "ptr \<Rightarrow> rbtree \<Rightarrow> rbtree option" where
  "rb_fillnew a t =
     (if a = 0 then Some t
      else let t = t\<lparr>rb_key := (rb_key t)(a := 0)\<rparr>; t = set_isblack a 0 t;
               t = upd_lc a 0 t; t = upd_rc a 0 t
           in set_parent a 0 t)"

definition rb_parent :: "rbtree \<Rightarrow> ptr \<Rightarrow> ptr" where
  "rb_parent t a = (if a = 0 then 0 else get_parent t a)"

definition rb_sibling :: "rbtree \<Rightarrow> ptr \<Rightarrow> ptr" where
  "rb_sibling t a =
     (let p = rb_parent t a
      in if p = 0 then 0
         else if a = l_child t p then r_child t p
         else if a = r_child t p then l_child t p
         else 0)"

definition rb_reset_compare_function :: "(u64 \<Rightarrow> ptr \<Rightarrow> int) option \<Rightarrow> rbtree \<Rightarrow> rbtree" where
  "rb_reset_compare_function cf t = t\<lparr>rb_cfunc := cf\<rparr>"

section \<open>Rotations\<close>

definition left_rotate :: "ptr \<Rightarrow> rbtree \<Rightarrow> rbtree option" where
  "left_rotate node t =
     (if node = 0 then Some t
      else let rc = rb_rc t node in
        if rc = 0 then Some t
        else let node_p = get_parent t node in do {
          t \<leftarrow> set_parent rc node_p t;
          let t = (if node_p \<noteq> 0
                   then if node = rb_lc t node_p then upd_lc node_p rc t else upd_rc node_p rc t
                   else t);
          t \<leftarrow> set_parent node rc t;
          t \<leftarrow> (if rb_lc t rc \<noteq> 0 then set_parent (rb_lc t rc) node t else Some t);
          let t = upd_rc node (rb_lc t rc) t;
          let t = upd_lc rc node t;
          Some (if node_p = 0 then t\<lparr>rb_root := rc\<rparr> else t)
        })"

definition right_rotate :: "ptr \<Rightarrow> rbtree \<Rightarrow> rbtree option" where
  "right_rotate node t =
     (if node = 0 then Some t
      else let lc = rb_lc t node in
        if lc = 0 then Some t
        else let node_p = get_parent t node in do {
          t \<leftarrow> set_parent lc node_p t;
          let t = (if node_p \<noteq> 0
                   then if node = rb_lc t node_p then upd_lc node_p lc t else upd_rc node_p lc t
                   else t);
          t \<leftarrow> set_parent node lc t;
          t \<leftarrow> (if rb_rc t lc \<noteq> 0 then set_parent (rb_rc t lc) node t else Some t);
          let t = upd_lc node (rb_rc t lc) t;
          let t = upd_rc lc node t;
          Some (if node_p = 0 then t\<lparr>rb_root := lc\<rparr> else t)
        })"

section \<open>Insertion\<close>

text \<open>The loop of \<open>_fix_rr\<close>, entered with the parent \<open>p\<close> last read; the node it ends at.\<close>

partial_function (option) fix_rr_loop :: "ptr \<Rightarrow> ptr \<Rightarrow> rbtree \<Rightarrow> (ptr \<times> rbtree) option" where
  "fix_rr_loop node p t =
     (if \<not> is_red t p then Some (node, t)
      else do {
        let p = get_parent t node;
        let g = get_parent t p;
        glc \<leftarrow> deref g (rb_lc t g);
        if p = glc then
          do {
            let u = rb_rc t g;
            if is_red t u then
              do {
                let t = set_black p t;
                let t = set_black u t;
                let t = set_red g t;
                fix_rr_loop g (get_parent t g) t
              }
            else do {
              prc \<leftarrow> deref p (rb_rc t p);
              (node, t) \<leftarrow> (if node = prc
                 then do { t \<leftarrow> left_rotate p t; Some (node, t) }
                 else Some (p, t));
              let t = set_black node t;
              let t = set_red g t;
              t \<leftarrow> right_rotate g t;
              Some (node, t)
            }
          }
        else
          do {
            let u = rb_lc t g;
            if is_red t u then
              do {
                let t = set_black p t;
                let t = set_black u t;
                let t = set_red g t;
                fix_rr_loop g (get_parent t g) t
              }
            else do {
              plc \<leftarrow> deref p (rb_lc t p);
              (node, t) \<leftarrow> (if node = plc
                 then do { t \<leftarrow> right_rotate p t; Some (node, t) }
                 else Some (p, t));
              let t = set_black node t;
              let t = set_red g t;
              t \<leftarrow> left_rotate g t;
              Some (node, t)
            }
          }
      })"

text \<open>The second loop of \<open>_fix_rr\<close> climbs to the root.\<close>

partial_function (option) climb :: "rbtree \<Rightarrow> ptr \<Rightarrow> ptr option" where
  "climb t node =
     (if node = 0 then Some node
      else let p = get_parent t node in if p = 0 then Some node else climb t p)"

definition fix_rr :: "ptr \<Rightarrow> rbtree \<Rightarrow> rbtree option" where
  "fix_rr node t =
     (if node = 0 then Some t
      else let p = get_parent t node in
        if p = 0 then Some t
        else do {
          (node, t) \<leftarrow> fix_rr_loop node p t;
          root \<leftarrow> climb t node;
          let t = t\<lparr>rb_root := root\<rparr>;
          Some (set_black (rb_root t) t)
        })"

partial_function (option) rb_search_loop :: "rbtree \<Rightarrow> u64 \<Rightarrow> ptr \<Rightarrow> ptr \<Rightarrow> int \<Rightarrow> (ptr \<times> ptr) option" where
  "rb_search_loop t key p h comp_ret =
     (if p \<noteq> 0 \<and> comp_ret \<noteq> 0
      then let h = p; comp_ret = compare_key t key p
           in rb_search_loop t key
                (if comp_ret < 0 then rb_lc t p else if 0 < comp_ret then rb_rc t p else p) h comp_ret
      else Some (p, h))"

text \<open>\<open>rb_search t key hot\<close> gives the node and what it stores at \<open>hot\<close>, which must not be null.\<close>

definition rb_search :: "rbtree \<Rightarrow> u64 \<Rightarrow> ptr \<Rightarrow> (ptr \<times> ptr) option" where
  "rb_search t key hot =
     (if hot = 0 then None
      else if rb_root t = 0 then Some (0, 0)
      else do {
        (p, h) \<leftarrow> rb_search_loop t key (rb_root t) (rb_root t) 1;
        Some (p, h)
      })"

text \<open>The address of a local variable, which is not null.\<close>

definition local_var :: ptr where "local_var = 8"

definition rb_insert :: "ptr \<Rightarrow> rbtree \<Rightarrow> (int \<times> rbtree) option" where
  "rb_insert node t =
     (if node = 0 \<or> node AND 3 \<noteq> 0 then Some (-1, t)
      else do {
        (found, hot) \<leftarrow> rb_search t (rb_key t node) local_var;
        if found \<noteq> 0 then Some (-1, t)
        else do {
          let t = set_isblack node 0 t;
          let t = upd_lc node 0 t;
          let t = upd_rc node 0 t;
          t \<leftarrow> set_parent node hot t;
          let finish = (\<lambda>t. do {
            root_ok \<leftarrow> deref (rb_root t) ();
            let t = set_isblack (rb_root t) 1 t;
            Some (0 :: int, t\<lparr>rb_size := rb_size t + 1\<rparr>)
          });
          if hot \<noteq> 0
          then let comp_ret = compare_key t (rb_key t node) hot in
            if comp_ret = 0 then Some (-1, t)
            else do {
              let t = (if comp_ret < 0 then upd_lc hot node t else upd_rc hot node t);
              t \<leftarrow> set_parent node hot t;
              t \<leftarrow> fix_rr node t;
              finish t
            }
          else finish (t\<lparr>rb_root := node\<rparr>)
        }
      })"

section \<open>Removal\<close>

text \<open>\<open>reparent a p\<close> is \<open>_set_parent(a, p)\<close> for a node that may be null, and does nothing then.\<close>

definition reparent :: "ptr \<Rightarrow> ptr \<Rightarrow> rbtree \<Rightarrow> rbtree option" where
  "reparent a p t = (if a \<noteq> 0 then set_parent a p t else Some t)"

definition rb_link :: "ptr \<Rightarrow> ptr \<Rightarrow> ptr \<Rightarrow> rbtree \<Rightarrow> rbtree option" where
  "rb_link p lc rc t =
     (if p = 0 \<or> p = lc \<or> p = rc then Some t
      else do {
        let t = upd_lc p lc t;
        let t = upd_rc p rc t;
        t \<leftarrow> reparent lc p t;
        reparent rc p t
      })"

text \<open>\<open>_swap_value\<close> on one field of two nodes.\<close>

definition swap_lc :: "ptr \<Rightarrow> ptr \<Rightarrow> rbtree \<Rightarrow> rbtree" where
  "swap_lc p q t = upd_lc q (rb_lc t p) (upd_lc p (rb_lc t q) t)"

definition swap_rc :: "ptr \<Rightarrow> ptr \<Rightarrow> rbtree \<Rightarrow> rbtree" where
  "swap_rc p q t = upd_rc q (rb_rc t p) (upd_rc p (rb_rc t q) t)"

definition swap_pw :: "ptr \<Rightarrow> ptr \<Rightarrow> rbtree \<Rightarrow> rbtree" where
  "swap_pw p q t = upd_pw q (rb_pw t p) (upd_pw p (rb_pw t q) t)"

text \<open>Makes the parent \<open>pp\<close> point to \<open>q\<close> where it pointed to \<open>p\<close>.\<close>

definition swap_child :: "ptr \<Rightarrow> ptr \<Rightarrow> ptr \<Rightarrow> rbtree \<Rightarrow> rbtree" where
  "swap_child pp p q t =
     (if pp \<noteq> 0
      then if p = rb_lc t pp then upd_lc pp q t
           else if p = rb_rc t pp then upd_rc pp q t else t
      else t)"

definition swap_node :: "ptr \<Rightarrow> ptr \<Rightarrow> rbtree \<Rightarrow> rbtree option" where
  "swap_node p q t =
     (if p = 0 \<and> q = 0 then Some t
      else if p = 0 \<or> q = 0 then None
      else
        let plc = rb_lc t p; prc = rb_rc t p; pp = get_parent t p;
            qlc = rb_lc t q; qrc = rb_rc t q; qp = get_parent t q
        in do {
          t \<leftarrow> reparent plc q t;
          t \<leftarrow> reparent prc q t;
          t \<leftarrow> reparent qlc p t;
          t \<leftarrow> reparent qrc p t;
          Some (swap_pw p q (swap_rc p q (swap_lc p q (swap_child qp q p (swap_child pp p q t)))))
        })"

definition transplant :: "ptr \<Rightarrow> ptr \<Rightarrow> rbtree \<Rightarrow> rbtree option" where
  "transplant rm sc t =
     (if rm = 0 then Some t
      else do {
        let rm_p = get_parent t rm;
        t \<leftarrow> (if sc \<noteq> 0
              then let sc_p = get_parent t sc in
                deref sc_p (if sc = rb_lc t sc_p then upd_lc sc_p 0 t
                            else if sc = rb_rc t sc_p then upd_rc sc_p 0 t else t)
              else Some t);
        t \<leftarrow> (if rm_p = 0
              then do {
                t \<leftarrow> rb_link sc (rb_lc t rm) (rb_rc t rm) t;
                let t = t\<lparr>rb_root := sc\<rparr>;
                (if sc \<noteq> 0 then set_parent sc 0 t else Some t)
              }
              else do {
                t \<leftarrow> (if rm = rb_lc t rm_p then rb_link rm_p sc (rb_rc t rm_p) t else Some t);
                t \<leftarrow> (if rm = rb_rc t rm_p then rb_link rm_p (rb_lc t rm_p) sc t else Some t);
                rb_link sc (rb_lc t rm) 0 t
              });
        t \<leftarrow> set_parent rm 0 t;
        let t = upd_lc rm 0 t;
        Some (upd_rc rm 0 t)
      })"

text \<open>\<open>_succ\<close>: the leftmost node of a subtree.\<close>

partial_function (option) succ_loop :: "rbtree \<Rightarrow> ptr \<Rightarrow> ptr \<Rightarrow> ptr option" where
  "succ_loop t p subroot =
     (if subroot = 0 then Some p else succ_loop t subroot (rb_lc t subroot))"

definition rb_leftmost :: "rbtree \<Rightarrow> ptr \<Rightarrow> ptr option" where
  "rb_leftmost t subroot = (if subroot = 0 then Some 0 else succ_loop t subroot subroot)"

partial_function (option) rb_succ_loop :: "rbtree \<Rightarrow> ptr \<Rightarrow> ptr \<Rightarrow> ptr option" where
  "rb_succ_loop t x y =
     (if y \<noteq> 0 \<and> x = r_child t y then rb_succ_loop t y (get_parent t y) else Some y)"

definition rb_succ :: "rbtree \<Rightarrow> ptr \<Rightarrow> ptr option" where
  "rb_succ t x =
     (let r = r_child t x; y = get_parent t x
      in if r \<noteq> 0 then rb_leftmost t r else rb_succ_loop t x y)"

text \<open>One round of \<open>_fix_bb_new\<close> for a left child, and for a right child; the next \<open>x\<close>.\<close>

definition fix_bb_left :: "ptr \<Rightarrow> ptr \<Rightarrow> rbtree \<Rightarrow> (ptr \<times> rbtree) option" where
  "fix_bb_left x p t = do {
     let w = r_child t p;
     (w, t) \<leftarrow> (if is_red t w
        then do {
          let t = set_black w t;
          let t = set_red p t;
          t \<leftarrow> left_rotate p t;
          Some (r_child t p, t)
        }
        else Some (w, t));
     if is_black t (l_child t w) \<and> is_black t (r_child t w)
     then Some (p, set_red w t)
     else if is_black t (r_child t w)
     then do {
       let t = set_black (l_child t w) t;
       let t = set_red w t;
       t \<leftarrow> right_rotate w t;
       Some (x, t)
     }
     else do {
       let t = cp_color w p t;
       let t = set_black p t;
       let t = set_black (r_child t w) t;
       t \<leftarrow> left_rotate p t;
       Some (rb_root t, t)
     }
   }"

definition fix_bb_right :: "ptr \<Rightarrow> ptr \<Rightarrow> rbtree \<Rightarrow> (ptr \<times> rbtree) option" where
  "fix_bb_right x p t = do {
     let w = l_child t p;
     (w, t) \<leftarrow> (if is_red t w
        then do {
          let t = set_black w t;
          let t = set_red p t;
          t \<leftarrow> right_rotate p t;
          Some (l_child t p, t)
        }
        else Some (w, t));
     if is_black t (r_child t w) \<and> is_black t (l_child t w)
     then Some (p, set_red w t)
     else if is_black t (l_child t w)
     then do {
       let t = set_black (r_child t w) t;
       let t = set_red w t;
       t \<leftarrow> left_rotate w t;
       Some (x, t)
     }
     else do {
       let t = cp_color w p t;
       let t = set_black p t;
       let t = set_black (l_child t w) t;
       t \<leftarrow> right_rotate p t;
       Some (rb_root t, t)
     }
   }"

partial_function (option) fix_bb_loop :: "ptr \<Rightarrow> rbtree \<Rightarrow> (ptr \<times> rbtree) option" where
  "fix_bb_loop x t =
     (if x \<noteq> rb_root t \<and> is_black t x
      then let p = get_parent t x in
        if p = 0 then Some (x, t)
        else do {
          (x, t) \<leftarrow> (if x = l_child t p then fix_bb_left x p t else fix_bb_right x p t);
          fix_bb_loop x t
        }
      else Some (x, t))"

definition fix_bb_new :: "ptr \<Rightarrow> rbtree \<Rightarrow> rbtree option" where
  "fix_bb_new x t = do { (x, t) \<leftarrow> fix_bb_loop x t; Some (set_black x t) }"

definition rb_remove_node :: "ptr \<Rightarrow> rbtree \<Rightarrow> rbtree option" where
  "rb_remove_node x t = do {
     xl \<leftarrow> deref x (rb_lc t x);
     let xr = rb_rc t x;
     t \<leftarrow> (if xl \<noteq> 0 \<and> xr \<noteq> 0
        then do {
          r \<leftarrow> rb_leftmost t xr;
          rr \<leftarrow> deref r (rb_rc t r);
          let double_black = is_black t r;
          let t = (if x = rb_root t then t\<lparr>rb_root := r\<rparr> else t);
          t \<leftarrow> swap_node x r t;
          t \<leftarrow> (if double_black then fix_bb_new x t else Some t);
          transplant x rr t
        }
        else do {
          let r = (if xr = 0 then xl else xr);
          t \<leftarrow> (if is_black t x then fix_bb_new x t else Some t);
          transplant x r t
        });
     let t = set_black (rb_root t) t;
     t \<leftarrow> set_parent x 0 t;
     let t = upd_lc x 0 t;
     let t = upd_rc x 0 t;
     let t = t\<lparr>rb_size := rb_size t - 1\<rparr>;
     Some (if rb_size t \<le> 0 then t\<lparr>rb_root := 0\<rparr> else t)
   }"

definition rb_remove :: "u64 \<Rightarrow> rbtree \<Rightarrow> (ptr \<times> rbtree) option" where
  "rb_remove key t =
     (if rb_root t = 0 \<or> rb_size t \<le> 0 then Some (0, t)
      else do {
        (x, r) \<leftarrow> rb_search t key local_var;
        if x = 0 then Some (0, t)
        else do { t \<leftarrow> rb_remove_node x t; Some (x, t) }
      })"

section \<open>Traversals\<close>

text \<open>The visitor gets the node and a state of its own; it does not change the tree.\<close>

partial_function (option) pre_order ::
  "rbtree \<Rightarrow> ptr \<Rightarrow> (ptr \<Rightarrow> 's \<Rightarrow> 's) option \<Rightarrow> 's \<Rightarrow> 's option" where
  "pre_order t node f s =
     (if node = 0 \<or> f = None then Some s
      else do {
        let s = the f node s;
        s \<leftarrow> pre_order t (rb_lc t node) f s;
        pre_order t (rb_rc t node) f s
      })"

partial_function (option) in_order ::
  "rbtree \<Rightarrow> ptr \<Rightarrow> (ptr \<Rightarrow> 's \<Rightarrow> 's) option \<Rightarrow> 's \<Rightarrow> 's option" where
  "in_order t node f s =
     (if node = 0 \<or> f = None then Some s
      else do {
        s \<leftarrow> in_order t (rb_lc t node) f s;
        let s = the f node s;
        in_order t (rb_rc t node) f s
      })"

partial_function (option) post_order ::
  "rbtree \<Rightarrow> ptr \<Rightarrow> (ptr \<Rightarrow> 's \<Rightarrow> 's) option \<Rightarrow> 's \<Rightarrow> 's option" where
  "post_order t node f s =
     (if node = 0 \<or> f = None then Some s
      else do {
        s \<leftarrow> post_order t (rb_lc t node) f s;
        s \<leftarrow> post_order t (rb_rc t node) f s;
        Some (the f node s)
      })"

end
