(* ===== verification/Rbtree_Rep.thy ===== *)
theory Rbtree_Rep
  imports Rbtree
begin

text \<open>
  The trees a \<open>rbtree\<close> state represents, and what rotations, recolourings, the swap of two nodes and
  the transplant of a child do to them.

  An \<open>atree\<close> is a tree of node addresses with colours.  A subtree in its place is a pair of a
  context, the list of frames from the subtree up to the root, and the subtree itself;
  \<open>tree_at t c s\<close> says that the state \<open>t\<close> holds \<open>s\<close> in the context \<open>c\<close>.
\<close>

section \<open>Parent words\<close>

definition cbit :: "bool \<Rightarrow> u64" where "cbit b = (if b then 1 else 0)"

definition pword :: "bool \<Rightarrow> ptr \<Rightarrow> u64" where "pword b p = p OR cbit b"

definition aligned :: "ptr \<Rightarrow> bool" where "aligned p \<longleftrightarrow> p AND 3 = 0"

lemma aligned_0 [simp]: "aligned 0"
  by (simp add: aligned_def)

lemma cbit_and [simp]: "cbit b AND 3 = cbit b" "cbit b AND (- 4) = 0"
  by (simp_all add: cbit_def)

lemma cbit_0 [simp]: "cbit b = 0 \<longleftrightarrow> \<not> b"
  by (simp add: cbit_def)

lemma cbit_simps [simp]: "cbit True = 1" "cbit False = 0"
  by (simp_all add: cbit_def)

lemma aligned_and: "aligned p \<Longrightarrow> p AND (- 4) = p"
proof -
  assume "aligned p"
  have "p = p AND (3 OR (- 4))" by simp
  also have "\<dots> = (p AND 3) OR (p AND (- 4))" by (rule bit.conj_disj_distrib)
  finally show ?thesis using \<open>aligned p\<close> by (simp add: aligned_def)
qed

lemma pword_and [simp]:
  assumes "aligned p"
  shows "pword b p AND 3 = cbit b" and "pword b p AND (- 4) = p"
  using assms aligned_and [OF assms]
  by (simp_all add: pword_def bit.conj_disj_distrib2 aligned_def)

lemma pword_fold [simp]: "p OR cbit b = pword b p" "p OR 1 = pword True p"
  by (simp_all add: pword_def)

section \<open>Updates\<close>

lemma upd_simps [simp]:
  "rb_lc (upd_lc a v t) = (rb_lc t)(a := v)" "rb_rc (upd_lc a v t) = rb_rc t" "rb_pw (upd_lc a v t) = rb_pw t"
  "rb_lc (upd_rc a v t) = rb_lc t" "rb_rc (upd_rc a v t) = (rb_rc t)(a := v)" "rb_pw (upd_rc a v t) = rb_pw t"
  "rb_lc (upd_pw a v t) = rb_lc t" "rb_rc (upd_pw a v t) = rb_rc t" "rb_pw (upd_pw a v t) = (rb_pw t)(a := v)"
  "rb_root (upd_lc a v t) = rb_root t" "rb_root (upd_rc a v t) = rb_root t" "rb_root (upd_pw a v t) = rb_root t"
  "rb_key (upd_lc a v t) = rb_key t" "rb_key (upd_rc a v t) = rb_key t" "rb_key (upd_pw a v t) = rb_key t"
  "rb_size (upd_lc a v t) = rb_size t" "rb_size (upd_rc a v t) = rb_size t" "rb_size (upd_pw a v t) = rb_size t"
  "rb_depth (upd_lc a v t) = rb_depth t" "rb_depth (upd_rc a v t) = rb_depth t" "rb_depth (upd_pw a v t) = rb_depth t"
  "rb_cfunc (upd_lc a v t) = rb_cfunc t" "rb_cfunc (upd_rc a v t) = rb_cfunc t" "rb_cfunc (upd_pw a v t) = rb_cfunc t"
  by (simp_all add: upd_lc_def upd_rc_def upd_pw_def)

lemma upd_pw_same: "rb_pw t a = v \<Longrightarrow> upd_pw a v t = t"
  by (auto simp: upd_pw_def)

text \<open>Reading and writing the parent word of a node whose parent is aligned.\<close>

lemma get_parent_pword: "rb_pw t a = pword b p \<Longrightarrow> aligned p \<Longrightarrow> get_parent t a = (if a = 0 then 0 else p)"
  by (simp add: get_parent_def del: pword_fold)

lemma isblack_pword: "rb_pw t a = pword b p \<Longrightarrow> aligned p \<Longrightarrow> isblack t a = cbit b"
  by (simp add: isblack_def del: pword_fold)

lemma set_parent_pword:
  "rb_pw t a = pword b p \<Longrightarrow> aligned p \<Longrightarrow> a \<noteq> 0 \<Longrightarrow> set_parent a q t = Some (upd_pw a (pword b q) t)"
  by (simp add: set_parent_def isblack_pword)

lemma set_isblack_pword:
  "rb_pw t a = pword b p \<Longrightarrow> aligned p \<Longrightarrow> set_isblack a (cbit b') t = upd_pw a (pword b' p) t"
  by (simp add: set_isblack_def pword_def [of b' p] del: pword_fold)

lemma set_colour_pword:
  assumes "rb_pw t a = pword b p" and "aligned p" and "a \<noteq> 0"
  shows "set_black a t = upd_pw a (pword True p) t" and "set_red a t = upd_pw a (pword False p) t"
    and "is_black t a \<longleftrightarrow> b" and "is_red t a \<longleftrightarrow> \<not> b"
  using assms set_isblack_pword [OF assms(1,2), of True] set_isblack_pword [OF assms(1,2), of False]
    isblack_pword [OF assms(1,2)]
  by (simp_all add: set_black_def set_red_def is_black_def is_red_def del: pword_fold)

lemmas pword_simps = get_parent_pword isblack_pword set_parent_pword set_isblack_pword set_colour_pword

lemma null_node [simp]:
  "is_black t 0" "\<not> is_red t 0" "set_black 0 t = t" "set_red 0 t = t" "l_child t 0 = 0" "r_child t 0 = 0"
  "get_parent t 0 = 0"
  by (simp_all add: is_black_def is_red_def set_black_def set_red_def l_child_def r_child_def get_parent_def)

section \<open>Trees of addresses\<close>

datatype atree = Tip | Nd bool atree ptr atree

fun addrs :: "atree \<Rightarrow> ptr list" where
  "addrs Tip = []"
| "addrs (Nd b l a r) = addrs l @ a # addrs r"

fun aroot :: "atree \<Rightarrow> ptr" where
  "aroot Tip = 0"
| "aroot (Nd b l a r) = a"

fun rep :: "rbtree \<Rightarrow> ptr \<Rightarrow> atree \<Rightarrow> bool" where
  "rep t p Tip \<longleftrightarrow> True"
| "rep t p (Nd b l a r) \<longleftrightarrow> a \<noteq> 0 \<and> aligned a \<and> rb_pw t a = pword b p \<and>
     rb_lc t a = aroot l \<and> rb_rc t a = aroot r \<and> rep t a l \<and> rep t a r"

datatype frame = LF bool ptr atree | RF bool atree ptr

fun faddr :: "frame \<Rightarrow> ptr" where
  "faddr (LF b a r) = a"
| "faddr (RF b l a) = a"

fun fill :: "frame \<Rightarrow> atree \<Rightarrow> atree" where
  "fill (LF b a r) s = Nd b s a r"
| "fill (RF b l a) s = Nd b l a s"

definition plug :: "frame list \<Rightarrow> atree \<Rightarrow> atree" where "plug c s = foldl (\<lambda>s f. fill f s) s c"

lemma plug_simps [simp]: "plug [] s = s" "plug (f # c) s = plug c (fill f s)"
  by (simp_all add: plug_def)

lemma plug_append: "plug (c @ d) s = plug d (plug c s)"
  by (simp add: plug_def)

text \<open>The addresses to the left and to the right of the hole.\<close>

fun cl :: "frame list \<Rightarrow> ptr list" where
  "cl [] = []"
| "cl (LF b a r # c) = cl c"
| "cl (RF b l a # c) = cl c @ addrs l @ [a]"

fun cr :: "frame list \<Rightarrow> ptr list" where
  "cr [] = []"
| "cr (LF b a r # c) = a # addrs r @ cr c"
| "cr (RF b l a # c) = cr c"

lemma addrs_plug: "addrs (plug c s) = cl c @ addrs s @ cr c"
proof (induction c arbitrary: s)
  case (Cons f c)
  then show ?case by (cases f) simp_all
qed simp

text \<open>The parent of the hole and the root above it; \<open>par\<close> is the parent of the outermost frame.\<close>

fun cpar :: "ptr \<Rightarrow> frame list \<Rightarrow> ptr" where
  "cpar par [] = par"
| "cpar par (f # c) = faddr f"

definition croot :: "frame list \<Rightarrow> ptr \<Rightarrow> ptr" where "croot c p = foldl (\<lambda>p f. faddr f) p c"

lemma croot_simps [simp]: "croot [] p = p" "croot (f # c) p = croot c (faddr f)"
  by (simp_all add: croot_def)

fun repk :: "rbtree \<Rightarrow> ptr \<Rightarrow> frame list \<Rightarrow> ptr \<Rightarrow> bool" where
  "repk t par [] p \<longleftrightarrow> True"
| "repk t par (LF b a r # c) p \<longleftrightarrow> a \<noteq> 0 \<and> aligned a \<and> rb_pw t a = pword b (cpar par c) \<and>
     rb_lc t a = p \<and> rb_rc t a = aroot r \<and> rep t a r \<and> repk t par c a"
| "repk t par (RF b l a # c) p \<longleftrightarrow> a \<noteq> 0 \<and> aligned a \<and> rb_pw t a = pword b (cpar par c) \<and>
     rb_lc t a = aroot l \<and> rb_rc t a = p \<and> rep t a l \<and> repk t par c a"

lemma rep_aroot: "rep t p s \<Longrightarrow> aligned (aroot s)"
  by (cases s) auto

lemma aroot_0: "rep t p s \<Longrightarrow> aroot s = 0 \<longleftrightarrow> s = Tip"
  by (cases s) auto

lemma aroot_mem: "s \<noteq> Tip \<Longrightarrow> aroot s \<in> set (addrs s)"
  by (cases s) auto

lemma repk_cpar: "repk t par c p \<Longrightarrow> aligned par \<Longrightarrow> aligned (cpar par c)"
  by (induction t par c p rule: repk.induct) auto

lemma rep_plug: "rep t par (plug c s) \<longleftrightarrow> repk t par c (aroot s) \<and> rep t (cpar par c) s"
proof (induction c arbitrary: s)
  case (Cons f c)
  then show ?case by (cases f) auto
qed simp

lemma aroot_plug: "aroot (plug c s) = croot c (aroot s)"
proof (induction c arbitrary: s)
  case (Cons f c)
  then show ?case by (cases f) auto
qed simp

section \<open>What updates leave alone\<close>

lemma rep_cong:
  assumes "\<And>a. a \<in> set (addrs s) \<Longrightarrow> rb_lc t' a = rb_lc t a \<and> rb_rc t' a = rb_rc t a \<and> rb_pw t' a = rb_pw t a"
  shows "rep t' p s \<longleftrightarrow> rep t p s"
  using assms
proof (induction s arbitrary: p)
  case (Nd b l a r)
  have "rb_lc t' a = rb_lc t a \<and> rb_rc t' a = rb_rc t a \<and> rb_pw t' a = rb_pw t a"
    by (rule Nd.prems) simp
  then show ?case using Nd.IH Nd.prems by simp
qed simp

lemma rep_upd [simp]:
  "a \<notin> set (addrs s) \<Longrightarrow> rep (upd_lc a v t) p s \<longleftrightarrow> rep t p s"
  "a \<notin> set (addrs s) \<Longrightarrow> rep (upd_rc a v t) p s \<longleftrightarrow> rep t p s"
  "a \<notin> set (addrs s) \<Longrightarrow> rep (upd_pw a v t) p s \<longleftrightarrow> rep t p s"
  "rep (t\<lparr>rb_root := x\<rparr>) p s \<longleftrightarrow> rep t p s"
  "rep (t\<lparr>rb_size := n\<rparr>) p s \<longleftrightarrow> rep t p s"
  by (rule rep_cong; auto)+

lemma repk_upd [simp]:
  "a \<notin> set (cl c) \<Longrightarrow> a \<notin> set (cr c) \<Longrightarrow> repk (upd_lc a v t) par c p \<longleftrightarrow> repk t par c p"
  "a \<notin> set (cl c) \<Longrightarrow> a \<notin> set (cr c) \<Longrightarrow> repk (upd_rc a v t) par c p \<longleftrightarrow> repk t par c p"
  "a \<notin> set (cl c) \<Longrightarrow> a \<notin> set (cr c) \<Longrightarrow> repk (upd_pw a v t) par c p \<longleftrightarrow> repk t par c p"
  "repk (t\<lparr>rb_root := x\<rparr>) par c p \<longleftrightarrow> repk t par c p"
  "repk (t\<lparr>rb_size := n\<rparr>) par c p \<longleftrightarrow> repk t par c p"
  by (induction t par c p rule: repk.induct; auto)+

definition rest_same :: "ptr set \<Rightarrow> rbtree \<Rightarrow> rbtree \<Rightarrow> bool" where
  "rest_same S t t' \<longleftrightarrow> rb_key t' = rb_key t \<and> rb_cfunc t' = rb_cfunc t \<and> rb_size t' = rb_size t \<and>
     rb_depth t' = rb_depth t \<and>
     (\<forall>a. a \<notin> S \<longrightarrow> rb_lc t' a = rb_lc t a \<and> rb_rc t' a = rb_rc t a \<and> rb_pw t' a = rb_pw t a)"

lemma rest_same_refl [simp]: "rest_same S t t"
  by (simp add: rest_same_def)

lemma rest_same_trans: "rest_same S t t' \<Longrightarrow> rest_same S t' t'' \<Longrightarrow> rest_same S t t''"
  by (simp add: rest_same_def)

lemma rest_same_upd [simp]:
  "a \<in> S \<Longrightarrow> rest_same S t (upd_lc a v t') \<longleftrightarrow> rest_same S t t'"
  "a \<in> S \<Longrightarrow> rest_same S t (upd_rc a v t') \<longleftrightarrow> rest_same S t t'"
  "a \<in> S \<Longrightarrow> rest_same S t (upd_pw a v t') \<longleftrightarrow> rest_same S t t'"
  "rest_same S t (t'\<lparr>rb_root := x\<rparr>) \<longleftrightarrow> rest_same S t t'"
  by (auto simp: rest_same_def)

text \<open>A subtree in its context.\<close>

definition tree_at :: "rbtree \<Rightarrow> frame list \<Rightarrow> atree \<Rightarrow> bool" where
  "tree_at t c s \<longleftrightarrow> repk t 0 c (aroot s) \<and> rep t (cpar 0 c) s \<and>
     distinct (cl c @ addrs s @ cr c) \<and> rb_root t = croot c (aroot s)"

lemma tree_at_plug: "tree_at t [] (plug c s) \<longleftrightarrow> tree_at t c s"
  by (simp add: tree_at_def rep_plug aroot_plug addrs_plug)

lemma tree_at_fill: "tree_at t c (fill f s) \<longleftrightarrow> tree_at t (f # c) s"
  using tree_at_plug [of t c "fill f s"] tree_at_plug [of t "f # c" s] by simp

lemma tree_at_Nd:
  "tree_at t c (Nd b l a r) \<longleftrightarrow> tree_at t (LF b a r # c) l"
  "tree_at t c (Nd b l a r) \<longleftrightarrow> tree_at t (RF b l a # c) r"
  using tree_at_fill [of t c "LF b a r" l] tree_at_fill [of t c "RF b l a" r] by simp_all

lemma tree_at_append: "tree_at t (c @ d) s \<longleftrightarrow> tree_at t d (plug c s)"
  using tree_at_plug [of t "c @ d" s] tree_at_plug [of t d "plug c s"] by (simp add: plug_append)

section \<open>Rotations\<close>

definition around :: "frame list \<Rightarrow> atree \<Rightarrow> ptr set" where
  "around c s = set (cl c) \<union> set (addrs s) \<union> set (cr c)"

lemma aroot_notin [simp]:
  "a \<notin> set (addrs s) \<Longrightarrow> a \<noteq> 0 \<Longrightarrow> aroot s \<noteq> a"
  "a \<notin> set (addrs s) \<Longrightarrow> a \<noteq> 0 \<Longrightarrow> a \<noteq> aroot s"
  by (cases s; auto)+

lemma left_rotate_ok:
  assumes "tree_at t c (Nd b l a (Nd b2 m a2 r))"
  shows "\<exists>t'. left_rotate a t = Some t' \<and> tree_at t' c (Nd b2 (Nd b l a m) a2 r) \<and>
     rest_same (around c (Nd b l a (Nd b2 m a2 r))) t t'"
proof (cases c)
  case Nil
  then show ?thesis using assms
    by (cases m) (clarsimp simp: tree_at_def left_rotate_def pword_simps Let_def around_def)+
next
  case (Cons f d)
  then show ?thesis using assms repk_cpar [of t 0 d "faddr f"]
    by (cases f; cases m) (clarsimp simp: tree_at_def left_rotate_def pword_simps Let_def around_def)+
qed

lemma right_rotate_ok:
  assumes "tree_at t c (Nd b (Nd b2 l a2 m) a r)"
  shows "\<exists>t'. right_rotate a t = Some t' \<and> tree_at t' c (Nd b2 l a2 (Nd b m a r)) \<and>
     rest_same (around c (Nd b (Nd b2 l a2 m) a r)) t t'"
proof (cases c)
  case Nil
  then show ?thesis using assms
    by (cases m) (clarsimp simp: tree_at_def right_rotate_def pword_simps Let_def around_def)+
next
  case (Cons f d)
  then show ?thesis using assms repk_cpar [of t 0 d "faddr f"]
    by (cases f; cases m) (clarsimp simp: tree_at_def right_rotate_def pword_simps Let_def around_def)+
qed

section \<open>Reading a tree\<close>

fun blk :: "atree \<Rightarrow> bool" where
  "blk Tip = True"
| "blk (Nd b l a r) = b"

fun fcol :: "frame \<Rightarrow> bool" where
  "fcol (LF b a r) = b"
| "fcol (RF b l a) = b"

lemma tree_at_blk:
  assumes "tree_at t c s"
  shows "is_black t (aroot s) \<longleftrightarrow> blk s" and "is_red t (aroot s) \<longleftrightarrow> \<not> blk s"
  using assms repk_cpar [of t 0 c "aroot s"]
  by (cases s; clarsimp simp: tree_at_def pword_simps)+

lemma tree_at_child:
  assumes "tree_at t c (Nd b l a r)"
  shows "rb_lc t a = aroot l" and "rb_rc t a = aroot r" and "a \<noteq> 0" and "aligned a"
    and "l_child t a = aroot l" and "r_child t a = aroot r"
  using assms by (clarsimp simp: tree_at_def l_child_def r_child_def)+

lemma tree_at_parent:
  assumes "tree_at t c s" and "s \<noteq> Tip"
  shows "get_parent t (aroot s) = cpar 0 c"
  using assms repk_cpar [of t 0 c "aroot s"]
  by (cases s; clarsimp simp: tree_at_def pword_simps)

lemma tree_at_frame:
  assumes "tree_at t (f # c) s"
  shows "faddr f \<noteq> 0" and "is_black t (faddr f) \<longleftrightarrow> fcol f" and "is_red t (faddr f) \<longleftrightarrow> \<not> fcol f"
    and "get_parent t (faddr f) = cpar 0 c" and "faddr f \<noteq> aroot s"
proof -
  have "tree_at t c (fill f s)" using assms by (simp add: tree_at_fill)
  moreover have "aroot (fill f s) = faddr f" "blk (fill f s) = fcol f" "fill f s \<noteq> Tip" by (cases f; simp)+
  ultimately show "is_black t (faddr f) \<longleftrightarrow> fcol f" "is_red t (faddr f) \<longleftrightarrow> \<not> fcol f"
    "get_parent t (faddr f) = cpar 0 c"
    using tree_at_blk [of t c "fill f s"] tree_at_parent [of t c "fill f s"] by simp_all
  show "faddr f \<noteq> 0" "faddr f \<noteq> aroot s" using assms by (cases f; clarsimp simp: tree_at_def)+
qed

lemma tree_at_LF:
  assumes "tree_at t (LF b a r # c) s"
  shows "rb_lc t a = aroot s" and "rb_rc t a = aroot r" and "s \<noteq> Tip \<Longrightarrow> aroot s \<noteq> aroot r"
  using assms by (cases s; cases r; clarsimp simp: tree_at_def)+

lemma tree_at_RF:
  assumes "tree_at t (RF b l a # c) s"
  shows "rb_rc t a = aroot s" and "rb_lc t a = aroot l" and "s \<noteq> Tip \<Longrightarrow> aroot s \<noteq> aroot l"
  using assms by (cases s; cases l; clarsimp simp: tree_at_def)+

lemma tree_at_root: "tree_at t c s \<Longrightarrow> rb_root t = croot c (aroot s)"
  by (simp add: tree_at_def)

lemma croot_mem: "c \<noteq> [] \<Longrightarrow> croot c p \<in> set (cl c) \<union> set (cr c)"
proof (induction c arbitrary: p)
  case (Cons f c)
  then show ?case by (cases f; cases "c = []") auto
qed simp

lemma tree_at_not_root:
  assumes "tree_at t (f # c) s" and "s \<noteq> Tip"
  shows "aroot s \<noteq> rb_root t"
proof -
  have "aroot s \<in> set (addrs s)" using assms(2) by (rule aroot_mem)
  moreover have "rb_root t \<in> set (cl (f # c)) \<union> set (cr (f # c))"
    using tree_at_root [OF assms(1)] croot_mem [of "f # c" "aroot s"] by simp
  moreover have "set (addrs s) \<inter> (set (cl (f # c)) \<union> set (cr (f # c))) = {}"
    using assms(1) by (auto simp only: tree_at_def distinct_append set_append)
  ultimately show ?thesis by (metis IntI emptyE)
qed

lemma around_plug: "around c s = set (addrs (plug c s))"
  by (auto simp: around_def addrs_plug)

lemma rep_addr: "rep t p s \<Longrightarrow> a \<in> set (addrs s) \<Longrightarrow> a \<noteq> 0 \<and> aligned a"
  by (induction s arbitrary: p) auto

lemma tree_at_addr: "tree_at t c s \<Longrightarrow> a \<in> around c s \<Longrightarrow> a \<noteq> 0 \<and> aligned a"
  using tree_at_plug [of t c s] rep_addr [of t 0 "plug c s" a] by (simp add: tree_at_def around_plug)

section \<open>Recolouring\<close>

lemma set_colour_ok:
  assumes "tree_at t c (Nd b l a r)"
  shows "tree_at (set_black a t) c (Nd True l a r)" and "tree_at (set_red a t) c (Nd False l a r)"
    and "rest_same (around c (Nd b l a r)) t (set_black a t)" and "rest_same (around c (Nd b l a r)) t (set_red a t)"
  using assms repk_cpar [of t 0 c a]
  by (clarsimp simp: tree_at_def pword_simps around_def)+

lemma set_black_id: "tree_at t c s \<Longrightarrow> blk s \<Longrightarrow> set_black (aroot s) t = t"
  using repk_cpar [of t 0 c "aroot s"] by (cases s; clarsimp simp: tree_at_def pword_simps upd_pw_same)

lemma climb_ok:
  "tree_at t c s \<Longrightarrow> s \<noteq> Tip \<Longrightarrow> climb t (aroot s) = Some (croot c (aroot s))"
proof (induction c arbitrary: s)
  case Nil
  then show ?case using tree_at_parent [OF Nil] aroot_mem [of s] by (subst climb.simps) simp
next
  case (Cons f c)
  have "aroot s \<noteq> 0" using Cons.prems by (cases s) (auto simp: tree_at_def)
  moreover have "tree_at t c (fill f s)" using Cons.prems by (simp add: tree_at_fill)
  moreover have "fill f s \<noteq> Tip" "aroot (fill f s) = faddr f" by (cases f; simp)+
  ultimately show ?case
    using tree_at_parent [OF Cons.prems] tree_at_frame(1) [OF Cons.prems(1)] Cons.IH [of "fill f s"]
    by (subst climb.simps) simp
qed

section \<open>The red-black invariant\<close>

text \<open>\<open>rbt n s\<close>: every path of \<open>s\<close> has \<open>n\<close> black nodes and no red node has a red child.\<close>

fun rbt :: "nat \<Rightarrow> atree \<Rightarrow> bool" where
  "rbt n Tip \<longleftrightarrow> n = 0"
| "rbt n (Nd b l a r) \<longleftrightarrow>
     (if b then 0 < n \<and> rbt (n - 1) l \<and> rbt (n - 1) r else blk l \<and> blk r \<and> rbt n l \<and> rbt n r)"

text \<open>\<open>rbc n red c\<close>: the context accepts a subtree of black height \<open>n\<close> whose root is red if \<open>red\<close>.\<close>

fun rbc :: "nat \<Rightarrow> bool \<Rightarrow> frame list \<Rightarrow> bool" where
  "rbc n red [] \<longleftrightarrow> \<not> red"
| "rbc n red (LF b a r # c) \<longleftrightarrow>
     (if b then rbt n r \<and> rbc (Suc n) False c else \<not> red \<and> blk r \<and> rbt n r \<and> rbc n True c)"
| "rbc n red (RF b l a # c) \<longleftrightarrow>
     (if b then rbt n l \<and> rbc (Suc n) False c else \<not> red \<and> blk l \<and> rbt n l \<and> rbc n True c)"

definition rb_tree :: "atree \<Rightarrow> bool" where "rb_tree s \<longleftrightarrow> blk s \<and> (\<exists>n. rbt n s)"

lemma rbc_True: "rbc n True c \<Longrightarrow> rbc n False c"
  by (cases c; cases "hd c") (auto split: if_splits)

lemma rbc_plug: "rbt n s \<Longrightarrow> rbc n (\<not> blk s) c \<Longrightarrow> rb_tree (plug c s)"
proof (induction c arbitrary: n s)
  case Nil
  then show ?case by (auto simp: rb_tree_def)
next
  case (Cons f c)
  show ?case
  proof (cases "fcol f")
    case True
    then have "rbt (Suc n) (fill f s)" "rbc (Suc n) (\<not> blk (fill f s)) c"
      using Cons.prems by (cases f; simp)+
    then show ?thesis using Cons.IH by simp
  next
    case False
    then have "rbt n (fill f s)" "rbc n (\<not> blk (fill f s)) c"
      using Cons.prems by (cases f; simp)+
    then show ?thesis using Cons.IH by simp
  qed
qed

lemma plug_rbc: "rb_tree (plug c s) \<Longrightarrow> \<exists>n. rbt n s \<and> rbc n (\<not> blk s) c"
proof (induction c arbitrary: s)
  case Nil
  then show ?case by (auto simp: rb_tree_def)
next
  case (Cons f c)
  then obtain n where n: "rbt n (fill f s)" "rbc n (\<not> blk (fill f s)) c" by auto
  show ?case
  proof (cases "fcol f")
    case True
    then have "rbt (n - 1) s \<and> rbc (n - 1) (\<not> blk s) (f # c)"
      using n by (cases f; cases n; simp)
    then show ?thesis by blast
  next
    case False
    then have "rbt n s \<and> rbc n (\<not> blk s) (f # c)" using n by (cases f; simp)
    then show ?thesis by blast
  qed
qed

end
