(* ===== verification/Rbtree_Insert.thy ===== *)
theory Rbtree_Insert
  imports Rbtree_Rep
begin

text \<open>
  Search and insertion: \<open>rb_search\<close> finds the node a key compares equal to or the place of a new
  one, and \<open>rb_insert\<close> with \<open>_fix_rr\<close> links the node there and keeps the red-black invariant.
\<close>

section \<open>Repairing two red nodes in a row\<close>

fun fblack :: "frame \<Rightarrow> frame" where
  "fblack (LF b a r) = LF True a r"
| "fblack (RF b l a) = RF True l a"

lemma recolour_L:
  assumes "tree_at t (f # LF b g (Nd b2 ul ua ur) # c) s"
  defines "t' \<equiv> set_red g (set_black ua (set_black (faddr f) t))"
  shows "tree_at t' c (Nd False (fill (fblack f) s) g (Nd True ul ua ur))"
    and "rest_same (around (f # LF b g (Nd b2 ul ua ur) # c) s) t t'"
  using assms(1) repk_cpar [of t 0 c g]
  by (cases f; clarsimp simp: tree_at_def pword_simps around_def t'_def)+

lemma recolour_R:
  assumes "tree_at t (f # RF b (Nd b2 ul ua ur) g # c) s"
  defines "t' \<equiv> set_red g (set_black ua (set_black (faddr f) t))"
  shows "tree_at t' c (Nd False (Nd True ul ua ur) g (fill (fblack f) s))"
    and "rest_same (around (f # RF b (Nd b2 ul ua ur) g # c) s) t t'"
  using assms(1) repk_cpar [of t 0 c g]
  by (cases f; clarsimp simp: tree_at_def pword_simps around_def t'_def)+

text \<open>What the loop promises: it ends at a subtree of a tree that is red-black but for its root.\<close>

definition fix_rr_post :: "frame list \<Rightarrow> atree \<Rightarrow> rbtree \<Rightarrow> (ptr \<times> rbtree) option \<Rightarrow> bool" where
  "fix_rr_post c s t res \<longleftrightarrow> (\<exists>t' c' s'. res = Some (aroot s', t') \<and> tree_at t' c' s' \<and> s' \<noteq> Tip \<and>
     addrs (plug c' s') = addrs (plug c s) \<and> rest_same (around c s) t t' \<and>
     (\<exists>m. rbt m s' \<and> (c' = [] \<or> rbc m (\<not> blk s') c')))"

lemma fix_rr_postI:
  "res = Some (aroot s', t') \<Longrightarrow> tree_at t' c' s' \<Longrightarrow> s' \<noteq> Tip \<Longrightarrow> addrs (plug c' s') = addrs (plug c s) \<Longrightarrow>
   rest_same (around c s) t t' \<Longrightarrow> rbt m s' \<Longrightarrow> c' = [] \<or> rbc m (\<not> blk s') c' \<Longrightarrow> fix_rr_post c s t res"
  by (auto simp: fix_rr_post_def)

lemma fix_rr_post_step:
  assumes "fix_rr_post c s t res" and "addrs (plug c s) = addrs (plug c0 s0)" and "rest_same (around c0 s0) t0 t"
  shows "fix_rr_post c0 s0 t0 res"
  using assms rest_same_trans [of "around c0 s0" t0 t] unfolding fix_rr_post_def around_plug by metis

lemma fix_rr_loop_L:
  assumes at: "tree_at t (f # LF True g u # c) (Nd False l a r)" and col: "\<not> fcol f"
  shows "fix_rr_loop a (faddr f) t =
    (if blk u then do {
        (node, t) \<leftarrow> (if a = rb_rc t (faddr f)
           then do { t \<leftarrow> left_rotate (faddr f) t; Some (a, t) } else Some (faddr f, t));
        t \<leftarrow> right_rotate g (set_red g (set_black node t));
        Some (node, t) }
     else fix_rr_loop g (cpar 0 c) (set_red g (set_black (aroot u) (set_black (faddr f) t))))"
proof -
  note fr = tree_at_frame [OF at]
  have g: "tree_at t (LF True g u # c) (fill f (Nd False l a r))" using at by (simp add: tree_at_fill)
  have p: "aroot (fill f (Nd False l a r)) = faddr f" "fill f (Nd False l a r) \<noteq> Tip" by (cases f; simp)+
  note gr = tree_at_LF [OF g, unfolded p(1)] tree_at_frame [OF g]
  have "tree_at t (RF True (fill f (Nd False l a r)) g # c) u" using g by (simp add: tree_at_Nd [symmetric])
  from tree_at_blk(2) [OF this] have u: "is_red t (aroot u) \<longleftrightarrow> \<not> blk u" .
  have "get_parent t a = faddr f" using tree_at_parent [OF at] by simp
  moreover have "get_parent (set_red g (set_black (aroot u) (set_black (faddr f) t))) g = cpar 0 c" if "\<not> blk u"
  proof (cases u)
    case (Nd b2 ul ua ur)
    then show ?thesis using tree_at_parent [OF recolour_L(1) [of t f True g b2 ul ua ur c]] at by simp
  qed (use that in simp)
  ultimately show ?thesis
    using fr gr u col p by (subst fix_rr_loop.simps) (simp add: Let_def)
qed

lemma fix_rr_rotate_L:
  assumes at: "tree_at t (f # LF True g u # c) (Nd False l a r)" and col: "\<not> fcol f"
    and rb: "rbt n (Nd False l a r)" "rbc n True (LF True g u # c)" and u: "blk u" and fr: "rbc n False (f # LF True g u # c)"
  shows "fix_rr_post (f # LF True g u # c) (Nd False l a r) t (fix_rr_loop a (faddr f) t)"
proof (cases f)
  case (LF b p x)
  have x: "rbt n x" "blk x" "rbt n u" "rbc (Suc n) False c" using fr col by (simp_all add: LF)
  have at1: "tree_at t (LF True g u # c) (Nd False (Nd False l a r) p x)"
    using at col by (simp add: LF tree_at_fill [symmetric])
  have "tree_at (set_black p t) (LF True g u # c) (Nd True (Nd False l a r) p x)"
    by (rule set_colour_ok(1) [OF at1])
  then have "tree_at (set_black p t) c (Nd True (Nd True (Nd False l a r) p x) g u)"
    by (simp add: tree_at_Nd [symmetric])
  from set_colour_ok(2) [OF this] obtain t' where t': "right_rotate g (set_red g (set_black p t)) = Some t'"
    "tree_at t' c (Nd True (Nd False l a r) p (Nd False x g u))"
    "rest_same (around c (Nd False (Nd True (Nd False l a r) p x) g u)) (set_red g (set_black p t)) t'"
    using right_rotate_ok by blast
  have "around c (Nd False (Nd True (Nd False l a r) p x) g u) = around (f # LF True g u # c) (Nd False l a r)"
    by (simp add: around_plug LF addrs_plug)
  then have same: "rest_same (around (f # LF True g u # c) (Nd False l a r)) t t'"
    using t'(3) set_colour_ok(3) [OF at1] set_colour_ok(4) [OF \<open>tree_at (set_black p t) c _\<close>]
    by (simp add: around_plug LF addrs_plug) (blast intro: rest_same_trans)
  have eq: "fix_rr_loop a (faddr f) t = Some (p, t')"
    using fix_rr_loop_L [OF at col] u t'(1) tree_at_LF [OF at [unfolded LF]] by (simp add: LF)
  show ?thesis
    by (rule fix_rr_postI [where s' = "Nd True (Nd False l a r) p (Nd False x g u)" and c' = c and t' = t' and m = "Suc n"])
       (use eq t' same rb x u in \<open>auto simp: LF addrs_plug\<close>)
next
  case (RF b x p)
  have x: "rbt n x" "blk x" "rbt n u" "rbc (Suc n) False c" using fr col by (simp_all add: RF)
  have at1: "tree_at t (LF True g u # c) (Nd False x p (Nd False l a r))"
    using at col by (simp add: RF tree_at_fill [symmetric])
  obtain t1 where t1: "left_rotate p t = Some t1" "tree_at t1 (LF True g u # c) (Nd False (Nd False x p l) a r)"
    "rest_same (around (LF True g u # c) (Nd False x p (Nd False l a r))) t t1"
    using left_rotate_ok at1 by blast
  have "tree_at (set_black a t1) (LF True g u # c) (Nd True (Nd False x p l) a r)"
    by (rule set_colour_ok(1) [OF t1(2)])
  then have at2: "tree_at (set_black a t1) c (Nd True (Nd True (Nd False x p l) a r) g u)"
    by (simp add: tree_at_Nd [symmetric])
  from set_colour_ok(2) [OF this] obtain t' where t': "right_rotate g (set_red g (set_black a t1)) = Some t'"
    "tree_at t' c (Nd True (Nd False x p l) a (Nd False r g u))"
    "rest_same (around c (Nd False (Nd True (Nd False x p l) a r) g u)) (set_red g (set_black a t1)) t'"
    using right_rotate_ok by blast
  have same: "rest_same (around (f # LF True g u # c) (Nd False l a r)) t t'"
    using t'(3) t1(3) set_colour_ok(3) [OF t1(2)] set_colour_ok(4) [OF at2]
    by (simp add: around_plug RF addrs_plug) (blast intro: rest_same_trans)
  have eq: "fix_rr_loop a (faddr f) t = Some (a, t')"
    using fix_rr_loop_L [OF at col] u t'(1) t1(1) tree_at_RF [OF at [unfolded RF]] by (simp add: RF)
  show ?thesis
    by (rule fix_rr_postI [where s' = "Nd True (Nd False x p l) a (Nd False r g u)" and c' = c and t' = t' and m = "Suc n"])
       (use eq t' same rb x u in \<open>auto simp: RF addrs_plug\<close>)
qed

lemma fix_rr_loop_R:
  assumes at: "tree_at t (f # RF True u g # c) (Nd False l a r)" and col: "\<not> fcol f"
  shows "fix_rr_loop a (faddr f) t =
    (if blk u then do {
        (node, t) \<leftarrow> (if a = rb_lc t (faddr f)
           then do { t \<leftarrow> right_rotate (faddr f) t; Some (a, t) } else Some (faddr f, t));
        t \<leftarrow> left_rotate g (set_red g (set_black node t));
        Some (node, t) }
     else fix_rr_loop g (cpar 0 c) (set_red g (set_black (aroot u) (set_black (faddr f) t))))"
proof -
  note fr = tree_at_frame [OF at]
  have g: "tree_at t (RF True u g # c) (fill f (Nd False l a r))" using at by (simp add: tree_at_fill)
  have p: "aroot (fill f (Nd False l a r)) = faddr f" "fill f (Nd False l a r) \<noteq> Tip" by (cases f; simp)+
  note gr = tree_at_RF [OF g, unfolded p(1)] tree_at_frame [OF g]
  have "tree_at t (LF True g (fill f (Nd False l a r)) # c) u" using g by (simp add: tree_at_Nd [symmetric])
  from tree_at_blk(2) [OF this] have u: "is_red t (aroot u) \<longleftrightarrow> \<not> blk u" .
  have "get_parent t a = faddr f" using tree_at_parent [OF at] by simp
  moreover have "get_parent (set_red g (set_black (aroot u) (set_black (faddr f) t))) g = cpar 0 c" if "\<not> blk u"
  proof (cases u)
    case (Nd b2 ul ua ur)
    then show ?thesis using tree_at_parent [OF recolour_R(1) [of t f True b2 ul ua ur g c]] at by simp
  qed (use that in simp)
  ultimately show ?thesis
    using fr gr u col p by (subst fix_rr_loop.simps) (simp add: Let_def)
qed

lemma fix_rr_rotate_R:
  assumes at: "tree_at t (f # RF True u g # c) (Nd False l a r)" and col: "\<not> fcol f"
    and rb: "rbt n (Nd False l a r)" "rbc n True (RF True u g # c)" and u: "blk u" and fr: "rbc n False (f # RF True u g # c)"
  shows "fix_rr_post (f # RF True u g # c) (Nd False l a r) t (fix_rr_loop a (faddr f) t)"
proof (cases f)
  case (LF b p x)
  have x: "rbt n x" "blk x" "rbt n u" "rbc (Suc n) False c" using fr col by (simp_all add: LF)
  have at1: "tree_at t (RF True u g # c) (Nd False (Nd False l a r) p x)"
    using at col by (simp add: LF tree_at_fill [symmetric])
  obtain t1 where t1: "right_rotate p t = Some t1" "tree_at t1 (RF True u g # c) (Nd False l a (Nd False r p x))"
    "rest_same (around (RF True u g # c) (Nd False (Nd False l a r) p x)) t t1"
    using right_rotate_ok at1 by blast
  have "tree_at (set_black a t1) (RF True u g # c) (Nd True l a (Nd False r p x))"
    by (rule set_colour_ok(1) [OF t1(2)])
  then have at2: "tree_at (set_black a t1) c (Nd True u g (Nd True l a (Nd False r p x)))"
    by (simp add: tree_at_Nd [symmetric])
  from set_colour_ok(2) [OF this] obtain t' where t': "left_rotate g (set_red g (set_black a t1)) = Some t'"
    "tree_at t' c (Nd True (Nd False u g l) a (Nd False r p x))"
    "rest_same (around c (Nd False u g (Nd True l a (Nd False r p x)))) (set_red g (set_black a t1)) t'"
    using left_rotate_ok by blast
  have same: "rest_same (around (f # RF True u g # c) (Nd False l a r)) t t'"
    using t'(3) t1(3) set_colour_ok(3) [OF t1(2)] set_colour_ok(4) [OF at2]
    by (simp add: around_plug LF addrs_plug) (blast intro: rest_same_trans)
  have eq: "fix_rr_loop a (faddr f) t = Some (a, t')"
    using fix_rr_loop_R [OF at col] u t'(1) t1(1) tree_at_LF [OF at [unfolded LF]] by (simp add: LF)
  show ?thesis
    by (rule fix_rr_postI [where s' = "Nd True (Nd False u g l) a (Nd False r p x)" and c' = c and t' = t' and m = "Suc n"])
       (use eq t' same rb x u in \<open>auto simp: LF addrs_plug\<close>)
next
  case (RF b x p)
  have x: "rbt n x" "blk x" "rbt n u" "rbc (Suc n) False c" using fr col by (simp_all add: RF)
  have at1: "tree_at t (RF True u g # c) (Nd False x p (Nd False l a r))"
    using at col by (simp add: RF tree_at_fill [symmetric])
  have "tree_at (set_black p t) (RF True u g # c) (Nd True x p (Nd False l a r))"
    by (rule set_colour_ok(1) [OF at1])
  then have "tree_at (set_black p t) c (Nd True u g (Nd True x p (Nd False l a r)))"
    by (simp add: tree_at_Nd [symmetric])
  from set_colour_ok(2) [OF this] obtain t' where t': "left_rotate g (set_red g (set_black p t)) = Some t'"
    "tree_at t' c (Nd True (Nd False u g x) p (Nd False l a r))"
    "rest_same (around c (Nd False u g (Nd True x p (Nd False l a r)))) (set_red g (set_black p t)) t'"
    using left_rotate_ok by blast
  have "around c (Nd False u g (Nd True x p (Nd False l a r))) = around (f # RF True u g # c) (Nd False l a r)"
    by (simp add: around_plug RF addrs_plug)
  then have same: "rest_same (around (f # RF True u g # c) (Nd False l a r)) t t'"
    using t'(3) set_colour_ok(3) [OF at1] set_colour_ok(4) [OF \<open>tree_at (set_black p t) c _\<close>]
    by (simp add: around_plug RF addrs_plug) (blast intro: rest_same_trans)
  have eq: "fix_rr_loop a (faddr f) t = Some (p, t')"
    using fix_rr_loop_R [OF at col] u t'(1) tree_at_RF [OF at [unfolded RF]] by (simp add: RF)
  show ?thesis
    by (rule fix_rr_postI [where s' = "Nd True (Nd False u g x) p (Nd False l a r)" and c' = c and t' = t' and m = "Suc n"])
       (use eq t' same rb x u in \<open>auto simp: RF addrs_plug\<close>)
qed

lemma fix_rr_loop_ok:
  assumes "tree_at t c (Nd False l a r)" and "rbt n (Nd False l a r)" and "rbc n False c"
  shows "fix_rr_post c (Nd False l a r) t (fix_rr_loop a (cpar 0 c) t)"
  using assms
proof (induction "length c" arbitrary: t c l a r n rule: less_induct)
  case less
  show ?case
  proof (cases "c = [] \<or> fcol (hd c)")
    case True
    then have "\<not> is_red t (cpar 0 c)" and "c = [] \<or> rbc n True c"
      using tree_at_frame(3) [of t "hd c" "tl c"] less.prems by (cases c; cases "hd c"; auto)+
    then show ?thesis
      using less.prems by (intro fix_rr_postI [where s' = "Nd False l a r" and c' = c and t' = t and m = n]) (simp_all add: fix_rr_loop.simps)
  next
    case False
    then obtain f c1 where c1: "c = f # c1" "\<not> fcol f" by (cases c) auto
    then have "rbc n True c1" using less.prems(3) by (cases f) auto
    then obtain g c2 where c2: "c1 = g # c2" "fcol g" "rbc n True (g # c2)"
      by (cases c1; cases "hd c1"; auto split: if_splits)
    show ?thesis
    proof (cases g)
      case (LF b ga u)
      have b: b using c2(2) LF by simp
      have at: "tree_at t (f # LF True ga u # c2) (Nd False l a r)" and fr: "rbc n False (f # LF True ga u # c2)"
        and gr: "rbc n True (LF True ga u # c2)"
        using less.prems(1,3) c1(1) c2(1,3) LF b by simp_all
      show ?thesis
      proof (cases "blk u")
        case True
        show ?thesis using fix_rr_rotate_L [OF at c1(2) less.prems(2) gr True fr] c1(1) c2(1) LF b by simp
      next
        case False
        then obtain ul ua ur where u: "u = Nd False ul ua ur" by (cases u) auto
        let ?t = "set_red ga (set_black ua (set_black (faddr f) t))"
        let ?s = "Nd False (fill (fblack f) (Nd False l a r)) ga (Nd True ul ua ur)"
        note rec = recolour_L [OF at [unfolded u]]
        have "rbt (Suc n) ?s" "rbc (Suc n) False c2"
          using less.prems(2) fr gr u c1(2) by (cases f; auto)+
        then have "fix_rr_post c2 ?s ?t (fix_rr_loop ga (cpar 0 c2) ?t)"
          using rec(1) c1(1) c2(1) by (intro less.hyps) auto
        moreover have "addrs (plug c2 ?s) = addrs (plug c (Nd False l a r))"
          by (cases f; simp add: c1(1) c2(1) LF u addrs_plug)
        moreover have "rest_same (around c (Nd False l a r)) t ?t"
          using rec(2) by (simp add: c1(1) c2(1) LF u b)
        ultimately have "fix_rr_post c (Nd False l a r) t (fix_rr_loop ga (cpar 0 c2) ?t)"
          by (rule fix_rr_post_step)
        then show ?thesis using fix_rr_loop_L [OF at c1(2)] False u c1(1) by simp
      qed
    next
      case (RF b u ga)
      have b: b using c2(2) RF by simp
      have at: "tree_at t (f # RF True u ga # c2) (Nd False l a r)" and fr: "rbc n False (f # RF True u ga # c2)"
        and gr: "rbc n True (RF True u ga # c2)"
        using less.prems(1,3) c1(1) c2(1,3) RF b by simp_all
      show ?thesis
      proof (cases "blk u")
        case True
        show ?thesis using fix_rr_rotate_R [OF at c1(2) less.prems(2) gr True fr] c1(1) c2(1) RF b by simp
      next
        case False
        then obtain ul ua ur where u: "u = Nd False ul ua ur" by (cases u) auto
        let ?t = "set_red ga (set_black ua (set_black (faddr f) t))"
        let ?s = "Nd False (Nd True ul ua ur) ga (fill (fblack f) (Nd False l a r))"
        note rec = recolour_R [OF at [unfolded u]]
        have "rbt (Suc n) ?s" "rbc (Suc n) False c2"
          using less.prems(2) fr gr u c1(2) by (cases f; auto)+
        then have "fix_rr_post c2 ?s ?t (fix_rr_loop ga (cpar 0 c2) ?t)"
          using rec(1) c1(1) c2(1) by (intro less.hyps) auto
        moreover have "addrs (plug c2 ?s) = addrs (plug c (Nd False l a r))"
          by (cases f; simp add: c1(1) c2(1) RF u addrs_plug)
        moreover have "rest_same (around c (Nd False l a r)) t ?t"
          using rec(2) by (simp add: c1(1) c2(1) RF u b)
        ultimately have "fix_rr_post c (Nd False l a r) t (fix_rr_loop ga (cpar 0 c2) ?t)"
          by (rule fix_rr_post_step)
        then show ?thesis using fix_rr_loop_R [OF at c1(2)] False u c1(1) by simp
      qed
    qed
  qed
qed

lemma fix_rr_ok:
  assumes "tree_at t c (Nd False l a r)" and "rbt n (Nd False l a r)" and "rbc n False c" and "c \<noteq> []"
  shows "\<exists>t' s'. fix_rr a t = Some t' \<and> tree_at t' [] s' \<and> rb_tree s' \<and>
    addrs s' = addrs (plug c (Nd False l a r)) \<and> rest_same (around c (Nd False l a r)) t t'"
proof -
  obtain f d where c: "c = f # d" using assms(4) by (cases c) auto
  have p: "get_parent t a = cpar 0 c" "cpar 0 c \<noteq> 0" "a \<noteq> 0"
    using tree_at_parent [OF assms(1)] tree_at_frame(1) [of t f d] tree_at_child(3) [OF assms(1)] assms(1) c by auto
  obtain t1 c' s' m where l: "fix_rr_loop a (cpar 0 c) t = Some (aroot s', t1)" "tree_at t1 c' s'" "s' \<noteq> Tip"
    "addrs (plug c' s') = addrs (plug c (Nd False l a r))" "rest_same (around c (Nd False l a r)) t t1"
    "rbt m s'" "c' = [] \<or> rbc m (\<not> blk s') c'"
    using fix_rr_loop_ok [OF assms(1-3)] unfolding fix_rr_post_def by blast
  let ?s = "plug c' s'"
  have at: "tree_at t1 [] ?s" using l(2) by (simp add: tree_at_plug)
  have ne: "?s \<noteq> Tip" using l(3) by (metis addrs.simps(1) addrs_plug append_is_Nil_conv aroot_mem empty_iff empty_set)
  obtain b l' a' r' where s: "?s = Nd b l' a' r'" using ne by (cases ?s) auto
  have rb: "\<exists>k. rbt k ?s"
    using l(6,7) rbc_plug [of m s' c'] by (auto simp: rb_tree_def)
  have root: "rb_root t1 = a'" using tree_at_root [OF at] s by simp
  have cl: "climb t1 (aroot s') = Some a'"
    using climb_ok [OF l(2,3)] aroot_plug [of c' s'] s by simp
  have "t1\<lparr>rb_root := a'\<rparr> = t1" using root by (cases t1) simp
  moreover have "fix_rr a t = Some (set_black a' (t1\<lparr>rb_root := a'\<rparr>))"
    using p l(1) cl by (simp add: fix_rr_def Let_def)
  ultimately have eq: "fix_rr a t = Some (set_black a' t1)" by (simp only:)
  have at': "tree_at (set_black a' t1) [] (Nd True l' a' r')"
    and same: "rest_same (around [] ?s) t1 (set_black a' t1)"
    using set_colour_ok(1,3) [of t1 "[]" b l' a' r'] at s by simp_all
  have "rb_tree (Nd True l' a' r')"
  proof -
    obtain k where "rbt k (Nd b l' a' r')" using rb s by metis
    then have "rbt (if b then k else Suc k) (Nd True l' a' r')" by (simp split: if_splits)
    then show ?thesis by (auto simp: rb_tree_def simp del: rbt.simps)
  qed
  moreover have "rest_same (around c (Nd False l a r)) t (set_black a' t1)"
    using l(5) same l(4) by (auto simp: around_plug intro: rest_same_trans)
  moreover have "addrs (Nd True l' a' r') = addrs (plug c (Nd False l a r))" using l(4) s by simp
  ultimately show ?thesis using eq at' by blast
qed

section \<open>Search\<close>

text \<open>
  \<open>ordered_for cmp xs\<close>: along the nodes of a tree a key first compares greater, then equal at most
  once, then less.
\<close>

definition ordered_for :: "(ptr \<Rightarrow> int) \<Rightarrow> ptr list \<Rightarrow> bool" where
  "ordered_for cmp xs \<longleftrightarrow> sorted_wrt (\<lambda>a b. 0 < cmp a \<or> cmp b < 0) xs"

text \<open>The place of a key: the context of the node it compares equal to, or of the free leaf.\<close>

definition between :: "(ptr \<Rightarrow> int) \<Rightarrow> ptr list \<Rightarrow> ptr list \<Rightarrow> bool" where
  "between cmp xs ys \<longleftrightarrow> (\<forall>a \<in> set xs. 0 < cmp a) \<and> (\<forall>a \<in> set ys. cmp a < 0)"

lemma search_loop_ok:
  assumes "tree_at t c s" and "ordered_for (compare_key t key) (addrs s)" 
    and "between (compare_key t key) (cl c) (cr c)" and "k \<noteq> 0"
  shows "\<exists>c' s'. rb_search_loop t key (aroot s) h k =
       Some (aroot s', if s' = Tip then (if s = Tip then h else cpar 0 c') else aroot s') \<and>
     tree_at t c' s' \<and> plug c' s' = plug c s \<and> (s = Tip \<or> s' \<noteq> Tip \<or> c' \<noteq> []) \<and>
     (s' \<noteq> Tip \<longrightarrow> compare_key t key (aroot s') = 0) \<and> (s' = Tip \<longrightarrow> between (compare_key t key) (cl c') (cr c')) \<and>
     (s = Tip \<longrightarrow> c' = c \<and> s' = Tip)"
  using assms
proof (induction s arbitrary: c h k)
  case Tip
  then show ?case by (subst rb_search_loop.simps) auto
next
  case (Nd b l a r)
  note ch = tree_at_child [OF Nd.prems(1)]
  let ?k = "compare_key t key a"
  have step: "rb_search_loop t key a h k =
     rb_search_loop t key (if ?k < 0 then aroot l else if 0 < ?k then aroot r else a) a ?k"
    using ch Nd.prems(4) by (subst rb_search_loop.simps) (simp add: Let_def)
  consider "?k < 0" | "0 < ?k" | "?k = 0" by linarith
  then show ?case
  proof cases
    case 1
    have at: "tree_at t (LF b a r # c) l" using Nd.prems(1) by (simp add: tree_at_Nd(1))
    have "between (compare_key t key) (cl (LF b a r # c)) (cr (LF b a r # c))"
      using Nd.prems(2,3) 1 by (auto simp: between_def ordered_for_def sorted_wrt_append)
    moreover have "ordered_for (compare_key t key) (addrs l)"
      using Nd.prems(2) by (simp add: ordered_for_def sorted_wrt_append)
    moreover have "?k \<noteq> 0" using 1 by simp
    ultimately obtain c' s' where IH:
      "rb_search_loop t key (aroot l) a ?k =
         Some (aroot s', if s' = Tip then (if l = Tip then a else cpar 0 c') else aroot s')"
      "tree_at t c' s'" "plug c' s' = plug (LF b a r # c) l" "l = Tip \<or> s' \<noteq> Tip \<or> c' \<noteq> []"
      "s' \<noteq> Tip \<longrightarrow> compare_key t key (aroot s') = 0"
      "s' = Tip \<longrightarrow> between (compare_key t key) (cl c') (cr c')" "l = Tip \<longrightarrow> c' = LF b a r # c \<and> s' = Tip"
      using Nd.IH(1) [OF at, of ?k a] by blast
    have "l = Tip \<Longrightarrow> cpar 0 c' = a" using IH(7) by simp
    then show ?thesis
      using IH step 1 by (intro exI [of _ c'] exI [of _ s']) auto
  next
    case 2
    have at: "tree_at t (RF b l a # c) r" using Nd.prems(1) by (simp add: tree_at_Nd(2))
    have "between (compare_key t key) (cl (RF b l a # c)) (cr (RF b l a # c))"
      using Nd.prems(2,3) 2 by (auto simp: between_def ordered_for_def sorted_wrt_append)
    moreover have "ordered_for (compare_key t key) (addrs r)"
      using Nd.prems(2) by (simp add: ordered_for_def sorted_wrt_append)
    moreover have "?k \<noteq> 0" using 2 by simp
    ultimately obtain c' s' where IH:
      "rb_search_loop t key (aroot r) a ?k =
         Some (aroot s', if s' = Tip then (if r = Tip then a else cpar 0 c') else aroot s')"
      "tree_at t c' s'" "plug c' s' = plug (RF b l a # c) r" "r = Tip \<or> s' \<noteq> Tip \<or> c' \<noteq> []"
      "s' \<noteq> Tip \<longrightarrow> compare_key t key (aroot s') = 0"
      "s' = Tip \<longrightarrow> between (compare_key t key) (cl c') (cr c')" "r = Tip \<longrightarrow> c' = RF b l a # c \<and> s' = Tip"
      using Nd.IH(2) [OF at, of ?k a] by blast
    have "r = Tip \<Longrightarrow> cpar 0 c' = a" using IH(7) by simp
    then show ?thesis
      using IH step 2 by (intro exI [of _ c'] exI [of _ s']) auto
  next
    case 3
    have "rb_search_loop t key a a 0 = Some (a, a)" by (subst rb_search_loop.simps) simp
    then show ?thesis using step 3 Nd.prems(1)
      by (intro exI [of _ c] exI [of _ "Nd b l a r"]) simp
  qed
qed


text \<open>Searching a whole tree.\<close>

lemma rb_search_ok:
  assumes "tree_at t [] s" and "ordered_for (compare_key t key) (addrs s)" and "hot \<noteq> 0"
  shows "\<exists>c' s'. rb_search t key hot = Some (aroot s', if s' = Tip then cpar 0 c' else aroot s') \<and>
     tree_at t c' s' \<and> plug c' s' = s \<and>
     (s' \<noteq> Tip \<longrightarrow> compare_key t key (aroot s') = 0) \<and> (s' = Tip \<longrightarrow> between (compare_key t key) (cl c') (cr c'))"
proof (cases s)
  case Tip
  then show ?thesis
    using assms tree_at_root [OF assms(1)]
    by (intro exI [of _ "[]"] exI [of _ Tip]) (simp add: rb_search_def between_def)
next
  case (Nd b l a r)
  have "between (compare_key t key) (cl []) (cr [])" by (simp add: between_def)
  note * = search_loop_ok [OF assms(1,2) this one_neq_zero, of "rb_root t"]
  have ne: "s \<noteq> Tip" "aroot s = a" using Nd by simp_all
  obtain c' s' where
    "rb_search_loop t key a (rb_root t) 1 = Some (aroot s', if s' = Tip then cpar 0 c' else aroot s')"
    "tree_at t c' s'" "plug c' s' = s" "s' \<noteq> Tip \<longrightarrow> compare_key t key (aroot s') = 0"
    "s' = Tip \<longrightarrow> between (compare_key t key) (cl c') (cr c')"
    using * unfolding if_not_P [OF ne(1)] ne(2) plug_simps(1) by blast
  moreover have "rb_root t = a" "a \<noteq> 0"
    using tree_at_root [OF assms(1)] tree_at_child(3) [of t "[]" b l a r] assms(1) Nd by simp_all
  ultimately show ?thesis
    using assms(3) by (intro exI [of _ c'] exI [of _ s']) (simp add: rb_search_def)
qed

lemma ordered_for_unique:
  assumes "ordered_for cmp xs" and "a \<in> set xs" and "b \<in> set xs" and "cmp a = 0" and "cmp b = 0"
  shows "a = b"
proof -
  from assms(2) obtain ys zs where xs: "xs = ys @ a # zs" by (auto simp: in_set_conv_decomp)
  then show ?thesis using assms by (force simp: ordered_for_def sorted_wrt_append)
qed

section \<open>Insertion\<close>

lemma set_isblack_eq: "set_isblack a 1 t = (if a = 0 then set_isblack 0 1 t else set_black a t)"
  by (simp add: set_black_def)

lemma pword_False: "pword False p = p"
  by (simp add: pword_def del: pword_fold)

text \<open>Linking a new red node at a free leaf.\<close>

definition fresh_node :: "ptr \<Rightarrow> ptr \<Rightarrow> rbtree \<Rightarrow> rbtree" where
  "fresh_node node hot t = upd_pw node hot (upd_rc node 0 (upd_lc node 0 t))"

lemma link_new:
  assumes at: "tree_at t (f # c) Tip" and n: "node \<noteq> 0" "aligned node" "node \<notin> around (f # c) Tip"
  defines "t1 \<equiv> fresh_node node (faddr f) t"
  shows "tree_at (case f of LF _ a _ \<Rightarrow> upd_lc a node t1 | RF _ _ a \<Rightarrow> upd_rc a node t1) (f # c) (Nd False Tip node Tip)"
  using assms by (cases f) (clarsimp simp: tree_at_def fresh_node_def around_def pword_False)+

lemma set_parent_again: "aligned p \<Longrightarrow> a \<noteq> 0 \<Longrightarrow> rb_pw t a = p \<Longrightarrow> set_parent a p t = Some t"
  by (simp add: set_parent_def isblack_def aligned_def upd_pw_same)

lemma fresh_node_eq:
  assumes "aligned hot" and "node \<noteq> 0"
  shows "set_parent node hot (upd_rc node 0 (upd_lc node 0 (set_isblack node 0 t))) = Some (fresh_node node hot t)"
proof -
  have "(rb_pw t node AND (- 4)) AND 3 = 0" by (simp add: and.assoc)
  then show ?thesis using assms(2)
    by (simp add: set_parent_def isblack_def set_isblack_def fresh_node_def upd_pw_def upd_lc_def upd_rc_def)
qed

lemma compare_key_same:
  "rb_key t' = rb_key t \<Longrightarrow> rb_cfunc t' = rb_cfunc t \<Longrightarrow> compare_key t' = compare_key t"
  by (intro ext) (simp add: compare_key_def def_order_func_def split: option.split)

lemma fresh_node_sel [simp]:
  "rb_key (fresh_node n h t) = rb_key t" "rb_cfunc (fresh_node n h t) = rb_cfunc t"
  "rb_root (fresh_node n h t) = rb_root t" "rb_size (fresh_node n h t) = rb_size t"
  "n \<in> S \<Longrightarrow> rest_same S t' (fresh_node n h t) \<longleftrightarrow> rest_same S t' t" "rb_pw (fresh_node n h t) n = h"
  by (simp_all add: fresh_node_def)

lemma rb_search_absent:
  assumes "tree_at t [] s" and "ordered_for (compare_key t key) (addrs s)"
    and "\<forall>a \<in> set (addrs s). compare_key t key a \<noteq> 0"
  obtains c where "rb_search t key local_var = Some (0, cpar 0 c)" and "tree_at t c Tip" and "plug c Tip = s"
    and "between (compare_key t key) (cl c) (cr c)"
proof -
  obtain c s' where s': "rb_search t key local_var = Some (aroot s', if s' = Tip then cpar 0 c else aroot s')"
    "tree_at t c s'" "plug c s' = s" "s' \<noteq> Tip \<longrightarrow> compare_key t key (aroot s') = 0"
    "s' = Tip \<longrightarrow> between (compare_key t key) (cl c) (cr c)"
    using rb_search_ok [OF assms(1,2), of local_var] by (auto simp: local_var_def)
  moreover have "s' = Tip"
    using s'(4) aroot_mem [of s'] assms(3) addrs_plug [of c s'] s'(3) by (metis Un_iff set_append)
  ultimately show thesis by (intro that) simp_all
qed

lemma insert_finish:
  assumes "tree_at t [] s" and "rb_tree s" and "s \<noteq> Tip"
  shows "deref (rb_root t) x = Some x" and "set_isblack (rb_root t) 1 t = t"
proof -
  have r: "rb_root t = aroot s" using tree_at_root [OF assms(1)] by simp
  moreover have "aroot s \<noteq> 0" using assms(1,3) by (cases s) (auto simp: tree_at_def)
  moreover have "set_black (aroot s) t = t" by (rule set_black_id [OF assms(1)]) (use assms(2) in \<open>simp add: rb_tree_def\<close>)
  ultimately show "deref (rb_root t) x = Some x" "set_isblack (rb_root t) 1 t = t"
    by (simp_all add: set_black_def)
qed

definition inserted :: "rbtree \<Rightarrow> atree \<Rightarrow> ptr \<Rightarrow> rbtree \<Rightarrow> atree \<Rightarrow> bool" where
  "inserted t s node t' s' \<longleftrightarrow> tree_at t' [] s' \<and> rb_tree s' \<and> rb_size t' = rb_size t + 1 \<and>
     rest_same (insert node (set (addrs s))) t (t'\<lparr>rb_size := rb_size t\<rparr>) \<and>
     (\<exists>xs ys. addrs s = xs @ ys \<and> addrs s' = xs @ node # ys \<and>
        between (compare_key t (rb_key t node)) xs ys)"

lemma rb_insert_ok:
  assumes at: "tree_at t [] s" and rb: "rb_tree s" and n: "node \<noteq> 0" "aligned node" "node \<notin> set (addrs s)"
    and ord: "ordered_for (compare_key t (rb_key t node)) (addrs s)"
    and new: "\<forall>a \<in> set (addrs s). compare_key t (rb_key t node) a \<noteq> 0"
  shows "\<exists>t' s'. rb_insert node t = Some (0, t') \<and> inserted t s node t' s'"
proof -
  let ?S = "insert node (set (addrs s))" and ?k = "compare_key t (rb_key t node)"
  obtain c where c: "rb_search t (rb_key t node) local_var = Some (0, cpar 0 c)" "tree_at t c Tip" "plug c Tip = s"
    "between ?k (cl c) (cr c)"
    using rb_search_absent [OF at ord new] .
  have al: "aligned (cpar 0 c)" using c(2) repk_cpar [of t 0 c 0] by (simp add: tree_at_def)
  have an: "node AND 3 = 0" using n(2) by (simp add: aligned_def)
  have s: "addrs s = cl c @ cr c" using addrs_plug [of c Tip] c(3) by simp
  let ?t1 = "fresh_node node (cpar 0 c) t"
  note sp = fresh_node_eq [OF al n(1), of t]
  show ?thesis
  proof (cases c)
    case Nil
    let ?t2 = "?t1\<lparr>rb_root := node\<rparr>"
    have "tree_at ?t2 [] (Nd False Tip node Tip)"
      using Nil n by (simp add: tree_at_def fresh_node_def pword_False)
    from set_colour_ok(1,3) [OF this] have b: "tree_at (set_black node ?t2) [] (Nd True Tip node Tip)"
      and same: "rest_same {node} ?t2 (set_black node ?t2)"
      by (simp_all add: around_def)
    have "rest_same {node} t (set_black node ?t2)" using same by (rule rest_same_trans [rotated]) simp
    moreover have "rb_insert node t = Some (0, (set_black node ?t2)\<lparr>rb_size := rb_size t + 1\<rparr>)"
      using n c(1) sp an Nil same by (simp add: rb_insert_def set_black_def rest_same_def)
    ultimately show ?thesis
      using b s Nil by (intro exI [of _ "(set_black node ?t2)\<lparr>rb_size := rb_size t + 1\<rparr>"] exI [of _ "Nd True Tip node Tip"])
        (auto simp: inserted_def rb_tree_def between_def rest_same_def tree_at_def)
  next
    case (Cons f d)
    have h: "faddr f \<noteq> 0" "cpar 0 c = faddr f" using tree_at_frame(1) [of t f d Tip] c(2) Cons by simp_all
    have k: "compare_key ?t1 = compare_key t" by (rule compare_key_same) simp_all
    define t2 where "t2 = (case f of LF _ a _ \<Rightarrow> upd_lc a node ?t1 | RF _ _ a \<Rightarrow> upd_rc a node ?t1)"
    have at2: "tree_at t2 (f # d) (Nd False Tip node Tip)"
      using link_new [of t f d node] c(2) Cons n s unfolding t2_def h(2) by (simp add: around_def s)
    have kf: "case f of LF _ _ _ \<Rightarrow> ?k (faddr f) < 0 | RF _ _ _ \<Rightarrow> 0 < ?k (faddr f)"
      using c(4) Cons by (cases f) (simp_all add: between_def)
    have sp2: "set_parent node (faddr f) t2 = Some t2"
      using al n(1) h(2) by (intro set_parent_again) (auto simp: t2_def split: frame.split)
    have eq: "rb_insert node t = do {
        t \<leftarrow> fix_rr node t2; _ \<leftarrow> deref (rb_root t) ();
        Some (0, (set_isblack (rb_root t) 1 t)\<lparr>rb_size := rb_size (set_isblack (rb_root t) 1 t) + 1\<rparr>) }"
      using n(1) c(1) sp sp2 an h kf k by (cases f) (simp_all add: rb_insert_def t2_def Let_def)
    obtain m where m: "rbt m Tip" "rbc m False c"
      using plug_rbc [of c Tip] rb c(3) by auto
    then have "rbt m (Nd False Tip node Tip)" "rbc m False (f # d)" using Cons by simp_all
    from fix_rr_ok [OF at2 this] obtain t3 s3 where t3: "fix_rr node t2 = Some t3" "tree_at t3 [] s3" "rb_tree s3"
      "addrs s3 = addrs (plug (f # d) (Nd False Tip node Tip))" "rest_same (around (f # d) (Nd False Tip node Tip)) t2 t3"
      by blast
    have s3: "addrs s3 = cl c @ node # cr c" using t3(4) Cons by (simp only: addrs_plug addrs.simps append.simps)
    then have "s3 \<noteq> Tip" by auto
    note fin = insert_finish [OF t3(2,3) this]
    have "around (f # d) (Nd False Tip node Tip) = ?S" using Cons by (auto simp: around_def s)
    moreover have "faddr f \<in> ?S" using Cons s by (cases f) auto
    then have "rest_same ?S t t2" by (cases f) (simp_all add: t2_def)
    ultimately have same: "rest_same ?S t t3" using t3(5) rest_same_trans by simp
    have "rb_insert node t = Some (0, t3\<lparr>rb_size := rb_size t3 + 1\<rparr>)"
      using eq t3(1) fin(1) [of "()"] fin(2) by simp
    moreover have "inserted t s node (t3\<lparr>rb_size := rb_size t3 + 1\<rparr>) s3"
      using t3(2,3) s3 s c(4) same by (auto simp: inserted_def rest_same_def tree_at_def)
    ultimately show ?thesis by blast
  qed
qed

lemma rb_insert_present:
  assumes "tree_at t [] s" and "ordered_for (compare_key t (rb_key t node)) (addrs s)"
    and "a \<in> set (addrs s)" and "compare_key t (rb_key t node) a = 0"
  shows "rb_insert node t = Some (-1, t)"
proof -
  obtain c s' where s': "rb_search t (rb_key t node) local_var = Some (aroot s', if s' = Tip then cpar 0 c else aroot s')"
    "tree_at t c s'" "plug c s' = s" "s' = Tip \<longrightarrow> between (compare_key t (rb_key t node)) (cl c) (cr c)"
    using rb_search_ok [OF assms(1,2), of local_var] by (auto simp: local_var_def)
  have "s' \<noteq> Tip"
    using s'(3,4) assms(3,4) by (fastforce simp: addrs_plug between_def)
  then have "aroot s' \<noteq> 0" using s'(2) by (cases s') (auto simp: tree_at_def)
  then show ?thesis using s'(1) by (simp add: rb_insert_def)
qed

end
