(* ===== verification/Rbtree_Fix.thy ===== *)
theory Rbtree_Fix
  imports Rbtree_Insert
begin

text \<open>
  The repair before a removal: \<open>_fix_bb_new\<close> makes the context of a black node accept a subtree
  that is one black node lower.
\<close>

section \<open>Repairing a missing black node\<close>

lemma cp_color_pword:
  assumes "rb_pw t a = pword b p" and "aligned p" and "a \<noteq> 0" and "rb_pw t a' = pword b' p'" and "aligned p'" and "a' \<noteq> 0"
  shows "cp_color a' a t = upd_pw a' (pword b p') t"
  using assms set_isblack_pword [OF assms(4,5), of b] by (simp add: cp_color_def isblack_pword)

lemma rbc_blk: "rbc n red c \<Longrightarrow> c = [] \<longrightarrow> blk s \<Longrightarrow> blk (plug c s)"
proof (induction c arbitrary: n red s)
  case (Cons f c)
  show ?case
  proof (cases f)
    case (LF b a r)
    then show ?thesis using Cons.prems Cons.IH [of "if b then Suc n else n" "\<not> b" "Nd b s a r"]
      by (cases b; cases c) auto
  next
    case (RF b l a)
    then show ?thesis using Cons.prems Cons.IH [of "if b then Suc n else n" "\<not> b" "Nd b l a s"]
      by (cases b; cases c) auto
  qed
qed simp

lemma fix_bb_root:
  assumes "tree_at t c s" and "c = [] \<or> rbc n True c" and "blk s"
  shows "fix_bb_new (rb_root t) t = Some t"
proof -
  have "tree_at t [] (plug c s)" using assms(1) by (simp add: tree_at_plug)
  moreover have "blk (plug c s)" using assms(2,3) rbc_blk [of n True c s] by auto
  ultimately have "set_black (rb_root t) t = t"
    using set_black_id [of t "[]" "plug c s"] tree_at_root [of t "[]" "plug c s"] by simp
  then show ?thesis by (simp add: fix_bb_new_def fix_bb_loop.simps)
qed

lemma fix_bb_red:
  assumes "tree_at t c (Nd False l a r)"
  shows "fix_bb_new a t = Some (set_black a t)"
  using tree_at_blk(1) [OF assms] by (simp add: fix_bb_new_def fix_bb_loop.simps)

lemma fix_bb_step:
  assumes "tree_at t (f # c) s" and "s \<noteq> Tip" and "blk s"
  shows "fix_bb_new (aroot s) t = do {
    (x, t) \<leftarrow> (case f of LF _ _ _ \<Rightarrow> fix_bb_left (aroot s) (faddr f) t | RF _ _ _ \<Rightarrow> fix_bb_right (aroot s) (faddr f) t);
    fix_bb_new x t }"
proof -
  have "aroot s \<noteq> rb_root t" by (rule tree_at_not_root [OF assms(1,2)])
  moreover have "case f of LF _ a _ \<Rightarrow> l_child t a = aroot s | RF _ _ a \<Rightarrow> aroot s \<noteq> l_child t a"
  proof (cases f)
    case (LF b a r)
    then show ?thesis using tree_at_LF(1) [of t b a r c s] tree_at_frame(1) [OF assms(1)] assms(1) by (simp add: l_child_def)
  next
    case (RF b l a)
    then show ?thesis using tree_at_RF(2,3) [of t b l a c s] tree_at_frame(1) [OF assms(1)] assms(1,2) by (auto simp: l_child_def)
  qed
  moreover have "is_black t (aroot s)" using tree_at_blk(1) [OF assms(1)] assms(3) by simp
  moreover have "get_parent t (aroot s) = faddr f" using tree_at_parent [OF assms(1,2)] by simp
  moreover have "faddr f \<noteq> 0" by (rule tree_at_frame(1) [OF assms(1)])
  ultimately have "fix_bb_loop (aroot s) t = do {
    (x, t) \<leftarrow> (case f of LF _ _ _ \<Rightarrow> fix_bb_left (aroot s) (faddr f) t | RF _ _ _ \<Rightarrow> fix_bb_right (aroot s) (faddr f) t);
    fix_bb_loop x t }"
    by (cases f; subst fix_bb_loop.simps; simp only: Let_def frame.case faddr.simps simp_thms if_True if_False)
  then show ?thesis
    by (cases "case f of LF _ _ _ \<Rightarrow> fix_bb_left (aroot s) (faddr f) t | RF _ _ _ \<Rightarrow> fix_bb_right (aroot s) (faddr f) t")
       (simp_all add: fix_bb_new_def split_beta)
qed

text \<open>
  What the repair promises for a black subtree \<open>s\<close> that will be replaced by one of black height \<open>e\<close>:
  it stays as it is, and its new context accepts such a replacement, be it red or black.
\<close>

definition bb_post :: "nat \<Rightarrow> frame list \<Rightarrow> atree \<Rightarrow> rbtree \<Rightarrow> rbtree option \<Rightarrow> bool" where
  "bb_post e c s t res \<longleftrightarrow> (\<exists>t' c'. res = Some t' \<and> tree_at t' c' s \<and> cl c' = cl c \<and> cr c' = cr c \<and>
     rest_same (around c s) t t' \<and> (c' = [] \<or> rbc e True c'))"

lemma bb_postI:
  "res = Some t' \<Longrightarrow> tree_at t' c' s \<Longrightarrow> cl c' = cl c \<Longrightarrow> cr c' = cr c \<Longrightarrow>
   rest_same (around c s) t t' \<Longrightarrow> c' = [] \<or> rbc e True c' \<Longrightarrow> bb_post e c s t res"
  by (auto simp: bb_post_def)

lemma bb_post_step:
  assumes "bb_post e c s t res" and "cl c = cl c0" and "cr c = cr c0" and "rest_same (around c0 s) t0 t"
  shows "bb_post e c0 s t0 res"
  using assms rest_same_trans [of "around c0 s" t0 t] unfolding bb_post_def around_def by metis

text \<open>A round with a black sibling.\<close>

definition bb_left_rest :: "ptr \<Rightarrow> ptr \<Rightarrow> ptr \<Rightarrow> rbtree \<Rightarrow> (ptr \<times> rbtree) option" where
  "bb_left_rest w x p t =
     (if is_black t (l_child t w) \<and> is_black t (r_child t w) then Some (p, set_red w t)
      else if is_black t (r_child t w)
      then do { t \<leftarrow> right_rotate w (set_red w (set_black (l_child t w) t)); Some (x, t) }
      else do {
        let t = set_black p (cp_color w p t);
        t \<leftarrow> left_rotate p (set_black (r_child t w) t);
        Some (rb_root t, t) })"

lemma fix_bb_left_rest:
  "fix_bb_left x p t = do {
     (w, t) \<leftarrow> (if is_red t (r_child t p)
        then do { t \<leftarrow> left_rotate p (set_red p (set_black (r_child t p) t)); Some (r_child t p, t) }
        else Some (r_child t p, t));
     bb_left_rest w x p t }"
  by (cases "left_rotate p (set_red p (set_black (r_child t p) t))")
     (simp_all add: fix_bb_left_def bb_left_rest_def Let_def)

lemma sibling_L:
  assumes "tree_at t (LF b p w # c) s" and w: "w = Nd b2 wl q wr"
  shows "r_child t p = q" and "is_red t q \<longleftrightarrow> \<not> b2" and "l_child t q = aroot wl" and "r_child t q = aroot wr"
    and "is_black t (aroot wl) \<longleftrightarrow> blk wl" and "is_black t (aroot wr) \<longleftrightarrow> blk wr" and "q \<noteq> 0"
proof -
  have n: "tree_at t c (Nd b s p w)" using assms by (simp add: tree_at_Nd [symmetric])
  then have at: "tree_at t (RF b s p # c) (Nd b2 wl q wr)" unfolding w by (rule iffD1 [OF tree_at_Nd(2)])
  show "q \<noteq> 0" by (rule tree_at_child(3) [OF at])
  show "r_child t p = q" using tree_at_child(5,6) [OF n] w by simp
  show "is_red t q \<longleftrightarrow> \<not> b2" using tree_at_blk(2) [OF at] by simp
  show "l_child t q = aroot wl" "r_child t q = aroot wr" using tree_at_child(5,6) [OF at] by simp_all
  show "is_black t (aroot wl) \<longleftrightarrow> blk wl" using at [unfolded tree_at_Nd(1)] by (rule tree_at_blk(1))
  show "is_black t (aroot wr) \<longleftrightarrow> blk wr" using at [unfolded tree_at_Nd(2)] by (rule tree_at_blk(1))
qed

lemma bb_far_L:
  assumes at: "tree_at t (LF b p w # c) s" and w: "w = Nd True wl q wr" and col: "\<not> blk wr" and s: "blk s"
    and rb: "rbc (Suc e) False (LF b p w # c)"
  shows "bb_post e (LF b p w # c) s t (do { (x, t) \<leftarrow> bb_left_rest q x p t; fix_bb_new x t })"
proof -
  obtain rl ra rr where wr: "wr = Nd False rl ra rr" using col by (cases wr) auto
  note sib = sibling_L [OF at w]
  let ?t = "set_black ra (set_black p (cp_color q p t))"
  have "tree_at ?t (LF True p (Nd b wl q (Nd True rl ra rr)) # c) s" and same: "rest_same (around (LF b p w # c) s) t ?t"
    using at repk_cpar [of t 0 c p] unfolding w wr
    by (clarsimp simp: tree_at_def pword_simps cp_color_pword around_def)+
  then have at1: "tree_at ?t c (Nd True s p (Nd b wl q (Nd True rl ra rr)))" by (simp add: tree_at_Nd [symmetric])
  obtain t' where t': "left_rotate p ?t = Some t'" "tree_at t' c (Nd b (Nd True s p wl) q (Nd True rl ra rr))" "rest_same (around c (Nd True s p (Nd b wl q (Nd True rl ra rr)))) ?t t'"
    using left_rotate_ok [OF at1] by blast
  have at2: "tree_at t' (LF True p wl # LF b q (Nd True rl ra rr) # c) s" using t'(2) by (simp add: tree_at_Nd [symmetric])
  have ok: "rbc e True (LF True p wl # LF b q (Nd True rl ra rr) # c)" using rb w wr by (simp split: if_splits)
  have "r_child (set_black p (cp_color q p t)) q = ra" 
    using sib(4,7) wr by (simp add: set_black_def cp_color_def set_isblack_def r_child_def)
  then have "(do { (x, t) \<leftarrow> bb_left_rest q x p t; fix_bb_new x t }) = Some t'"
    using sib wr t'(1) fix_bb_root [OF at2 disjI2 [OF ok] s] by (simp add: bb_left_rest_def Let_def)
  moreover have "rest_same (around (LF b p w # c) s) t t'"
    using rest_same_trans [OF same] t'(3) w wr by (simp add: around_plug addrs_plug)
  ultimately show ?thesis
    by (intro bb_postI [OF _ at2 _ _ _ disjI2 [OF ok]]) (simp_all add: w wr)
qed

lemma bb_near_L:
  assumes at: "tree_at t (LF b p w # c) s" and w: "w = Nd True wl q wr" and col: "blk wr" "\<not> blk wl" and s: "blk s" "s \<noteq> Tip"
    and rb: "rbc (Suc e) False (LF b p w # c)"
  shows "bb_post e (LF b p w # c) s t (do { (x, t) \<leftarrow> bb_left_rest q (aroot s) p t; fix_bb_new x t })"
proof -
  obtain ll la lr where wl: "wl = Nd False ll la lr" using col(2) by (cases wl) auto
  note sib = sibling_L [OF at w]
  let ?t = "set_red q (set_black la t)"
  have "tree_at ?t (LF b p (Nd False (Nd True ll la lr) q wr) # c) s" and same: "rest_same (around (LF b p w # c) s) t ?t"
    using at repk_cpar [of t 0 c p] unfolding w wl
    by (clarsimp simp: tree_at_def pword_simps around_def)+
  then have "tree_at ?t c (Nd b s p (Nd False (Nd True ll la lr) q wr))" by (simp add: tree_at_Nd [symmetric])
  then have at1: "tree_at ?t (RF b s p # c) (Nd False (Nd True ll la lr) q wr)" by (rule iffD1 [OF tree_at_Nd(2)])
  obtain t' where t': "right_rotate q ?t = Some t'" "tree_at t' (RF b s p # c) (Nd True ll la (Nd False lr q wr))"
    "rest_same (around (RF b s p # c) (Nd False (Nd True ll la lr) q wr)) ?t t'"
    using right_rotate_ok [OF at1] by blast
  let ?w = "Nd True ll la (Nd False lr q wr)"
  have at2: "tree_at t' (LF b p (Nd True ll la (Nd False lr q wr)) # c) s" using t'(2) by (simp add: tree_at_Nd [symmetric])
  have rb2: "rbc (Suc e) False (LF b p (Nd True ll la (Nd False lr q wr)) # c)" using rb w wl col(1) by (simp split: if_splits)
  note sib2 = sibling_L [OF at2 refl]
  have "(do { (x, t) \<leftarrow> bb_left_rest q (aroot s) p t; fix_bb_new x t }) = fix_bb_new (aroot s) t'"
    using sib wl col t'(1) by (simp add: bb_left_rest_def Let_def)
  also have "\<dots> = (do { (x, t) \<leftarrow> bb_left_rest la (aroot s) p t'; fix_bb_new x t })"
    using fix_bb_step [OF at2 s(2,1)] sib2 by (simp add: fix_bb_left_rest)
  finally have eq: "(do { (x, t) \<leftarrow> bb_left_rest q (aroot s) p t; fix_bb_new x t }) = \<dots>" .
  have "bb_post e (LF b p (Nd True ll la (Nd False lr q wr)) # c) s t' (do { (x, t) \<leftarrow> bb_left_rest la (aroot s) p t'; fix_bb_new x t })"
    by (rule bb_far_L [OF at2 refl _ s(1) rb2]) simp
  moreover have "rest_same (around (LF b p w # c) s) t t'"
    using rest_same_trans [OF same] t'(3) w wl by (simp add: around_plug addrs_plug)
  ultimately show ?thesis unfolding eq
    by (elim bb_post_step) (simp_all add: w wl)
qed

lemma bb_sib_L:
  assumes at: "tree_at t (LF b p w # c) s" and w: "w = Nd True wl q wr" and s: "blk s" "s \<noteq> Tip"
    and rb: "rbc (Suc e) False (LF b p w # c)"
    and up: "\<And>t' s'. b \<Longrightarrow> tree_at t' c s' \<Longrightarrow> s' \<noteq> Tip \<Longrightarrow> blk s' \<Longrightarrow> rbc (Suc (Suc e)) False c \<Longrightarrow>
      bb_post (Suc e) c s' t' (fix_bb_new (aroot s') t')"
  shows "bb_post e (LF b p w # c) s t (do { (x, t) \<leftarrow> bb_left_rest q (aroot s) p t; fix_bb_new x t })"
proof (cases "blk wl \<and> blk wr")
  case False
  then show ?thesis using bb_far_L [OF at w _ s(1) rb] bb_near_L [OF at w _ _ s rb] by blast
next
  case True
  note sib = sibling_L [OF at w]
  let ?w = "Nd False wl q wr"
  have at0: "tree_at t c (Nd b s p w)" using at by (simp add: tree_at_Nd [symmetric])
  then have at1: "tree_at t (RF b s p # c) (Nd True wl q wr)" unfolding w by (rule iffD1 [OF tree_at_Nd(2)])
  have "tree_at (set_red q t) (RF b s p # c) ?w" by (rule set_colour_ok(2) [OF at1])
  then have at2: "tree_at (set_red q t) c (Nd b s p (Nd False wl q wr))" by (simp add: tree_at_Nd [symmetric])
  have same: "rest_same (around (LF b p w # c) s) t (set_red q t)"
    using set_colour_ok(4) [OF at1] w by (simp add: around_plug)
  have eq: "(do { (x, t) \<leftarrow> bb_left_rest q (aroot s) p t; fix_bb_new x t }) = fix_bb_new p (set_red q t)"
    using sib True by (simp add: bb_left_rest_def)
  have wr: "rbt e ?w" using rb w True by (simp split: if_splits)
  show ?thesis
  proof (cases b)
    case True
    have "bb_post (Suc e) c (Nd b s p (Nd False wl q wr)) (set_red q t) (fix_bb_new p (set_red q t))"
      using up [of "set_red q t" "Nd b s p (Nd False wl q wr)"] at2 True rb by simp
    then obtain t' c1 where t': "fix_bb_new p (set_red q t) = Some t'" "tree_at t' c1 (Nd b s p (Nd False wl q wr))" "cl c1 = cl c" "cr c1 = cr c"
      "rest_same (around c (Nd b s p (Nd False wl q wr))) (set_red q t) t'" "c1 = [] \<or> rbc (Suc e) True c1"
      unfolding bb_post_def by blast
    have "rbc (Suc e) False c1" using t'(6) rbc_True [of "Suc e" c1] by auto
    moreover have "rest_same (around (LF b p w # c) s) t t'"
      using rest_same_trans [OF same] t'(5) w by (simp add: around_plug addrs_plug)
    ultimately show ?thesis unfolding eq
      using t' wr True w by (intro bb_postI [where t' = t' and c' = "LF b p (Nd False wl q wr) # c1"]) (simp_all add: tree_at_Nd [symmetric])
  next
    case False
    have at3: "tree_at (set_red q t) c (Nd False s p (Nd False wl q wr))" using at2 False by simp
    have "tree_at (set_black p (set_red q t)) c (Nd True s p (Nd False wl q wr))" by (rule set_colour_ok(1) [OF at3])
    moreover have "fix_bb_new p (set_red q t) = Some (set_black p (set_red q t))" by (rule fix_bb_red [OF at3])
    moreover have "rest_same (around (LF b p w # c) s) t (set_black p (set_red q t))"
      using rest_same_trans [OF same] set_colour_ok(3) [OF at3] w by (simp add: around_plug addrs_plug)
    moreover have "rbc (Suc e) False c" using rb False rbc_True [of "Suc e" c] by simp
    ultimately show ?thesis unfolding eq
      using wr w by (intro bb_postI [where t' = "set_black p (set_red q t)" and c' = "LF True p (Nd False wl q wr) # c"])
        (simp_all add: tree_at_Nd [symmetric])
  qed
qed

lemma bb_round_L:
  assumes at: "tree_at t (LF b p w # c) s" and s: "blk s" "s \<noteq> Tip" and rb: "rbc (Suc e) False (LF b p w # c)"
    and up: "\<And>t' s'. b \<Longrightarrow> tree_at t' c s' \<Longrightarrow> s' \<noteq> Tip \<Longrightarrow> blk s' \<Longrightarrow> rbc (Suc (Suc e)) False c \<Longrightarrow>
      bb_post (Suc e) c s' t' (fix_bb_new (aroot s') t')"
  shows "bb_post e (LF b p w # c) s t (fix_bb_new (aroot s) t)"
proof -
  obtain b2 wl q wr where w: "w = Nd b2 wl q wr" using rb by (cases w) (auto split: if_splits)
  note sib = sibling_L [OF at w]
  have step: "fix_bb_new (aroot s) t = (do { (x, t) \<leftarrow> fix_bb_left (aroot s) p t; fix_bb_new x t })"
    using fix_bb_step [OF at s(2,1)] by simp
  show ?thesis
  proof (cases b2)
    case True
    then have "fix_bb_new (aroot s) t = (do { (x, t) \<leftarrow> bb_left_rest q (aroot s) p t; fix_bb_new x t })"
      using step sib by (simp add: fix_bb_left_rest)
    then show ?thesis using bb_sib_L [OF at _ s rb up] w True by simp
  next
    case False
    have b: b and wb: "blk wl" "rbt (Suc e) wl" "rbt (Suc e) wr" "rbc (Suc (Suc e)) False c"
      using rb w False by (simp_all split: if_splits)
    let ?t = "set_red p (set_black q t)"
    have "tree_at ?t (LF False p (Nd True wl q wr) # c) s" and same: "rest_same (around (LF b p w # c) s) t ?t"
      using at repk_cpar [of t 0 c p] unfolding w
      by (clarsimp simp: tree_at_def pword_simps around_def)+
    then have at1: "tree_at ?t c (Nd False s p (Nd True wl q wr))" by (simp add: tree_at_Nd [symmetric])
    obtain t' where t': "left_rotate p ?t = Some t'" "tree_at t' c (Nd True (Nd False s p wl) q wr)" "rest_same (around c (Nd False s p (Nd True wl q wr))) ?t t'"
      using left_rotate_ok [OF at1] by blast
    let ?c = "LF False p wl # LF True q wr # c"
    have at2: "tree_at t' ?c s" using t'(2) by (simp add: tree_at_Nd [symmetric])
    have rb2: "rbc (Suc e) False ?c" using wb by simp
    obtain w2l q2 w2r where w2: "wl = Nd True w2l q2 w2r" using wb(1,2) by (cases wl) auto
    note sib2 = sibling_L [OF at2 w2]
    have "fix_bb_new (aroot s) t = (do { (x, t) \<leftarrow> bb_left_rest q2 (aroot s) p t'; fix_bb_new x t })"
      using step sib False t'(1) sib2(1) by (simp add: fix_bb_left_rest)
    moreover have "bb_post e ?c s t' (do { (x, t) \<leftarrow> bb_left_rest q2 (aroot s) p t'; fix_bb_new x t })"
      by (rule bb_sib_L [OF at2 w2 s rb2]) simp
    moreover have "rest_same (around (LF b p w # c) s) t t'"
      using rest_same_trans [OF same] t'(3) w by (simp add: around_plug addrs_plug)
    ultimately show ?thesis by (auto elim!: bb_post_step simp: w)
  qed
qed

text \<open>A round with a black sibling.\<close>

definition bb_right_rest :: "ptr \<Rightarrow> ptr \<Rightarrow> ptr \<Rightarrow> rbtree \<Rightarrow> (ptr \<times> rbtree) option" where
  "bb_right_rest w x p t =
     (if is_black t (r_child t w) \<and> is_black t (l_child t w) then Some (p, set_red w t)
      else if is_black t (l_child t w)
      then do { t \<leftarrow> left_rotate w (set_red w (set_black (r_child t w) t)); Some (x, t) }
      else do {
        let t = set_black p (cp_color w p t);
        t \<leftarrow> right_rotate p (set_black (l_child t w) t);
        Some (rb_root t, t) })"

lemma fix_bb_right_rest:
  "fix_bb_right x p t = do {
     (w, t) \<leftarrow> (if is_red t (l_child t p)
        then do { t \<leftarrow> right_rotate p (set_red p (set_black (l_child t p) t)); Some (l_child t p, t) }
        else Some (l_child t p, t));
     bb_right_rest w x p t }"
  by (cases "right_rotate p (set_red p (set_black (l_child t p) t))")
     (simp_all add: fix_bb_right_def bb_right_rest_def Let_def)

lemma sibling_R:
  assumes "tree_at t (RF b w p # c) s" and w: "w = Nd b2 wr q wl"
  shows "l_child t p = q" and "is_red t q \<longleftrightarrow> \<not> b2" and "r_child t q = aroot wl" and "l_child t q = aroot wr"
    and "is_black t (aroot wl) \<longleftrightarrow> blk wl" and "is_black t (aroot wr) \<longleftrightarrow> blk wr" and "q \<noteq> 0"
proof -
  have n: "tree_at t c (Nd b w p s)" using assms by (simp add: tree_at_Nd [symmetric])
  then have at: "tree_at t (LF b p s # c) (Nd b2 wr q wl)" unfolding w by (rule iffD1 [OF tree_at_Nd(1)])
  show "q \<noteq> 0" by (rule tree_at_child(3) [OF at])
  show "l_child t p = q" using tree_at_child(5,6) [OF n] w by simp
  show "is_red t q \<longleftrightarrow> \<not> b2" using tree_at_blk(2) [OF at] by simp
  show "r_child t q = aroot wl" "l_child t q = aroot wr" using tree_at_child(5,6) [OF at] by simp_all
  show "is_black t (aroot wl) \<longleftrightarrow> blk wl" using at [unfolded tree_at_Nd(2)] by (rule tree_at_blk(1))
  show "is_black t (aroot wr) \<longleftrightarrow> blk wr" using at [unfolded tree_at_Nd(1)] by (rule tree_at_blk(1))
qed

lemma bb_far_R:
  assumes at: "tree_at t (RF b w p # c) s" and w: "w = Nd True wr q wl" and col: "\<not> blk wr" and s: "blk s"
    and rb: "rbc (Suc e) False (RF b w p # c)"
  shows "bb_post e (RF b w p # c) s t (do { (x, t) \<leftarrow> bb_right_rest q x p t; fix_bb_new x t })"
proof -
  obtain rl ra rr where wr: "wr = Nd False rl ra rr" using col by (cases wr) auto
  note sib = sibling_R [OF at w]
  let ?t = "set_black ra (set_black p (cp_color q p t))"
  have "tree_at ?t (RF True (Nd b (Nd True rl ra rr) q wl) p # c) s" and same: "rest_same (around (RF b w p # c) s) t ?t"
    using at repk_cpar [of t 0 c p] unfolding w wr
    by (clarsimp simp: tree_at_def pword_simps cp_color_pword around_def)+
  then have at1: "tree_at ?t c (Nd True (Nd b (Nd True rl ra rr) q wl) p s)" by (simp add: tree_at_Nd [symmetric])
  obtain t' where t': "right_rotate p ?t = Some t'" "tree_at t' c (Nd b (Nd True rl ra rr) q (Nd True wl p s))" "rest_same (around c (Nd True (Nd b (Nd True rl ra rr) q wl) p s)) ?t t'"
    using right_rotate_ok [OF at1] by blast
  have at2: "tree_at t' (RF True wl p # RF b (Nd True rl ra rr) q # c) s" using t'(2) by (simp add: tree_at_Nd [symmetric])
  have ok: "rbc e True (RF True wl p # RF b (Nd True rl ra rr) q # c)" using rb w wr by (simp split: if_splits)
  have "l_child (set_black p (cp_color q p t)) q = ra" 
    using sib(4,7) wr by (simp add: set_black_def cp_color_def set_isblack_def l_child_def)
  then have "(do { (x, t) \<leftarrow> bb_right_rest q x p t; fix_bb_new x t }) = Some t'"
    using sib wr t'(1) fix_bb_root [OF at2 disjI2 [OF ok] s] by (simp add: bb_right_rest_def Let_def)
  moreover have "rest_same (around (RF b w p # c) s) t t'"
    using rest_same_trans [OF same] t'(3) w wr by (simp add: around_plug addrs_plug)
  ultimately show ?thesis
    by (intro bb_postI [OF _ at2 _ _ _ disjI2 [OF ok]]) (simp_all add: w wr)
qed

lemma bb_near_R:
  assumes at: "tree_at t (RF b w p # c) s" and w: "w = Nd True wr q wl" and col: "blk wr" "\<not> blk wl" and s: "blk s" "s \<noteq> Tip"
    and rb: "rbc (Suc e) False (RF b w p # c)"
  shows "bb_post e (RF b w p # c) s t (do { (x, t) \<leftarrow> bb_right_rest q (aroot s) p t; fix_bb_new x t })"
proof -
  obtain ll la lr where wl: "wl = Nd False lr la ll" using col(2) by (cases wl) auto
  note sib = sibling_R [OF at w]
  let ?t = "set_red q (set_black la t)"
  have "tree_at ?t (RF b (Nd False wr q (Nd True lr la ll)) p # c) s" and same: "rest_same (around (RF b w p # c) s) t ?t"
    using at repk_cpar [of t 0 c p] unfolding w wl
    by (clarsimp simp: tree_at_def pword_simps around_def)+
  then have "tree_at ?t c (Nd b (Nd False wr q (Nd True lr la ll)) p s)" by (simp add: tree_at_Nd [symmetric])
  then have at1: "tree_at ?t (LF b p s # c) (Nd False wr q (Nd True lr la ll))" by (rule iffD1 [OF tree_at_Nd(1)])
  obtain t' where t': "left_rotate q ?t = Some t'" "tree_at t' (LF b p s # c) (Nd True (Nd False wr q lr) la ll)"
    "rest_same (around (LF b p s # c) (Nd False wr q (Nd True lr la ll))) ?t t'"
    using left_rotate_ok [OF at1] by blast
  let ?w = "Nd True (Nd False wr q lr) la ll"
  have at2: "tree_at t' (RF b (Nd True (Nd False wr q lr) la ll) p # c) s" using t'(2) by (simp add: tree_at_Nd [symmetric])
  have rb2: "rbc (Suc e) False (RF b (Nd True (Nd False wr q lr) la ll) p # c)" using rb w wl col(1) by (simp split: if_splits)
  note sib2 = sibling_R [OF at2 refl]
  have "(do { (x, t) \<leftarrow> bb_right_rest q (aroot s) p t; fix_bb_new x t }) = fix_bb_new (aroot s) t'"
    using sib wl col t'(1) by (simp add: bb_right_rest_def Let_def)
  also have "\<dots> = (do { (x, t) \<leftarrow> bb_right_rest la (aroot s) p t'; fix_bb_new x t })"
    using fix_bb_step [OF at2 s(2,1)] sib2 by (simp add: fix_bb_right_rest)
  finally have eq: "(do { (x, t) \<leftarrow> bb_right_rest q (aroot s) p t; fix_bb_new x t }) = \<dots>" .
  have "bb_post e (RF b (Nd True (Nd False wr q lr) la ll) p # c) s t' (do { (x, t) \<leftarrow> bb_right_rest la (aroot s) p t'; fix_bb_new x t })"
    by (rule bb_far_R [OF at2 refl _ s(1) rb2]) simp
  moreover have "rest_same (around (RF b w p # c) s) t t'"
    using rest_same_trans [OF same] t'(3) w wl by (simp add: around_plug addrs_plug)
  ultimately show ?thesis unfolding eq
    by (elim bb_post_step) (simp_all add: w wl)
qed

lemma bb_sib_R:
  assumes at: "tree_at t (RF b w p # c) s" and w: "w = Nd True wr q wl" and s: "blk s" "s \<noteq> Tip"
    and rb: "rbc (Suc e) False (RF b w p # c)"
    and up: "\<And>t' s'. b \<Longrightarrow> tree_at t' c s' \<Longrightarrow> s' \<noteq> Tip \<Longrightarrow> blk s' \<Longrightarrow> rbc (Suc (Suc e)) False c \<Longrightarrow>
      bb_post (Suc e) c s' t' (fix_bb_new (aroot s') t')"
  shows "bb_post e (RF b w p # c) s t (do { (x, t) \<leftarrow> bb_right_rest q (aroot s) p t; fix_bb_new x t })"
proof (cases "blk wl \<and> blk wr")
  case False
  then show ?thesis using bb_far_R [OF at w _ s(1) rb] bb_near_R [OF at w _ _ s rb] by blast
next
  case True
  note sib = sibling_R [OF at w]
  let ?w = "Nd False wr q wl"
  have at0: "tree_at t c (Nd b w p s)" using at by (simp add: tree_at_Nd [symmetric])
  then have at1: "tree_at t (LF b p s # c) (Nd True wr q wl)" unfolding w by (rule iffD1 [OF tree_at_Nd(1)])
  have "tree_at (set_red q t) (LF b p s # c) ?w" by (rule set_colour_ok(2) [OF at1])
  then have at2: "tree_at (set_red q t) c (Nd b (Nd False wr q wl) p s)" by (simp add: tree_at_Nd [symmetric])
  have same: "rest_same (around (RF b w p # c) s) t (set_red q t)"
    using set_colour_ok(4) [OF at1] w by (simp add: around_plug)
  have eq: "(do { (x, t) \<leftarrow> bb_right_rest q (aroot s) p t; fix_bb_new x t }) = fix_bb_new p (set_red q t)"
    using sib True by (simp add: bb_right_rest_def)
  have wr: "rbt e ?w" using rb w True by (simp split: if_splits)
  show ?thesis
  proof (cases b)
    case True
    have "bb_post (Suc e) c (Nd b (Nd False wr q wl) p s) (set_red q t) (fix_bb_new p (set_red q t))"
      using up [of "set_red q t" "Nd b (Nd False wr q wl) p s"] at2 True rb by simp
    then obtain t' c1 where t': "fix_bb_new p (set_red q t) = Some t'" "tree_at t' c1 (Nd b (Nd False wr q wl) p s)" "cl c1 = cl c" "cr c1 = cr c"
      "rest_same (around c (Nd b (Nd False wr q wl) p s)) (set_red q t) t'" "c1 = [] \<or> rbc (Suc e) True c1"
      unfolding bb_post_def by blast
    have "rbc (Suc e) False c1" using t'(6) rbc_True [of "Suc e" c1] by auto
    moreover have "rest_same (around (RF b w p # c) s) t t'"
      using rest_same_trans [OF same] t'(5) w by (simp add: around_plug addrs_plug)
    ultimately show ?thesis unfolding eq
      using t' wr True w by (intro bb_postI [where t' = t' and c' = "RF b (Nd False wr q wl) p # c1"]) (simp_all add: tree_at_Nd [symmetric])
  next
    case False
    have at3: "tree_at (set_red q t) c (Nd False (Nd False wr q wl) p s)" using at2 False by simp
    have "tree_at (set_black p (set_red q t)) c (Nd True (Nd False wr q wl) p s)" by (rule set_colour_ok(1) [OF at3])
    moreover have "fix_bb_new p (set_red q t) = Some (set_black p (set_red q t))" by (rule fix_bb_red [OF at3])
    moreover have "rest_same (around (RF b w p # c) s) t (set_black p (set_red q t))"
      using rest_same_trans [OF same] set_colour_ok(3) [OF at3] w by (simp add: around_plug addrs_plug)
    moreover have "rbc (Suc e) False c" using rb False rbc_True [of "Suc e" c] by simp
    ultimately show ?thesis unfolding eq
      using wr w by (intro bb_postI [where t' = "set_black p (set_red q t)" and c' = "RF True (Nd False wr q wl) p # c"])
        (simp_all add: tree_at_Nd [symmetric])
  qed
qed

lemma bb_round_R:
  assumes at: "tree_at t (RF b w p # c) s" and s: "blk s" "s \<noteq> Tip" and rb: "rbc (Suc e) False (RF b w p # c)"
    and up: "\<And>t' s'. b \<Longrightarrow> tree_at t' c s' \<Longrightarrow> s' \<noteq> Tip \<Longrightarrow> blk s' \<Longrightarrow> rbc (Suc (Suc e)) False c \<Longrightarrow>
      bb_post (Suc e) c s' t' (fix_bb_new (aroot s') t')"
  shows "bb_post e (RF b w p # c) s t (fix_bb_new (aroot s) t)"
proof -
  obtain b2 wl q wr where w: "w = Nd b2 wr q wl" using rb by (cases w) (auto split: if_splits)
  note sib = sibling_R [OF at w]
  have step: "fix_bb_new (aroot s) t = (do { (x, t) \<leftarrow> fix_bb_right (aroot s) p t; fix_bb_new x t })"
    using fix_bb_step [OF at s(2,1)] by simp
  show ?thesis
  proof (cases b2)
    case True
    then have "fix_bb_new (aroot s) t = (do { (x, t) \<leftarrow> bb_right_rest q (aroot s) p t; fix_bb_new x t })"
      using step sib by (simp add: fix_bb_right_rest)
    then show ?thesis using bb_sib_R [OF at _ s rb up] w True by simp
  next
    case False
    have b: b and wb: "blk wl" "rbt (Suc e) wl" "rbt (Suc e) wr" "rbc (Suc (Suc e)) False c"
      using rb w False by (simp_all split: if_splits)
    let ?t = "set_red p (set_black q t)"
    have "tree_at ?t (RF False (Nd True wr q wl) p # c) s" and same: "rest_same (around (RF b w p # c) s) t ?t"
      using at repk_cpar [of t 0 c p] unfolding w
      by (clarsimp simp: tree_at_def pword_simps around_def)+
    then have at1: "tree_at ?t c (Nd False (Nd True wr q wl) p s)" by (simp add: tree_at_Nd [symmetric])
    obtain t' where t': "right_rotate p ?t = Some t'" "tree_at t' c (Nd True wr q (Nd False wl p s))" "rest_same (around c (Nd False (Nd True wr q wl) p s)) ?t t'"
      using right_rotate_ok [OF at1] by blast
    let ?c = "RF False wl p # RF True wr q # c"
    have at2: "tree_at t' ?c s" using t'(2) by (simp add: tree_at_Nd [symmetric])
    have rb2: "rbc (Suc e) False ?c" using wb by simp
    obtain w2l q2 w2r where w2: "wl = Nd True w2r q2 w2l" using wb(1,2) by (cases wl) auto
    note sib2 = sibling_R [OF at2 w2]
    have "fix_bb_new (aroot s) t = (do { (x, t) \<leftarrow> bb_right_rest q2 (aroot s) p t'; fix_bb_new x t })"
      using step sib False t'(1) sib2(1) by (simp add: fix_bb_right_rest)
    moreover have "bb_post e ?c s t' (do { (x, t) \<leftarrow> bb_right_rest q2 (aroot s) p t'; fix_bb_new x t })"
      by (rule bb_sib_R [OF at2 w2 s rb2]) simp
    moreover have "rest_same (around (RF b w p # c) s) t t'"
      using rest_same_trans [OF same] t'(3) w by (simp add: around_plug addrs_plug)
    ultimately show ?thesis by (auto elim!: bb_post_step simp: w)
  qed
qed

lemma fix_bb_ok:
  assumes "tree_at t c s" and "s \<noteq> Tip" and "blk s" and "rbc (Suc e) False c"
  shows "bb_post e c s t (fix_bb_new (aroot s) t)"
  using assms
proof (induction c arbitrary: e t s)
  case Nil
  then show ?case
    using fix_bb_root [of t "[]" s e] tree_at_root [of t "[]" s]
    by (intro bb_postI [where t' = t and c' = "[]"]) simp_all
next
  case (Cons f c)
  show ?case
  proof (cases f)
    case (LF b p w)
    show ?thesis unfolding LF
      by (rule bb_round_L) (use Cons LF in auto)
  next
    case (RF b w p)
    show ?thesis unfolding RF
      by (rule bb_round_R) (use Cons RF in auto)
  qed
qed

end
