(* ===== verification/Rbtree_Swap.thy ===== *)
theory Rbtree_Swap
  imports Rbtree_Insert
begin

text \<open>
  The successor of a node below it, and \<open>_swap_node\<close>: the two nodes trade places in the tree while
  the colours stay where they were.
\<close>

section \<open>The successor of a node\<close>

fun left_frame :: "frame \<Rightarrow> bool" where
  "left_frame (LF b a r) \<longleftrightarrow> True"
| "left_frame (RF b l a) \<longleftrightarrow> False"

lemma left_spine_cl: "\<forall>f \<in> set c. left_frame f \<Longrightarrow> cl c = []"
proof (induction c)
  case (Cons f c)
  then show ?case by (cases f) auto
qed simp

lemma succ_loop_ok:
  assumes "tree_at t c s" and "s \<noteq> Tip"
  shows "\<exists>d b r rr. succ_loop t p (aroot s) = Some r \<and> s = plug d (Nd b Tip r rr) \<and> (\<forall>f \<in> set d. left_frame f)"
  using assms
proof (induction s arbitrary: c p)
  case (Nd b l a r)
  note ch = tree_at_child [OF Nd.prems(1)]
  have at: "tree_at t (LF b a r # c) l" using Nd.prems(1) by (simp only: tree_at_Nd(1))
  have step: "succ_loop t p a = succ_loop t a (aroot l)" using ch by (subst succ_loop.simps) simp
  show ?case
  proof (cases "l = Tip")
    case True
    then have "succ_loop t p a = Some a" using step by (simp add: succ_loop.simps)
    then show ?thesis using True
      by (intro exI [of _ "[]"] exI [of _ b] exI [of _ a] exI [of _ r]) simp
  next
    case False
    obtain d b' r' rr' where "succ_loop t a (aroot l) = Some r'" "l = plug d (Nd b' Tip r' rr')" "\<forall>f \<in> set d. left_frame f"
      using Nd.IH(1) [OF at False, of a] by blast
    then show ?thesis using step
      by (intro exI [of _ "d @ [LF b a r]"] exI [of _ b'] exI [of _ r'] exI [of _ rr']) (auto simp: plug_append)
  qed
qed simp

lemma rb_leftmost_ok:
  assumes "tree_at t c s" and "s \<noteq> Tip"
  obtains d b r rr where "rb_leftmost t (aroot s) = Some r" and "s = plug d (Nd b Tip r rr)" and "\<forall>f \<in> set d. left_frame f"
proof -
  have "aroot s \<noteq> 0" using assms by (cases s) (auto simp: tree_at_def)
  then have "rb_leftmost t (aroot s) = succ_loop t (aroot s) (aroot s)" by (simp add: rb_leftmost_def)
  then show thesis using succ_loop_ok [OF assms, of "aroot s"] that by metis
qed

section \<open>Swapping a node with its successor\<close>

lemma cl_append [simp]: "cl (c @ d) = cl d @ cl c" 
proof (induction c)
  case (Cons f c)
  then show ?case by (cases f) simp_all
qed simp

lemma cr_append [simp]: "cr (c @ d) = cr c @ cr d"
proof (induction c)
  case (Cons f c)
  then show ?case by (cases f) simp_all
qed simp

lemma cpar_append [simp]: "cpar par (c @ d) = cpar (cpar par d) c"
  by (cases c) simp_all

lemma croot_append [simp]: "croot (c @ d) p = croot d (croot c p)"
  by (simp add: croot_def)

lemma repk_append [simp]: "repk t par (c @ d) p \<longleftrightarrow> repk t (cpar par d) c p \<and> repk t par d (croot c p)"
proof (induction c arbitrary: p)
  case (Cons f c)
  then show ?case by (cases f) auto
qed simp

lemma aroot_eqD: "aroot s = a \<Longrightarrow> a \<noteq> 0 \<Longrightarrow> a \<in> set (addrs s)"
  by (cases s) auto

lemma reparent_pword:
  "rb_pw t a = pword b p \<Longrightarrow> aligned p \<Longrightarrow> a \<noteq> 0 \<Longrightarrow> reparent a q t = Some (upd_pw a (pword b q) t)"
  by (simp add: reparent_def set_parent_pword)

lemma reparent_0 [simp]: "reparent 0 q t = Some t"
  by (simp add: reparent_def)

lemmas swap_defs = swap_child_def swap_lc_def swap_rc_def swap_pw_def

definition swaps :: "rbtree \<Rightarrow> frame list \<Rightarrow> bool \<Rightarrow> atree \<Rightarrow> ptr \<Rightarrow> frame list \<Rightarrow> bool \<Rightarrow> ptr \<Rightarrow> atree \<Rightarrow> bool" where
  "swaps t d bx l x c br r rr \<longleftrightarrow>
     (\<exists>t'. swap_node x r (if x = rb_root t then t\<lparr>rb_root := r\<rparr> else t) = Some t' \<and>
        tree_at t' (d @ RF bx l r # c) (Nd br Tip x rr) \<and>
        rest_same (around (d @ RF bx l x # c) (Nd br Tip r rr)) t t')"

text \<open>The successor is the right child itself, or at the end of a left spine of one or more nodes.\<close>

lemma swap_root:
  assumes "tree_at t (d @ RF bx (Nd b1 l1 a1 r1) x # []) (Nd br Tip r rr)"
    and "d = [] \<or> d = [LF b2 q2 u2] \<or> d = LF b2 q2 u2 # m @ [LF b3 q3 u3]"
  shows "swaps t d bx (Nd b1 l1 a1 r1) x [] br r rr"
  using assms(2,1)
  by (elim disjE; cases rr)
     (simp add: swaps_def tree_at_def around_def, elim conjE,
      simp add: swap_node_def Let_def pword_simps reparent_pword swap_defs)+

text \<open>Below another frame, the pointer of the parent to the subtree changes too.\<close>

fun relink :: "frame list \<Rightarrow> ptr \<Rightarrow> rbtree \<Rightarrow> rbtree" where
  "relink [] p t = t"
| "relink (LF b a r # c) p t = upd_lc a p t"
| "relink (RF b l a # c) p t = upd_rc a p t"

lemma relink_sel [simp]:
  "rb_pw (relink c p t) = rb_pw t" "rb_root (relink c p t) = rb_root t"
  "a \<noteq> cpar 0 c \<Longrightarrow> rb_lc (relink c p t) a = rb_lc t a"
  "a \<noteq> cpar 0 c \<Longrightarrow> rb_rc (relink c p t) a = rb_rc t a"
  "cpar 0 c \<notin> set (addrs s) \<Longrightarrow> rep (relink c p t) q s \<longleftrightarrow> rep t q s"
  "cpar 0 c \<notin> set (cl d) \<Longrightarrow> cpar 0 c \<notin> set (cr d) \<Longrightarrow> repk (relink c p t) q d y \<longleftrightarrow> repk t q d y"
  "c \<noteq> [] \<Longrightarrow> cpar 0 c \<in> S \<Longrightarrow> rest_same S t' (relink c p t) \<longleftrightarrow> rest_same S t' t"
  by (cases c; cases "hd c"; simp)+

lemma croot_any: "c \<noteq> [] \<Longrightarrow> croot c p = croot c q"
  by (cases c) simp_all

lemma repk_relink:
  "repk t 0 c x \<Longrightarrow> distinct (cl c @ cr c) \<Longrightarrow> repk (relink c r t) 0 c r"
  by (cases c; cases "hd c"; auto)

lemma swap_child_relink:
  "repk t 0 c x \<Longrightarrow> c \<noteq> [] \<Longrightarrow> x \<notin> set (cl c) \<Longrightarrow> x \<notin> set (cr c) \<Longrightarrow> x \<noteq> 0 \<Longrightarrow>
   swap_child (cpar 0 c) x r t = relink c r t"
  by (cases c; cases "hd c"; clarsimp simp: swap_child_def)

lemma cpar_mem: "c \<noteq> [] \<Longrightarrow> cpar 0 c \<in> set (cl c) \<union> set (cr c)"
  by (cases c; cases "hd c") auto

lemma swap_inner0:
  assumes "tree_at t ([] @ RF bx (Nd b1 l1 a1 r1) x # c) (Nd br Tip r rr)" and "x \<noteq> rb_root t"
    and "c \<noteq> []" and "cpar 0 c \<noteq> 0" and "set (cl c) \<inter> set (cr c) = {}"
    and "cpar 0 c \<notin> set (addrs (plug ([] @ [RF bx (Nd b1 l1 a1 r1) x]) (Nd br Tip r rr)))"
  shows "swaps t [] bx (Nd b1 l1 a1 r1) x c br r rr"
  using assms repk_cpar [of t 0 c x] cpar_mem [OF assms(3)] croot_any [OF assms(3), of r x]
  by (cases rr)
     (simp add: swaps_def tree_at_def around_def addrs_plug, elim conjE,
      simp add: swap_node_def Let_def pword_simps reparent_pword swap_child_relink,
      simp add: swap_defs repk_relink [of _ _ x])+

lemma swap_inner1:
  assumes "tree_at t ([LF b2 q2 u2] @ RF bx (Nd b1 l1 a1 r1) x # c) (Nd br Tip r rr)" and "x \<noteq> rb_root t"
    and "c \<noteq> []" and "cpar 0 c \<noteq> 0" and "set (cl c) \<inter> set (cr c) = {}"
    and "cpar 0 c \<notin> set (addrs (plug ([LF b2 q2 u2] @ [RF bx (Nd b1 l1 a1 r1) x]) (Nd br Tip r rr)))"
  shows "swaps t [LF b2 q2 u2] bx (Nd b1 l1 a1 r1) x c br r rr"
  using assms repk_cpar [of t 0 c x] cpar_mem [OF assms(3)] croot_any [OF assms(3), of r x]
  by (cases rr)
     (simp add: swaps_def tree_at_def around_def addrs_plug, elim conjE,
      simp add: swap_node_def Let_def pword_simps reparent_pword swap_child_relink,
      simp add: swap_defs repk_relink [of _ _ x])+

lemma swap_inner2:
  assumes "tree_at t ((LF b2 q2 u2 # m @ [LF b3 q3 u3]) @ RF bx (Nd b1 l1 a1 r1) x # c) (Nd br Tip r rr)" and "x \<noteq> rb_root t"
    and "c \<noteq> []" and "cpar 0 c \<noteq> 0" and "set (cl c) \<inter> set (cr c) = {}"
    and "cpar 0 c \<notin> set (addrs (plug ((LF b2 q2 u2 # m @ [LF b3 q3 u3]) @ [RF bx (Nd b1 l1 a1 r1) x]) (Nd br Tip r rr)))"
  shows "swaps t (LF b2 q2 u2 # m @ [LF b3 q3 u3]) bx (Nd b1 l1 a1 r1) x c br r rr"
  using assms repk_cpar [of t 0 c x] cpar_mem [OF assms(3)] croot_any [OF assms(3), of r x]
  by (cases rr)
     (simp add: swaps_def tree_at_def around_def addrs_plug, elim conjE,
      simp add: swap_node_def Let_def pword_simps reparent_pword swap_child_relink,
      simp add: swap_defs repk_relink [of _ _ x])+

lemma swap_ok:
  assumes at: "tree_at t (d @ RF bx l x # c) (Nd br Tip r rr)" and "l \<noteq> Tip" and left: "\<forall>f \<in> set d. left_frame f"
  shows "swaps t d bx l x c br r rr"
proof -
  obtain b1 l1 a1 r1 where l: "l = Nd b1 l1 a1 r1" using assms(2) by (cases l) auto
  have lf: "\<exists>b2 q2 u2. f = LF b2 q2 u2" if "f \<in> set d" for f using left that by (cases f) auto
  have shape: "d = [] \<or> (\<exists>b2 q2 u2. d = [LF b2 q2 u2]) \<or>
      (\<exists>b2 q2 u2 m b3 q3 u3. d = LF b2 q2 u2 # m @ [LF b3 q3 u3])"
  proof (cases d)
    case (Cons f e)
    then show ?thesis using lf [of f] lf [of "last e"] by (cases e rule: rev_cases) auto
  qed simp
  show ?thesis
  proof (cases c)
    case Nil
    show ?thesis using at shape unfolding Nil l by (elim disjE exE) (rule swap_root; simp)+
  next
    case (Cons g e)
    have n: "tree_at t c (Nd bx l x (plug d (Nd br Tip r rr)))"
      using at by (simp add: tree_at_append tree_at_Nd [symmetric])
    have p1: "x \<noteq> rb_root t" using tree_at_not_root [of t g e] n Cons by fastforce
    have p2: "c \<noteq> []" "cpar 0 c \<noteq> 0" using tree_at_frame(1) [of t g e] n Cons by auto
    have dis: "distinct (cl c @ addrs (plug (d @ [RF bx l x]) (Nd br Tip r rr)) @ cr c)"
      using n by (simp add: tree_at_def plug_append)
    then have p3: "set (cl c) \<inter> set (cr c) = {}" by auto
    have p4: "cpar 0 c \<notin> set (addrs (plug (d @ [RF bx l x]) (Nd br Tip r rr)))"
      using cpar_mem [OF p2(1)] dis by (auto simp only: distinct_append set_append)
    from shape consider (a) "d = []" | (b) b2 q2 u2 where "d = [LF b2 q2 u2]"
      | (c) b2 q2 u2 m b3 q3 u3 where "d = LF b2 q2 u2 # m @ [LF b3 q3 u3]" by auto
    then show ?thesis
    proof cases
      case a
      show ?thesis using swap_inner0 [OF at [unfolded a l] p1 p2 p3 p4 [unfolded a l]] by (simp only: a l)
    next
      case b
      show ?thesis using swap_inner1 [OF at [unfolded b l] p1 p2 p3 p4 [unfolded b l]] by (simp only: b l)
    next
      case c
      show ?thesis using swap_inner2 [OF at [unfolded c l] p1 p2 p3 p4 [unfolded c l]] by (simp only: c l)
    qed
  qed
qed

end
