(* ===== verification/Rbtree_Remove.thy ===== *)
theory Rbtree_Remove
  imports Rbtree_Fix Rbtree_Swap
begin

text \<open>
  Removal: \<open>rb_remove_node\<close> swaps a node that has two children with its successor, lets \<open>_fix_bb_new\<close>
  repair the context when a black node goes, and takes the node out with \<open>_transplant\<close>.
\<close>

section \<open>Taking a node out\<close>

lemma reparent_same: "rep t p s \<Longrightarrow> aligned p \<Longrightarrow> reparent (aroot s) p t = Some t"
  by (cases s) (simp_all add: reparent_pword upd_pw_same)

definition unlinked :: "rbtree \<Rightarrow> ptr \<Rightarrow> bool" where
  "unlinked t x \<longleftrightarrow> rb_lc t x = 0 \<and> rb_rc t x = 0 \<and> get_parent t x = 0"

lemma transplant_root:
  assumes "tree_at t [] (Nd b l x r)" and "l = Tip \<and> r = s \<or> r = Tip \<and> l = s"
    and "s = Tip \<or> (\<exists>bs a. s = Nd bs Tip a Tip)"
  shows "\<exists>t'. transplant x (aroot s) t = Some t' \<and> tree_at t' [] s \<and> rest_same (around [] (Nd b l x r)) t t' \<and>
    unlinked t' x"
  using assms(2,3,1)
  by (elim disjE exE conjE; hypsubst)
     (simp add: tree_at_def around_def, elim conjE,
      simp add: transplant_def pword_simps rb_link_def reparent_pword unlinked_def)+

lemma transplant_inner_leaf:
  assumes "tree_at t (f # c) (Nd b Tip x s)" and "s = Tip"
  shows "\<exists>t'. transplant x (aroot s) t = Some t' \<and> tree_at t' (f # c) s \<and>
    rest_same (around (f # c) (Nd b Tip x s)) t t' \<and> unlinked t' x"
  using assms(2,1) repk_cpar [of t 0 c "faddr f"]
  by (cases f; hypsubst)
     (simp add: tree_at_def around_def, elim conjE,
      simp add: transplant_def pword_simps rb_link_def reparent_pword reparent_same unlinked_def)+

lemma transplant_inner_right:
  assumes "tree_at t (f # c) (Nd b Tip x s)" and "s = Nd bs Tip a Tip"
  shows "\<exists>t'. transplant x (aroot s) t = Some t' \<and> tree_at t' (f # c) s \<and>
    rest_same (around (f # c) (Nd b Tip x s)) t t' \<and> unlinked t' x"
  using assms(2,1) repk_cpar [of t 0 c "faddr f"]
  by (cases f; hypsubst)
     (simp add: tree_at_def around_def, elim conjE,
      simp add: transplant_def pword_simps rb_link_def reparent_pword reparent_same unlinked_def)+

lemma transplant_inner_left:
  assumes "tree_at t (f # c) (Nd b s x Tip)" and "s = Nd bs Tip a Tip"
  shows "\<exists>t'. transplant x (aroot s) t = Some t' \<and> tree_at t' (f # c) s \<and>
    rest_same (around (f # c) (Nd b s x Tip)) t t' \<and> unlinked t' x"
  using assms(2,1) repk_cpar [of t 0 c "faddr f"]
  by (cases f; hypsubst)
     (simp add: tree_at_def around_def, elim conjE,
      simp add: transplant_def pword_simps rb_link_def reparent_pword reparent_same unlinked_def)+

lemma transplant_ok:
  assumes at: "tree_at t c (Nd b l x r)" and side: "l = Tip \<and> r = s \<or> r = Tip \<and> l = s"
    and s: "s = Tip \<or> (\<exists>bs a. s = Nd bs Tip a Tip)"
  shows "\<exists>t'. transplant x (aroot s) t = Some t' \<and> tree_at t' c s \<and> rest_same (around c (Nd b l x r)) t t' \<and>
    unlinked t' x"
proof (cases c)
  case Nil
  then show ?thesis using transplant_root [OF _ side s] at by simp
next
  case (Cons f d)
  have at': "tree_at t (f # d) (Nd b l x r)" using at Cons by simp
  from s show ?thesis
  proof (elim disjE exE)
    assume "s = Tip"
    then show ?thesis using transplant_inner_leaf [of t f d b x s] at' side Cons by auto
  next
    fix bs a assume sn: "s = Nd bs Tip a Tip"
    from side show ?thesis
    proof (elim disjE conjE)
      assume "l = Tip" "r = s"
      then show ?thesis using transplant_inner_right [OF _ sn, of t f d b x] at' Cons by simp
    next
      assume "r = Tip" "l = s"
      then show ?thesis using transplant_inner_left [OF _ sn, of t f d b x] at' Cons by simp
    qed
  qed
qed

section \<open>Removing a node\<close>

definition cut_at :: "ptr \<Rightarrow> ptr \<Rightarrow> rbtree \<Rightarrow> rbtree option" where
  "cut_at x s t = do { t \<leftarrow> (if is_black t x then fix_bb_new x t else Some t); transplant x s t }"

lemma cut_at_ok:
  assumes at: "tree_at t c (Nd b l x r)" and side: "l = Tip \<and> r = s \<or> r = Tip \<and> l = s"
    and rb: "rbt n (Nd b l x r)" "rbc n (\<not> b) c"
  shows "\<exists>t' c' e. cut_at x (aroot s) t = Some t' \<and> tree_at t' c' s \<and> cl c' = cl c \<and> cr c' = cr c \<and>
    rest_same (around c (Nd b l x r)) t t' \<and> unlinked t' x \<and> rbt e s \<and> (c' = [] \<or> rbc e (\<not> blk s) c')"
proof (cases b)
  case True
  have n: "n = 1" "rbt 0 s" using rb(1) side True by auto
  then have shape: "s = Tip \<or> (\<exists>bs a. s = Nd bs Tip a Tip)"
  proof (cases s)
    case (Nd bs sl a sr)
    then have "\<not> bs" "blk sl" "blk sr" "rbt 0 sl" "rbt 0 sr" using n(2) by (auto split: if_splits)
    then show ?thesis using Nd by (cases sl; cases sr) (auto split: if_splits)
  qed simp
  have "bb_post 0 c (Nd b l x r) t (fix_bb_new (aroot (Nd b l x r)) t)"
    using rb(2) n(1) True by (intro fix_bb_ok [OF at]) simp_all
  then obtain t1 c' where t1: "fix_bb_new x t = Some t1" "tree_at t1 c' (Nd b l x r)" "cl c' = cl c" "cr c' = cr c"
    "rest_same (around c (Nd b l x r)) t t1" "c' = [] \<or> rbc 0 True c'"
    unfolding bb_post_def aroot.simps by blast
  obtain t' where t': "transplant x (aroot s) t1 = Some t'" "tree_at t' c' s"
    "rest_same (around c' (Nd b l x r)) t1 t'" "unlinked t' x"
    using transplant_ok [OF t1(2) side shape] by blast
  have "is_black t x" using tree_at_blk(1) [OF at] True by simp
  then have "cut_at x (aroot s) t = Some t'" using t1(1) t'(1) by (simp add: cut_at_def)
  moreover have "rest_same (around c (Nd b l x r)) t t'"
    using rest_same_trans [OF t1(5)] t'(3) t1(3,4) by (simp add: around_def)
  moreover have "c' = [] \<or> rbc 0 (\<not> blk s) c'" using t1(6) rbc_True [of 0 c'] by (cases "blk s") auto
  ultimately show ?thesis using t'(2,4) t1(3,4) n(2) by blast
next
  case False
  then have n: "s = Tip" "n = 0" using rb(1) side by (cases s; auto split: if_splits)+
  obtain t' where t': "transplant x (aroot s) t = Some t'" "tree_at t' c s"
    "rest_same (around c (Nd b l x r)) t t'" "unlinked t' x"
    using transplant_ok [OF at side] n(1) by blast
  have "\<not> is_black t x" using tree_at_blk(1) [OF at] False by simp
  then have "cut_at x (aroot s) t = Some t'" using t'(1) by (simp add: cut_at_def)
  moreover have "rbt 0 s" "rbc 0 (\<not> blk s) c" using n rb(2) False rbc_True [of 0 c] by simp_all
  ultimately show ?thesis using t' by blast
qed

lemma blacken_root:
  assumes at: "tree_at t [] u" and "rbt k u"
  shows "\<exists>u'. tree_at (set_black (rb_root t) t) [] u' \<and> rb_tree u' \<and> addrs u' = addrs u \<and>
    rest_same (set (addrs u)) t (set_black (rb_root t) t)"
proof (cases u)
  case Tip
  then have "rb_root t = 0" using tree_at_root [OF at] by simp
  then show ?thesis using at Tip by (intro exI [of _ Tip]) (simp add: rb_tree_def)
next
  case (Nd b l a r)
  have r: "rb_root t = a" using tree_at_root [OF at] Nd by simp
  note sc = set_colour_ok(1,3) [OF at [unfolded Nd], folded r]
  have "rbt (if b then k else Suc k) (Nd True l a r)" using assms(2) Nd by (simp split: if_splits)
  then have "rb_tree (Nd True l a r)" by (auto simp: rb_tree_def simp del: rbt.simps)
  then show ?thesis using sc Nd r by (intro exI [of _ "Nd True l a r"]) (auto simp: around_def)
qed

lemma tree_at_outside:
  assumes "tree_at t [] u" and "x \<notin> set (addrs u)"
  shows "tree_at (upd_rc x v (upd_lc x w (upd_pw x z t))) [] u"
  using assms by (simp add: tree_at_def)

definition removed :: "rbtree \<Rightarrow> atree \<Rightarrow> ptr \<Rightarrow> rbtree \<Rightarrow> atree \<Rightarrow> bool" where
  "removed t s x t' s' \<longleftrightarrow> tree_at t' [] s' \<and> rb_tree s' \<and> rb_size t' = rb_size t - 1 \<and> unlinked t' x \<and>
     rest_same (set (addrs s)) t (t'\<lparr>rb_size := rb_size t\<rparr>) \<and> addrs s' = remove1 x (addrs s)"

lemma rbt_plug_cong:
  assumes "\<And>n. rbt n s \<longleftrightarrow> rbt n s'" and "blk s \<longleftrightarrow> blk s'"
  shows "rbt m (plug d s) \<longleftrightarrow> rbt m (plug d s')" and "blk (plug d s) \<longleftrightarrow> blk (plug d s')"
proof -
  have "(\<forall>m. rbt m (plug d s) \<longleftrightarrow> rbt m (plug d s')) \<and> (blk (plug d s) \<longleftrightarrow> blk (plug d s'))"
    using assms
  proof (induction d arbitrary: s s')
    case (Cons f d)
    show ?case unfolding plug_simps
      by (rule Cons.IH) (use Cons.prems in \<open>cases f; simp\<close>)+
  qed simp
  then show "rbt m (plug d s) \<longleftrightarrow> rbt m (plug d s')" and "blk (plug d s) \<longleftrightarrow> blk (plug d s')" by blast+
qed

lemma rb_remove_node_cut:
  assumes at: "tree_at t c (Nd b l x r)" and rb: "rb_tree (plug c (Nd b l x r))"
  shows "\<exists>t1 c1 s1 e. (if rb_lc t x \<noteq> 0 \<and> rb_rc t x \<noteq> 0
       then do {
         q \<leftarrow> rb_leftmost t (rb_rc t x);
         rr \<leftarrow> deref q (rb_rc t q);
         t' \<leftarrow> swap_node x q (if x = rb_root t then t\<lparr>rb_root := q\<rparr> else t);
         t' \<leftarrow> (if is_black t q then fix_bb_new x t' else Some t');
         transplant x rr t' }
       else do {
         t' \<leftarrow> (if is_black t x then fix_bb_new x t else Some t);
         transplant x (if rb_rc t x = 0 then rb_lc t x else rb_rc t x) t' }) = Some t1 \<and>
     tree_at t1 c1 s1 \<and> addrs (plug c1 s1) = cl c @ addrs l @ addrs r @ cr c \<and>
     rest_same (around c (Nd b l x r)) t t1 \<and> unlinked t1 x \<and> rbt e s1 \<and> (c1 = [] \<or> rbc e (\<not> blk s1) c1)"
proof -
  obtain n where n: "rbt n (Nd b l x r)" "rbc n (\<not> b) c" using plug_rbc [OF rb] by auto
  note ch = tree_at_child [OF at]
  have lt: "aroot l = 0 \<longleftrightarrow> l = Tip" and rt: "aroot r = 0 \<longleftrightarrow> r = Tip"
    using at aroot_0 [of t x l] aroot_0 [of t x r] by (auto simp: tree_at_def)
  show ?thesis
  proof (cases "l = Tip \<or> r = Tip")
    case True
    define s where "s = (if r = Tip then l else r)"
    have side: "l = Tip \<and> r = s \<or> r = Tip \<and> l = s" using True by (auto simp: s_def)
    obtain t' c' e where t': "cut_at x (aroot s) t = Some t'" "tree_at t' c' s" "cl c' = cl c" "cr c' = cr c"
      "rest_same (around c (Nd b l x r)) t t'" "unlinked t' x" "rbt e s" "c' = [] \<or> rbc e (\<not> blk s) c'"
      using cut_at_ok [OF at side n] by blast
    have e1: "(if aroot r = 0 then aroot l else aroot r) = aroot s" using rt by (simp add: s_def)
    have e2: "addrs (plug c' s) = cl c @ addrs l @ addrs r @ cr c"
      using True t'(3,4) by (auto simp: s_def addrs_plug)
    have e3: "\<not> (aroot l \<noteq> 0 \<and> aroot r \<noteq> 0)" using True lt rt by blast
    show ?thesis
      unfolding ch(1,2) if_not_P [OF e3] e1
      by (intro exI conjI) (rule t'(1) [unfolded cut_at_def] t'(2) e2 t'(5-8))+
  next
    case False
    have at0: "tree_at t (RF b l x # c) r" using at by (rule iffD1 [OF tree_at_Nd(2)])
    have ne: "r \<noteq> Tip" using False by blast
    obtain d br q rr where q: "rb_leftmost t (aroot r) = Some q" "r = plug d (Nd br Tip q rr)" "\<forall>f \<in> set d. left_frame f"
      by (rule rb_leftmost_ok [OF at0 ne])
    have at1: "tree_at t (d @ RF b l x # c) (Nd br Tip q rr)" using at0 q(2) by (simp add: tree_at_append)
    note qc = tree_at_child [OF at1] and qb = tree_at_blk(1) [OF at1]
    obtain t2 where t2: "swap_node x q (if x = rb_root t then t\<lparr>rb_root := q\<rparr> else t) = Some t2"
      "tree_at t2 (d @ RF b l q # c) (Nd br Tip x rr)"
      "rest_same (around (d @ RF b l x # c) (Nd br Tip q rr)) t t2"
      using swap_ok [OF at1 _ q(3)] False unfolding swaps_def by blast
    have "rb_tree (plug (d @ RF b l q # c) (Nd br Tip x rr))"
    proof -
      have "rbt m (plug d (Nd br Tip x rr)) \<longleftrightarrow> rbt m (plug d (Nd br Tip q rr))"
        and "blk (plug d (Nd br Tip x rr)) \<longleftrightarrow> blk (plug d (Nd br Tip q rr))" for m
        by (rule rbt_plug_cong; simp)+
      then have "rbt n (Nd b l q (plug d (Nd br Tip x rr)))" "rbc n (\<not> blk (Nd b l q (plug d (Nd br Tip x rr)))) c"
        using n q(2) by (simp_all split: if_splits)
      from rbc_plug [OF this] show ?thesis by (simp add: plug_append)
    qed
    from plug_rbc [OF this] obtain m where m: "rbt m (Nd br Tip x rr)" "rbc m (\<not> br) (d @ RF b l q # c)" by auto
    obtain t' c' e where t': "cut_at x (aroot rr) t2 = Some t'" "tree_at t' c' rr" "cl c' = cl (d @ RF b l q # c)"
      "cr c' = cr (d @ RF b l q # c)" "rest_same (around (d @ RF b l q # c) (Nd br Tip x rr)) t2 t'" "unlinked t' x"
      "rbt e rr" "c' = [] \<or> rbc e (\<not> blk rr) c'"
      using cut_at_ok [OF t2(2) _ m] by blast
    have eq: "around (d @ RF b l x # c) (Nd br Tip q rr) = around c (Nd b l x r)"
      "around (d @ RF b l q # c) (Nd br Tip x rr) = around c (Nd b l x r)"
      using q(2) by (auto simp: around_plug plug_append addrs_plug)
    have "is_black t q \<longleftrightarrow> is_black t2 x" using qb tree_at_blk(1) [OF t2(2)] by simp
    then have "(do { t' \<leftarrow> (if is_black t q then fix_bb_new x t2 else Some t2); transplant x (aroot rr) t' }) = Some t'"
      using t'(1) by (simp add: cut_at_def)
    moreover have "addrs (plug c' rr) = cl c @ addrs l @ addrs r @ cr c"
      using t'(3,4) q(2) left_spine_cl [OF q(3)] by (simp add: addrs_plug)
    moreover have "rest_same (around c (Nd b l x r)) t t'"
      using rest_same_trans [OF t2(3)] t'(5) unfolding eq by blast
    ultimately show ?thesis
      using t' t2(1) q(1) qc ch lt rt False by (intro exI [of _ t'] exI [of _ c'] exI [of _ rr] exI [of _ e]) simp
  qed
qed

lemma split_at:
  assumes "x \<in> set (addrs s)"
  obtains c b l r where "s = plug c (Nd b l x r)"
proof -
  have "\<exists>c b l r. s = plug c (Nd b l x r)" using assms
  proof (induction s)
    case (Nd b l a r)
    then consider "x = a" | "x \<in> set (addrs l)" | "x \<in> set (addrs r)" by auto
    then show ?case
    proof cases
      case 1
      then have "Nd b l a r = plug [] (Nd b l x r)" by simp
      then show ?thesis by blast
    next
      case 2
      then obtain c b' l' r' where "l = plug c (Nd b' l' x r')" using Nd.IH(1) by blast
      then have "Nd b l a r = plug (c @ [LF b a r]) (Nd b' l' x r')" by (simp add: plug_append)
      then show ?thesis by blast
    next
      case 3
      then obtain c b' l' r' where "r = plug c (Nd b' l' x r')" using Nd.IH(2) by blast
      then have "Nd b l a r = plug (c @ [RF b l a]) (Nd b' l' x r')" by (simp add: plug_append)
      then show ?thesis by blast
    qed
  qed simp
  then show thesis using that by blast
qed

lemma rest_same_mono: "rest_same S t t' \<Longrightarrow> S \<subseteq> T \<Longrightarrow> rest_same T t t'"
  by (auto simp: rest_same_def)

lemma root_0_same: "rb_root t = 0 \<Longrightarrow> t\<lparr>rb_size := n, rb_root := 0\<rparr> = t\<lparr>rb_size := n\<rparr>"
  by (cases t) simp

lemma rb_remove_node_ok:
  assumes at: "tree_at t [] s" and rb: "rb_tree s" and x: "x \<in> set (addrs s)"
    and size: "rb_size t = int (length (addrs s))"
  shows "\<exists>t' s'. rb_remove_node x t = Some t' \<and> removed t s x t' s'"
proof -
  obtain c b l r where s: "s = plug c (Nd b l x r)" using split_at [OF x] .
  have at0: "tree_at t c (Nd b l x r)" using at s by (simp add: tree_at_plug)
  note cut = rb_remove_node_cut [OF at0 rb [unfolded s]]
  obtain t1 c1 s1 e where t1: "tree_at t1 c1 s1" "addrs (plug c1 s1) = cl c @ addrs l @ addrs r @ cr c"
     "rest_same (around c (Nd b l x r)) t t1" "unlinked t1 x" "rbt e s1" "c1 = [] \<or> rbc e (\<not> blk s1) c1"
    and run: "rb_remove_node x t = do {
       let t = set_black (rb_root t1) t1;
       t \<leftarrow> set_parent x 0 t;
       let t = upd_lc x 0 t;
       let t = upd_rc x 0 t;
       let t = t\<lparr>rb_size := rb_size t - 1\<rparr>;
       Some (if rb_size t \<le> 0 then t\<lparr>rb_root := 0\<rparr> else t) }"
    using cut tree_at_child(3) [OF at0] unfolding rb_remove_node_def Let_def by (elim exE conjE) simp
  let ?u = "plug c1 s1" and ?S = "set (addrs s)"
  have atu: "tree_at t1 [] ?u" using t1(1) by (simp add: tree_at_plug)
  obtain k where "rbt k ?u" using t1(5,6) rbc_plug [of e s1 c1] by (cases "c1 = []") (auto simp: rb_tree_def)
  from blacken_root [OF atu this] obtain u' where u': "tree_at (set_black (rb_root t1) t1) [] u'" "rb_tree u'"
    "addrs u' = addrs ?u" "rest_same (set (addrs ?u)) t1 (set_black (rb_root t1) t1)" by blast
  let ?t2 = "set_black (rb_root t1) t1"
  have S: "addrs s = cl c @ addrs l @ x # addrs r @ cr c" using s by (simp add: addrs_plug)
  have dist: "distinct (addrs s)" using at by (simp add: tree_at_def)
  have xu: "x \<notin> set (addrs ?u)" using dist S t1(2) by auto
  have rem: "addrs ?u = remove1 x (addrs s)"
    using dist unfolding S t1(2) by (simp add: remove1_append)
  have same: "rest_same ?S t ?t2"
  proof (rule rest_same_trans)
    show "rest_same ?S t t1" using t1(3) s by (simp add: around_plug)
    show "rest_same ?S t1 ?t2" by (rule rest_same_mono [OF u'(4)]) (auto simp: t1(2) S)
  qed
  let ?t3 = "upd_rc x 0 (upd_lc x 0 (upd_pw x (isblack ?t2 x) ?t2))"
  have x0: "x \<noteq> 0" by (rule tree_at_child(3) [OF at0])
  have at3: "tree_at ?t3 [] u'" by (rule tree_at_outside [OF u'(1)]) (use xu u'(3) in simp)
  have xS: "x \<in> ?S" using S by simp
  have same3: "rest_same ?S t ?t3" using same xS by simp
  have un3: "unlinked ?t3 x"
    by (simp add: unlinked_def get_parent_def isblack_def and.assoc)
  have low: "isblack ?t2 x AND (- 4) = 0" by (simp add: isblack_def and.assoc)
  have sz: "rb_size ?t3 = rb_size t" using same3 by (simp add: rest_same_def)
  have len: "rb_size t - 1 = int (length (addrs u'))"
  proof -
    have "0 < length (addrs s)" by (rule length_pos_if_in_set [OF x])
    moreover have "length (addrs u') = length (addrs s) - 1" using u'(3) rem x by (simp add: length_remove1)
    ultimately show ?thesis unfolding size by linarith
  qed
  have root: "rb_root ?t3 = 0" if "rb_size t - 1 \<le> 0"
  proof -
    have "u' = Tip" using that len by (cases u') auto
    then show ?thesis using tree_at_root [OF at3] by simp
  qed
  have "rb_remove_node x t = Some (if rb_size t - 1 \<le> 0 then ?t3\<lparr>rb_size := rb_size t - 1, rb_root := 0\<rparr>
      else ?t3\<lparr>rb_size := rb_size t - 1\<rparr>)"
    using run x0 sz by (simp add: set_parent_def Let_def)
  then have "rb_remove_node x t = Some (?t3\<lparr>rb_size := rb_size t - 1\<rparr>)"
    using root_0_same [OF root] by (cases "rb_size t - 1 \<le> 0") (simp_all only: if_True if_False simp_thms)
  moreover have "removed t s x (?t3\<lparr>rb_size := rb_size t - 1\<rparr>) u'"
    unfolding removed_def
    using at3 u'(2,3) same3 low rem sz by (simp add: tree_at_def rest_same_def unlinked_def get_parent_def)
  ultimately show ?thesis by blast
qed

end
