(* ===== verification/Rbtree_Map.thy ===== *)
theory Rbtree_Map
  imports Rbtree_Remove
begin

text \<open>
  The red-black tree as its clients see it: an ordered sequence of nodes that search, insertion,
  removal, successor and traversal work on.
\<close>

section \<open>Well-formed trees\<close>

text \<open>\<open>rb_ok t xs\<close>: the state holds a red-black tree whose nodes are \<open>xs\<close> from left to right.\<close>

definition rb_ok :: "rbtree \<Rightarrow> ptr list \<Rightarrow> bool" where
  "rb_ok t xs \<longleftrightarrow> (\<exists>s. tree_at t [] s \<and> rb_tree s \<and> addrs s = xs) \<and> rb_size t = int (length xs)"

lemma rb_ok_init: "rb_ok (rb_init cf t) []"
  unfolding rb_ok_def by (rule conjI, rule exI [of _ Tip]) (simp_all add: tree_at_def rb_tree_def rb_init_def)

lemma rb_okD:
  assumes "rb_ok t xs"
  shows "distinct xs" and "0 \<notin> set xs" and "a \<in> set xs \<Longrightarrow> aligned a" and "rb_root t = 0 \<longleftrightarrow> xs = []"
proof -
  obtain s where s: "tree_at t [] s" "addrs s = xs" using assms unfolding rb_ok_def by blast
  show "distinct xs" "0 \<notin> set xs" "a \<in> set xs \<Longrightarrow> aligned a"
    using s tree_at_addr [OF s(1)] by (auto simp: tree_at_def around_def)
  show "rb_root t = 0 \<longleftrightarrow> xs = []"
    using s tree_at_root [OF s(1)] by (cases s) (auto simp: tree_at_def)
qed

text \<open>The nodes stand in the order of their keys, when the tree has no comparison function of its own.\<close>

definition key_sorted :: "rbtree \<Rightarrow> ptr list \<Rightarrow> bool" where
  "key_sorted t xs \<longleftrightarrow> rb_cfunc t = None \<and> sorted_wrt (\<lambda>a b. rb_key t a < rb_key t b) xs"

lemma compare_default: "rb_cfunc t = None \<Longrightarrow> compare_key t k a =
  (if k < rb_key t a then -1 else if rb_key t a < k then 1 else 0)"
  by (simp add: compare_key_def def_order_func_def)

lemma key_sorted_ordered: "key_sorted t xs \<Longrightarrow> ordered_for (compare_key t k) xs"
  unfolding key_sorted_def ordered_for_def
  by (auto elim!: sorted_wrt_mono_rel [rotated] simp: compare_default)

lemma key_sorted_unique:
  "key_sorted t xs \<Longrightarrow> a \<in> set xs \<Longrightarrow> b \<in> set xs \<Longrightarrow> rb_key t a = rb_key t b \<Longrightarrow> a = b"
  using ordered_for_unique [OF key_sorted_ordered, of t xs a b "rb_key t a"]
  by (simp add: key_sorted_def compare_default)

section \<open>Search, insertion and removal\<close>

lemma rb_search_spec:
  assumes "rb_ok t xs" and "ordered_for (compare_key t k) xs" and "hot \<noteq> 0"
  shows "\<exists>p h. rb_search t k hot = Some (p, h) \<and> (p \<noteq> 0 \<longrightarrow> p \<in> set xs \<and> compare_key t k p = 0) \<and>
    (p = 0 \<longrightarrow> (\<forall>a \<in> set xs. compare_key t k a \<noteq> 0))"
proof -
  obtain s where s: "tree_at t [] s" "addrs s = xs" using assms(1) unfolding rb_ok_def by blast
  have "ordered_for (compare_key t k) (addrs s)" using assms(2) s(2) by simp
  then obtain c s' where c: "rb_search t k hot = Some (aroot s', if s' = Tip then cpar 0 c else aroot s')"
    "tree_at t c s'" "plug c s' = s" "s' \<noteq> Tip \<longrightarrow> compare_key t k (aroot s') = 0"
    "s' = Tip \<longrightarrow> between (compare_key t k) (cl c) (cr c)"
    using rb_search_ok [OF s(1) _ assms(3)] by blast
  have xs: "set xs = set (cl c) \<union> set (addrs s') \<union> set (cr c)" using c(3) s(2) addrs_plug [of c s'] by auto
  show ?thesis
  proof (cases "s' = Tip")
    case True
    then have "\<forall>a \<in> set xs. compare_key t k a \<noteq> 0" using c(5) xs by (fastforce simp: between_def)
    then show ?thesis using c(1) True by simp
  next
    case False
    then have "aroot s' \<noteq> 0" using c(2) by (cases s') (auto simp: tree_at_def)
    then show ?thesis using c(1,4) False aroot_mem [OF False] xs by auto
  qed
qed

lemma rb_insert_spec:
  assumes ok: "rb_ok t xs" and n: "node \<noteq> 0" "aligned node" "node \<notin> set xs"
    and ord: "ordered_for (compare_key t (rb_key t node)) xs"
    and new: "\<forall>a \<in> set xs. compare_key t (rb_key t node) a \<noteq> 0"
  shows "\<exists>t' ys zs. rb_insert node t = Some (0, t') \<and> xs = ys @ zs \<and> rb_ok t' (ys @ node # zs) \<and>
    between (compare_key t (rb_key t node)) ys zs \<and> rb_key t' = rb_key t \<and> rb_cfunc t' = rb_cfunc t"
proof -
  obtain s where s: "tree_at t [] s" "rb_tree s" "addrs s = xs" using ok unfolding rb_ok_def by blast
  have "\<exists>t' s'. rb_insert node t = Some (0, t') \<and> inserted t s node t' s'"
    using rb_insert_ok [OF s(1,2) n(1,2)] n(3) ord new unfolding s(3) by blast
  then obtain t' s' ys zs where t': "rb_insert node t = Some (0, t')" "tree_at t' [] s'" "rb_tree s'"
    "rb_size t' = rb_size t + 1" "rest_same (insert node (set (addrs s))) t (t'\<lparr>rb_size := rb_size t\<rparr>)"
    "xs = ys @ zs" "addrs s' = ys @ node # zs" "between (compare_key t (rb_key t node)) ys zs"
    unfolding inserted_def s(3) by blast
  then have "rb_ok t' (ys @ node # zs)" using ok by (auto simp: rb_ok_def)
  then show ?thesis using t' by (auto simp: rest_same_def)
qed

lemma rb_remove_node_spec:
  assumes ok: "rb_ok t xs" and x: "x \<in> set xs"
  shows "\<exists>t'. rb_remove_node x t = Some t' \<and> rb_ok t' (remove1 x xs) \<and> unlinked t' x \<and>
    rb_key t' = rb_key t \<and> rb_cfunc t' = rb_cfunc t"
proof -
  obtain s where s: "tree_at t [] s" "rb_tree s" "addrs s = xs" using ok unfolding rb_ok_def by blast
  have "rb_size t = int (length (addrs s))" using ok s(3) by (simp add: rb_ok_def)
  then obtain t' s' where t': "rb_remove_node x t = Some t'" "removed t s x t' s'"
    using rb_remove_node_ok [OF s(1,2)] x s(3) by blast
  have "length xs = Suc (length (remove1 x xs))" using x by (induction xs) auto
  moreover have "rb_size t' = rb_size t - 1" "tree_at t' [] s'" "rb_tree s'" "addrs s' = remove1 x xs"
    using t'(2) s(3) by (simp_all add: removed_def)
  ultimately have "rb_ok t' (remove1 x xs)" using ok by (auto simp: rb_ok_def)
  then show ?thesis using t' by (auto simp: removed_def rest_same_def)
qed

lemma rb_remove_spec:
  assumes ok: "rb_ok t xs" and ord: "ordered_for (compare_key t k) xs"
  shows "(\<exists>x t'. x \<in> set xs \<and> compare_key t k x = 0 \<and> rb_remove k t = Some (x, t') \<and> rb_ok t' (remove1 x xs) \<and>
      unlinked t' x \<and> rb_key t' = rb_key t \<and> rb_cfunc t' = rb_cfunc t) \<or>
    ((\<forall>a \<in> set xs. compare_key t k a \<noteq> 0) \<and> rb_remove k t = Some (0, t))"
proof (cases "xs = []")
  case True
  then have "rb_root t = 0" using rb_okD(4) [OF ok] by simp
  then show ?thesis using True by (simp add: rb_remove_def)
next
  case False
  have l: "local_var \<noteq> 0" by (simp add: local_var_def)
  have r: "rb_root t \<noteq> 0" "\<not> rb_size t \<le> 0" using rb_okD(4) [OF ok] ok False by (simp_all add: rb_ok_def)
  obtain p h where p: "rb_search t k local_var = Some (p, h)" "p \<noteq> 0 \<longrightarrow> p \<in> set xs \<and> compare_key t k p = 0"
    "p = 0 \<longrightarrow> (\<forall>a \<in> set xs. compare_key t k a \<noteq> 0)"
    using rb_search_spec [OF ok ord l] by blast
  show ?thesis
  proof (cases "p = 0")
    case True
    then show ?thesis using p r by (simp add: rb_remove_def)
  next
    case False
    then obtain t' where "rb_remove_node p t = Some t'" "rb_ok t' (remove1 p xs)" "unlinked t' p"
      "rb_key t' = rb_key t" "rb_cfunc t' = rb_cfunc t"
      using rb_remove_node_spec [OF ok] p(2) by blast
    moreover have "rb_remove k t = Some (p, t')" using p(1) r False calculation(1) by (simp add: rb_remove_def)
    ultimately show ?thesis using p(2) False by blast
  qed
qed

section \<open>Keys in order\<close>

lemma key_sorted_insert:
  assumes "key_sorted t (ys @ zs)" and "between (compare_key t (rb_key t node)) ys zs"
    and "rb_key t' = rb_key t" and "rb_cfunc t' = rb_cfunc t"
  shows "key_sorted t' (ys @ node # zs)"
  using assms by (auto simp: key_sorted_def sorted_wrt_append between_def compare_default split: if_splits)

lemma key_sorted_remove1:
  assumes "key_sorted t xs" and "rb_key t' = rb_key t" and "rb_cfunc t' = rb_cfunc t"
  shows "key_sorted t' (remove1 x xs)"
proof -
  have "sorted_wrt P xs \<Longrightarrow> sorted_wrt P (remove1 x xs)" for P
  proof (induction xs)
    case (Cons y ys)
    then show ?case using set_remove1_subset [of x ys] by auto
  qed simp
  then show ?thesis using assms by (simp add: key_sorted_def)
qed

section \<open>Successor and traversals\<close>

lemma rb_succ_loop_ok:
  "tree_at t c s \<Longrightarrow> s \<noteq> Tip \<Longrightarrow>
   rb_succ_loop t (aroot s) (cpar 0 c) = Some (if cr c = [] then 0 else hd (cr c))"
proof (induction c arbitrary: s)
  case Nil
  then show ?case by (subst rb_succ_loop.simps) simp
next
  case (Cons f c)
  note fr = tree_at_frame [OF Cons.prems(1)]
  have up: "tree_at t c (fill f s)" using Cons.prems by (simp add: tree_at_fill)
  show ?case
  proof (cases f)
    case (LF b a r)
    have "rb_rc t a = aroot r" "aroot s \<noteq> aroot r"
      using tree_at_LF [of t b a r c s] Cons.prems LF by auto
    then show ?thesis using fr LF by (subst rb_succ_loop.simps) (simp add: r_child_def)
  next
    case (RF b l a)
    have "rb_rc t a = aroot s" using tree_at_RF(1) [of t b l a c s] Cons.prems RF by simp
    moreover have "rb_succ_loop t a (cpar 0 c) = Some (if cr c = [] then 0 else hd (cr c))"
      using Cons.IH [OF up] RF by simp
    ultimately show ?thesis using fr RF by (subst rb_succ_loop.simps) (simp add: r_child_def)
  qed
qed

lemma rb_succ_at:
  assumes at: "tree_at t c (Nd b l x r)"
  shows "rb_succ t x = Some (if addrs r @ cr c = [] then 0 else hd (addrs r @ cr c))"
proof (cases "r = Tip")
  case True
  then have "r_child t x = 0" using tree_at_child(6) [OF at] by simp
  then show ?thesis
    using rb_succ_loop_ok [OF at] tree_at_parent [OF at] True by (simp add: rb_succ_def Let_def)
next
  case False
  have at0: "tree_at t (RF b l x # c) r" using at by (rule iffD1 [OF tree_at_Nd(2)])
  obtain d b2 q rr where q: "rb_leftmost t (aroot r) = Some q" "r = plug d (Nd b2 Tip q rr)" "\<forall>f \<in> set d. left_frame f"
    by (rule rb_leftmost_ok [OF at0 False])
  have "addrs r = q # addrs rr @ cr d" using q(2) left_spine_cl [OF q(3)] by (simp add: addrs_plug)
  moreover have "aroot r \<noteq> 0" using at0 False by (cases r) (auto simp: tree_at_def)
  ultimately show ?thesis using q(1) tree_at_child(6) [OF at] by (simp add: rb_succ_def Let_def)
qed

lemma rb_succ_spec:
  assumes "rb_ok t (ys @ x # zs)"
  shows "rb_succ t x = Some (if zs = [] then 0 else hd zs)"
proof -
  obtain s where s: "tree_at t [] s" "addrs s = ys @ x # zs" using assms unfolding rb_ok_def by blast
  have "x \<in> set (addrs s)" using s(2) by simp
  then obtain c b l r where c: "s = plug c (Nd b l x r)" by (rule split_at)
  have d: "distinct (ys @ x # zs)" using rb_okD(1) [OF assms] .
  have "(cl c @ addrs l) @ x # (addrs r @ cr c) = ys @ x # zs" using s(2) c by (simp add: addrs_plug)
  then have "ys @ x # zs = (cl c @ addrs l) @ x # (addrs r @ cr c)" by (rule sym)
  moreover have "x \<notin> set ys" "x \<notin> set zs" using d by auto
  ultimately have "zs = addrs r @ cr c" by (metis append_Cons_eq_iff)
  then show ?thesis using rb_succ_at [of t c b l x r] s(1) c by (simp only: tree_at_plug)
qed

lemma in_order_ok: "rep t p s \<Longrightarrow> in_order t (aroot s) (Some f) st = Some (fold f (addrs s) st)"
proof (induction s arbitrary: p st)
  case Tip
  then show ?case by (subst in_order.simps) simp
next
  case (Nd b l a r)
  then show ?case using Nd.IH(1) [of a] Nd.IH(2) [of a] by (subst in_order.simps) simp
qed

fun pre_addrs :: "atree \<Rightarrow> ptr list" where
  "pre_addrs Tip = []"
| "pre_addrs (Nd b l a r) = a # pre_addrs l @ pre_addrs r"

fun post_addrs :: "atree \<Rightarrow> ptr list" where
  "post_addrs Tip = []"
| "post_addrs (Nd b l a r) = post_addrs l @ post_addrs r @ [a]"

lemma pre_order_ok: "rep t p s \<Longrightarrow> pre_order t (aroot s) (Some f) st = Some (fold f (pre_addrs s) st)"
proof (induction s arbitrary: p st)
  case Tip
  then show ?case by (subst pre_order.simps) simp
next
  case (Nd b l a r)
  then show ?case using Nd.IH(1) [of a] Nd.IH(2) [of a] by (subst pre_order.simps) simp
qed

lemma post_order_ok: "rep t p s \<Longrightarrow> post_order t (aroot s) (Some f) st = Some (fold f (post_addrs s) st)"
proof (induction s arbitrary: p st)
  case Tip
  then show ?case by (subst post_order.simps) simp
next
  case (Nd b l a r)
  then show ?case using Nd.IH(1) [of a] Nd.IH(2) [of a] by (subst post_order.simps) simp
qed

section \<open>Height\<close>

fun height :: "atree \<Rightarrow> nat" where
  "height Tip = 0"
| "height (Nd b l a r) = Suc (max (height l) (height r))"

lemma rbt_height: "rbt n s \<Longrightarrow> height s \<le> 2 * n + (if blk s then 0 else 1)"
proof (induction s arbitrary: n)
  case (Nd b l a r)
  have "height l \<le> 2 * m + 1" "height r \<le> 2 * m + 1" if "rbt m l" "rbt m r" for m
    using Nd.IH(1) [OF that(1)] Nd.IH(2) [OF that(2)] by (auto split: if_splits)
  from this [of "n - 1"] show ?case
    using Nd.prems Nd.IH(1) [of n] Nd.IH(2) [of n] by (cases b) (auto simp: le_Suc_eq split: if_splits)
qed simp

lemma rbt_size: "rbt n s \<Longrightarrow> 2 ^ n \<le> Suc (length (addrs s))"
proof (induction s arbitrary: n)
  case (Nd b l a r)
  then show ?case
  proof (cases b)
    case True
    then obtain m where m: "n = Suc m" "rbt m l" "rbt m r" using Nd.prems by (cases n) auto
    then show ?thesis using Nd.IH(1) [OF m(2)] Nd.IH(2) [OF m(3)] by simp
  next
    case False
    then have "2 ^ n \<le> Suc (length (addrs l))" using Nd by auto
    then show ?thesis by simp
  qed
qed simp

lemma rb_tree_height:
  assumes "rb_tree s" shows "2 ^ (height s div 2) \<le> Suc (length (addrs s))"
proof -
  obtain n where n: "rbt n s" "blk s" using assms by (auto simp: rb_tree_def)
  have "height s div 2 \<le> n" using rbt_height [OF n(1)] n(2) by simp
  then have "(2 :: nat) ^ (height s div 2) \<le> 2 ^ n" by simp
  then show ?thesis using rbt_size [OF n(1)] by linarith
qed

text \<open>
  One round of the loop of \<open>__rb_search\<close>, on the node, the last node looked at and the last comparison.  The
  loop ends after at most as many rounds as the tree is high.
\<close>

definition search_step :: "rbtree \<Rightarrow> u64 \<Rightarrow> ptr \<times> ptr \<times> int \<Rightarrow> ptr \<times> ptr \<times> int" where
  "search_step t key = (\<lambda>(p, h, c). let k = compare_key t key p in
     (if k < 0 then rb_lc t p else if 0 < k then rb_rc t p else p, p, k))"

lemma search_rounds:
  assumes "tree_at t c s" and "k \<noteq> 0"
  shows "\<exists>n p h' k'. n \<le> height s \<and> (search_step t key ^^ n) (aroot s, h, k) = (p, h', k') \<and> (p = 0 \<or> k' = 0) \<and>
    rb_search_loop t key (aroot s) h k = Some (p, h')"
  using assms
proof (induction s arbitrary: c h k)
  case Tip
  show ?case by (rule exI [of _ "0 :: nat"]) (simp add: rb_search_loop.simps)
next
  case (Nd b l a r)
  note ch = tree_at_child [OF Nd.prems(1)]
  let ?k = "compare_key t key a"
  let ?p = "if ?k < 0 then aroot l else if 0 < ?k then aroot r else a"
  have loop: "rb_search_loop t key a h k = rb_search_loop t key ?p a ?k"
    using ch Nd.prems(2) by (subst rb_search_loop.simps) (simp add: Let_def)
  have step: "search_step t key (a, h, k) = (?p, a, ?k)" using ch by (simp add: search_step_def Let_def)
  have go: ?case if "n \<le> max (height l) (height r)" "(search_step t key ^^ n) (?p, a, ?k) = (p, h', k')" "p = 0 \<or> k' = 0"
    "rb_search_loop t key ?p a ?k = Some (p, h')" for n p h' k'
    using that by (intro exI [of _ "Suc n"]) (simp add: funpow_Suc_right loop step del: funpow.simps)
  have at: "tree_at t (LF b a r # c) l" "tree_at t (RF b l a # c) r"
    using Nd.prems(1) tree_at_Nd(1) [of t c b l a r] tree_at_Nd(2) [of t c b l a r] by blast+
  consider "?k < 0" | "0 < ?k" | "?k = 0" by linarith
  then show ?case
  proof cases
    case 1
    then obtain n p h' k' where "n \<le> height l" "(search_step t key ^^ n) (aroot l, a, ?k) = (p, h', k')" "p = 0 \<or> k' = 0"
      "rb_search_loop t key (aroot l) a ?k = Some (p, h')" using Nd.IH(1) [OF at(1), of ?k a] by auto
    then show ?thesis using 1 by (intro go [of n p h' k']) simp_all
  next
    case 2
    then obtain n p h' k' where "n \<le> height r" "(search_step t key ^^ n) (aroot r, a, ?k) = (p, h', k')" "p = 0 \<or> k' = 0"
      "rb_search_loop t key (aroot r) a ?k = Some (p, h')" using Nd.IH(2) [OF at(2), of ?k a] by auto
    then show ?thesis using 2 by (intro go [of n p h' k']) simp_all
  next
    case 3
    then show ?thesis using go [of 0 a a 0] by (simp add: rb_search_loop.simps)
  qed
qed

section \<open>The interface: an index of nodes by key\<close>

text \<open>
  What the users of the tree rely on: a set of nodes found by their keys, with insertion and
  removal.  \<open>holds t N\<close> says that \<open>N\<close> is the set of nodes in the index.
\<close>

locale node_index =
  fixes holds :: "'t \<Rightarrow> ptr set \<Rightarrow> bool"
    and key :: "'t \<Rightarrow> ptr \<Rightarrow> u64"
    and find :: "'t \<Rightarrow> u64 \<Rightarrow> ptr option"
    and ins :: "ptr \<Rightarrow> 't \<Rightarrow> (int \<times> 't) option"
    and del :: "u64 \<Rightarrow> 't \<Rightarrow> (ptr \<times> 't) option"
  assumes null_not_held: "holds t N \<Longrightarrow> 0 \<notin> N"
    and key_inj: "holds t N \<Longrightarrow> a \<in> N \<Longrightarrow> b \<in> N \<Longrightarrow> key t a = key t b \<Longrightarrow> a = b"
    and find_law: "holds t N \<Longrightarrow> \<exists>p. find t k = Some p \<and>
      (p \<noteq> 0 \<longrightarrow> p \<in> N \<and> key t p = k) \<and> (p = 0 \<longrightarrow> (\<forall>a \<in> N. key t a \<noteq> k))"
    and ins_new: "holds t N \<Longrightarrow> a \<noteq> 0 \<Longrightarrow> aligned a \<Longrightarrow> a \<notin> N \<Longrightarrow> \<forall>b \<in> N. key t b \<noteq> key t a \<Longrightarrow>
      \<exists>t'. ins a t = Some (0, t') \<and> holds t' (insert a N) \<and> key t' = key t"
    and ins_dup: "holds t N \<Longrightarrow> b \<in> N \<Longrightarrow> key t b = key t a \<Longrightarrow> ins a t = Some (-1, t)"
    and del_law: "holds t N \<Longrightarrow> a \<in> N \<Longrightarrow> \<exists>t'. del (key t a) t = Some (a, t') \<and> holds t' (N - {a}) \<and> key t' = key t"
    and del_absent: "holds t N \<Longrightarrow> \<forall>a \<in> N. key t a \<noteq> k \<Longrightarrow> del k t = Some (0, t)"
begin

lemma find_held: "holds t N \<Longrightarrow> a \<in> N \<Longrightarrow> find t (key t a) = Some a"
  using find_law [of t N "key t a"] key_inj [of t N] null_not_held [of t N] by metis

lemma find_absent: "holds t N \<Longrightarrow> \<forall>a \<in> N. key t a \<noteq> k \<Longrightarrow> find t k = Some 0"
  using find_law [of t N k] by auto

text \<open>A node put in is found, one taken out is not, and the others are found as before.\<close>

lemma find_after_ins:
  assumes "holds t N" and "a \<noteq> 0" "aligned a" "a \<notin> N" and "\<forall>b \<in> N. key t b \<noteq> key t a"
  shows "\<exists>t'. ins a t = Some (0, t') \<and> find t' (key t a) = Some a \<and> (\<forall>k. k \<noteq> key t a \<longrightarrow> find t' k = find t k)"
proof -
  obtain t' where t': "ins a t = Some (0, t')" "holds t' (insert a N)" "key t' = key t"
    using ins_new [OF assms] by blast
  have "find t' k = find t k" if "k \<noteq> key t a" for k
  proof (cases "\<exists>b \<in> N. key t b = k")
    case True
    then obtain b where b: "b \<in> N" "key t b = k" by blast
    then show ?thesis using find_held [OF assms(1) b(1)] find_held [OF t'(2), of b] t'(3) by simp
  next
    case False
    then show ?thesis using find_absent [OF assms(1), of k] find_absent [OF t'(2), of k] t'(3) that by auto
  qed
  then show ?thesis using t'(1) find_held [OF t'(2), of a] t'(3) by auto
qed

lemma ins_del:
  assumes "holds t N" and "a \<noteq> 0" "aligned a" "a \<notin> N" and "\<forall>b \<in> N. key t b \<noteq> key t a"
  shows "\<exists>t1 t2. ins a t = Some (0, t1) \<and> del (key t a) t1 = Some (a, t2) \<and> holds t2 N \<and> (\<forall>k. find t2 k = find t k)"
proof -
  obtain t1 where t1: "ins a t = Some (0, t1)" "holds t1 (insert a N)" "key t1 = key t"
    using ins_new [OF assms] by blast
  obtain t2 where t2: "del (key t a) t1 = Some (a, t2)" "holds t2 (insert a N - {a})" "key t2 = key t"
    using del_law [OF t1(2), of a] t1(3) by auto
  have h2: "holds t2 N" using t2(2) assms(4) by simp
  have "find t2 k = find t k" for k
  proof (cases "\<exists>b \<in> N. key t b = k")
    case True
    then obtain b where b: "b \<in> N" "key t b = k" by blast
    then show ?thesis using find_held [OF assms(1) b(1)] find_held [OF h2 b(1)] t2(3) by simp
  next
    case False
    then show ?thesis using find_absent [OF assms(1), of k] find_absent [OF h2, of k] t2(3) by auto
  qed
  then show ?thesis using t1(1) t2(1) h2 by blast
qed

text \<open>Entering the nodes of a list one after the other.\<close>

fun ins_all :: "ptr list \<Rightarrow> 't \<Rightarrow> 't option" where
  "ins_all [] t = Some t"
| "ins_all (a # as) t = Option.bind (ins a t) (\<lambda>(r, t). ins_all as t)"

lemma ins_all_holds:
  assumes "holds t N" and "distinct as" and "\<forall>a \<in> set as. a \<noteq> 0 \<and> aligned a \<and> a \<notin> N"
    and "inj_on (key t) (N \<union> set as)"
  shows "\<exists>t'. ins_all as t = Some t' \<and> holds t' (N \<union> set as) \<and> key t' = key t"
  using assms
proof (induction as arbitrary: t N)
  case (Cons a as)
  have "\<forall>b \<in> N. key t b \<noteq> key t a" using Cons.prems(3,4) by (auto simp: inj_on_def)
  then obtain t1 where t1: "ins a t = Some (0, t1)" "holds t1 (insert a N)" "key t1 = key t"
    using ins_new [OF Cons.prems(1), of a] Cons.prems(3) by auto
  have "\<exists>t'. ins_all as t1 = Some t' \<and> holds t' (insert a N \<union> set as) \<and> key t' = key t1"
    by (rule Cons.IH [OF t1(2)]) (use Cons.prems t1(3) in auto)
  then show ?case using t1 by auto
qed simp

end

definition rb_holds :: "rbtree \<Rightarrow> ptr set \<Rightarrow> bool" where
  "rb_holds t N \<longleftrightarrow> (\<exists>xs. rb_ok t xs \<and> key_sorted t xs \<and> set xs = N)"

definition rb_find :: "rbtree \<Rightarrow> u64 \<Rightarrow> ptr option" where
  "rb_find t k = map_option fst (rb_search t k local_var)"

interpretation rbi: node_index rb_holds rb_key rb_find rb_insert rb_remove
proof unfold_locales
  fix t :: rbtree and N k a b
  assume "rb_holds t N"
  then obtain xs where xs: "rb_ok t xs" "key_sorted t xs" "set xs = N" unfolding rb_holds_def by blast
  have l: "local_var \<noteq> 0" by (simp add: local_var_def)
  have cf: "rb_cfunc t = None" using xs(2) by (simp add: key_sorted_def)
  note cmp = compare_default [OF cf]
  have eq0: "compare_key t k a = 0 \<longleftrightarrow> rb_key t a = k" for k a by (auto simp: cmp)
  note ord = key_sorted_ordered [OF xs(2)]
  show "0 \<notin> N" using rb_okD(2) [OF xs(1)] xs(3) by simp
  show "a \<in> N \<Longrightarrow> b \<in> N \<Longrightarrow> rb_key t a = rb_key t b \<Longrightarrow> a = b"
    using key_sorted_unique [OF xs(2)] xs(3) by blast
  show "\<exists>p. rb_find t k = Some p \<and> (p \<noteq> 0 \<longrightarrow> p \<in> N \<and> rb_key t p = k) \<and> (p = 0 \<longrightarrow> (\<forall>a \<in> N. rb_key t a \<noteq> k))"
    using rb_search_spec [OF xs(1) ord l, of k] unfolding eq0 xs(3) rb_find_def by auto
  show "\<exists>t'. rb_insert a t = Some (0, t') \<and> rb_holds t' (insert a N) \<and> rb_key t' = rb_key t"
    if n: "a \<noteq> 0" "aligned a" "a \<notin> N" and new: "\<forall>b \<in> N. rb_key t b \<noteq> rb_key t a"
  proof -
    have "\<forall>b \<in> set xs. compare_key t (rb_key t a) b \<noteq> 0" using new xs(3) eq0 by blast
    then obtain t' ys zs where t': "rb_insert a t = Some (0, t')" "xs = ys @ zs" "rb_ok t' (ys @ a # zs)"
      "between (compare_key t (rb_key t a)) ys zs" "rb_key t' = rb_key t" "rb_cfunc t' = rb_cfunc t"
      using rb_insert_spec [OF xs(1) n(1,2) _ ord] n(3) xs(3) by blast
    have "key_sorted t' (ys @ a # zs)" using key_sorted_insert [OF _ t'(4-6)] xs(2) t'(2) by simp
    moreover have "set (ys @ a # zs) = insert a N" using xs(3) t'(2) by auto
    ultimately show ?thesis using t'(1,3,5) unfolding rb_holds_def by blast
  qed
  show "b \<in> N \<Longrightarrow> rb_key t b = rb_key t a \<Longrightarrow> rb_insert a t = Some (-1, t)"
  proof -
    assume b: "b \<in> N" "rb_key t b = rb_key t a"
    obtain s where s: "tree_at t [] s" "addrs s = xs" using xs(1) unfolding rb_ok_def by blast
    show "rb_insert a t = Some (-1, t)"
      by (rule rb_insert_present [OF s(1), of a b]) (use s(2) ord xs(3) b eq0 in auto)
  qed
  show "\<exists>t'. rb_remove (rb_key t a) t = Some (a, t') \<and> rb_holds t' (N - {a}) \<and> rb_key t' = rb_key t" if a: "a \<in> N"
  proof -
    have "\<not> (\<forall>b \<in> set xs. compare_key t (rb_key t a) b \<noteq> 0)" using a xs(3) eq0 by blast
    then obtain x t' where x: "x \<in> set xs" "compare_key t (rb_key t a) x = 0" "rb_remove (rb_key t a) t = Some (x, t')"
      "rb_ok t' (remove1 x xs)" "rb_key t' = rb_key t" "rb_cfunc t' = rb_cfunc t"
      using rb_remove_spec [OF xs(1) ord, of "rb_key t a"] by blast
    have "x = a" using key_sorted_unique [OF xs(2) x(1)] a xs(3) x(2) eq0 by blast
    moreover have "key_sorted t' (remove1 x xs)" by (rule key_sorted_remove1 [OF xs(2) x(5,6)])
    moreover have "set (remove1 a xs) = N - {a}" using rb_okD(1) [OF xs(1)] xs(3) by simp
    ultimately show ?thesis using x(3-5) unfolding rb_holds_def by blast
  qed
  show "\<forall>a \<in> N. rb_key t a \<noteq> k \<Longrightarrow> rb_remove k t = Some (0, t)"
    using rb_remove_spec [OF xs(1) ord, of k] unfolding eq0 xs(3) by blast
qed

section \<open>What the tree promises\<close>

text \<open>Only the fields of the nodes in the tree matter.\<close>

lemma rb_ok_cong:
  assumes "rb_ok t xs" and "\<And>a. a \<in> set xs \<Longrightarrow> rb_lc t' a = rb_lc t a \<and> rb_rc t' a = rb_rc t a \<and> rb_pw t' a = rb_pw t a"
    and "rb_root t' = rb_root t" and "rb_size t' = rb_size t"
  shows "rb_ok t' xs"
proof -
  obtain s where s: "tree_at t [] s" "rb_tree s" "addrs s = xs" using assms(1) unfolding rb_ok_def by blast
  have "rep t' 0 s \<longleftrightarrow> rep t 0 s" by (rule rep_cong) (use assms(2) s(3) in blast)
  then have "tree_at t' [] s" using s(1) assms(3) by (simp add: tree_at_def)
  then show ?thesis using s assms(1,4) unfolding rb_ok_def by auto
qed

lemma key_sorted_cong:
  assumes "key_sorted t xs" and "\<And>a. a \<in> set xs \<Longrightarrow> rb_key t' a = rb_key t a" and "rb_cfunc t' = rb_cfunc t"
  shows "key_sorted t' xs"
  using assms unfolding key_sorted_def by (auto elim!: sorted_wrt_mono_rel [rotated])

lemma rb_holds_cong:
  assumes "rb_holds t N"
    and "\<And>a. a \<in> N \<Longrightarrow> rb_lc t' a = rb_lc t a \<and> rb_rc t' a = rb_rc t a \<and> rb_pw t' a = rb_pw t a \<and> rb_key t' a = rb_key t a"
    and "rb_root t' = rb_root t" and "rb_size t' = rb_size t" and "rb_cfunc t' = rb_cfunc t"
  shows "rb_holds t' N"
proof -
  obtain xs where xs: "rb_ok t xs" "key_sorted t xs" "set xs = N" using assms(1) unfolding rb_holds_def by blast
  have "rb_ok t' xs" by (rule rb_ok_cong [OF xs(1)]) (use assms xs(3) in auto)
  moreover have "key_sorted t' xs" by (rule key_sorted_cong [OF xs(2)]) (use assms xs(3) in auto)
  ultimately show ?thesis using xs(3) unfolding rb_holds_def by blast
qed

lemma rb_fillnew_eq:
  assumes "a \<noteq> 0"
  shows "rb_fillnew a t = Some (t\<lparr>rb_key := (rb_key t)(a := 0), rb_lc := (rb_lc t)(a := 0),
    rb_rc := (rb_rc t)(a := 0), rb_pw := (rb_pw t)(a := 0)\<rparr>)"
proof -
  have "(w AND -4) AND (3 :: u64) = 0" for w by (simp add: and.assoc)
  then show ?thesis
    using assms by (simp add: rb_fillnew_def Let_def set_parent_def set_isblack_def isblack_def upd_pw_def upd_lc_def upd_rc_def)
qed

lemma rb_holds_init: "rb_holds (rb_init None t) {}"
  unfolding rb_holds_def
  by (rule exI [of _ "[]"]) (simp add: rb_ok_init key_sorted_def, simp add: rb_init_def)

text \<open>
  C1. Inserting a node with a new key into a red-black tree yields a red-black tree with the nodes
  in the order of their keys and the new one among them; a second node with a key that is there
  is refused and the tree stays as it is.
\<close>

theorem rb_insert_correct:
  assumes "rb_ok t xs" and "key_sorted t xs" and "node \<noteq> 0" and "node AND 3 = 0" and "node \<notin> set xs"
  shows "if \<exists>a \<in> set xs. rb_key t a = rb_key t node then rb_insert node t = Some (-1, t)
    else \<exists>t' ys zs. rb_insert node t = Some (0, t') \<and> xs = ys @ zs \<and> rb_ok t' (ys @ node # zs) \<and>
      key_sorted t' (ys @ node # zs) \<and> rb_key t' = rb_key t"
proof (cases "\<exists>a \<in> set xs. rb_key t a = rb_key t node")
  case True
  have "rb_holds t (set xs)" using assms(1,2) unfolding rb_holds_def by blast
  then show ?thesis using True rbi.ins_dup by auto
next
  case False
  have cf: "rb_cfunc t = None" using assms(2) by (simp add: key_sorted_def)
  have "\<forall>a \<in> set xs. compare_key t (rb_key t node) a \<noteq> 0"
    using False by (auto simp: compare_default [OF cf])
  then obtain t' ys zs where t': "rb_insert node t = Some (0, t')" "xs = ys @ zs" "rb_ok t' (ys @ node # zs)"
    "between (compare_key t (rb_key t node)) ys zs" "rb_key t' = rb_key t" "rb_cfunc t' = rb_cfunc t"
    using rb_insert_spec [OF assms(1,3) _ assms(5) key_sorted_ordered [OF assms(2)]] assms(4)
    unfolding aligned_def by blast
  have "key_sorted t' (ys @ node # zs)" using key_sorted_insert [OF _ t'(4-6)] assms(2) t'(2) by simp
  then show ?thesis using t' False by auto
qed

text \<open>
  C2. Removing the key of a node takes this node out, leaves a red-black tree of the others in
  their order and clears the node's links; the key of no node removes nothing.
\<close>

theorem rb_remove_correct:
  assumes "rb_ok t xs" and "key_sorted t xs"
  shows "(\<exists>x t'. x \<in> set xs \<and> rb_key t x = k \<and> rb_remove k t = Some (x, t') \<and> rb_ok t' (remove1 x xs) \<and>
      key_sorted t' (remove1 x xs) \<and> unlinked t' x) \<or>
    ((\<forall>x \<in> set xs. rb_key t x \<noteq> k) \<and> rb_remove k t = Some (0, t))"
proof -
  have cf: "rb_cfunc t = None" using assms(2) by (simp add: key_sorted_def)
  have eq0: "compare_key t k a = 0 \<longleftrightarrow> rb_key t a = k" for a by (auto simp: compare_default [OF cf])
  show ?thesis
    using rb_remove_spec [OF assms(1) key_sorted_ordered [OF assms(2)], of k] key_sorted_remove1 [OF assms(2)]
    unfolding eq0 by blast
qed

text \<open>
  C16. A tree that nodes with different keys are put into, in any order, finds each of them by its
  key and no other key.
\<close>

theorem rb_insert_all_find:
  assumes "distinct as" and "\<forall>a \<in> set as. a \<noteq> 0 \<and> a AND 3 = 0" and "inj_on (rb_key t) (set as)"
  shows "\<exists>t'. rbi.ins_all as (rb_init None t) = Some t' \<and>
    (\<forall>a \<in> set as. rb_find t' (rb_key t a) = Some a) \<and> (\<forall>k. k \<notin> rb_key t ` set as \<longrightarrow> rb_find t' k = Some 0)"
proof -
  have "rb_key (rb_init None t) = rb_key t" by (simp add: rb_init_def)
  then obtain t' where t': "rbi.ins_all as (rb_init None t) = Some t'" "rb_holds t' (set as)" "rb_key t' = rb_key t"
    using rbi.ins_all_holds [OF rb_holds_init assms(1), of t] assms(2,3) by (auto simp: aligned_def)
  have "\<forall>a \<in> set as. rb_find t' (rb_key t a) = Some a" using rbi.find_held [OF t'(2)] t'(3) by simp
  moreover have "\<forall>k. k \<notin> rb_key t ` set as \<longrightarrow> rb_find t' k = Some 0"
    using rbi.find_absent [OF t'(2)] t'(3) by (metis imageI)
  ultimately show ?thesis using t'(1) by blast
qed

text \<open>
  C18. Putting a node in and taking its key out gives the node back and an index that answers every
  search as before.
\<close>

theorem rb_insert_remove:
  assumes "rb_holds t N" and "a \<noteq> 0" and "a AND 3 = 0" and "a \<notin> N" and "\<forall>b \<in> N. rb_key t b \<noteq> rb_key t a"
  shows "\<exists>t1 t2. rb_insert a t = Some (0, t1) \<and> rb_remove (rb_key t a) t1 = Some (a, t2) \<and> rb_holds t2 N \<and>
    (\<forall>k. rb_find t2 k = rb_find t k)"
  by (rule rbi.ins_del) (use assms in \<open>simp_all add: aligned_def\<close>)

text \<open>
  C22. The successor of a node is the next one in order, and there is none behind the last.
\<close>

theorem rb_succ_next:
  assumes "rb_ok t (ys @ x # zs)"
  shows "rb_succ t x = Some (case zs of [] \<Rightarrow> 0 | z # _ \<Rightarrow> z)"
  using rb_succ_spec [OF assms] by (cases zs) simp_all

text \<open>
  C23. The in-order traversal visits every node once, in the order of the tree, and ends.
\<close>

theorem in_order_visits:
  assumes "rb_ok t xs" shows "in_order t (rb_root t) (Some (\<lambda>a visited. visited @ [a])) [] = Some xs"
proof -
  obtain s where s: "tree_at t [] s" "addrs s = xs" using assms unfolding rb_ok_def by blast
  have "fold (\<lambda>a v. v @ [a]) ys v = v @ ys" for v ys :: "ptr list" by (induction ys arbitrary: v) simp_all
  then show ?thesis
    using in_order_ok [of t 0 s "\<lambda>a visited. visited @ [a]" "[]"] s tree_at_root [OF s(1)] by (simp add: tree_at_def)
qed

text \<open>
  A search in an index of n nodes ends within about twice the binary logarithm of n + 1 rounds of its loop.
\<close>

lemma rb_find_rounds:
  assumes "rb_holds t N"
  shows "\<exists>n p h c. 2 ^ (n div 2) \<le> Suc (card N) \<and> (search_step t k ^^ n) (rb_root t, rb_root t, 1) = (p, h, c) \<and>
    (p = 0 \<or> c = 0) \<and> rb_find t k = Some p"
proof -
  obtain s where s: "tree_at t [] s" "rb_tree s" "set (addrs s) = N" using assms unfolding rb_holds_def rb_ok_def by blast
  have r: "rb_root t = aroot s" and d: "distinct (addrs s)" using s(1) by (simp_all add: tree_at_def)
  obtain n p h c where n: "n \<le> height s" "(search_step t k ^^ n) (rb_root t, rb_root t, 1) = (p, h, c)" "p = 0 \<or> c = 0"
    "rb_search_loop t k (rb_root t) (rb_root t) 1 = Some (p, h)"
    using search_rounds [OF s(1), of 1 k "rb_root t"] unfolding r by auto
  have "(2 :: nat) ^ (n div 2) \<le> 2 ^ (height s div 2)" using n(1) by (intro power_increasing div_le_mono) simp_all
  then have "2 ^ (n div 2) \<le> Suc (card N)"
    using rb_tree_height [OF s(2)] distinct_card [OF d] unfolding s(3) by linarith
  moreover have "rb_find t k = Some p"
    using n(4) by (cases "rb_root t = 0") (auto simp: rb_find_def rb_search_def local_var_def rb_search_loop.simps)
  ultimately show ?thesis using n(2,3) by blast
qed

text \<open>
  C17. After n nodes with different keys are put into an empty tree, in any order, the loop of a search for any
  key ends within about twice the binary logarithm of n + 1 rounds: as many rounds as that lead from the
  root to the answer of \<open>rb_search\<close>.
\<close>

theorem rb_insert_all_rounds:
  assumes "distinct as" and "\<forall>a \<in> set as. a \<noteq> 0 \<and> a AND 3 = 0" and "inj_on (rb_key t) (set as)"
  shows "\<exists>t'. rbi.ins_all as (rb_init None t) = Some t' \<and>
    (\<forall>k. \<exists>n p h c. 2 ^ (n div 2) \<le> Suc (length as) \<and>
       (search_step t' k ^^ n) (rb_root t', rb_root t', 1) = (p, h, c) \<and> (p = 0 \<or> c = 0) \<and> rb_find t' k = Some p)"
proof -
  have "rb_key (rb_init None t) = rb_key t" by (simp add: rb_init_def)
  then obtain t' where t': "rbi.ins_all as (rb_init None t) = Some t'" "rb_holds t' (set as)"
    using rbi.ins_all_holds [OF rb_holds_init assms(1), of t] assms(2,3) by (auto simp: aligned_def)
  then show ?thesis using rb_find_rounds [OF t'(2)] unfolding distinct_card [OF assms(1)] by blast
qed

section \<open>A tree of three nodes\<close>

definition rb_ex :: rbtree where
  "rb_ex = \<lparr>rb_key = (\<lambda>a. a div 8), rb_lc = (\<lambda>a. if a = 32 then 16 else 0), rb_rc = (\<lambda>a. if a = 32 then 48 else 0),
     rb_pw = (\<lambda>a. if a = 32 then 1 else 32), rb_size = 3, rb_depth = 0, rb_root = 32, rb_cfunc = None\<rparr>"

lemma rb_ex_ok: "rb_ok rb_ex [16, 32, 48]"
  unfolding rb_ok_def
  by (intro conjI exI [of _ "Nd True (Nd False Tip 16 Tip) 32 (Nd False Tip 48 Tip)"])
     (auto simp: tree_at_def rb_tree_def rb_ex_def aligned_def pword_def simp del: pword_fold intro: exI [of _ 1])

lemma rb_ex_sorted: "key_sorted rb_ex [16, 32, 48]"
  by (simp add: key_sorted_def rb_ex_def)

lemma rb_ex_key: "rb_key rb_ex a = a div 8"
  by (simp add: rb_ex_def)

theorem rb_insert_correct_witness:
  "\<exists>t' ys zs. rb_insert 64 rb_ex = Some (0, t') \<and> [16, 32, 48] = ys @ zs \<and> rb_ok t' (ys @ 64 # zs)"
  using rb_insert_correct [OF rb_ex_ok rb_ex_sorted, of 64] by (simp add: rb_ex_key) blast

theorem rb_remove_correct_witness:
  "\<exists>t'. rb_remove 4 rb_ex = Some (32, t') \<and> rb_ok t' [16, 48]"
  using rb_remove_correct [OF rb_ex_ok rb_ex_sorted, of 4] by (auto simp: rb_ex_key)

theorem rb_insert_all_find_witness:
  "\<exists>t'. rbi.ins_all [48, 16, 32] (rb_init None rb_ex) = Some t' \<and> rb_find t' 2 = Some 16 \<and> rb_find t' 5 = Some 0"
  using rb_insert_all_find [of "[48, 16, 32]" rb_ex] by (auto simp: rb_ex_key inj_on_def)

theorem rb_insert_remove_witness:
  "\<exists>t1 t2. rb_insert 64 rb_ex = Some (0, t1) \<and> rb_remove 8 t1 = Some (64, t2) \<and> rb_holds t2 {16, 32, 48}"
proof -
  have "rb_holds rb_ex {16, 32, 48}"
    unfolding rb_holds_def using rb_ex_ok rb_ex_sorted by (intro exI [of _ "[16, 32, 48]"]) simp
  from rb_insert_remove [OF this, of 64] show ?thesis by (simp add: rb_ex_key) blast
qed

theorem rb_succ_next_witness: "rb_succ rb_ex 16 = Some 32"
  using rb_succ_next [of rb_ex "[]" 16 "[32, 48]"] rb_ex_ok by simp

theorem in_order_visits_witness:
  "in_order rb_ex 32 (Some (\<lambda>a visited. visited @ [a])) [] = Some [16, 32, 48]"
  using in_order_visits [OF rb_ex_ok] by (simp add: rb_ex_def)

theorem rb_insert_all_rounds_witness:
  "\<exists>t' n p h c. rbi.ins_all [48, 16, 32] (rb_init None rb_ex) = Some t' \<and> 2 ^ (n div 2) \<le> (4 :: nat) \<and>
     (search_step t' 2 ^^ n) (rb_root t', rb_root t', 1) = (p, h, c) \<and> (p = 0 \<or> c = 0) \<and> rb_find t' 2 = Some p"
proof -
  have "distinct [48, 16, 32 :: ptr]" "\<forall>a \<in> set [48, 16, 32 :: ptr]. a \<noteq> 0 \<and> a AND 3 = 0" "inj_on (rb_key rb_ex) (set [48, 16, 32])"
    by (auto simp: rb_ex_key inj_on_def)
  note r = rb_insert_all_rounds [OF this]
  have "Suc (length [48, 16, 32 :: ptr]) = 4" by simp
  from r [unfolded this] show ?thesis by blast
qed

end
