(* ===== verification/Memory.thy ===== *)
theory Memory
  imports Dlist
begin

text \<open>
  The memory the components that keep byte strings and linked structures share: the bytes, and
  the \<open>prev\<close>/\<open>next\<close> fields of the list nodes.  Components extend the record by the fields of
  their own structures.  The C strings of the standard library (\<open>strcmp\<close>, \<open>strncpy\<close>) are
  modelled here as far as the sources use them.
\<close>

record heap =
  bytes :: "ptr \<Rightarrow> byte"
  links :: dl_heap

text \<open>A list operation run on the list nodes of a larger state.\<close>

definition on_links :: "(dl_heap \<Rightarrow> ('r \<times> dl_heap) option) \<Rightarrow> 'a heap_scheme \<Rightarrow> ('r \<times> 'a heap_scheme) option" where
  "on_links f s = do { (r, h) \<leftarrow> f (links s); Some (r, s\<lparr>links := h\<rparr>) }"

lemma on_links_Some [simp]: "f (links s) = Some (r, h) \<Longrightarrow> on_links f s = Some (r, s\<lparr>links := h\<rparr>)"
  by (simp add: on_links_def)

section \<open>Strings\<close>

text \<open>The sign of \<open>strcmp\<close>; a string that is not terminated may be read for ever.\<close>

partial_function (option) strcmp :: "(ptr \<Rightarrow> byte) \<Rightarrow> ptr \<Rightarrow> ptr \<Rightarrow> int option" where
  "strcmp m a b =
     (if m a = m b then if m a = 0 then Some 0 else strcmp m (a + 1) (b + 1)
      else Some (if m a < m b then -1 else 1))"

text \<open>\<open>strncpy\<close> copies up to the terminator and fills the rest with zeros.\<close>

fun strncpy_from :: "bool \<Rightarrow> ptr \<Rightarrow> ptr \<Rightarrow> nat \<Rightarrow> (ptr \<Rightarrow> byte) \<Rightarrow> ptr \<Rightarrow> byte" where
  "strncpy_from ended dst src 0 m = m"
| "strncpy_from ended dst src (Suc n) m =
     (let c = (if ended then 0 else m src)
      in strncpy_from (c = 0) (dst + 1) (if c = 0 then src else src + 1) n (m(dst := c)))"

definition strncpy :: "ptr \<Rightarrow> ptr \<Rightarrow> nat \<Rightarrow> (ptr \<Rightarrow> byte) \<Rightarrow> ptr \<Rightarrow> byte" where
  "strncpy dst src n m = strncpy_from False dst src n m"

text \<open>\<open>cstr m a xs\<close>: the terminated string at \<open>a\<close> is \<open>xs\<close>.\<close>

fun cstr :: "(ptr \<Rightarrow> byte) \<Rightarrow> ptr \<Rightarrow> byte list \<Rightarrow> bool" where
  "cstr m a [] \<longleftrightarrow> m a = 0"
| "cstr m a (x # xs) \<longleftrightarrow> m a = x \<and> x \<noteq> 0 \<and> cstr m (a + 1) xs"

lemma cstr_unique: "cstr m a xs \<Longrightarrow> cstr m a ys \<Longrightarrow> xs = ys"
proof (induction m a xs arbitrary: ys rule: cstr.induct)
  case (1 m a)
  then show ?case by (cases ys) auto
next
  case (2 m a x xs)
  then show ?case by (cases ys) auto
qed

lemma strcmp_cstr:
  assumes "cstr m a xs" and "cstr m b ys"
  shows "\<exists>r. strcmp m a b = Some r \<and> (r = 0 \<longleftrightarrow> xs = ys)"
  using assms
proof (induction xs arbitrary: a b ys)
  case Nil
  then show ?case by (cases ys) (auto simp: strcmp.simps [of m a b])
next
  case (Cons x xs)
  then show ?case
    by (cases ys) (auto simp: strcmp.simps [of m a b])
qed

end
