(* ===== verification/Hash.thy ===== *)
theory Hash
  imports Memory
begin

text \<open>
  The chained hash table of \<open>src/src/hash.c\<close>.

  A \<open>struct hash_table\<close> is an address with the fields \<open>bucket_size\<close> and \<open>hash_list\<close>, the address of
  an array of \<open>struct dlist\<close> (32 bytes each).  A \<open>struct hash_node\<close> is its list node, at offset 0,
  followed by the 64 bytes of its key.
\<close>

record hash_heap = heap +
  ht_bucket_size :: "ptr \<Rightarrow> u64"
  ht_hash_list :: "ptr \<Rightarrow> ptr"

abbreviation (input) list_node :: "ptr \<Rightarrow> ptr" where "list_node hn \<equiv> hn"
abbreviation (input) hash_key :: "ptr \<Rightarrow> ptr" where "hash_key hn \<equiv> hn + 16"
abbreviation (input) hash_node_of :: "ptr \<Rightarrow> ptr" where "hash_node_of dln \<equiv> dln"

definition hash_bucket :: "'a hash_heap_scheme \<Rightarrow> ptr \<Rightarrow> u64 \<Rightarrow> ptr" where
  "hash_bucket s ht i = ht_hash_list s ht + 32 * i"

section \<open>The operations\<close>

text \<open>
  The index of the loop is an \<open>int\<close>, which may not be counted beyond its largest value; the
  characters are signed.
\<close>

function hash_sum :: "(ptr \<Rightarrow> byte) \<Rightarrow> ptr \<Rightarrow> nat \<Rightarrow> u64 \<Rightarrow> u64 option" where
  "hash_sum m key i acc =
     (if m (key + of_nat i) = 0 then Some acc
      else if 2147483647 \<le> i then None
      else hash_sum m key (Suc i) (acc + scast (m (key + of_nat i))))"
  by pat_completeness auto
termination hash_sum
  by (relation "measure (\<lambda>(m, key, i, acc). 2147483647 - i)") auto

declare hash_sum.simps [simp del]

definition hash_value :: "(ptr \<Rightarrow> byte) \<Rightarrow> ptr \<Rightarrow> u64 \<Rightarrow> u64 option" where
  "hash_value m key bucket_size = do {
     acc \<leftarrow> hash_sum m key 0 0;
     if bucket_size = 0 then None else Some (acc mod bucket_size) }"

definition hash_insert :: "ptr \<Rightarrow> ptr \<Rightarrow> 'a hash_heap_scheme \<Rightarrow> (int \<times> 'a hash_heap_scheme) option" where
  "hash_insert ht hn s =
     (if ht = 0 \<or> hn = 0 then Some (-1, s)
      else if ht_bucket_size s ht = 0 then Some (-1, s)
      else do {
        (r, s) \<leftarrow> on_links (lst_clr (list_node hn)) s;
        v \<leftarrow> hash_value (bytes s) (hash_key hn) (ht_bucket_size s ht);
        on_links (lst_push_back (hash_bucket s ht v) (list_node hn)) s })"

text \<open>The search returns the node it looked at last, also when the key of none matched.\<close>

partial_function (option) hash_search_loop ::
  "'a hash_heap_scheme \<Rightarrow> ptr \<Rightarrow> ptr \<Rightarrow> ptr \<Rightarrow> ptr \<Rightarrow> ptr option" where
  "hash_search_loop s lst key dln hn =
     (if dln = tail_of lst then Some hn
      else do {
        hn \<leftarrow> deref dln (hash_node_of dln);
        r \<leftarrow> strcmp (bytes s) (hash_key hn) key;
        if r = 0 then Some hn
        else do { dln \<leftarrow> ld_next (links s) dln; hash_search_loop s lst key dln hn } })"

definition hash_search_in :: "ptr \<Rightarrow> u32 \<Rightarrow> ptr \<Rightarrow> 'a hash_heap_scheme \<Rightarrow> ptr option" where
  "hash_search_in ht v key s = do {
     let lst = hash_bucket s ht (ucast v);
     dln \<leftarrow> ld_next (links s) (head_of lst);
     hash_search_loop s lst key dln 0 }"

definition hash_search :: "ptr \<Rightarrow> ptr \<Rightarrow> 'a hash_heap_scheme \<Rightarrow> ptr option" where
  "hash_search ht key s =
     (if ht = 0 \<or> key = 0 then Some 0
      else if ht_bucket_size s ht = 0 then Some 0
      else do {
        v \<leftarrow> hash_value (bytes s) key (ht_bucket_size s ht);
        hash_search_in ht (ucast v) key s })"

definition hash_remove :: "ptr \<Rightarrow> ptr \<Rightarrow> 'a hash_heap_scheme \<Rightarrow> (int \<times> 'a hash_heap_scheme) option" where
  "hash_remove ht key s =
     (if ht = 0 \<or> key = 0 then Some (-1, s)
      else if ht_bucket_size s ht = 0 then Some (-1, s)
      else do {
        v \<leftarrow> hash_value (bytes s) key (ht_bucket_size s ht);
        hn \<leftarrow> hash_search_in ht (ucast v) key s;
        if hn = 0 then Some (-1, s)
        else on_links (lst_remove (hash_bucket s ht v) (list_node hn)) s })"

section \<open>The table as buckets of keyed nodes\<close>

definition hash_of :: "byte list \<Rightarrow> u64 \<Rightarrow> u64" where
  "hash_of k n = sum_list (List.map scast k) mod n"

text \<open>
  \<open>hash_ok s ht K B\<close>: bucket \<open>i\<close> of the table at \<open>ht\<close> holds the nodes \<open>B i\<close>, each with its key
  \<open>K\<close> and in the bucket its key belongs to; the buckets are apart from each other.
\<close>

definition hash_ok :: "'a hash_heap_scheme \<Rightarrow> ptr \<Rightarrow> (ptr \<Rightarrow> byte list) \<Rightarrow> (u64 \<Rightarrow> ptr list) \<Rightarrow> bool" where
  "hash_ok s ht K B \<longleftrightarrow>
     ht \<noteq> 0 \<and> 0 < ht_bucket_size s ht \<and> ht_bucket_size s ht < 2 ^ 32 \<and>
     (\<forall>i < ht_bucket_size s ht. dl_list (links s) (hash_bucket s ht i) (B i)) \<and>
     (\<forall>i < ht_bucket_size s ht. \<forall>j < ht_bucket_size s ht. i \<noteq> j \<longrightarrow>
        set (dl_nodes (hash_bucket s ht i) (B i)) \<inter> set (dl_nodes (hash_bucket s ht j) (B j)) = {}) \<and>
     (\<forall>i < ht_bucket_size s ht. \<forall>x \<in> set (B i).
        cstr (bytes s) (hash_key x) (K x) \<and> length (K x) < 2 ^ 31 \<and> hash_of (K x) (ht_bucket_size s ht) = i)"

text \<open>What a search of a bucket returns: the first node with the key, else the last node.\<close>

fun scan :: "(ptr \<Rightarrow> byte list) \<Rightarrow> byte list \<Rightarrow> ptr \<Rightarrow> ptr list \<Rightarrow> ptr" where
  "scan K k hn [] = hn"
| "scan K k hn (x # xs) = (if K x = k then x else scan K k x xs)"

lemma scan_absent: "\<forall>x \<in> set xs. K x \<noteq> k \<Longrightarrow> scan K k hn xs = last (hn # xs)"
  by (induction xs arbitrary: hn) auto

lemma scan_present: "x \<in> set xs \<Longrightarrow> \<forall>y \<in> set xs. K y = K x \<longrightarrow> y = x \<Longrightarrow> scan K (K x) hn xs = x"
  by (induction xs arbitrary: hn) auto

lemma hash_sum_cstr:
  assumes "cstr m (key + of_nat i) xs" and "i + length xs < 2 ^ 31"
  shows "hash_sum m key i acc = Some (acc + sum_list (List.map scast xs))"
  using assms
proof (induction xs arbitrary: i acc)
  case Nil
  then show ?case by (simp add: hash_sum.simps [of m key i])
next
  case (Cons x xs)
  have c: "cstr m (key + of_nat (Suc i)) xs" using Cons.prems(1) by (simp add: ac_simps)
  have i: "i < 2147483647" "Suc i + length xs < 2 ^ 31" using Cons.prems(2) by simp_all
  have "hash_sum m key i acc = hash_sum m key (Suc i) (acc + scast x)"
    using Cons.prems(1) i(1) by (subst hash_sum.simps) simp
  also have "\<dots> = Some (acc + scast x + sum_list (List.map scast xs))"
    by (rule Cons.IH [OF c i(2)])
  finally show ?case by (simp add: add.assoc)
qed

lemma hash_value_cstr:
  assumes "cstr m key k" and "length k < 2 ^ 31" and "n \<noteq> 0"
  shows "hash_value m key n = Some (hash_of k n)"
  using hash_sum_cstr [of m key 0 k 0] assms by (simp add: hash_value_def hash_of_def)

lemma hash_of_less: "0 < n \<Longrightarrow> hash_of k n < n"
  unfolding hash_of_def by (rule word_mod_less_divisor)

lemma hash_search_loop_ok:
  assumes "dl_list (links s) lst (ys @ xs)" and "cstr (bytes s) key k"
    and "\<forall>x \<in> set xs. cstr (bytes s) (hash_key x) (K x)"
  shows "hash_search_loop s lst key (hd (xs @ [tail_of lst])) hn = Some (scan K k hn xs)"
  using assms
proof (induction xs arbitrary: ys hn)
  case Nil
  then show ?case by (simp add: hash_search_loop.simps)
next
  case (Cons x xs)
  have x: "x \<noteq> 0" "x \<noteq> tail_of lst" using dl_listD [OF Cons.prems(1)] by auto
  have n: "dl_next (links s) x = hd (xs @ [tail_of lst])"
    by (rule dl_list_unlink(3) [OF Cons.prems(1)])
  obtain r where r: "strcmp (bytes s) (hash_key x) key = Some r" "r = 0 \<longleftrightarrow> K x = k"
    using strcmp_cstr [of "bytes s" "hash_key x" "K x" key k] Cons.prems by auto
  have "hash_search_loop s lst key (hd (xs @ [tail_of lst])) x = Some (scan K k x xs)"
    by (rule Cons.IH [of "ys @ [x]"]) (use Cons.prems in auto)
  then show ?case using x n r
    by (subst hash_search_loop.simps) (simp add: mem_defs)
qed

lemma ucast_index:
  assumes "(i :: u64) < n" and "n < 2 ^ 32" shows "ucast (ucast i :: u32) = i"
proof -
  have "unat i < 2 ^ 32" using assms by (simp add: word_less_nat_alt)
  then have "unat (ucast (ucast i :: u32) :: u64) = unat i"
    by (simp add: unsigned_ucast_eq unsigned_take_bit_eq take_bit_nat_eq_self)
  then show ?thesis by (simp only: word_unat_eq_iff)
qed

text \<open>A search looks through the bucket of the key.\<close>

lemma hash_search_in_ok:
  assumes ok: "hash_ok s ht K B" and k: "cstr (bytes s) key k"
  shows "hash_search_in ht (ucast (hash_of k (ht_bucket_size s ht))) key s
       = Some (scan K k 0 (B (hash_of k (ht_bucket_size s ht))))"
proof -
  let ?n = "ht_bucket_size s ht"
  let ?i = "hash_of k ?n"
  have i: "?i < ?n" using ok by (simp add: hash_ok_def hash_of_less)
  have l: "dl_list (links s) (hash_bucket s ht ?i) (B ?i)" using ok i by (simp add: hash_ok_def)
  have "hash_search_loop s (hash_bucket s ht ?i) key (hd (B ?i @ [tail_of (hash_bucket s ht ?i)])) 0
      = Some (scan K k 0 (B ?i))"
    by (rule hash_search_loop_ok [of _ _ "[]"]) (use l k ok i in \<open>auto simp: hash_ok_def\<close>)
  moreover have "ucast (ucast ?i :: u32) = ?i" by (rule ucast_index [OF i]) (use ok in \<open>simp add: hash_ok_def\<close>)
  ultimately show ?thesis
    using dl_list_ends(1) [OF l] dl_listD(1) [OF l] by (simp add: hash_search_in_def mem_defs)
qed

lemma hash_search_ok:
  assumes ok: "hash_ok s ht K B" and k: "cstr (bytes s) key k" "length k < 2 ^ 31" "key \<noteq> 0"
  shows "hash_search ht key s = Some (scan K k 0 (B (hash_of k (ht_bucket_size s ht))))"
proof -
  have n: "ht \<noteq> 0" "ht_bucket_size s ht \<noteq> 0" using ok by (auto simp: hash_ok_def)
  then show ?thesis
    using hash_search_in_ok [OF ok k(1)] hash_value_cstr [OF k(1,2), of "ht_bucket_size s ht"] k(3)
    by (simp add: hash_search_def)
qed

section \<open>Insertion and removal\<close>

text \<open>A list operation on one bucket keeps the table, when it reaches no node of another one.\<close>

lemma hash_ok_update:
  assumes ok: "hash_ok s ht K B" and i: "i < ht_bucket_size s ht"
    and l: "dl_list h (hash_bucket s ht i) ys"
    and same: "dl_same (- set (dl_nodes (hash_bucket s ht i) zs)) (links s) h" and sub: "set ys \<subseteq> set zs"
    and apart: "\<And>j. j < ht_bucket_size s ht \<Longrightarrow> i \<noteq> j \<Longrightarrow>
      set (dl_nodes (hash_bucket s ht i) zs) \<inter> set (dl_nodes (hash_bucket s ht j) (B j)) = {}"
    and keys: "\<forall>x \<in> set ys. cstr (bytes s) (hash_key x) (K' x) \<and> length (K' x) < 2 ^ 31 \<and>
      hash_of (K' x) (ht_bucket_size s ht) = i"
    and K': "\<And>j x. j < ht_bucket_size s ht \<Longrightarrow> i \<noteq> j \<Longrightarrow> x \<in> set (B j) \<Longrightarrow> K' x = K x"
  shows "hash_ok (s\<lparr>links := h\<rparr>) ht K' (B(i := ys))"
proof -
  let ?b = "hash_bucket s ht"
  have b: "hash_bucket (s\<lparr>links := h\<rparr>) ht j = ?b j" for j by (simp add: hash_bucket_def)
  have sub': "set (dl_nodes (?b i) ys) \<subseteq> set (dl_nodes (?b i) zs)" using sub by (auto simp: dl_nodes_def)
  have lists: "dl_list h (?b j) ((B(i := ys)) j)" if "j < ht_bucket_size s ht" for j
  proof (cases "i = j")
    case True
    then show ?thesis using l by simp
  next
    case False
    have "dl_list (links s) (?b j) (B j)" using ok that by (simp add: hash_ok_def)
    then have "dl_list h (?b j) (B j)"
      by (rule dl.rep_frame [OF _ same]) (use apart [OF that False] in \<open>simp add: dl.disjoint_def\<close>)
    then show ?thesis using False by simp
  qed
  moreover have "set (dl_nodes (?b j) ((B(i := ys)) j)) \<inter> set (dl_nodes (?b k) ((B(i := ys)) k)) = {}"
    if jk: "j < ht_bucket_size s ht" "k < ht_bucket_size s ht" "j \<noteq> k" for j k
  proof -
    have "set (dl_nodes (?b j) (B j)) \<inter> set (dl_nodes (?b k) (B k)) = {}"
      using ok jk by (simp add: hash_ok_def)
    then show ?thesis using sub' apart [of j] apart [of k] jk by (auto simp: fun_upd_def)
  qed
  moreover have "\<forall>x \<in> set ((B(i := ys)) j). cstr (bytes s) (hash_key x) (K' x) \<and> length (K' x) < 2 ^ 31 \<and>
      hash_of (K' x) (ht_bucket_size s ht) = j" if "j < ht_bucket_size s ht" for j
    using ok that keys K' [OF that] by (auto simp: hash_ok_def)
  ultimately show ?thesis using ok unfolding hash_ok_def b by simp
qed

text \<open>The node is on no list of the table.\<close>

definition hash_fresh :: "'a hash_heap_scheme \<Rightarrow> ptr \<Rightarrow> (u64 \<Rightarrow> ptr list) \<Rightarrow> ptr \<Rightarrow> bool" where
  "hash_fresh s ht B x \<longleftrightarrow>
     x \<noteq> 0 \<and> (\<forall>i < ht_bucket_size s ht. x \<notin> set (dl_nodes (hash_bucket s ht i) (B i)))"

lemma hash_insert_ok:
  assumes ok: "hash_ok s ht K B" and node: "hash_fresh s ht B x"
    and k: "cstr (bytes s) (hash_key x) k" "length k < 2 ^ 31"
  defines "i \<equiv> hash_of k (ht_bucket_size s ht)"
  shows "\<exists>h. hash_insert ht x s = Some (0, s\<lparr>links := h\<rparr>) \<and>
    hash_ok (s\<lparr>links := h\<rparr>) ht (K(x := k)) (B(i := B i @ [x]))"
proof -
  let ?n = "ht_bucket_size s ht" and ?b = "hash_bucket s ht"
  have n: "?n \<noteq> 0" "ht \<noteq> 0" and x: "x \<noteq> 0" using ok node by (auto simp: hash_ok_def hash_fresh_def)
  have i: "i < ?n" unfolding i_def using n by (simp add: hash_of_less word_neq_0_conv)
  define h0 where "h0 = (links s)\<lparr>dl_prev := (dl_prev (links s))(x := 0), dl_next := (dl_next (links s))(x := 0)\<rparr>"
  have clr: "lst_clr x (links s) = Some (0, h0)" using x by (simp add: lst_clr_def mem_defs h0_def)
  have xb: "x \<notin> set (dl_nodes (?b i) (B i))" using node i by (simp add: hash_fresh_def)
  have same0: "dl_same (- {x}) (links s) h0" by (simp add: h0_def dl_same_def)
  have "dl_list (links s) (?b i) (B i)" using ok i by (simp add: hash_ok_def)
  then have "dl_list h0 (?b i) (B i)"
    using dl_list_same [of "?b i" "B i" "links s" h0] dl_same_subset [OF same0] xb by blast
  then obtain h where h: "lst_push_back (?b i) x h0 = Some (0, h)" "dl_list h (?b i) (B i @ [x])"
    "dl_same (- set (dl_nodes (?b i) (B i @ [x]))) h0 h"
    using lst_push_back_ok [OF _ xb x] by blast
  have nodes: "set (dl_nodes (?b i) (B i @ [x])) = insert x (set (dl_nodes (?b i) (B i)))"
    by (auto simp: dl_nodes_def)
  have "dl_same (- set (dl_nodes (?b i) (B i @ [x]))) (links s) h"
    by (rule dl_same_trans [OF dl_same_subset [OF same0] h(3)]) (auto simp: dl_nodes_def)
  moreover have "hash_insert ht x s = Some (0, s\<lparr>links := h\<rparr>)"
    using n x clr h(1) hash_value_cstr [OF k n(1)]
    by (simp add: hash_insert_def hash_bucket_def i_def)
  ultimately have ins: "hash_insert ht x s = Some (0, s\<lparr>links := h\<rparr>)"
    and same: "dl_same (- set (dl_nodes (?b i) (B i @ [x]))) (links s) h" by simp_all
  have xn: "x \<notin> set (dl_nodes (?b j) (B j))" if "j < ?n" for j using node that by (simp add: hash_fresh_def)
  then have xj: "x \<notin> set (B j)" if "j < ?n" for j using that by (auto simp: dl_nodes_def)
  have "hash_ok (s\<lparr>links := h\<rparr>) ht (K(x := k)) (B(i := B i @ [x]))"
  proof (rule hash_ok_update [OF ok i h(2) same subset_refl])
    fix j assume j: "j < ?n" "i \<noteq> j"
    have "set (dl_nodes (?b i) (B i)) \<inter> set (dl_nodes (?b j) (B j)) = {}"
      using ok i j by (simp add: hash_ok_def)
    then show "set (dl_nodes (?b i) (B i @ [x])) \<inter> set (dl_nodes (?b j) (B j)) = {}"
      using xn [OF j(1)] by (simp only: nodes) simp
    show "y \<in> set (B j) \<Longrightarrow> (K(x := k)) y = K y" for y using xj [OF j(1)] by auto
  next
    show "\<forall>y \<in> set (B i @ [x]). cstr (bytes s) (hash_key y) ((K(x := k)) y) \<and>
        length ((K(x := k)) y) < 2 ^ 31 \<and> hash_of ((K(x := k)) y) ?n = i"
      using ok i k xj [OF i] by (auto simp: hash_ok_def i_def)
  qed
  then show ?thesis using ins by blast
qed

lemma scan_mem: "xs \<noteq> [] \<Longrightarrow> scan K k hn xs \<in> set xs"
proof (induction xs arbitrary: hn)
  case (Cons x xs)
  then show ?case by (cases xs) auto
qed simp

lemma scan_append: "x \<in> set xs \<Longrightarrow> K x = k \<Longrightarrow> scan K k hn (xs @ ys) = scan K k hn xs"
  by (induction xs arbitrary: hn) auto

lemma scan_cong: "(\<And>x. x \<in> set xs \<Longrightarrow> K x = K' x) \<Longrightarrow> scan K k hn xs = scan K' k hn xs"
  by (induction xs arbitrary: hn) auto

lemma scan_insert:
  assumes x: "x \<notin> set xs"
  shows "scan (K(x := k)) k' hn xs = scan K k' hn xs"
    and "scan (K(x := k)) k' hn (xs @ [x]) = (if \<forall>y \<in> set xs. K y \<noteq> k' then x else scan K k' hn xs)"
proof -
  show same: "scan (K(x := k)) k' hn xs = scan K k' hn xs" by (rule scan_cong) (use x in auto)
  show "scan (K(x := k)) k' hn (xs @ [x]) = (if \<forall>y \<in> set xs. K y \<noteq> k' then x else scan K k' hn xs)"
  proof (cases "\<forall>y \<in> set xs. K y \<noteq> k'")
    case True
    have "(\<forall>y \<in> set xs. K y \<noteq> k') \<Longrightarrow> x \<notin> set xs \<Longrightarrow> scan (K(x := k)) k' hn (xs @ [x]) = x"
      by (induction xs arbitrary: hn) auto
    then show ?thesis using True x by simp
  next
    case False
    then obtain y where y: "y \<in> set xs" "(K(x := k)) y = k'" using x by (metis fun_upd_other)
    then show ?thesis using False same scan_append [of y xs "K(x := k)" k'] by auto
  qed
qed

lemma hash_remove_ok:
  assumes ok: "hash_ok s ht K B" and k: "cstr (bytes s) key k" "length k < 2 ^ 31" "key \<noteq> 0"
  defines "i \<equiv> hash_of k (ht_bucket_size s ht)"
  shows "if B i = [] then hash_remove ht key s = Some (-1, s)
    else \<exists>h. hash_remove ht key s = Some (0, s\<lparr>links := h\<rparr>) \<and>
      hash_ok (s\<lparr>links := h\<rparr>) ht K (B(i := remove1 (scan K k 0 (B i)) (B i)))"
proof -
  let ?n = "ht_bucket_size s ht" and ?b = "hash_bucket s ht"
  have n: "?n \<noteq> 0" "ht \<noteq> 0" using ok by (auto simp: hash_ok_def)
  have i: "i < ?n" unfolding i_def using n by (simp add: hash_of_less word_neq_0_conv)
  have l: "dl_list (links s) (?b i) (B i)" using ok i by (simp add: hash_ok_def)
  note v = hash_value_cstr [OF k(1,2) n(1)] and f = hash_search_in_ok [OF ok k(1), folded i_def]
  show ?thesis
  proof (cases "B i = []")
    case True
    then show ?thesis using n v f k(3) by (simp add: hash_remove_def i_def)
  next
    case False
    then have m: "scan K k 0 (B i) \<in> set (B i)" by (rule scan_mem)
    then have nz: "scan K k 0 (B i) \<noteq> 0" using dl_listD(6) [OF l] by metis
    obtain h where h: "lst_remove (?b i) (scan K k 0 (B i)) (links s) = Some (0, h)"
      "dl_list h (?b i) (remove1 (scan K k 0 (B i)) (B i))" "dl_same (- set (dl_nodes (?b i) (B i))) (links s) h"
      using lst_remove_list [OF l m] by blast
    have "hash_ok (s\<lparr>links := h\<rparr>) ht K (B(i := remove1 (scan K k 0 (B i)) (B i)))"
      by (rule hash_ok_update [OF ok i h(2,3)]) (use ok i set_remove1_subset in \<open>fastforce simp: hash_ok_def\<close>)+
    moreover have "hash_remove ht key s = Some (0, s\<lparr>links := h\<rparr>)"
      using n v f k(3) nz h(1) by (simp add: hash_remove_def i_def)
    ultimately show ?thesis using False by auto
  qed
qed

section \<open>What the table promises, and what not\<close>

text \<open>
  C20. Inserting a node with a new key puts it at the end of the bucket of its key, and a search for this
  key finds the node.  A search for any key that a node of its bucket has, and a search for any key of
  another bucket, finds what it found before.  A search for a key that no node has but whose bucket is the
  one of the new node now returns the new node, because the walk ends on the last node of the bucket.
\<close>

theorem hash_insert_search:
  assumes "hash_ok s ht K B" and "hash_fresh s ht B x"
    and "cstr (bytes s) (hash_key x) k" and "length k < 2 ^ 31"
    and "\<forall>y \<in> set (B (hash_of k (ht_bucket_size s ht))). K y \<noteq> k"
  shows "\<exists>s'. hash_insert ht x s = Some (0, s') \<and>
    hash_ok s' ht (K(x := k)) (B(hash_of k (ht_bucket_size s ht) := B (hash_of k (ht_bucket_size s ht)) @ [x])) \<and>
    (\<forall>key. key \<noteq> 0 \<longrightarrow> cstr (bytes s) key k \<longrightarrow> hash_search ht key s' = Some x) \<and>
    (\<forall>key k'. key \<noteq> 0 \<longrightarrow> cstr (bytes s) key k' \<longrightarrow> length k' < 2 ^ 31 \<longrightarrow>
       hash_search ht key s' =
         (if hash_of k' (ht_bucket_size s ht) = hash_of k (ht_bucket_size s ht) \<and>
             (\<forall>y \<in> set (B (hash_of k (ht_bucket_size s ht))). K y \<noteq> k')
          then Some x else hash_search ht key s))"
proof -
  let ?n = "ht_bucket_size s ht"
  let ?B = "B(hash_of k ?n := B (hash_of k ?n) @ [x])"
  obtain h where h: "hash_insert ht x s = Some (0, s\<lparr>links := h\<rparr>)" "hash_ok (s\<lparr>links := h\<rparr>) ht (K(x := k)) ?B"
    using hash_insert_ok [OF assms(1-4)] by blast
  let ?s = "s\<lparr>links := h\<rparr>"
  have n: "0 < ?n" using assms(1) by (simp add: hash_ok_def)
  have xB: "x \<notin> set (B i)" if "i < ?n" for i using assms(2) that by (auto simp: hash_fresh_def dl_nodes_def)
  have "hash_search ht key ?s = Some x" if key: "key \<noteq> 0" "cstr (bytes s) key k" for key
  proof -
    have "scan (K(x := k)) ((K(x := k)) x) 0 (B (hash_of k ?n) @ [x]) = x"
      by (rule scan_present) (use assms(5) in auto)
    then show ?thesis using hash_search_ok [OF h(2) _ assms(4), of key] key by simp
  qed
  moreover have "hash_search ht key ?s =
      (if hash_of k' ?n = hash_of k ?n \<and> (\<forall>y \<in> set (B (hash_of k ?n)). K y \<noteq> k') then Some x else hash_search ht key s)"
    if key: "key \<noteq> 0" "cstr (bytes s) key k'" "length k' < 2 ^ 31" for key k'
  proof -
    let ?i = "hash_of k' ?n"
    have i: "?i < ?n" using n by (rule hash_of_less)
    have "scan (K(x := k)) k' 0 (?B ?i) =
        (if ?i = hash_of k ?n \<and> (\<forall>y \<in> set (B (hash_of k ?n)). K y \<noteq> k') then x else scan K k' 0 (B ?i))"
      using scan_insert [OF xB [OF i], of K k k' 0] by (cases "?i = hash_of k ?n") simp_all
    then show ?thesis
      using hash_search_ok [OF h(2) _ key(3,1)] hash_search_ok [OF assms(1) key(2,3,1)] key(2) by simp
  qed
  ultimately show ?thesis using h by blast
qed

text \<open>
  C31. Removing by a key that one node of the table has takes this node out of its bucket and
  leaves the others.
\<close>

theorem hash_remove_present:
  assumes "hash_ok s ht K B" and "cstr (bytes s) key (K x)" and "length (K x) < 2 ^ 31" and "key \<noteq> 0"
    and "x \<in> set (B (hash_of (K x) (ht_bucket_size s ht)))"
    and "\<forall>y \<in> set (B (hash_of (K x) (ht_bucket_size s ht))). K y = K x \<longrightarrow> y = x"
  shows "hash_search ht key s = Some x \<and> (\<exists>s'. hash_remove ht key s = Some (0, s') \<and>
    hash_ok s' ht K (B(hash_of (K x) (ht_bucket_size s ht) := remove1 x (B (hash_of (K x) (ht_bucket_size s ht))))))"
proof -
  have "scan K (K x) 0 (B (hash_of (K x) (ht_bucket_size s ht))) = x" by (rule scan_present [OF assms(5,6)])
  moreover have "B (hash_of (K x) (ht_bucket_size s ht)) \<noteq> []" using assms(5) by auto
  ultimately show ?thesis
    using hash_search_ok [OF assms(1-4)] hash_remove_ok [OF assms(1-4)] by auto
qed

text \<open>
  C32. A key that no node of its bucket has is not reported as absent: the search returns the last
  node of the bucket, null only when the bucket is empty, and removing by this key takes that
  unrelated node out of the table.
\<close>

theorem hash_search_absent:
  assumes "hash_ok s ht K B" and "cstr (bytes s) key k" and "length k < 2 ^ 31" and "key \<noteq> 0"
    and "\<forall>y \<in> set (B (hash_of k (ht_bucket_size s ht))). K y \<noteq> k"
  shows "let xs = B (hash_of k (ht_bucket_size s ht)) in
    hash_search ht key s = Some (if xs = [] then 0 else last xs) \<and>
    (if xs = [] then hash_remove ht key s = Some (-1, s)
     else \<exists>s'. hash_remove ht key s = Some (0, s') \<and>
       hash_ok s' ht K (B(hash_of k (ht_bucket_size s ht) := butlast xs)))"
proof -
  let ?xs = "B (hash_of k (ht_bucket_size s ht))"
  have sc: "scan K k 0 ?xs = (if ?xs = [] then 0 else last ?xs)" using scan_absent [OF assms(5)] by simp
  have "remove1 (last ?xs) ?xs = butlast ?xs" if "?xs \<noteq> []"
  proof -
    have "hash_of k (ht_bucket_size s ht) < ht_bucket_size s ht"
      using assms(1) by (simp add: hash_ok_def hash_of_less)
    then have "distinct ?xs" using assms(1) dl_listD(3) by (auto simp: hash_ok_def)
    then show ?thesis using that by (cases ?xs rule: rev_cases) (simp_all add: remove1_append)
  qed
  then show ?thesis
    using hash_search_ok [OF assms(1-4)] hash_remove_ok [OF assms(1-4)] sc by (auto simp: Let_def)
qed

section \<open>A table of two buckets\<close>

text \<open>
  The node at 2048 with the key \<open>a\<close> is in bucket 1; the node at 4096 has the key \<open>b\<close>, and the
  strings \<open>a\<close>, \<open>b\<close> and \<open>c\<close> are at 8192, 8256 and 8320.
\<close>

definition hash_ex :: hash_heap where
  "hash_ex = \<lparr>bytes = (\<lambda>a. if a \<in> {2064, 8192} then 97 else if a \<in> {4112, 8256} then 98 else if a = 8320 then 99 else 0),
     links = \<lparr>dl_prev = (\<lambda>p. if p = 1040 then 1024 else if p = 1072 then 2048 else if p = 2048 then 1056 else 0),
              dl_next = (\<lambda>p. if p = 1024 then 1040 else if p = 1056 then 2048 else if p = 2048 then 1072 else 0)\<rparr>,
     ht_bucket_size = (\<lambda>_. 2), ht_hash_list = (\<lambda>_. 1024)\<rparr>"

definition hash_ex_B :: "u64 \<Rightarrow> ptr list" where
  "hash_ex_B i = (if i = 1 then [2048] else [])"

lemma word_less_2: "(i :: u64) < 2 \<longleftrightarrow> i = 0 \<or> i = 1"
  by (auto simp: word_less_nat_alt) (metis One_nat_def less_2_cases unat_1 unat_eq_0 word_unat_eq_iff)

lemma hash_ex_sel:
  "ht_bucket_size hash_ex ht = 2" "hash_bucket hash_ex ht 0 = 1024" "hash_bucket hash_ex ht 1 = 1056"
  by (simp_all add: hash_ex_def hash_bucket_def)

lemma hash_ex_keys: "hash_of [97] 2 = 1" "hash_of [98] 2 = 0" "hash_of [99] 2 = 1"
  by (simp_all add: hash_of_def)

lemma hash_ex_ok: "hash_ok hash_ex 8 (\<lambda>_. [97]) hash_ex_B"
proof -
  have "dl_list (links hash_ex) 1024 []" "dl_list (links hash_ex) 1056 [2048]"
    by (simp_all add: dl_list_def dl_nodes_def hash_ex_def)
  moreover have "cstr (bytes hash_ex) (hash_key 2048) [97]" by (simp add: hash_ex_def)
  ultimately show ?thesis
    by (auto simp: hash_ok_def hash_ex_sel word_less_2 hash_ex_B_def hash_ex_keys dl_nodes_def)
qed

theorem hash_insert_search_witness:
  "\<exists>s'. hash_insert 8 4096 hash_ex = Some (0, s') \<and> hash_search 8 8256 s' = Some 4096 \<and>
    hash_search 8 8192 s' = hash_search 8 8192 hash_ex"
proof -
  have f: "hash_fresh hash_ex 8 hash_ex_B 4096"
    by (auto simp: hash_fresh_def hash_ex_sel word_less_2 hash_ex_B_def dl_nodes_def)
  have c: "cstr (bytes hash_ex) (hash_key 4096) [98]" "cstr (bytes hash_ex) 8256 [98]" "cstr (bytes hash_ex) 8192 [97]"
    by (simp_all add: hash_ex_def)
  have n: "\<forall>y \<in> set (hash_ex_B (hash_of [98] (ht_bucket_size hash_ex 8))). [97] \<noteq> ([98] :: byte list)" by simp
  have other: "hash_of [97] (ht_bucket_size hash_ex 8) \<noteq> hash_of [98] (ht_bucket_size hash_ex 8)"
    by (simp add: hash_ex_sel hash_ex_keys)
  note r = hash_insert_search [OF hash_ex_ok f c(1) _ n]
  obtain s' where s': "hash_insert 8 4096 hash_ex = Some (0, s')"
    "\<forall>key. key \<noteq> 0 \<longrightarrow> cstr (bytes hash_ex) key [98] \<longrightarrow> hash_search 8 key s' = Some 4096"
    "\<And>key k'. key \<noteq> 0 \<Longrightarrow> cstr (bytes hash_ex) key k' \<Longrightarrow> length k' < 2 ^ 31 \<Longrightarrow>
       hash_of k' (ht_bucket_size hash_ex 8) \<noteq> hash_of [98] (ht_bucket_size hash_ex 8) \<Longrightarrow>
       hash_search 8 key s' = hash_search 8 key hash_ex"
    by (rule exE [OF r]) (simp, metis)
  have "hash_search 8 8256 s' = Some 4096" using s'(2) c(2) by simp
  moreover have "hash_search 8 8192 s' = hash_search 8 8192 hash_ex"
    by (rule s'(3) [OF _ c(3) _ other]) simp_all
  ultimately show ?thesis using s'(1) by blast
qed

theorem hash_remove_present_witness:
  "hash_search 8 8192 hash_ex = Some 2048 \<and> (\<exists>s'. hash_remove 8 8192 hash_ex = Some (0, s'))"
proof -
  have c: "cstr (bytes hash_ex) 8192 [97]" by (simp add: hash_ex_def)
  have x: "2048 \<in> set (hash_ex_B (hash_of [97] (ht_bucket_size hash_ex 8)))"
    "\<forall>y \<in> set (hash_ex_B (hash_of [97] (ht_bucket_size hash_ex 8))). [97] = ([97] :: byte list) \<longrightarrow> y = 2048"
    by (simp_all add: hash_ex_sel hash_ex_keys hash_ex_B_def)
  show ?thesis using hash_remove_present [OF hash_ex_ok c _ _ x] by auto
qed

theorem hash_search_absent_witness:
  "hash_search 8 8320 hash_ex = Some 2048 \<and> (\<exists>s'. hash_remove 8 8320 hash_ex = Some (0, s'))"
proof -
  have c: "cstr (bytes hash_ex) 8320 [99]" by (simp add: hash_ex_def)
  show ?thesis
    using hash_search_absent [OF hash_ex_ok c] by (auto simp: hash_ex_sel hash_ex_keys hash_ex_B_def Let_def)
qed

end
