(* ===== verification/Bintree.thy ===== *)
theory Bintree
  imports Prelude
begin

text \<open>
  The plain binary tree of \<open>src/src/bin_tree.c\<close>: a node is an address with the fields \<open>parent\<close>,
  \<open>lchild\<close> and \<open>rchild\<close>, a tree an address with the fields \<open>size\<close>, \<open>depth\<close> and \<open>root\<close>.
\<close>

record bintree_heap =
  bt_parent :: "ptr \<Rightarrow> ptr"
  bt_lchild :: "ptr \<Rightarrow> ptr"
  bt_rchild :: "ptr \<Rightarrow> ptr"
  bt_size :: "ptr \<Rightarrow> int"
  bt_depth :: "ptr \<Rightarrow> int"
  bt_root :: "ptr \<Rightarrow> ptr"

definition bt_fillnew :: "ptr \<Rightarrow> bintree_heap \<Rightarrow> bintree_heap option" where
  "bt_fillnew node s =
     deref node (s\<lparr>bt_parent := (bt_parent s)(node := 0), bt_lchild := (bt_lchild s)(node := 0),
                   bt_rchild := (bt_rchild s)(node := 0)\<rparr>)"

definition bt_insert :: "ptr \<Rightarrow> ptr \<Rightarrow> ptr \<Rightarrow> bintree_heap \<Rightarrow> int \<times> bintree_heap" where
  "bt_insert t par node s =
     (if t = 0 \<or> par = 0 \<or> node = 0 then (-1, s)
      else if bt_lchild s par = 0
      then (0, s\<lparr>bt_lchild := (bt_lchild s)(par := node), bt_parent := (bt_parent s)(node := par)\<rparr>)
      else if bt_rchild s par = 0
      then (0, s\<lparr>bt_rchild := (bt_rchild s)(par := node), bt_parent := (bt_parent s)(node := par)\<rparr>)
      else (-1, s))"

definition bt_remove :: "ptr \<Rightarrow> ptr \<Rightarrow> bintree_heap \<Rightarrow> int \<times> bintree_heap" where
  "bt_remove t node s =
     (if t = 0 \<or> node = 0 then (-1, s)
      else if bt_root s t = node then (0, s\<lparr>bt_root := (bt_root s)(t := 0)\<rparr>)
      else let par = bt_parent s node in
        if par = 0 then (-1, s)
        else if node = bt_lchild s par
        then (0, s\<lparr>bt_lchild := (bt_lchild s)(par := 0), bt_parent := (bt_parent s)(node := 0)\<rparr>)
        else if node = bt_rchild s par
        then (0, s\<lparr>bt_rchild := (bt_rchild s)(par := 0), bt_parent := (bt_parent s)(node := 0)\<rparr>)
        else (-1, s))"

definition bt_sibling :: "bintree_heap \<Rightarrow> ptr \<Rightarrow> ptr" where
  "bt_sibling s node =
     (if node = 0 \<or> bt_parent s node = 0 then 0
      else let par = bt_parent s node in
        if node = bt_lchild s par then bt_rchild s par
        else if node = bt_rchild s par then bt_lchild s par
        else 0)"

section \<open>Parents and children agree\<close>

definition bt_ok :: "bintree_heap \<Rightarrow> bool" where
  "bt_ok s \<longleftrightarrow>
     (\<forall>p c. p \<noteq> 0 \<longrightarrow> c \<noteq> 0 \<longrightarrow> c = bt_lchild s p \<or> c = bt_rchild s p \<longrightarrow> bt_parent s c = p) \<and>
     (\<forall>p. p \<noteq> 0 \<longrightarrow> bt_lchild s p = bt_rchild s p \<longrightarrow> bt_lchild s p = 0)"

text \<open>The node hangs below no other and is not the root.\<close>

definition bt_detached :: "bintree_heap \<Rightarrow> ptr \<Rightarrow> ptr \<Rightarrow> bool" where
  "bt_detached s t node \<longleftrightarrow> node \<noteq> 0 \<and> bt_parent s node = 0 \<and> bt_root s t \<noteq> node"

lemma bt_detached_child:
  "bt_ok s \<Longrightarrow> bt_detached s t node \<Longrightarrow> p \<noteq> 0 \<Longrightarrow> bt_lchild s p \<noteq> node \<and> bt_rchild s p \<noteq> node"
  by (auto simp: bt_ok_def bt_detached_def)

lemma bt_insert_ok:
  assumes "bt_ok s" and "bt_detached s t node" and "t \<noteq> 0" and "par \<noteq> 0"
    and "bt_lchild s par = 0 \<or> bt_rchild s par = 0"
  shows "\<exists>s'. bt_insert t par node s = (0, s') \<and> bt_ok s' \<and> bt_parent s' = (bt_parent s)(node := par) \<and>
    bt_root s' = bt_root s \<and>
    (if bt_lchild s par = 0 then bt_lchild s' = (bt_lchild s)(par := node) \<and> bt_rchild s' = bt_rchild s
     else bt_rchild s' = (bt_rchild s)(par := node) \<and> bt_lchild s' = bt_lchild s)"
  using assms bt_detached_child [OF assms(1,2)]
  unfolding bt_insert_def bt_ok_def bt_detached_def by (auto simp del: One_nat_def)

text \<open>
  C37. A node without a place in the tree goes below any node that has a free side, and is refused
  where both are taken; parents and children agree as before, the other child is the new node's
  sibling and the new node its, and removing the node restores the tree.
\<close>

theorem bt_insert_remove:
  assumes "bt_ok s" and "bt_detached s t node" and "t \<noteq> 0" and "par \<noteq> 0"
  shows "if bt_lchild s par \<noteq> 0 \<and> bt_rchild s par \<noteq> 0 then bt_insert t par node s = (-1, s)
    else let other = (if bt_lchild s par = 0 then bt_rchild s par else bt_lchild s par) in
      \<exists>s'. bt_insert t par node s = (0, s') \<and> bt_ok s' \<and> bt_parent s' node = par \<and>
        bt_sibling s' node = other \<and> (other \<noteq> 0 \<longrightarrow> bt_sibling s' other = node) \<and>
        bt_remove t node s' = (0, s)"
proof (cases "bt_lchild s par \<noteq> 0 \<and> bt_rchild s par \<noteq> 0")
  case True
  then show ?thesis by (simp add: bt_insert_def)
next
  case False
  note c = bt_detached_child [OF assms(1,2)]
  obtain s' where s': "bt_insert t par node s = (0, s')" "bt_ok s'" "bt_parent s' = (bt_parent s)(node := par)"
    "bt_root s' = bt_root s"
    "if bt_lchild s par = 0 then bt_lchild s' = (bt_lchild s)(par := node) \<and> bt_rchild s' = bt_rchild s
     else bt_rchild s' = (bt_rchild s)(par := node) \<and> bt_lchild s' = bt_lchild s"
    using bt_insert_ok [OF assms] False by blast
  have n: "node \<noteq> 0" "bt_parent s node = 0" "bt_root s t \<noteq> node" using assms(2) by (simp_all add: bt_detached_def)
  define other where "other = (if bt_lchild s par = 0 then bt_rchild s par else bt_lchild s par)"
  have o: "other \<noteq> 0 \<Longrightarrow> bt_parent s other = par" "other \<noteq> node"
    using assms(1,4) c [OF assms(4)] by (auto simp: other_def bt_ok_def)
  have "bt_sibling s' node = other" using s'(3,5) n(1) assms(4) c [OF assms(4)]
    by (auto simp: bt_sibling_def Let_def other_def split: if_splits)
  moreover have "other \<noteq> 0 \<longrightarrow> bt_sibling s' other = node" using s'(3,5) o n(1) assms(4) c [OF assms(4)]
    by (auto simp: bt_sibling_def Let_def other_def split: if_splits)
  moreover have "bt_remove t node s' = (0, s)"
  proof -
    have "s' = (if bt_lchild s par = 0
      then s\<lparr>bt_lchild := (bt_lchild s)(par := node), bt_parent := (bt_parent s)(node := par)\<rparr>
      else s\<lparr>bt_rchild := (bt_rchild s)(par := node), bt_parent := (bt_parent s)(node := par)\<rparr>)"
      using s'(1) n(1) assms(3,4) False by (auto simp: bt_insert_def split: if_splits)
    moreover have "(bt_parent s)(node := par, node := 0) = bt_parent s" using n(2) by auto
    moreover have "bt_lchild s par = 0 \<Longrightarrow> (bt_lchild s)(par := 0) = bt_lchild s"
      "bt_rchild s par = 0 \<Longrightarrow> (bt_rchild s)(par := 0) = bt_rchild s" by auto
    ultimately show ?thesis using n assms(3,4) False c [OF assms(4)]
      by (auto simp: bt_remove_def Let_def split: if_splits)
  qed
  ultimately show ?thesis using s' False by (auto simp: Let_def other_def)
qed

theorem bt_insert_remove_witness:
  "let s = \<lparr>bt_parent = (\<lambda>p. if p = 16 then 8 else 0), bt_lchild = (\<lambda>p. if p = 8 then 16 else 0), bt_rchild = (\<lambda>_. 0),
            bt_size = (\<lambda>_. 0), bt_depth = (\<lambda>_. 0), bt_root = (\<lambda>_. 8)\<rparr>
   in \<exists>s'. bt_insert 64 8 24 s = (0, s') \<and> bt_sibling s' 24 = 16 \<and> bt_sibling s' 16 = 24 \<and> bt_remove 64 24 s' = (0, s)"
proof -
  let ?s = "\<lparr>bt_parent = (\<lambda>p. if p = 16 then 8 else 0), bt_lchild = (\<lambda>p. if p = 8 then 16 else 0), bt_rchild = (\<lambda>_. 0),
            bt_size = (\<lambda>_. 0), bt_depth = (\<lambda>_. 0), bt_root = (\<lambda>_. 8)\<rparr> :: bintree_heap"
  have "bt_ok ?s" "bt_detached ?s 64 24" by (auto simp: bt_ok_def bt_detached_def)
  from bt_insert_remove [OF this, of 8] show ?thesis by (auto simp: Let_def)
qed

end
