(* ===== verification/Graph.thy ===== *)
theory Graph
  imports Rbtree_Map Memory
begin

text \<open>
  The graph of \<open>src/src/graph.c\<close>: a red-black tree of the nodes by their key, and for each node the
  list of its neighbours.

  A \<open>struct gnode\<close> is its \<open>table_node\<close>, at offset 0, and its neighbour list, at offset 32; a
  \<open>struct ngb_node\<close> has its list node at offset 8.  Keys are of type \<open>int\<close>, the search tree takes
  them sign-extended.  \<open>rb_search\<close> writes through its last argument, for which some calls here pass
  a null pointer.
\<close>

record graph_heap = heap +
  gnode_table :: rbtree
  gn_visited :: "ptr \<Rightarrow> u32"
  ngb_key :: "ptr \<Rightarrow> u32"

abbreviation (input) table_node :: "ptr \<Rightarrow> ptr" where "table_node nd \<equiv> nd"
abbreviation (input) ngb_list :: "ptr \<Rightarrow> ptr" where "ngb_list nd \<equiv> nd + 32"
abbreviation (input) ngb_link :: "ptr \<Rightarrow> ptr" where "ngb_link ngb \<equiv> ngb + 8"

definition graph_new :: "ptr \<Rightarrow> graph_heap \<Rightarrow> int \<times> graph_heap" where
  "graph_new g s =
     (if g = 0 then (0, s)
      else (1, s\<lparr>gnode_table := (gnode_table s)\<lparr>rb_size := 0, rb_root := 0\<rparr>\<rparr>))"

definition graph_add_node :: "ptr \<Rightarrow> ptr \<Rightarrow> u32 \<Rightarrow> graph_heap \<Rightarrow> (int \<times> graph_heap) option" where
  "graph_add_node g node key s =
     (if g = 0 \<or> node = 0 then Some (0, s)
      else do {
        t \<leftarrow> rb_fillnew (table_node node) (gnode_table s);
        (r, s) \<leftarrow> on_links (lst_new (ngb_list node)) (s\<lparr>gnode_table := t\<rparr>);
        let t = (gnode_table s)\<lparr>rb_key := (rb_key (gnode_table s))(node := scast key)\<rparr>;
        let s = s\<lparr>gn_visited := (gn_visited s)(node := 0)\<rparr>;
        (r, t) \<leftarrow> rb_insert (table_node node) t;
        let s = s\<lparr>gnode_table := t\<rparr>;
        if r = 0 then Some (0, s) else Some (1, s) })"

definition graph_del_node :: "ptr \<Rightarrow> u32 \<Rightarrow> graph_heap \<Rightarrow> ptr option" where
  "graph_del_node g node_key s =
     (if g = 0 then Some 0
      else do {
        (rbn, hot) \<leftarrow> rb_search (gnode_table s) (scast node_key) 0;
        if rbn = 0 then Some 0 else Some rbn })"

definition graph_add_edge :: "ptr \<Rightarrow> ptr \<Rightarrow> ptr \<Rightarrow> graph_heap \<Rightarrow> (int \<times> graph_heap) option" where
  "graph_add_edge g ngb1 ngb2 s =
     (if g = 0 then Some (0, s)
      else do {
        k1 \<leftarrow> deref ngb1 (ngb_key s ngb1);
        (nd1, hot) \<leftarrow> rb_search (gnode_table s) (scast k1) 0;
        if nd1 = 0 then Some (0, s)
        else do {
          k2 \<leftarrow> deref ngb2 (ngb_key s ngb2);
          (nd2, hot) \<leftarrow> rb_search (gnode_table s) (scast k2) 0;
          if nd2 = 0 then Some (0, s)
          else do {
            (r, s) \<leftarrow> on_links (lst_clr (ngb_link ngb1)) s;
            (r, s) \<leftarrow> on_links (lst_clr (ngb_link ngb2)) s;
            (r, s) \<leftarrow> on_links (lst_insert_before (ngb_list nd1) (tail_of (ngb_list nd1)) (ngb_link ngb2)) s;
            (r, s) \<leftarrow> on_links (lst_insert_before (ngb_list nd2) (tail_of (ngb_list nd2)) (ngb_link ngb1)) s;
            Some (1, s) } } })"

definition graph_bfs :: "ptr \<Rightarrow> u32 \<Rightarrow> (ptr \<Rightarrow> int) \<Rightarrow> int" where
  "graph_bfs g node_from f = 1"

definition graph_dfs :: "ptr \<Rightarrow> u32 \<Rightarrow> (ptr \<Rightarrow> int) \<Rightarrow> int" where
  "graph_dfs g node_from f = 1"

section \<open>Properties\<close>

text \<open>
  C36. A node with a new key goes into the table with an empty list of neighbours, but the call
  then reports failure (0), because \<open>rb_insert\<close> returns 0 on success; a node whose key is in
  the table is left out, and the call reports success (1).
\<close>

theorem graph_add_node_result:
  assumes "rb_holds (gnode_table s) N" and "g \<noteq> 0" and "node \<noteq> 0" and "node AND 3 = 0" and "node \<notin> N"
    and "ngb_list node \<noteq> 0" and "tail_of (ngb_list node) \<noteq> 0"
  shows "\<exists>s'. (if \<exists>b \<in> N. rb_key (gnode_table s) b = scast key
      then graph_add_node g node key s = Some (1, s') \<and> rb_holds (gnode_table s') N
      else graph_add_node g node key s = Some (0, s') \<and> rb_holds (gnode_table s') (insert node N) \<and>
        rb_find (gnode_table s') (scast key) = Some node) \<and>
    dl_list (links s') (ngb_list node) [] \<and>
    (\<forall>b \<in> N. rb_key (gnode_table s') b = rb_key (gnode_table s) b)"
proof -
  let ?t = "gnode_table s"
  define t1 where "t1 = ?t\<lparr>rb_key := (rb_key ?t)(node := 0), rb_lc := (rb_lc ?t)(node := 0),
    rb_rc := (rb_rc ?t)(node := 0), rb_pw := (rb_pw ?t)(node := 0)\<rparr>"
  define t2 where "t2 = t1\<lparr>rb_key := (rb_key t1)(node := scast key)\<rparr>"
  have f: "rb_fillnew node ?t = Some t1" unfolding t1_def by (rule rb_fillnew_eq [OF assms(3)])
  obtain h where h: "lst_new (ngb_list node) (links s) = Some (0, h)" "dl_list h (ngb_list node) []"
    using lst_new_ok [OF assms(6,7)] by blast
  have k: "rb_key t2 b = (if b = node then scast key else rb_key ?t b)" for b by (simp add: t2_def t1_def)
  have t2: "rb_holds t2 N"
    by (rule rb_holds_cong [OF assms(1)]) (use assms(5) in \<open>auto simp: t2_def t1_def\<close>)
  define s2 where "s2 = s\<lparr>gnode_table := t1, links := h, gn_visited := (gn_visited s)(node := 0)\<rparr>"
  have run: "graph_add_node g node key s = Some (if r = 0 then 0 else 1, s2\<lparr>gnode_table := t\<rparr>)"
    if "rb_insert node t2 = Some (r, t)" for r t
    using assms(2,3) f h(1) that by (simp add: graph_add_node_def on_links_def t2_def s2_def)
  have keys: "\<forall>b \<in> N. rb_key t2 b = rb_key ?t b" using k assms(5) by auto
  show ?thesis
  proof (cases "\<exists>b \<in> N. rb_key ?t b = scast key")
    case True
    then obtain b where b: "b \<in> N" "rb_key t2 b = rb_key t2 node" using keys k by auto
    have "rb_insert node t2 = Some (-1, t2)" by (rule rbi.ins_dup [OF t2 b])
    then show ?thesis using True run t2 keys h(2) by (auto simp: s2_def)
  next
    case False
    then have new: "\<forall>b \<in> N. rb_key t2 b \<noteq> rb_key t2 node" using keys k by auto
    obtain t' where t': "rb_insert node t2 = Some (0, t')" "rb_holds t' (insert node N)" "rb_key t' = rb_key t2"
      using rbi.ins_new [OF t2 assms(3) _ assms(5) new] assms(4) by (auto simp: aligned_def)
    have "rb_find t' (scast key) = Some node" using rbi.find_held [OF t'(2), of node] t'(3) k by simp
    then show ?thesis using False run t' keys h(2) by (auto simp: s2_def)
  qed
qed

theorem graph_add_node_result_witness:
  "\<exists>s'. graph_add_node 8 16 5
      \<lparr>bytes = (\<lambda>_. 0), links = dl_heap0, gnode_table = rb_init None rb_ex, gn_visited = (\<lambda>_. 1), ngb_key = (\<lambda>_. 0)\<rparr>
      = Some (0, s') \<and> rb_holds (gnode_table s') {16}"
proof -
  let ?s = "\<lparr>bytes = (\<lambda>_. 0), links = dl_heap0, gnode_table = rb_init None rb_ex, gn_visited = (\<lambda>_. 1), ngb_key = (\<lambda>_. 0)\<rparr>"
  have "rb_holds (gnode_table ?s) {}" by (simp add: rb_holds_init)
  from graph_add_node_result [OF this, of 8 16 5] show ?thesis by auto
qed

text \<open>
  Deleting a node and adding an edge never succeed: both hand a null pointer to \<open>rb_search\<close>,
  which writes through it.
\<close>

theorem graph_null_hot:
  "g \<noteq> 0 \<Longrightarrow> graph_del_node g key s = None \<and> graph_add_edge g ngb1 ngb2 s = None"
  by (simp add: graph_del_node_def graph_add_edge_def rb_search_def deref_def)

theorem graph_null_hot_witness:
  "graph_del_node 8 5 \<lparr>bytes = (\<lambda>_. 0), links = dl_heap0, gnode_table = rb_ex, gn_visited = (\<lambda>_. 0), ngb_key = (\<lambda>_. 0)\<rparr> = None"
  using graph_null_hot [of 8] by simp

end
