(* ===== verification/Pgpool.thy ===== *)
theory Pgpool
  imports Misc Mmops Memory Rbtree
begin

text \<open>
  The page pool of \<open>src/src/pgpool.c\<close>.

  A \<open>struct _pgpool_impl\<close> at address \<open>P\<close> has its \<open>struct pgpool\<close> at offset 8 (the handle that the
  interface passes around), the list of spare nodes at offset 96 and a size of 152 bytes; its other
  fields are maps from \<open>P\<close>.  A \<open>struct _pg_node\<close> (64 bytes) at \<open>n\<close> has a list node at offset 0, which
  is on the spare list or on a free list, the node of the search tree at offset 16, and the fields
  \<open>_payload_addr\<close>, whose two low bits are \<open>using\<close>, and \<open>_pg_count\<close>.  A \<open>struct _free_list_head\<close> has 40
  bytes.  Values of type \<open>long\<close> that are counts are integers.

  \<open>junk\<close> is what \<open>bsrq\<close> leaves for a zero operand (see \<open>Misc\<close>).  Variables the code reads before it
  assigns them are arguments named \<open>uninit\<close>.
\<close>

record pgp_heap = heap +
  pgp_chunck_label :: "ptr \<Rightarrow> u64"
  pgp_addr_begin :: "ptr \<Rightarrow> ptr"
  pgp_addr_end :: "ptr \<Rightarrow> ptr"
  pgp_maxpg_count :: "ptr \<Rightarrow> u64"
  pgp_freelist_count :: "ptr \<Rightarrow> u64"
  pgp_pg_size :: "ptr \<Rightarrow> u64"
  pgp_chunk_addr :: "ptr \<Rightarrow> ptr"
  pgp_chunk_pgcount :: "ptr \<Rightarrow> int"
  pgp_tree :: "ptr \<Rightarrow> rbtree"
  pgp_flh :: "ptr \<Rightarrow> ptr"
  pgp_pgn_pool :: "ptr \<Rightarrow> ptr"
  pgp_alloc_count :: "ptr \<Rightarrow> u64"
  pgp_free_count :: "ptr \<Rightarrow> u64"
  pgn_payload :: "ptr \<Rightarrow> u64"
  pgn_count :: "ptr \<Rightarrow> int"

definition PGP_CHUNK_LABEL :: u64 where "PGP_CHUNK_LABEL = 0xbaba2121fdfd9696"

abbreviation (input) pgp_handle :: "ptr \<Rightarrow> ptr" where "pgp_handle P \<equiv> P + 8"
abbreviation (input) pgp_conv_impl :: "ptr \<Rightarrow> ptr" where "pgp_conv_impl pgp \<equiv> pgp - 8"
abbreviation free_pgn_list :: "ptr \<Rightarrow> ptr" where "free_pgn_list P \<equiv> P + 96"
abbreviation (input) rb_of_pgn :: "ptr \<Rightarrow> ptr" where "rb_of_pgn n \<equiv> n + 16"
abbreviation (input) conv_rbn :: "ptr \<Rightarrow> ptr" where "conv_rbn r \<equiv> r - 16"

definition flh_at :: "pgp_heap \<Rightarrow> ptr \<Rightarrow> u64 \<Rightarrow> ptr" where
  "flh_at s P idx = pgp_flh s P + 40 * idx"

section \<open>Nodes\<close>

definition pgn_using :: "pgp_heap \<Rightarrow> ptr \<Rightarrow> u64" where
  "pgn_using s n = pgn_payload s n AND 3"

definition set_using :: "ptr \<Rightarrow> u64 \<Rightarrow> pgp_heap \<Rightarrow> pgp_heap" where
  "set_using n v s = s\<lparr>pgn_payload := (pgn_payload s)(n := (pgn_payload s n AND - 4) OR (v AND 3))\<rparr>"

definition set_payload :: "ptr \<Rightarrow> u64 \<Rightarrow> pgp_heap \<Rightarrow> pgp_heap option" where
  "set_payload n payload s =
     deref n (s\<lparr>pgn_payload := (pgn_payload s)(n := payload OR pgn_using s n)\<rparr>)"

definition get_payload :: "pgp_heap \<Rightarrow> ptr \<Rightarrow> u64" where
  "get_payload s n = pgn_payload s n AND - 4"

definition set_count :: "ptr \<Rightarrow> int \<Rightarrow> pgp_heap \<Rightarrow> pgp_heap" where
  "set_count n c s = s\<lparr>pgn_count := (pgn_count s)(n := c)\<rparr>"

definition fetch_free_pgn :: "ptr \<Rightarrow> pgp_heap \<Rightarrow> (ptr \<times> pgp_heap) option" where
  "fetch_free_pgn P s = on_links (lst_pop_front (free_pgn_list P)) s"

definition return_free_pgn :: "ptr \<Rightarrow> ptr \<Rightarrow> pgp_heap \<Rightarrow> (int \<times> pgp_heap) option" where
  "return_free_pgn P pgn s = on_links (lst_push_front (free_pgn_list P) pgn) s"

definition fetch_fln :: "ptr \<Rightarrow> u64 \<Rightarrow> pgp_heap \<Rightarrow> (ptr \<times> pgp_heap) option" where
  "fetch_fln P flh_idx s = on_links (lst_pop_front (flh_at s P flh_idx)) s"

definition link_fln :: "u64 \<Rightarrow> ptr \<Rightarrow> ptr \<Rightarrow> pgp_heap \<Rightarrow> (int \<times> pgp_heap) option" where
  "link_fln junk P pgn s = do {
     cnt \<leftarrow> deref pgn (pgn_count s pgn);
     let flh_idx = log_2 junk (of_int cnt);
     (r, s) \<leftarrow> on_links (lst_clr pgn) s;
     on_links (lst_push_front (flh_at s P flh_idx) pgn) s }"

definition unlink_fln :: "u64 \<Rightarrow> ptr \<Rightarrow> ptr \<Rightarrow> pgp_heap \<Rightarrow> (int \<times> pgp_heap) option" where
  "unlink_fln junk P pgn s = do {
     cnt \<leftarrow> deref pgn (pgn_count s pgn);
     let flh_idx = log_2 junk (of_int cnt);
     on_links (lst_remove (flh_at s P flh_idx) pgn) s }"

text \<open>An operation on the search tree of the pool.\<close>

definition on_tree :: "ptr \<Rightarrow> (rbtree \<Rightarrow> ('r \<times> rbtree) option) \<Rightarrow> pgp_heap \<Rightarrow> ('r \<times> pgp_heap) option" where
  "on_tree P f s = do { (r, t) \<leftarrow> f (pgp_tree s P); Some (r, s\<lparr>pgp_tree := (pgp_tree s)(P := t)\<rparr>) }"

definition link_rbn :: "ptr \<Rightarrow> ptr \<Rightarrow> pgp_heap \<Rightarrow> (int \<times> pgp_heap) option" where
  "link_rbn P pgn s = on_tree P (\<lambda>t. do {
     t \<leftarrow> rb_fillnew (rb_of_pgn pgn) t;
     let t = t\<lparr>rb_key := (rb_key t)(rb_of_pgn pgn := get_payload s pgn)\<rparr>;
     rb_insert (rb_of_pgn pgn) t }) s"

definition unlink_rbn :: "ptr \<Rightarrow> ptr \<Rightarrow> pgp_heap \<Rightarrow> (unit \<times> pgp_heap) option" where
  "unlink_rbn P pgn s = on_tree P (\<lambda>t. do { t \<leftarrow> rb_remove_node (rb_of_pgn pgn) t; Some ((), t) }) s"

definition pgn_from_payload :: "ptr \<Rightarrow> u64 \<Rightarrow> pgp_heap \<Rightarrow> ptr option" where
  "pgn_from_payload P payload s = do {
     (rbn, hot) \<leftarrow> rb_search (pgp_tree s P) payload local_var;
     if rbn = 0 then Some 0 else Some (conv_rbn rbn) }"

section \<open>Taking a node\<close>

text \<open>The scan of one free list for an unused node of enough pages; 0 when there is none.\<close>

partial_function (option) scan_fln :: "pgp_heap \<Rightarrow> ptr \<Rightarrow> int \<Rightarrow> ptr \<Rightarrow> ptr option" where
  "scan_fln s lst pg_count dln =
     (if dln = tail_of lst then Some 0
      else do {
        cnt \<leftarrow> deref dln (pgn_count s dln);
        if cnt \<ge> pg_count \<and> pgn_using s dln = 0 then Some dln
        else do { dln \<leftarrow> ld_next (links s) dln; scan_fln s lst pg_count dln } })"

partial_function (option) find_candi :: "pgp_heap \<Rightarrow> ptr \<Rightarrow> int \<Rightarrow> u64 \<Rightarrow> ptr option" where
  "find_candi s P pg_count idx =
     (if idx < pgp_freelist_count s P
      then do {
        e \<leftarrow> lst_empty (flh_at s P idx) (links s);
        c \<leftarrow> (if e then Some 0
              else do {
                dln \<leftarrow> ld_next (links s) (head_of (flh_at s P idx));
                scan_fln s (flh_at s P idx) pg_count dln });
        if c \<noteq> 0 then Some c else find_candi s P pg_count (idx + 1) }
      else Some 0)"

text \<open>A node of more pages than asked for is split; the rest becomes a node of its own.\<close>

definition split_node :: "u64 \<Rightarrow> ptr \<Rightarrow> int \<Rightarrow> ptr \<Rightarrow> pgp_heap \<Rightarrow> pgp_heap option" where
  "split_node junk P pg_count pgn s = do {
     (new_pgn, s) \<leftarrow> fetch_free_pgn P s;
     s \<leftarrow> set_payload new_pgn (get_payload s pgn + of_int pg_count * pgp_pg_size s P) s;
     let s = set_count new_pgn (pgn_count s pgn - pg_count) s;
     let s = set_count pgn pg_count s;
     (r, s) \<leftarrow> link_rbn P new_pgn s;
     (r, s) \<leftarrow> link_fln junk P new_pgn s;
     Some s }"

text \<open>The result, the node stored through the last argument, and the state.\<close>

definition take_free_node :: "u64 \<Rightarrow> ptr \<Rightarrow> int \<Rightarrow> pgp_heap \<Rightarrow> (int \<times> ptr \<times> pgp_heap) option" where
  "take_free_node junk P pg_count s = do {
     let flh_idx = log_2 junk (of_int pg_count);
     exact \<leftarrow> (if is_2power junk (of_int pg_count)
               then do { e \<leftarrow> lst_empty (flh_at s P flh_idx) (links s); Some (\<not> e) }
               else Some False);
     if exact
     then do {
       (pgn, s) \<leftarrow> fetch_fln P flh_idx s;
       if pgn = 0 \<or> pgn_using s pgn \<noteq> 0 then Some (-1, pgn, s) else Some (0, pgn, s) }
     else do {
       candi_pgn \<leftarrow> find_candi s P pg_count flh_idx;
       if candi_pgn = 0 then Some (-1, 0, s)
       else do {
         (r, s) \<leftarrow> unlink_fln junk P candi_pgn s;
         s \<leftarrow> (if pgn_count s candi_pgn > pg_count then split_node junk P pg_count candi_pgn s else Some s);
         Some (0, candi_pgn, s) } } }"

section \<open>Returning a node\<close>

definition merge_free_node :: "u64 \<Rightarrow> ptr \<Rightarrow> ptr \<Rightarrow> ptr \<Rightarrow> pgp_heap \<Rightarrow> (int \<times> pgp_heap) option" where
  "merge_free_node junk P prv nxt s =
     (if get_payload s nxt \<noteq> get_payload s prv + of_int (pgn_count s prv) * pgp_pg_size s P
      then Some (-1, s)
      else do {
        (r, s) \<leftarrow> unlink_fln junk P nxt s;
        (r, s) \<leftarrow> unlink_rbn P nxt s;
        let s = set_count prv (pgn_count s prv + pgn_count s nxt) s;
        (r, s) \<leftarrow> return_free_pgn P nxt s;
        Some (0, s) })"

text \<open>The successors in address order are merged as long as they are free and the sum allows it.\<close>

partial_function (option) merge_loop :: "u64 \<Rightarrow> ptr \<Rightarrow> ptr \<Rightarrow> ptr \<Rightarrow> int \<Rightarrow> pgp_heap \<Rightarrow> pgp_heap option" where
  "merge_loop junk P pgn succ rslt s =
     (if succ \<noteq> 0 \<and> 0 \<le> rslt
      then let succ_pgn = conv_rbn succ in
        if pgn_using s succ_pgn \<noteq> 0 \<or> of_int (pgn_count s pgn + pgn_count s succ_pgn) > pgp_maxpg_count s P
        then Some s
        else do {
          (rslt, s) \<leftarrow> merge_free_node junk P pgn succ_pgn s;
          succ \<leftarrow> rb_succ (pgp_tree s P) (rb_of_pgn pgn);
          merge_loop junk P pgn succ rslt s }
      else Some s)"

definition return_free_node :: "u64 \<Rightarrow> ptr \<Rightarrow> ptr \<Rightarrow> pgp_heap \<Rightarrow> (int \<times> pgp_heap) option" where
  "return_free_node junk P pgn s = do {
     succ \<leftarrow> rb_succ (pgp_tree s P) (rb_of_pgn pgn);
     s \<leftarrow> merge_loop junk P pgn succ 0 s;
     (r, s) \<leftarrow> link_fln junk P pgn s;
     Some (0, s) }"

section \<open>Setting up a chunk\<close>

partial_function (option) init_flh :: "ptr \<Rightarrow> u64 \<Rightarrow> pgp_heap \<Rightarrow> pgp_heap option" where
  "init_flh P i s =
     (if i < pgp_freelist_count s P
      then do { (r, s) \<leftarrow> on_links (lst_new (flh_at s P i)) s; init_flh P (i + 1) s }
      else Some s)"

function init_pgn_pool :: "ptr \<Rightarrow> int \<Rightarrow> int \<Rightarrow> pgp_heap \<Rightarrow> pgp_heap option" where
  "init_pgn_pool P n i s =
     (if i < n
      then do {
        let pgn = pgp_pgn_pool s P + 64 * of_int i;
        (r, s) \<leftarrow> on_links (lst_clr pgn) s;
        (r, s) \<leftarrow> on_links (lst_push_back (free_pgn_list P) pgn) s;
        init_pgn_pool P n (i + 1) s }
      else Some s)"
  by pat_completeness auto
termination init_pgn_pool
  by (relation "measure (\<lambda>(P, n, i, s). nat (n - i))") auto

declare init_pgn_pool.simps [simp del]

text \<open>The pages go into nodes of at most \<open>maxpg_count\<close> pages; \<open>rslt\<close> is read without a value.\<close>

partial_function (option) init_pages ::
  "u64 \<Rightarrow> int \<Rightarrow> ptr \<Rightarrow> u64 \<Rightarrow> int \<Rightarrow> ptr \<Rightarrow> pgp_heap \<Rightarrow> (bool \<times> pgp_heap) option" where
  "init_pages junk uninit P pg_size remain_count pg s =
     (if remain_count > 0
      then do {
        (pgn, s) \<leftarrow> fetch_free_pgn P s;
        s \<leftarrow> set_payload pgn pg s;
        let s = set_count pgn (if of_int remain_count \<ge> pgp_maxpg_count s P
                               then sint (pgp_maxpg_count s P) else remain_count) s;
        (r, s) \<leftarrow> link_rbn P pgn s;
        (r, s) \<leftarrow> link_fln junk P pgn s;
        if uninit < 0 then Some (False, s)
        else init_pages junk uninit P pg_size (remain_count - pgn_count s pgn)
               (pg + of_int (pgn_count s pgn) * pg_size) s }
      else Some (True, s))"

definition pgp_init_chunk ::
  "u64 \<Rightarrow> int \<Rightarrow> ptr \<Rightarrow> u64 \<Rightarrow> u32 \<Rightarrow> u32 \<Rightarrow> pgp_heap \<Rightarrow> (ptr \<times> pgp_heap) option" where
  "pgp_init_chunk junk uninit addr sz maxpg pgsz s = do {
     let P = addr;
     let cur_offset = move_ptr_align64 addr 152;
     let s = s\<lparr>pgp_chunck_label := (pgp_chunck_label s)(P := PGP_CHUNK_LABEL),
               pgp_addr_begin := (pgp_addr_begin s)(P := addr),
               pgp_addr_end := (pgp_addr_end s)(P := round_down (addr + sz) (ucast pgsz))\<rparr>;
     (r, s) \<leftarrow> on_links (lst_new (free_pgn_list P)) s;
     let s = s\<lparr>pgp_tree := (pgp_tree s)(P := rb_init None (pgp_tree s P)),
               pgp_maxpg_count := (pgp_maxpg_count s)(P := ucast maxpg),
               pgp_freelist_count := (pgp_freelist_count s)(P := log_2 junk (ucast maxpg) + 1),
               pgp_pg_size := (pgp_pg_size s)(P := ucast pgsz),
               pgp_flh := (pgp_flh s)(P := cur_offset)\<rparr>;
     let cur_offset = cur_offset + 40 * pgp_freelist_count s P;
     s \<leftarrow> init_flh P 0 s;
     let chunk_pgcount = (pgp_addr_end s P - cur_offset) div (ucast pgsz + 64);
     let s = s\<lparr>pgp_chunk_pgcount := (pgp_chunk_pgcount s)(P := sint chunk_pgcount),
               pgp_pgn_pool := (pgp_pgn_pool s)(P := cur_offset)\<rparr>;
     let cur_offset = move_ptr_align64 cur_offset (64 * chunk_pgcount);
     let cur_offset = round_up cur_offset (ucast pgsz);
     let s = s\<lparr>pgp_chunk_addr := (pgp_chunk_addr s)(P := cur_offset)\<rparr>;
     s \<leftarrow> init_pgn_pool P (pgp_chunk_pgcount s P) 0 s;
     (ok, s) \<leftarrow> init_pages junk uninit P (ucast pgsz)
                 (sint (of_int (pgp_chunk_pgcount s P) - pgp_maxpg_count s P)) (pgp_chunk_addr s P) s;
     Some (if ok then P else 0, s) }"

definition pgp_load_chunk :: "ptr \<Rightarrow> pgp_heap \<Rightarrow> ptr" where
  "pgp_load_chunk addr s =
     (let P = pgp_conv_impl addr in
      if pgp_chunck_label s P \<noteq> PGP_CHUNK_LABEL then 0
      else if pgp_addr_begin s P \<noteq> P \<or> pgp_addr_end s P \<le> addr then 0
      else P)"

section \<open>The interface\<close>

definition pgp_destroy :: "ptr \<Rightarrow> pgp_heap \<Rightarrow> pgp_heap" where
  "pgp_destroy pgp s =
     (let P = pgp_conv_impl pgp in
      if P \<noteq> 0 \<and> pgp_chunck_label s P = PGP_CHUNK_LABEL
      then s\<lparr>pgp_chunck_label := (pgp_chunck_label s)(P := 0)\<rparr> else s)"

text \<open>The early error exits of \<open>pgp_create\<close> and \<open>pgp_load\<close> destroy what an uninitialised pointer points to.\<close>

definition pgp_create ::
  "u64 \<Rightarrow> int \<Rightarrow> ptr \<Rightarrow> ptr \<Rightarrow> mm_config \<Rightarrow> pgp_heap \<Rightarrow> (ptr \<times> pgp_heap) option" where
  "pgp_create junk uninit uninit_pgpi addr cfg s =
     (let fail = (\<lambda>P s. (0, if P \<noteq> 0 then pgp_destroy (pgp_handle P) s else s)) in
      if addr = 0 \<or> addr AND 7 \<noteq> 0 \<or> total_size cfg \<le> ucast (page_size cfg) then Some (fail uninit_pgpi s)
      else if \<not> is_2power junk (ucast (page_size cfg)) then Some (fail uninit_pgpi s)
      else do {
        (P, s) \<leftarrow> pgp_init_chunk junk uninit addr (total_size cfg) (maxpg_count cfg) (page_size cfg) s;
        Some (if P = 0 then fail P s else (pgp_handle P, s)) })"

definition pgp_load :: "ptr \<Rightarrow> ptr \<Rightarrow> pgp_heap \<Rightarrow> ptr \<times> pgp_heap" where
  "pgp_load uninit_pgpi addr s =
     (let fail = (\<lambda>P s. (0, if P \<noteq> 0 then pgp_destroy (pgp_handle P) s else s)) in
      if addr = 0 \<or> addr AND 7 \<noteq> 0 then fail uninit_pgpi s
      else let P = pgp_load_chunk addr s in
        if P = 0 then fail P s else (pgp_handle P, s))"

definition pgp_alloc :: "u64 \<Rightarrow> ptr \<Rightarrow> u64 \<Rightarrow> pgp_heap \<Rightarrow> (ptr \<times> pgp_heap) option" where
  "pgp_alloc junk pgp sz s = do {
     P \<leftarrow> deref pgp (pgp_conv_impl pgp);
     pg_count \<leftarrow> (if pgp_pg_size s P = 0 then None
                  else Some (sint (round_up sz (pgp_pg_size s P) div pgp_pg_size s P)));
     (rslt, pgn, s) \<leftarrow> take_free_node junk P pg_count s;
     if rslt < 0 \<or> pgn = 0 then Some (0, s)
     else do {
       let payload = get_payload s pgn;
       let s = set_using pgn 1 s;
       Some (payload, s\<lparr>pgp_alloc_count := (pgp_alloc_count s)(P := pgp_alloc_count s P + 1)\<rparr>) } }"

definition pgp_free :: "u64 \<Rightarrow> ptr \<Rightarrow> ptr \<Rightarrow> pgp_heap \<Rightarrow> (int \<times> pgp_heap) option" where
  "pgp_free junk pgp payload s = do {
     P \<leftarrow> deref pgp (pgp_conv_impl pgp);
     if payload AND (pgp_pg_size s P - 1) \<noteq> 0 then Some (-1, s)
     else do {
       pgn \<leftarrow> pgn_from_payload P payload s;
       if pgn = 0 \<or> pgn_using s pgn = 0 then Some (-1, s)
       else do {
         let s = set_using pgn 0 s;
         (rslt, s) \<leftarrow> return_free_node junk P pgn s;
         if rslt < 0 then Some (-1, s)
         else Some (0, s\<lparr>pgp_free_count := (pgp_free_count s)(P := pgp_free_count s P + 1)\<rparr>) } } }"

partial_function (option) pgp_check_loop :: "ptr \<Rightarrow> u64 \<Rightarrow> int \<Rightarrow> pgp_heap \<Rightarrow> int option" where
  "pgp_check_loop P i rslt s =
     (if i < pgp_freelist_count s P
      then do {
        rslt \<leftarrow> lst_check (flh_at s P i) (links s);
        if rslt < 0 then Some (-1) else pgp_check_loop P (i + 1) rslt s }
      else Some rslt)"

definition pgp_check :: "ptr \<Rightarrow> pgp_heap \<Rightarrow> int option" where
  "pgp_check pgp s = do { P \<leftarrow> deref pgp (pgp_conv_impl pgp); pgp_check_loop P 0 0 s }"

definition pgp_counts :: "ptr \<Rightarrow> pgp_heap \<Rightarrow> (u64 \<times> u64) option" where
  "pgp_counts alloc s = do {
     P \<leftarrow> deref alloc (pgp_conv_impl alloc);
     Some (pgp_alloc_count s P, pgp_free_count s P) }"

definition pgp_ops :: "u64 \<Rightarrow> int \<Rightarrow> ptr \<Rightarrow> pgp_heap mm_ops" where
  "pgp_ops junk uninit uninit_pgpi =
     \<lparr>create_func = pgp_create junk uninit uninit_pgpi,
      load_func = (\<lambda>addr s. Some (pgp_load uninit_pgpi addr s)),
      destroy_func = (\<lambda>alloc s. Some (pgp_destroy alloc s)),
      alloc_func = pgp_alloc junk,
      free_func = pgp_free junk,
      counts_func = Some pgp_counts\<rparr>"

end
