(* ===== verification/Dlist_Family.thy ===== *)
theory Dlist_Family
  imports Dlist
begin

text \<open>
  Many lists in one heap.  A family maps the address of each list to the nodes it holds; lists of
  a family share no node and no sentinel.  An operation on one list of the family changes the
  family at this list only.
\<close>

context intrusive_list begin

definition members :: "(ptr \<Rightarrow> ptr list option) \<Rightarrow> ptr set" where
  "members A = (\<Union>l \<in> dom A. set (nodes l (the (A l))))"

definition family :: "'h \<Rightarrow> (ptr \<Rightarrow> ptr list option) \<Rightarrow> bool" where
  "family h A \<longleftrightarrow> (\<forall>l xs. A l = Some xs \<longrightarrow> rep h l xs) \<and>
     (\<forall>l xs l' ys. l \<noteq> l' \<longrightarrow> A l = Some xs \<longrightarrow> A l' = Some ys \<longrightarrow> disjoint l xs l' ys)"

lemma membersI: "A l = Some xs \<Longrightarrow> x \<in> set (nodes l xs) \<Longrightarrow> x \<in> members A"
  unfolding members_def by force

lemma members_listI: "A l = Some xs \<Longrightarrow> x \<in> set xs \<Longrightarrow> x \<in> members A"
  using membersI nodes_mem by blast

lemma membersE:
  assumes "x \<in> members A"
  obtains l xs where "A l = Some xs" and "x \<in> set (nodes l xs)"
  using assms unfolding members_def by auto

lemma family_rep: "family h A \<Longrightarrow> A l = Some xs \<Longrightarrow> rep h l xs"
  by (simp add: family_def)

lemma family_disjoint: "family h A \<Longrightarrow> A l = Some xs \<Longrightarrow> A l' = Some ys \<Longrightarrow> l \<noteq> l' \<Longrightarrow> disjoint l xs l' ys"
  unfolding family_def by blast

lemma family_0: "family h A \<Longrightarrow> 0 \<notin> members A"
  unfolding family_def members_def using rep_nodes by fastforce

text \<open>A node stands on one list only, and once.\<close>

lemma family_unique:
  "family h A \<Longrightarrow> A l = Some xs \<Longrightarrow> A l' = Some ys \<Longrightarrow> x \<in> set xs \<Longrightarrow> x \<in> set ys \<Longrightarrow> l = l'"
proof (rule ccontr)
  assume a: "family h A" "A l = Some xs" "A l' = Some ys" "x \<in> set xs" "x \<in> set ys" and "l \<noteq> l'"
  then have "disjoint l xs l' ys" unfolding family_def by blast
  moreover have "x \<in> set (nodes l xs)" "x \<in> set (nodes l' ys)" using nodes_mem a(4,5) by blast+
  ultimately show False by (auto simp: disjoint_def)
qed

lemma family_same: "family h A \<Longrightarrow> same (members A) h h' \<Longrightarrow> family h' A"
proof -
  assume f: "family h A" and s: "same (members A) h h'"
  have "rep h' l xs" if l: "A l = Some xs" for l xs
  proof -
    have "set (nodes l xs) \<subseteq> members A" using membersI [of A l xs] l by blast
    then show ?thesis using rep_same [OF same_subset [OF s]] family_rep [OF f l] by blast
  qed
  then show ?thesis using f unfolding family_def by blast
qed

text \<open>One list changes and the operation reaches no node of the others.\<close>

lemma family_update:
  assumes "family h A" and "A l = Some xs" and "rep h' l ys" and "same (- set (nodes l zs)) h h'"
    and "set (nodes l ys) \<subseteq> set (nodes l zs)"
    and apart: "\<And>l' ws. l' \<noteq> l \<Longrightarrow> A l' = Some ws \<Longrightarrow> disjoint l zs l' ws"
  shows "family h' (A(l := Some ys))"
  unfolding family_def
proof (intro conjI allI impI)
  fix l' ws assume "(A(l := Some ys)) l' = Some ws"
  then show "rep h' l' ws"
    using assms(3) apart [of l' ws] rep_frame [OF family_rep [OF assms(1), of l' ws] assms(4)]
    by (cases "l' = l") auto
next
  fix a ws b vs
  assume ab: "a \<noteq> b" "(A(l := Some ys)) a = Some ws" "(A(l := Some ys)) b = Some vs"
  have "disjoint a ws b vs" if "a \<noteq> l" "b \<noteq> l" using ab that assms(1) by (auto simp: family_def)
  then show "disjoint a ws b vs"
    using ab apart [of a ws] apart [of b vs] assms(5) by (auto simp: disjoint_def split: if_splits)
qed

lemma apart_insert:
  assumes "family h A" and "A l = Some xs" and "x \<notin> members A"
    and "set (nodes l zs) = insert x (set (nodes l xs))" and "l' \<noteq> l" and "A l' = Some ws"
  shows "disjoint l zs l' ws"
proof -
  have "disjoint l xs l' ws" using family_disjoint [OF assms(1)] assms(2,5,6) by blast
  moreover have "x \<notin> set (nodes l' ws)" using assms(3,6) membersI by blast
  ultimately show ?thesis using assms(4) by (simp add: disjoint_def)
qed

lemma members_update:
  "A l = Some xs \<Longrightarrow> set (nodes l ys) = insert x (set (nodes l xs)) \<Longrightarrow> members (A(l := Some ys)) = insert x (members A)"
  unfolding members_def by (auto simp: split: if_splits) (metis domI option.sel)+

lemma family_push_front:
  assumes "family h A" and "A l = Some xs" and "x \<notin> members A" and "x \<noteq> 0"
  shows "\<exists>h'. push_front l x h = Some (0, h') \<and> family h' (A(l := Some (x # xs)))
    \<and> members (A(l := Some (x # xs))) = insert x (members A)"
proof -
  have "x \<notin> set (nodes l xs)" using assms(2,3) membersI by blast
  then obtain h' where h': "push_front l x h = Some (0, h')" "rep h' l (x # xs)" "same (- set (nodes l (x # xs))) h h'"
    using push_front_rep [OF family_rep [OF assms(1,2)] _ assms(4)] by blast
  have ins: "set (nodes l (x # xs)) = insert x (set (nodes l xs))" using nodes_insert [of l "[]" x xs] by simp
  have "family h' (A(l := Some (x # xs)))"
    by (rule family_update [OF assms(1,2) h'(2,3) subset_refl apart_insert [OF assms(1-3) ins]])
  with h'(1) members_update [of A l xs "x # xs" x] assms(2) ins show ?thesis by blast
qed

lemma family_push_back:
  assumes "family h A" and "A l = Some xs" and "x \<notin> members A" and "x \<noteq> 0"
  shows "\<exists>h'. push_back l x h = Some (0, h') \<and> family h' (A(l := Some (xs @ [x])))
    \<and> members (A(l := Some (xs @ [x]))) = insert x (members A)"
proof -
  have "x \<notin> set (nodes l xs)" using assms(2,3) membersI by blast
  then obtain h' where h': "push_back l x h = Some (0, h')" "rep h' l (xs @ [x])" "same (- set (nodes l (xs @ [x]))) h h'"
    using push_back_rep [OF family_rep [OF assms(1,2)] _ assms(4)] by blast
  have ins: "set (nodes l (xs @ [x])) = insert x (set (nodes l xs))" using nodes_insert [of l xs x "[]"] by simp
  have "family h' (A(l := Some (xs @ [x])))"
    by (rule family_update [OF assms(1,2) h'(2,3) subset_refl apart_insert [OF assms(1-3) ins]])
  with h'(1) members_update [of A l xs "xs @ [x]" x] assms(2) ins show ?thesis by blast
qed

lemma members_remove:
  assumes "family h A" and "A l = Some (ys @ x # zs)"
  shows "members (A(l := Some (ys @ zs))) = members A - {x}"
proof -
  have ins: "set (nodes l (ys @ x # zs)) = insert x (set (nodes l (ys @ zs)))" by (rule nodes_insert)
  have x: "x \<notin> set (nodes l (ys @ zs))" by (rule node_fresh [OF family_rep [OF assms]])
  have "x \<notin> set (nodes l' ws)" if "l' \<noteq> l" "A l' = Some ws" for l' ws
  proof -
    have "disjoint l (ys @ x # zs) l' ws" using family_disjoint [OF assms(1)] assms(2) that by blast
    then show ?thesis by (auto simp: disjoint_def ins)
  qed
  then have x': "x \<notin> members (A(l := Some (ys @ zs)))"
    using x by (auto elim!: membersE split: if_splits)
  have "A = (A(l := Some (ys @ zs)))(l := Some (ys @ x # zs))" using assms(2) by auto
  then have "members A = insert x (members (A(l := Some (ys @ zs))))"
    using members_update [of "A(l := Some (ys @ zs))" l "ys @ zs" "ys @ x # zs" x] ins by simp
  with x' show ?thesis by simp
qed

lemma family_remove:
  assumes "family h A" and "A l = Some xs" and "x \<in> set xs"
  shows "\<exists>h'. remove l x h = Some (0, h') \<and> family h' (A(l := Some (remove1 x xs)))
    \<and> members (A(l := Some (remove1 x xs))) = members A - {x}"
proof -
  have d: "distinct xs" using rep_nodes [OF family_rep [OF assms(1,2)]] by blast
  obtain ys zs where xs: "xs = ys @ x # zs" "x \<notin> set ys" using list_split_mem [OF assms(3) d] by blast
  obtain h' where h': "remove l x h = Some (0, h')" "rep h' l (remove1 x xs)" "same (- set (nodes l xs)) h h'"
    using remove_rep [OF family_rep [OF assms(1,2)] assms(3)] by blast
  have r: "remove1 x xs = ys @ zs" using xs by simp
  have "family h' (A(l := Some (remove1 x xs)))"
  proof (rule family_update [OF assms(1,2) h'(2,3)])
    show "set (nodes l (remove1 x xs)) \<subseteq> set (nodes l xs)" unfolding r unfolding xs(1) nodes_insert by blast
    show "\<And>l' ws. l' \<noteq> l \<Longrightarrow> A l' = Some ws \<Longrightarrow> disjoint l xs l' ws"
      by (rule family_disjoint [OF assms(1,2)]) simp_all
  qed
  moreover have "members (A(l := Some (remove1 x xs))) = members A - {x}"
    unfolding r by (rule members_remove [OF assms(1)]) (use assms(2) xs(1) in simp)
  ultimately show ?thesis using h'(1) by blast
qed

lemma family_pop_front:
  assumes "family h A" and "A l = Some (x # xs)"
  shows "\<exists>h'. pop_front l h = Some (x, h') \<and> family h' (A(l := Some xs)) \<and> members (A(l := Some xs)) = members A - {x}"
proof -
  obtain h' where h': "pop_front l h = Some (x, h')" "rep h' l xs" "same (- set (nodes l (x # xs))) h h'"
    using pop_front_rep [OF family_rep [OF assms]] by blast
  have "family h' (A(l := Some xs))"
  proof (rule family_update [OF assms h'(2,3)])
    show "set (nodes l xs) \<subseteq> set (nodes l (x # xs))" using nodes_insert [of l "[]" x xs] by auto
    show "\<And>l' ws. l' \<noteq> l \<Longrightarrow> A l' = Some ws \<Longrightarrow> disjoint l (x # xs) l' ws"
      using family_disjoint [OF assms(1)] assms(2) by blast
  qed
  moreover have "members (A(l := Some xs)) = members A - {x}"
    using members_remove [OF assms(1), of l "[]" x xs] assms(2) by simp
  ultimately show ?thesis using h'(1) by blast
qed

end

section \<open>Families of the model's lists\<close>

text \<open>A node of no list may be cleared, and a list set up at a place that belongs to none.\<close>

lemma family_clr:
  assumes "dl.family h A" and "x \<notin> dl.members A" and "x \<noteq> 0"
  shows "\<exists>h'. lst_clr x h = Some (0, h') \<and> dl.family h' A"
proof -
  obtain h' where h': "lst_clr x h = Some (0, h')" "dl_same (- {x}) h h'"
    using assms(3) by (auto simp: lst_clr_def mem_defs dl_same_def)
  have "dl_same (dl.members A) h h'" by (rule dl_same_subset [OF h'(2)]) (use assms(2) in auto)
  with h'(1) dl.family_same [OF assms(1)] show ?thesis by blast
qed

lemma family_new:
  assumes "dl.family h A" and "l \<notin> dl.members A" and "tail_of l \<notin> dl.members A" and "l \<noteq> 0" and "tail_of l \<noteq> 0"
  shows "\<exists>h'. lst_new l h = Some (0, h') \<and> dl.family h' (A(l := Some [])) \<and>
    dl.members (A(l := Some [])) = {l, tail_of l} \<union> dl.members A"
proof -
  obtain h' where h': "lst_new l h = Some (0, h')" "dl_list h' l []" "dl_same (- {l, tail_of l}) h h'"
    using lst_new_ok [OF assms(4,5)] by blast
  have "A l = None" using assms(2) dl.membersI [of A l] by (cases "A l") (auto simp: dl_nodes_def)
  then have dom: "dom (A(l := Some [])) = insert l (dom A)" by auto
  have "dl_same (dl.members A) h h'" by (rule dl_same_subset [OF h'(3)]) (use assms(2,3) in auto)
  then have f: "dl.family h' A" by (rule dl.family_same [OF assms(1)])
  have ap: "dl.disjoint l [] l' ws" if "A l' = Some ws" for l' ws
    using that assms(2,3) dl.membersI [of A l' ws] by (auto simp: dl.disjoint_def dl_nodes_def)
  then have "dl.family h' (A(l := Some []))"
    using f h'(2) unfolding dl.family_def by (auto simp: dl.disjoint_def Int_commute)
  moreover have "dl.members (A(l := Some [])) = {l, tail_of l} \<union> dl.members A"
    using \<open>A l = None\<close> unfolding dl.members_def dom by (auto simp: dl_nodes_def split: if_splits)
  ultimately show ?thesis using h'(1) by blast
qed

lemma family_empty: "dl.family h Map.empty"
  by (simp add: dl.family_def)

end
