(* ===== verification/Pgpool_Inv.thy ===== *)
theory Pgpool_Inv
  imports Pgpool Rbtree_Map Dlist_Family
begin

text \<open>
  The invariant of a page pool: the nodes of the search tree, in address order, tile the chunk
  without gap or overlap; the unused ones are on the free list of their size class; the other
  nodes are spare.
\<close>

section \<open>Size classes\<close>

definition clog :: "int \<Rightarrow> u64" where
  "clog c = log_2 0 (of_int c)"

lemma of_int_u64_nz: "1 \<le> c \<Longrightarrow> c < 2 ^ 64 \<Longrightarrow> (of_int c :: u64) \<noteq> 0"
  using unat_of_int_u64 [of c] by (metis unat_0 nat_0_iff not_one_le_zero order_trans zero_le_one linorder_not_le)

lemma log_2_clog: "1 \<le> c \<Longrightarrow> c < 2 ^ 64 \<Longrightarrow> log_2 junk (of_int c) = clog c"
  using of_int_u64_nz [of c] by (simp add: log_2_def clog_def)

lemma clog_bounds:
  assumes "1 \<le> c" and "c < 2 ^ 64"
  shows "2 ^ unat (clog c) \<le> nat c" and "nat c < 2 ^ Suc (unat (clog c))"
  using log_2_bounds [OF of_int_u64_nz [OF assms], of 0] unat_of_int_u64 [of c] assms
  by (simp_all add: clog_def)

lemma clog_mono:
  assumes "1 \<le> a" and "a \<le> b" and "b < 2 ^ 64"
  shows "clog a \<le> clog b"
proof -
  have "2 ^ unat (clog a) \<le> nat a" "nat b < 2 ^ Suc (unat (clog b))"
    using clog_bounds [of a] clog_bounds [of b] assms by auto
  moreover have "nat a \<le> nat b" using assms(2) by simp
  ultimately have "(2 :: nat) ^ unat (clog a) < 2 ^ Suc (unat (clog b))" by linarith
  then have "unat (clog a) < Suc (unat (clog b))" by (rule power_less_imp_less_exp [rotated]) simp
  then show ?thesis by (simp add: word_le_nat_alt)
qed

section \<open>Nodes in address order\<close>

fun chained :: "(ptr \<Rightarrow> int) \<Rightarrow> (ptr \<Rightarrow> int) \<Rightarrow> ptr list \<Rightarrow> bool" where
  "chained st en (x # y # zs) \<longleftrightarrow> st y = en x \<and> chained st en (y # zs)"
| "chained st en _ \<longleftrightarrow> True"

lemma chained_split: "chained st en (ys @ x # zs) \<longleftrightarrow> chained st en (ys @ [x]) \<and> chained st en (x # zs)"
proof (induction ys)
  case (Cons y ys)
  then show ?case by (cases ys) auto
qed simp

lemma chained_Cons: "chained st en (x # zs) \<longleftrightarrow> (zs \<noteq> [] \<longrightarrow> st (hd zs) = en x) \<and> chained st en zs"
  by (cases zs) auto

lemma chained_snoc: "chained st en (ys @ [x]) \<longleftrightarrow> (ys \<noteq> [] \<longrightarrow> st x = en (last ys)) \<and> chained st en ys"
proof (induction ys)
  case (Cons y ys)
  then show ?case by (cases ys) auto
qed simp

lemma chained_cong:
  "(\<And>x. x \<in> set xs \<Longrightarrow> st x = st' x \<and> en x = en' x) \<Longrightarrow> chained st en xs = chained st' en' xs"
  by (induction st en xs rule: chained.induct) auto

text \<open>Later nodes start where or after earlier ones end.\<close>

lemma chained_before:
  assumes "chained st en xs" and "\<forall>x \<in> set xs. st x < en x"
  shows "sorted_wrt (\<lambda>a b. en a \<le> st b) xs"
  using assms
proof (induction xs)
  case (Cons x xs)
  then have IH: "sorted_wrt (\<lambda>a b. en a \<le> st b) xs" by (simp add: chained_Cons)
  have "en x \<le> st b" if b: "b \<in> set xs" for b
  proof -
    obtain y ys where xs: "xs = y # ys" using b by (cases xs) auto
    then have "st y = en x" using Cons.prems by simp
    moreover have "b = y \<or> en y \<le> st b" using IH b xs by auto
    ultimately show ?thesis using Cons.prems(2) xs by fastforce
  qed
  then show ?case using IH by simp
qed simp

lemma sorted_insert_place:
  assumes "xs @ ys = as @ bs" and "\<forall>x \<in> set xs. f x < k" and "\<forall>y \<in> set ys. k < f y"
    and "\<forall>x \<in> set as. f x < k" and "\<forall>y \<in> set bs. k < (f y :: 'a :: linorder)"
  shows "xs = as \<and> ys = bs"
proof -
  have tw: "takeWhile (\<lambda>x. f x < k) (us @ vs) = us" if "\<forall>x \<in> set us. f x < k" "\<forall>y \<in> set vs. k < f y" for us vs
    using that by (cases vs) (auto simp: takeWhile_append2)
  have "xs = as" using tw [OF assms(2,3)] tw [OF assms(4,5)] assms(1) by simp
  then show ?thesis using assms(1) by simp
qed

section \<open>The invariant\<close>

definition pg_start :: "pgp_heap \<Rightarrow> ptr \<Rightarrow> int" where
  "pg_start s x = uint (get_payload s x)"

definition pg_end :: "pgp_heap \<Rightarrow> ptr \<Rightarrow> ptr \<Rightarrow> int" where
  "pg_end s P x = pg_start s x + pgn_count s x * uint (pgp_pg_size s P)"

definition pg_cfg :: "pgp_heap \<Rightarrow> ptr \<Rightarrow> bool" where
  "pg_cfg s P \<longleftrightarrow> (\<exists>k. 2 \<le> k \<and> k < 32 \<and> pgp_pg_size s P = 2 ^ k) \<and>
     1 \<le> uint (pgp_maxpg_count s P) \<and> uint (pgp_maxpg_count s P) < 2 ^ 30 \<and>
     pgp_freelist_count s P = clog (uint (pgp_maxpg_count s P)) + 1 \<and>
     (\<forall>i < pgp_freelist_count s P. flh_at s P i \<noteq> free_pgn_list P) \<and>
     (\<forall>i < pgp_freelist_count s P. \<forall>j < pgp_freelist_count s P. flh_at s P i = flh_at s P j \<longrightarrow> i = j)"

definition pg_tree :: "pgp_heap \<Rightarrow> ptr \<Rightarrow> ptr list \<Rightarrow> bool" where
  "pg_tree s P xs \<longleftrightarrow> rb_ok (pgp_tree s P) (List.map rb_of_pgn xs) \<and> rb_cfunc (pgp_tree s P) = None \<and>
     (\<forall>x \<in> set xs. rb_key (pgp_tree s P) (rb_of_pgn x) = get_payload s x)"

definition pg_pages :: "pgp_heap \<Rightarrow> ptr \<Rightarrow> ptr list \<Rightarrow> bool" where
  "pg_pages s P xs \<longleftrightarrow> chained (pg_start s) (pg_end s P) xs \<and>
     (\<forall>x \<in> set xs. 1 \<le> pgn_count s x \<and> pgn_count s x \<le> uint (pgp_maxpg_count s P) \<and>
        pg_end s P x \<le> 2 ^ 64 \<and> get_payload s x AND (pgp_pg_size s P - 1) = 0)"

text \<open>\<open>D\<close> are the nodes that are off the lists for the moment.\<close>

definition pg_class :: "pgp_heap \<Rightarrow> ptr list \<Rightarrow> ptr set \<Rightarrow> u64 \<Rightarrow> ptr set" where
  "pg_class s xs D i = {x \<in> set xs. pgn_using s x = 0 \<and> clog (pgn_count s x) = i} - D"

definition pg_lists :: "pgp_heap \<Rightarrow> ptr \<Rightarrow> (ptr \<Rightarrow> ptr list option) \<Rightarrow> ptr list \<Rightarrow> ptr list \<Rightarrow> ptr set \<Rightarrow> bool" where
  "pg_lists s P A xs Z D \<longleftrightarrow> dl.family (links s) A \<and> A (free_pgn_list P) = Some Z \<and>
     (\<forall>i < pgp_freelist_count s P. \<exists>F. A (flh_at s P i) = Some F \<and> set F = pg_class s xs D i) \<and>
     (\<forall>x \<in> set xs. pgn_using s x \<noteq> 0 \<or> x \<in> D \<longrightarrow> x \<notin> dl.members A) \<and> 0 \<notin> set xs \<and>
     (\<forall>z \<in> set Z. rb_of_pgn z \<noteq> 0 \<and> aligned (rb_of_pgn z) \<and> pgn_using s z = 0)"

definition pg_ok :: "pgp_heap \<Rightarrow> ptr \<Rightarrow> (ptr \<Rightarrow> ptr list option) \<Rightarrow> ptr list \<Rightarrow> ptr list \<Rightarrow> ptr set \<Rightarrow> bool" where
  "pg_ok s P A xs Z D \<longleftrightarrow> pg_cfg s P \<and> pg_tree s P xs \<and> pg_pages s P xs \<and> pg_lists s P A xs Z D \<and>
     (\<Sum>x\<leftarrow>xs. pgn_count s x) \<le> int (length xs + length Z)"

section \<open>Consequences\<close>

lemma get_payload_and_3 [simp]: "get_payload s x AND 3 = 0"
  by (simp add: get_payload_def and.assoc)

lemma pg_tree_distinct: "pg_tree s P xs \<Longrightarrow> distinct xs"
  unfolding pg_tree_def using rb_okD(1) [of "pgp_tree s P" "List.map rb_of_pgn xs"] by (simp add: distinct_map)

lemma pg_pages_less: "pg_cfg s P \<Longrightarrow> pg_pages s P xs \<Longrightarrow> x \<in> set xs \<Longrightarrow> pg_start s x < pg_end s P x"
proof -
  assume a: "pg_cfg s P" "pg_pages s P xs" "x \<in> set xs"
  obtain k where k: "k < 32" "pgp_pg_size s P = 2 ^ k" using a(1) unfolding pg_cfg_def by blast
  have "0 < uint (pgp_pg_size s P)" unfolding k(2) using k(1) by (simp add: uint_power_u64)
  moreover have "0 < pgn_count s x" using a(2,3) by (fastforce simp: pg_pages_def)
  ultimately show ?thesis by (simp add: pg_end_def)
qed

lemma pg_sorted:
  assumes "pg_cfg s P" and "pg_pages s P xs"
  shows "sorted_wrt (\<lambda>a b. pg_end s P a \<le> pg_start s b) xs" and "sorted_wrt (\<lambda>a b. pg_start s a < pg_start s b) xs"
proof -
  show s: "sorted_wrt (\<lambda>a b. pg_end s P a \<le> pg_start s b) xs"
    by (rule chained_before) (use assms pg_pages_less in \<open>auto simp: pg_pages_def\<close>)
  have "pg_start s a < pg_start s b" if "pg_end s P a \<le> pg_start s b" "a \<in> set xs" for a b
    using pg_pages_less [OF assms that(2)] that(1) by linarith
  then show "sorted_wrt (\<lambda>a b. pg_start s a < pg_start s b) xs"
    using s by (auto elim!: sorted_wrt_mono_rel [rotated])
qed

lemma pg_key_sorted:
  assumes "pg_cfg s P" and "pg_tree s P xs" and "pg_pages s P xs"
  shows "key_sorted (pgp_tree s P) (List.map rb_of_pgn xs)"
proof -
  have "sorted_wrt (\<lambda>a b. rb_key (pgp_tree s P) (rb_of_pgn a) < rb_key (pgp_tree s P) (rb_of_pgn b)) xs"
    by (rule sorted_wrt_mono_rel [OF _ pg_sorted(2) [OF assms(1,3)]])
      (use assms(2) in \<open>simp add: pg_tree_def pg_start_def word_less_def\<close>)
  then show ?thesis using assms(2) by (simp add: key_sorted_def pg_tree_def sorted_wrt_map)
qed

text \<open>The pages of different nodes do not overlap.\<close>

lemma pg_disjoint:
  assumes "pg_cfg s P" and "pg_pages s P xs" and "x \<in> set xs" and "y \<in> set xs" and "x \<noteq> y"
  shows "pg_end s P x \<le> pg_start s y \<or> pg_end s P y \<le> pg_start s x"
proof -
  obtain ys zs where xs: "xs = ys @ x # zs" using assms(3) by (meson split_list)
  then show ?thesis using pg_sorted(1) [OF assms(1,2)] assms(4,5) by (auto simp: sorted_wrt_append)
qed

lemma pg_class_D: "pg_lists s P A xs Z D \<Longrightarrow> i < pgp_freelist_count s P \<Longrightarrow> A (flh_at s P i) = Some F \<Longrightarrow>
    set F = pg_class s xs D i"
  unfolding pg_lists_def by fastforce

lemma clog_less_count:
  assumes "pg_cfg s P" and "1 \<le> c" and "c \<le> uint (pgp_maxpg_count s P)"
  shows "clog c < pgp_freelist_count s P"
proof -
  have m: "uint (pgp_maxpg_count s P) < 2 ^ 64" "1 \<le> uint (pgp_maxpg_count s P)"
    "uint (pgp_maxpg_count s P) < 2 ^ 30" using assms(1) by (auto simp: pg_cfg_def)
  let ?c = "clog (uint (pgp_maxpg_count s P))"
  have "2 ^ unat ?c \<le> nat (uint (pgp_maxpg_count s P))" by (rule clog_bounds [OF m(2,1)])
  also have "\<dots> < nat (2 ^ 30)" using m(3) by (rule zless_nat_conj [THEN iffD2, OF conjI, rotated]) simp
  also have "\<dots> = 2 ^ 30" by simp
  finally have "unat ?c < 30" by (rule power_less_imp_less_exp [rotated]) simp
  then have "unat (?c + 1) = Suc (unat ?c)" by (simp add: unat_word_ariths)
  moreover have "unat (clog c) \<le> unat ?c" using clog_mono [OF assms(2,3) m(1)] by (simp add: word_le_nat_alt)
  ultimately show ?thesis using assms(1) by (simp add: pg_cfg_def word_less_nat_alt)
qed

lemma pg_idx_less: "pg_cfg s P \<Longrightarrow> pg_pages s P xs \<Longrightarrow> x \<in> set xs \<Longrightarrow> clog (pgn_count s x) < pgp_freelist_count s P"
  by (rule clog_less_count) (simp_all add: pg_pages_def)

lemma pg_count_log:
  assumes "pg_cfg s P" and "pg_pages s P xs" and "x \<in> set xs"
  shows "log_2 junk (of_int (pgn_count s x)) = clog (pgn_count s x)"
proof (rule log_2_clog)
  have "pgn_count s x \<le> uint (pgp_maxpg_count s P)" "uint (pgp_maxpg_count s P) < 2 ^ 30"
    using assms by (auto simp: pg_cfg_def pg_pages_def)
  then show "pgn_count s x < 2 ^ 64" by simp
qed (use assms in \<open>simp add: pg_pages_def\<close>)

text \<open>Spare nodes are not in the tree.\<close>

lemma pg_spare:
  assumes "pg_cfg s P" and "pg_pages s P xs" and "pg_lists s P A xs Z D" and "z \<in> set Z"
  shows "z \<notin> set xs"
proof
  assume z: "z \<in> set xs"
  have m: "z \<in> dl.members A" using assms(3,4) dl.members_listI [of A "free_pgn_list P" Z z] by (simp add: pg_lists_def)
  then have u: "pgn_using s z = 0" "z \<notin> D" using assms(3) z by (auto simp: pg_lists_def)
  let ?i = "clog (pgn_count s z)"
  have i: "?i < pgp_freelist_count s P" by (rule pg_idx_less [OF assms(1,2) z])
  then obtain F where F: "A (flh_at s P ?i) = Some F" "set F = pg_class s xs D ?i"
    using assms(3) unfolding pg_lists_def by blast
  have "z \<in> set F" unfolding F(2) pg_class_def using z u by simp
  then have "flh_at s P ?i = free_pgn_list P"
    using dl.family_unique [of "links s" A "flh_at s P ?i" F "free_pgn_list P" Z z] F(1) assms(3,4)
    by (simp add: pg_lists_def)
  then show False using assms(1) i by (simp add: pg_cfg_def)
qed

end
