(* ===== verification/Pgpool_Take.thy ===== *)
theory Pgpool_Take
  imports Pgpool_Inv
begin

text \<open>Taking nodes from the free lists and splitting them keeps the invariant of the page pool.\<close>

section \<open>What updates leave alone\<close>

lemma pg_links [simp]:
  "pg_cfg (s\<lparr>links := h\<rparr>) P \<longleftrightarrow> pg_cfg s P" "pg_tree (s\<lparr>links := h\<rparr>) P xs \<longleftrightarrow> pg_tree s P xs"
  "pg_pages (s\<lparr>links := h\<rparr>) P xs \<longleftrightarrow> pg_pages s P xs" "flh_at (s\<lparr>links := h\<rparr>) P i = flh_at s P i"
  "pgn_using (s\<lparr>links := h\<rparr>) x = pgn_using s x" "get_payload (s\<lparr>links := h\<rparr>) x = get_payload s x"
  "pg_class (s\<lparr>links := h\<rparr>) xs D i = pg_class s xs D i" "pg_start (s\<lparr>links := h\<rparr>) x = pg_start s x"
  "pg_end (s\<lparr>links := h\<rparr>) P x = pg_end s P x"
  by (simp_all add: pg_cfg_def pg_tree_def pg_pages_def flh_at_def pgn_using_def get_payload_def pg_class_def
      pg_start_def pg_end_def chained_cong [of xs "pg_start (s\<lparr>links := h\<rparr>)" "pg_start s" "pg_end (s\<lparr>links := h\<rparr>) P" "pg_end s P"])

lemma pg_tree_upd [simp]:
  "pg_cfg (s\<lparr>pgp_tree := t\<rparr>) P \<longleftrightarrow> pg_cfg s P" "pg_pages (s\<lparr>pgp_tree := t\<rparr>) P xs \<longleftrightarrow> pg_pages s P xs"
  "flh_at (s\<lparr>pgp_tree := t\<rparr>) P i = flh_at s P i" "pg_lists (s\<lparr>pgp_tree := t\<rparr>) P A xs Z D \<longleftrightarrow> pg_lists s P A xs Z D"
  "pgn_using (s\<lparr>pgp_tree := t\<rparr>) x = pgn_using s x" "get_payload (s\<lparr>pgp_tree := t\<rparr>) x = get_payload s x"
  "pg_start (s\<lparr>pgp_tree := t\<rparr>) x = pg_start s x" "pg_end (s\<lparr>pgp_tree := t\<rparr>) P x = pg_end s P x"
  by (simp_all add: pg_cfg_def pg_pages_def flh_at_def pgn_using_def get_payload_def pg_class_def pg_lists_def
      pg_start_def pg_end_def chained_cong [of xs "pg_start (s\<lparr>pgp_tree := t\<rparr>)" "pg_start s" "pg_end (s\<lparr>pgp_tree := t\<rparr>) P" "pg_end s P"])

section \<open>The free lists\<close>

text \<open>A free node leaves its list.\<close>

lemma unlink_fln_ok:
  assumes ok: "pg_ok s P A xs Z D" and x: "x \<in> set xs" "pgn_using s x = 0" "x \<notin> D"
  shows "\<exists>h A'. unlink_fln junk P x s = Some (0, s\<lparr>links := h\<rparr>) \<and> pg_ok (s\<lparr>links := h\<rparr>) P A' xs Z (insert x D)"
proof -
  let ?i = "clog (pgn_count s x)"
  have c: "pg_cfg s P" "pg_pages s P xs" "pg_lists s P A xs Z D" using ok by (simp_all add: pg_ok_def)
  have i: "?i < pgp_freelist_count s P" by (rule pg_idx_less [OF c(1,2) x(1)])
  obtain F where F: "A (flh_at s P ?i) = Some F" "set F = pg_class s xs D ?i" using c(3) i unfolding pg_lists_def by blast
  have m: "x \<in> set F" using x F(2) by (simp add: pg_class_def)
  have fam: "dl.family (links s) A" using c(3) by (simp add: pg_lists_def)
  have x0: "x \<noteq> 0" using c(3) x(1) by (auto simp: pg_lists_def)
  let ?A = "A(flh_at s P ?i := Some (remove1 x F))"
  obtain h where h: "lst_remove (flh_at s P ?i) x (links s) = Some (0, h)" "dl.family h ?A"
    "dl.members ?A = dl.members A - {x}"
    using dl.family_remove [OF fam F(1) m] by blast
  have d: "distinct F" using dl.family_rep [OF fam F(1)] dl_listD(3) by blast
  have ne: "flh_at s P ?i \<noteq> free_pgn_list P" using c(1) i by (simp add: pg_cfg_def)
  have "\<exists>F'. ?A (flh_at s P j) = Some F' \<and> set F' = pg_class s xs (insert x D) j" if j: "j < pgp_freelist_count s P" for j
  proof (cases "j = ?i")
    case True
    then show ?thesis using d F(2) by (auto simp: pg_class_def)
  next
    case False
    then have "flh_at s P j \<noteq> flh_at s P ?i" using c(1) i j by (auto simp: pg_cfg_def)
    then show ?thesis using c(3) j False unfolding pg_lists_def pg_class_def by auto
  qed
  then have "pg_lists (s\<lparr>links := h\<rparr>) P ?A xs Z (insert x D)"
    using c(3) h(2,3) ne by (auto simp: pg_lists_def)
  then have "pg_ok (s\<lparr>links := h\<rparr>) P ?A xs Z (insert x D)" using ok by (simp add: pg_ok_def)
  moreover have "unlink_fln junk P x s = Some (0, s\<lparr>links := h\<rparr>)"
    using h(1) x0 by (simp add: unlink_fln_def pg_count_log [OF c(1,2) x(1)])
  ultimately show ?thesis by blast
qed

text \<open>A free node goes onto its list.\<close>

lemma link_fln_ok:
  assumes ok: "pg_ok s P A xs Z (insert x D)" and x: "x \<in> set xs" "pgn_using s x = 0" "x \<notin> D"
  shows "\<exists>h A'. link_fln junk P x s = Some (0, s\<lparr>links := h\<rparr>) \<and> pg_ok (s\<lparr>links := h\<rparr>) P A' xs Z D"
proof -
  let ?i = "clog (pgn_count s x)"
  have c: "pg_cfg s P" "pg_pages s P xs" "pg_lists s P A xs Z (insert x D)" using ok by (simp_all add: pg_ok_def)
  have i: "?i < pgp_freelist_count s P" by (rule pg_idx_less [OF c(1,2) x(1)])
  obtain F where F: "A (flh_at s P ?i) = Some F" "set F = pg_class s xs (insert x D) ?i" using c(3) i unfolding pg_lists_def by blast
  have fam: "dl.family (links s) A" and xm: "x \<notin> dl.members A" and x0: "x \<noteq> 0"
    using c(3) x(1) by (auto simp: pg_lists_def)
  let ?A = "A(flh_at s P ?i := Some (x # F))"
  obtain h0 where h0: "lst_clr x (links s) = Some (0, h0)" "dl.family h0 A" using family_clr [OF fam xm x0] by blast
  obtain h where h: "lst_push_front (flh_at s P ?i) x h0 = Some (0, h)" "dl.family h ?A"
    "dl.members ?A = insert x (dl.members A)"
    using dl.family_push_front [OF h0(2) F(1) xm x0] by blast
  have ne: "flh_at s P ?i \<noteq> free_pgn_list P" using c(1) i by (simp add: pg_cfg_def)
  have "\<exists>F'. ?A (flh_at s P j) = Some F' \<and> set F' = pg_class s xs D j" if j: "j < pgp_freelist_count s P" for j
  proof (cases "j = ?i")
    case True
    then show ?thesis using F(2) x by (auto simp: pg_class_def)
  next
    case False
    then have "flh_at s P j \<noteq> flh_at s P ?i" using c(1) i j by (auto simp: pg_cfg_def)
    then show ?thesis using c(3) j False unfolding pg_lists_def pg_class_def by auto
  qed
  then have "pg_lists (s\<lparr>links := h\<rparr>) P ?A xs Z D"
    using c(3) h(2,3) ne x by (auto simp: pg_lists_def)
  then have "pg_ok (s\<lparr>links := h\<rparr>) P ?A xs Z D" using ok by (simp add: pg_ok_def)
  moreover have "link_fln junk P x s = Some (0, s\<lparr>links := h\<rparr>)"
    using h0(1) h(1) x0 by (simp add: link_fln_def pg_count_log [OF c(1,2) x(1)])
  ultimately show ?thesis by blast
qed

text \<open>The first node of a list leaves it.\<close>

lemma fetch_fln_ok:
  assumes ok: "pg_ok s P A xs Z {}" and i: "i < pgp_freelist_count s P" and F: "A (flh_at s P i) = Some (x # F)"
  shows "\<exists>h A'. fetch_fln P i s = Some (x, s\<lparr>links := h\<rparr>) \<and> pg_ok (s\<lparr>links := h\<rparr>) P A' xs Z {x} \<and>
    x \<in> set xs \<and> pgn_using s x = 0 \<and> clog (pgn_count s x) = i"
proof -
  have c: "pg_cfg s P" "pg_pages s P xs" "pg_lists s P A xs Z {}" using ok by (simp_all add: pg_ok_def)
  have cls: "set (x # F) = pg_class s xs {} i" by (rule pg_class_D [OF c(3) i F])
  then have x: "x \<in> set xs" "pgn_using s x = 0" "clog (pgn_count s x) = i" by (auto simp: pg_class_def)
  have fam: "dl.family (links s) A" using c(3) by (simp add: pg_lists_def)
  let ?A = "A(flh_at s P i := Some F)"
  obtain h where h: "lst_pop_front (flh_at s P i) (links s) = Some (x, h)" "dl.family h ?A"
    "dl.members ?A = dl.members A - {x}"
    using dl.family_pop_front [OF fam F] by blast
  have d: "x \<notin> set F" using dl.family_rep [OF fam F] dl_listD(3) by fastforce
  have ne: "flh_at s P i \<noteq> free_pgn_list P" using c(1) i by (simp add: pg_cfg_def)
  have "\<exists>F'. ?A (flh_at s P j) = Some F' \<and> set F' = pg_class s xs {x} j" if j: "j < pgp_freelist_count s P" for j
  proof (cases "j = i")
    case True
    then show ?thesis using d cls by (auto simp: pg_class_def)
  next
    case False
    then have "flh_at s P j \<noteq> flh_at s P i" using c(1) i j by (auto simp: pg_cfg_def)
    then show ?thesis using c(3) j False x(3) unfolding pg_lists_def pg_class_def by auto
  qed
  then have "pg_lists (s\<lparr>links := h\<rparr>) P ?A xs Z {x}"
    using c(3) h(2,3) ne by (auto simp: pg_lists_def)
  then have "pg_ok (s\<lparr>links := h\<rparr>) P ?A xs Z {x}" using ok by (simp add: pg_ok_def)
  moreover have "fetch_fln P i s = Some (x, s\<lparr>links := h\<rparr>)" using h(1) by (simp add: fetch_fln_def)
  ultimately show ?thesis using x by blast
qed

section \<open>The search tree\<close>

lemma link_rbn_ok:
  assumes t: "pg_tree s P (ys @ zs)" and srt: "key_sorted (pgp_tree s P) (List.map rb_of_pgn (ys @ zs))"
    and z: "rb_of_pgn z \<noteq> 0" "aligned (rb_of_pgn z)" "z \<notin> set (ys @ zs)"
    and lt: "\<forall>y \<in> set ys. get_payload s y < get_payload s z" "\<forall>y \<in> set zs. get_payload s z < get_payload s y"
  shows "\<exists>t'. link_rbn P z s = Some (0, s\<lparr>pgp_tree := (pgp_tree s)(P := t')\<rparr>) \<and>
    pg_tree (s\<lparr>pgp_tree := (pgp_tree s)(P := t')\<rparr>) P (ys @ z # zs)"
proof -
  let ?t = "pgp_tree s P" and ?m = "List.map rb_of_pgn"
  define t1 where "t1 = ?t\<lparr>rb_key := (rb_key ?t)(rb_of_pgn z := 0), rb_lc := (rb_lc ?t)(rb_of_pgn z := 0),
    rb_rc := (rb_rc ?t)(rb_of_pgn z := 0), rb_pw := (rb_pw ?t)(rb_of_pgn z := 0)\<rparr>"
  define t2 where "t2 = t1\<lparr>rb_key := (rb_key t1)(rb_of_pgn z := get_payload s z)\<rparr>"
  have f: "rb_fillnew (rb_of_pgn z) ?t = Some t1" unfolding t1_def by (rule rb_fillnew_eq [OF z(1)])
  have nz: "rb_of_pgn z \<notin> set (?m (ys @ zs))" using z(3) by auto
  have ok0: "rb_ok ?t (?m (ys @ zs))" and cf: "rb_cfunc ?t = None" using t by (simp_all add: pg_tree_def)
  have ok2: "rb_ok t2 (?m (ys @ zs))"
    by (rule rb_ok_cong [OF ok0]) (use nz in \<open>auto simp: t2_def t1_def\<close>)
  have srt2: "key_sorted t2 (?m (ys @ zs))"
    by (rule key_sorted_cong [OF srt]) (use nz in \<open>auto simp: t2_def t1_def\<close>)
  have k2: "rb_key t2 a = (if a = rb_of_pgn z then get_payload s z else rb_key ?t a)" for a
    by (simp add: t2_def t1_def)
  have key: "rb_key t2 (rb_of_pgn y) = get_payload s y" if "y \<in> set (ys @ zs)" for y
    using t that z(3) by (auto simp: k2 pg_tree_def)
  have cf2: "rb_cfunc t2 = None" using cf by (simp add: t2_def t1_def)
  note cmp = compare_default [OF cf2]
  have e0: "compare_key t2 k a = 0 \<longleftrightarrow> rb_key t2 a = k" for k a by (auto simp: cmp)
  have kz: "rb_key t2 (rb_of_pgn z) = get_payload s z" by (simp add: k2)
  have new: "\<forall>a \<in> set (?m (ys @ zs)). compare_key t2 (rb_key t2 (rb_of_pgn z)) a \<noteq> 0"
  proof
    fix a assume "a \<in> set (?m (ys @ zs))"
    then obtain y where y: "y \<in> set (ys @ zs)" "a = rb_of_pgn y" by auto
    then have "get_payload s y \<noteq> get_payload s z" using lt by fastforce
    then show "compare_key t2 (rb_key t2 (rb_of_pgn z)) a \<noteq> 0" using key [OF y(1)] y(2) by (simp only: e0 kz simp_thms)
  qed
  obtain t' as bs where t': "rb_insert (rb_of_pgn z) t2 = Some (0, t')" "?m (ys @ zs) = as @ bs"
    "rb_ok t' (as @ rb_of_pgn z # bs)" "between (compare_key t2 (rb_key t2 (rb_of_pgn z))) as bs"
    "rb_key t' = rb_key t2" "rb_cfunc t' = rb_cfunc t2"
    using rb_insert_spec [OF ok2 z(1,2) nz key_sorted_ordered [OF srt2] new] by blast
  have "?m ys = as \<and> ?m zs = bs"
    by (rule sorted_insert_place [of _ _ _ _ "rb_key t2" "rb_key t2 (rb_of_pgn z)"])
      (use t'(2,4) lt key in \<open>auto simp: between_def cmp kz split: if_splits\<close>)
  then have "rb_ok t' (?m (ys @ z # zs))" using t'(3) by simp
  moreover have "\<forall>x \<in> set (ys @ z # zs). rb_key t' (rb_of_pgn x) = get_payload s x"
    using key k2 t'(5) by auto
  ultimately have "pg_tree (s\<lparr>pgp_tree := (pgp_tree s)(P := t')\<rparr>) P (ys @ z # zs)"
    using t'(6) cf2 by (simp add: pg_tree_def)
  moreover have "link_rbn P z s = Some (0, s\<lparr>pgp_tree := (pgp_tree s)(P := t')\<rparr>)"
    using f t'(1) by (simp add: link_rbn_def on_tree_def t2_def)
  ultimately show ?thesis by blast
qed

lemma unlink_rbn_ok:
  assumes t: "pg_tree s P (ys @ z # zs)"
  shows "\<exists>t'. unlink_rbn P z s = Some ((), s\<lparr>pgp_tree := (pgp_tree s)(P := t')\<rparr>) \<and>
    pg_tree (s\<lparr>pgp_tree := (pgp_tree s)(P := t')\<rparr>) P (ys @ zs)"
proof -
  have ok: "rb_ok (pgp_tree s P) (List.map rb_of_pgn (ys @ z # zs))" using t by (simp add: pg_tree_def)
  have m: "rb_of_pgn z \<in> set (List.map rb_of_pgn (ys @ z # zs))" by simp
  obtain t' where t': "rb_remove_node (rb_of_pgn z) (pgp_tree s P) = Some t'"
    "rb_ok t' (remove1 (rb_of_pgn z) (List.map rb_of_pgn (ys @ z # zs)))"
    "rb_key t' = rb_key (pgp_tree s P)" "rb_cfunc t' = rb_cfunc (pgp_tree s P)"
    using rb_remove_node_spec [OF ok m] by blast
  have "z \<notin> set ys" using pg_tree_distinct [OF t] by simp
  then have "remove1 (rb_of_pgn z) (List.map rb_of_pgn (ys @ z # zs)) = List.map rb_of_pgn (ys @ zs)"
    by (simp add: remove1_append image_iff)
  then show ?thesis using t t' by (auto simp: pg_tree_def unlink_rbn_def on_tree_def)
qed

lemma pg_succ:
  assumes "pg_tree s P (ys @ x # zs)"
  shows "rb_succ (pgp_tree s P) (rb_of_pgn x) = Some (if zs = [] then 0 else rb_of_pgn (hd zs))"
  using rb_succ_spec [of "pgp_tree s P" "List.map rb_of_pgn ys" "rb_of_pgn x" "List.map rb_of_pgn zs"] assms
  by (auto simp: pg_tree_def hd_map)

text \<open>A page address finds the node whose pages start there.\<close>

lemma pgn_from_payload_ok:
  assumes "pg_cfg s P" and "pg_tree s P xs" and "pg_pages s P xs"
  shows "\<exists>x. pgn_from_payload P p s = Some x \<and> (x \<noteq> 0 \<longrightarrow> x \<in> set xs \<and> get_payload s x = p) \<and>
    (x = 0 \<longrightarrow> (\<forall>y \<in> set xs. y \<noteq> 0 \<longrightarrow> get_payload s y \<noteq> p))"
proof -
  let ?t = "pgp_tree s P"
  have ok: "rb_ok ?t (List.map rb_of_pgn xs)" and cf: "rb_cfunc ?t = None"
    and key: "\<And>x. x \<in> set xs \<Longrightarrow> rb_key ?t (rb_of_pgn x) = get_payload s x"
    using assms(2) by (auto simp: pg_tree_def)
  have l: "local_var \<noteq> 0" by (simp add: local_var_def)
  have e0: "compare_key ?t p a = 0 \<longleftrightarrow> rb_key ?t a = p" for a by (auto simp: compare_default [OF cf])
  obtain r h where r: "rb_search ?t p local_var = Some (r, h)"
    "r \<noteq> 0 \<longrightarrow> r \<in> set (List.map rb_of_pgn xs) \<and> compare_key ?t p r = 0"
    "r = 0 \<longrightarrow> (\<forall>a \<in> set (List.map rb_of_pgn xs). compare_key ?t p a \<noteq> 0)"
    using rb_search_spec [OF ok key_sorted_ordered [OF pg_key_sorted [OF assms]] l, of p] by blast
  show ?thesis
  proof (cases "r = 0")
    case True
    then show ?thesis using r key by (auto simp: pgn_from_payload_def e0)
  next
    case False
    then obtain x where x: "x \<in> set xs" "r = rb_of_pgn x" "get_payload s x = p"
      using r(2) key by (auto simp: e0)
    have "\<forall>y \<in> set xs. get_payload s y = p \<longrightarrow> y = x"
    proof (intro ballI impI)
      fix y assume y: "y \<in> set xs" "get_payload s y = p"
      then have "rb_of_pgn y = rb_of_pgn x"
        using key_sorted_unique [OF pg_key_sorted [OF assms], of "rb_of_pgn y" "rb_of_pgn x"] x key by simp
      then show "y = x" by simp
    qed
    moreover have "pgn_from_payload P p s = Some x" using x(2) r(1) False by (simp add: pgn_from_payload_def)
    ultimately show ?thesis using x(1,3) by (intro exI [of _ x]) blast
  qed
qed

section \<open>Finding a node\<close>

definition fits :: "pgp_heap \<Rightarrow> int \<Rightarrow> ptr \<Rightarrow> bool" where
  "fits s n x \<longleftrightarrow> n \<le> pgn_count s x \<and> pgn_using s x = 0"

lemma scan_fln_ok:
  assumes "dl_list (links s) lst (ys @ zs)"
  shows "scan_fln s lst n (hd (zs @ [tail_of lst])) = Some (case List.find (fits s n) zs of None \<Rightarrow> 0 | Some x \<Rightarrow> x)"
  using assms
proof (induction zs arbitrary: ys)
  case Nil
  then show ?case by (simp add: scan_fln.simps)
next
  case (Cons z zs)
  have z: "z \<noteq> 0" "z \<noteq> tail_of lst" using dl_listD [OF Cons.prems] by auto
  have "dl_next (links s) z = hd (zs @ [tail_of lst])" by (rule dl_list_unlink(3) [OF Cons.prems])
  moreover have "scan_fln s lst n (hd (zs @ [tail_of lst])) = Some (case List.find (fits s n) zs of None \<Rightarrow> 0 | Some x \<Rightarrow> x)"
    by (rule Cons.IH [of "ys @ [z]"]) (use Cons.prems in simp)
  ultimately show ?case using z by (subst scan_fln.simps) (simp add: mem_defs fits_def)
qed

text \<open>The search from a size class on finds a node that fits, if there is one in this class or above.\<close>

lemma find_candi_ok:
  assumes ok: "pg_ok s P A xs Z {}"
  shows "\<exists>c. find_candi s P n idx = Some c \<and> (c \<noteq> 0 \<longrightarrow> c \<in> set xs \<and> fits s n c) \<and>
    (c = 0 \<longrightarrow> (\<forall>x \<in> set xs. fits s n x \<longrightarrow> clog (pgn_count s x) < idx))"
proof (induction "unat (pgp_freelist_count s P) - unat idx" arbitrary: idx rule: less_induct)
  case less
  have c: "pg_cfg s P" "pg_pages s P xs" "pg_lists s P A xs Z {}" using ok by (simp_all add: pg_ok_def)
  show ?case
  proof (cases "idx < pgp_freelist_count s P")
    case False
    have "\<forall>x \<in> set xs. clog (pgn_count s x) < idx" using pg_idx_less [OF c(1,2)] False by fastforce
    then show ?thesis using False by (subst find_candi.simps) simp
  next
    case True
    then obtain F where F: "A (flh_at s P idx) = Some F" "set F = pg_class s xs {} idx"
      using c(3) unfolding pg_lists_def by blast
    have l: "dl_list (links s) (flh_at s P idx) F" using c(3) F(1) dl.family_rep by (auto simp: pg_lists_def)
    note ends = dl_list_ends(1) [OF l] dl_listD(1) [OF l]
    have e: "lst_empty (flh_at s P idx) (links s) = Some (F = [])" by (rule lst_empty_ok [OF l])
    define r where "r = (case List.find (fits s n) F of None \<Rightarrow> 0 | Some x \<Rightarrow> x)"
    have scan: "scan_fln s (flh_at s P idx) n (hd (F @ [tail_of (flh_at s P idx)])) = Some r"
      using scan_fln_ok [of s "flh_at s P idx" "[]" F n] l by (simp add: r_def)
    have step: "find_candi s P n idx = (if r \<noteq> 0 then Some r else find_candi s P n (idx + 1))"
      using True e scan ends by (subst find_candi.simps) (cases "F = []"; simp add: mem_defs r_def)
    have F0: "0 \<notin> set F" using dl_listD(6) [OF l] .
    show ?thesis
    proof (cases "r = 0")
      case False
      then obtain x where x: "List.find (fits s n) F = Some x" "r = x" unfolding r_def by (auto split: option.splits)
      then have "x \<in> set F" "fits s n x" by (auto simp: find_Some_iff)
      then show ?thesis using step False x(2) F(2) by (simp add: pg_class_def)
    next
      case True
      have "List.find (fits s n) F = None"
      proof (rule ccontr)
        assume "List.find (fits s n) F \<noteq> None"
        then obtain x where x: "List.find (fits s n) F = Some x" by blast
        then have "x \<in> set F" by (auto simp: find_Some_iff)
        then show False using True F0 x by (auto simp: r_def)
      qed
      then have none: "\<forall>x \<in> set F. \<not> fits s n x" by (simp add: find_None_iff)
      have i: "unat (idx + 1) = Suc (unat idx)"
        using \<open>idx < pgp_freelist_count s P\<close> unat_less [of "pgp_freelist_count s P"]
        by (simp add: word_less_nat_alt unat_word_ariths)
      have "unat (pgp_freelist_count s P) - unat (idx + 1) < unat (pgp_freelist_count s P) - unat idx"
        using \<open>idx < pgp_freelist_count s P\<close> i by (simp add: word_less_nat_alt)
      from less [OF this] obtain c where c': "find_candi s P n (idx + 1) = Some c"
        "c \<noteq> 0 \<longrightarrow> c \<in> set xs \<and> fits s n c"
        "c = 0 \<longrightarrow> (\<forall>x \<in> set xs. fits s n x \<longrightarrow> clog (pgn_count s x) < idx + 1)" by blast
      have "clog (pgn_count s x) < idx" if x: "x \<in> set xs" "fits s n x" and c0: "c = 0" for x
      proof -
        have "clog (pgn_count s x) < idx + 1" using c'(3) c0 x by blast
        then have "unat (clog (pgn_count s x)) < Suc (unat idx)" using i by (simp add: word_less_nat_alt)
        moreover have "clog (pgn_count s x) \<noteq> idx" using none F(2) x by (auto simp: pg_class_def fits_def)
        then have "unat (clog (pgn_count s x)) \<noteq> unat idx" by (simp add: word_unat_eq_iff)
        ultimately show ?thesis by (simp add: word_less_nat_alt)
      qed
      then show ?thesis using step True c' by auto
    qed
  qed
qed

section \<open>Splitting a node\<close>

text \<open>The address some pages into a node.\<close>

lemma payload_at:
  assumes c: "pg_cfg s P" and x: "get_payload s x AND (pgp_pg_size s P - 1) = 0" "pg_end s P x \<le> 2 ^ 64"
    and n: "0 \<le> n" "n < pgn_count s x"
  defines "q \<equiv> get_payload s x + of_int n * pgp_pg_size s P"
  shows "uint q = pg_start s x + n * uint (pgp_pg_size s P)" and "q AND (pgp_pg_size s P - 1) = 0" and "q AND 3 = 0"
proof -
  obtain k where k: "2 \<le> k" "k < 32" "pgp_pg_size s P = 2 ^ k" using c unfolding pg_cfg_def by blast
  have g: "uint (pgp_pg_size s P) = 2 ^ k" using k by (simp add: uint_power_u64)
  let ?v = "pg_start s x + n * 2 ^ k"
  have "n * 2 ^ k < pgn_count s x * 2 ^ k" using n(2) by simp
  moreover have "pg_start s x + pgn_count s x * 2 ^ k \<le> 2 ^ 64" using x(2) unfolding pg_end_def g .
  moreover have "0 \<le> pg_start s x" "0 \<le> n * 2 ^ k" using n(1) by (simp_all add: pg_start_def)
  ultimately have v: "?v < 2 ^ 64" "0 \<le> ?v" by linarith+
  have "q = of_int ?v" using k(3) by (simp add: q_def pg_start_def)
  then have q: "uint q = ?v" using uint_of_int_u64 [OF v(2,1)] by (simp only:)
  then show "uint q = pg_start s x + n * uint (pgp_pg_size s P)" by (simp only: g)
  have "2 ^ k dvd uint (get_payload s x)"
    using x(1) and_mask_dvd [of k "get_payload s x"] by (simp add: k(3) power_minus_1_mask)
  then have d: "2 ^ k dvd uint q" unfolding q by (simp add: pg_start_def)
  then show "q AND (pgp_pg_size s P - 1) = 0" using and_mask_dvd [of k q] by (simp add: k(3) power_minus_1_mask)
  show "q AND 3 = 0" by (rule low_bits_of_page [OF k(1) d])
qed

text \<open>What the split of \<open>x\<close> leaves as it is.\<close>

definition pg_same :: "pgp_heap \<Rightarrow> pgp_heap \<Rightarrow> ptr \<Rightarrow> bool" where
  "pg_same s s' P \<longleftrightarrow> pgp_maxpg_count s' = pgp_maxpg_count s \<and> pgp_freelist_count s' = pgp_freelist_count s \<and>
     pgp_pg_size s' = pgp_pg_size s \<and> pgp_flh s' = pgp_flh s"

lemma pg_same_cfg: "pg_same s s' P \<Longrightarrow> pg_cfg s P \<Longrightarrow> pg_cfg s' P"
  by (simp add: pg_same_def pg_cfg_def flh_at_def)

lemma pg_sum_count: "\<forall>y \<in> set xs. 1 \<le> cnt y \<Longrightarrow> int (length xs) \<le> (\<Sum>y\<leftarrow>xs. cnt y)"
proof (induction xs)
  case (Cons x xs)
  then have "int (length xs) \<le> (\<Sum>y\<leftarrow>xs. cnt y)" "1 \<le> cnt x" by simp_all
  then show ?case by simp
qed simp

lemma split_node_ok:
  assumes ok: "pg_ok s P A (ys @ x # zs) Z {x}" and u: "pgn_using s x = 0" and n: "1 \<le> n" "n < pgn_count s x"
  shows "\<exists>z s' A' Z'. split_node junk P n x s = Some s' \<and> pg_ok s' P A' (ys @ x # z # zs) Z' {x} \<and>
    pg_same s s' P \<and> pgn_count s' x = n \<and> (\<forall>y \<in> set (ys @ zs). pgn_count s' y = pgn_count s y) \<and>
    (\<forall>y \<in> set (ys @ x # zs). pgn_payload s' y = pgn_payload s y) \<and> pgn_using s' z = 0"
proof -
  let ?xs = "ys @ x # zs" and ?ws = "\<lambda>z. ys @ x # z # zs"
  have c: "pg_cfg s P" "pg_tree s P ?xs" "pg_pages s P ?xs" "pg_lists s P A ?xs Z {x}"
    "(\<Sum>y\<leftarrow>?xs. pgn_count s y) \<le> int (length ?xs + length Z)"
    using ok by (simp_all add: pg_ok_def)
  have one: "\<forall>y \<in> set ?xs. 1 \<le> pgn_count s y" using c(3) by (simp add: pg_pages_def)
  have "int (length ys) \<le> (\<Sum>y\<leftarrow>ys. pgn_count s y)" "int (length zs) \<le> (\<Sum>y\<leftarrow>zs. pgn_count s y)"
    using one by (intro pg_sum_count; simp)+
  then have "Z \<noteq> []" using c(5) n by auto
  then obtain z Z' where Z: "Z = z # Z'" by (cases Z) auto
  have fam: "dl.family (links s) A" "A (free_pgn_list P) = Some (z # Z')" using c(4) Z by (simp_all add: pg_lists_def)
  let ?A = "A(free_pgn_list P := Some Z')"
  obtain h1 where h1: "lst_pop_front (free_pgn_list P) (links s) = Some (z, h1)" "dl.family h1 ?A"
    "dl.members ?A = dl.members A - {z}"
    using dl.family_pop_front [OF fam] by blast
  have zm: "z \<in> dl.members A" by (rule dl.members_listI [of A "free_pgn_list P" "z # Z'"]) (simp_all add: fam(2))
  have z: "z \<notin> set ?xs" "z \<noteq> 0" "rb_of_pgn z \<noteq> 0" "aligned (rb_of_pgn z)" "pgn_using s z = 0"
    using pg_spare [OF c(1,3,4), of z] dl.family_0 [OF fam(1)] zm c(4) Z by (auto simp: pg_lists_def)
  have xz: "x \<noteq> z" using z(1) by auto
  define q where "q = get_payload s x + of_int n * pgp_pg_size s P"
  have px: "get_payload s x AND (pgp_pg_size s P - 1) = 0" "pg_end s P x \<le> 2 ^ 64" using c(3) by (simp_all add: pg_pages_def)
  have q: "uint q = pg_start s x + n * uint (pgp_pg_size s P)" "q AND (pgp_pg_size s P - 1) = 0" "q AND 3 = 0"
    using payload_at [OF c(1) px, of n] n unfolding q_def by simp_all
  define s1 where "s1 = s\<lparr>links := h1, pgn_payload := (pgn_payload s)(z := q),
    pgn_count := (pgn_count s)(z := pgn_count s x - n, x := n)\<rparr>"
  have sel: "pgn_payload s1 = (pgn_payload s)(z := q)" "pgn_count s1 = (pgn_count s)(z := pgn_count s x - n, x := n)"
    "pgp_tree s1 = pgp_tree s" "links s1 = h1" "pgp_pg_size s1 = pgp_pg_size s" "pgp_maxpg_count s1 = pgp_maxpg_count s"
    "pgp_freelist_count s1 = pgp_freelist_count s" "flh_at s1 P i = flh_at s P i" for i
    by (simp_all add: s1_def flh_at_def)
  have same1: "pg_same s s1 P" by (simp add: pg_same_def s1_def)
  have cfg1: "pg_cfg s1 P" by (rule pg_same_cfg [OF same1 c(1)])
  have pay: "get_payload s1 y = (if y = z then q else get_payload s y)" for y
  proof -
    have "q AND -4 = q"
    proof -
      have "q = (q AND 3) OR (q AND NOT 3)" by (simp add: bit.conj_disj_distrib [symmetric])
      then show ?thesis using q(3) by simp
    qed
    then show ?thesis by (simp add: get_payload_def sel)
  qed
  have usng: "pgn_using s1 y = (if y = z then 0 else pgn_using s y)" for y using q(3) by (simp add: pgn_using_def sel)
  have st: "pg_start s1 y = (if y = z then uint q else pg_start s y)" for y by (simp add: pg_start_def pay)
  have en: "pg_end s1 P y = (if y = z then pg_end s P x else if y = x then uint q else pg_end s P y)" for y
    using xz by (simp add: pg_end_def sel st q(1) algebra_simps)
  have fetch: "fetch_free_pgn P s = Some (z, s\<lparr>links := h1\<rparr>)" using h1(1) by (simp add: fetch_free_pgn_def)
  have run: "split_node junk P n x s = Option.bind (link_rbn P z s1)
      (\<lambda>(r, s). Option.bind (link_fln junk P z s) (\<lambda>(r, s). Some s))"
    using fetch z(2,5) xz
    by (simp add: split_node_def set_payload_def set_count_def s1_def q_def [symmetric] fun_upd_twist)
  have tree1: "pg_tree s1 P ((ys @ [x]) @ zs)"
    using c(2) z(1) by (auto simp: pg_tree_def sel pay)
  have srt: "key_sorted (pgp_tree s1 P) (List.map rb_of_pgn ((ys @ [x]) @ zs))"
    using pg_key_sorted [OF c(1-3)] by (simp add: sel)
  have sx: "pg_start s x < uint q" "uint q < pg_end s P x"
  proof -
    obtain k where k: "k < 32" "pgp_pg_size s P = 2 ^ k" using c(1) unfolding pg_cfg_def by blast
    have g: "0 < uint (pgp_pg_size s P)" using k by (simp add: uint_power_u64)
    show "pg_start s x < uint q" using q(1) g n(1) by simp
    show "uint q < pg_end s P x" using q(1) g n(2) by (simp add: pg_end_def)
  qed
  have bf: "sorted_wrt (\<lambda>a b. pg_end s P a \<le> pg_start s b) ?xs" "sorted_wrt (\<lambda>a b. pg_start s a < pg_start s b) ?xs"
    using pg_sorted [OF c(1,3)] .
  have lt: "\<forall>y \<in> set (ys @ [x]). get_payload s1 y < get_payload s1 z" "\<forall>y \<in> set zs. get_payload s1 z < get_payload s1 y"
  proof -
    have "pg_start s y < uint q" if "y \<in> set (ys @ [x])" for y
      using that bf(2) sx(1) by (fastforce simp: sorted_wrt_append)
    then show "\<forall>y \<in> set (ys @ [x]). get_payload s1 y < get_payload s1 z"
      using z(1) by (auto simp: pay word_less_def pg_start_def)
    have "uint q < pg_start s y" if "y \<in> set zs" for y
      using that bf(1) sx(2) by (fastforce simp: sorted_wrt_append)
    then show "\<forall>y \<in> set zs. get_payload s1 z < get_payload s1 y"
      using z(1) by (auto simp: pay word_less_def pg_start_def)
  qed
  have z1: "z \<notin> set ((ys @ [x]) @ zs)" using z(1) by simp
  obtain t' where t': "link_rbn P z s1 = Some (0, s1\<lparr>pgp_tree := (pgp_tree s1)(P := t')\<rparr>)"
    "pg_tree (s1\<lparr>pgp_tree := (pgp_tree s1)(P := t')\<rparr>) P ((ys @ [x]) @ z # zs)"
    using link_rbn_ok [OF tree1 srt z(3,4) z1 lt] by blast
  define s2 where "s2 = s1\<lparr>pgp_tree := (pgp_tree s1)(P := t')\<rparr>"
  have pages1: "pg_pages s1 P (?ws z)"
    unfolding pg_pages_def
  proof
    have "chained (pg_start s1) (pg_end s1 P) (ys @ [x]) \<longleftrightarrow> chained (pg_start s) (pg_end s P) (ys @ [x])"
    proof -
      have nx: "x \<notin> set ys" "x \<notin> set zs" using pg_tree_distinct [OF c(2)] by auto
      have "chained (pg_start s1) (pg_end s1 P) ys = chained (pg_start s) (pg_end s P) ys"
        by (rule chained_cong) (use z(1) nx in \<open>auto simp: st en\<close>)
      moreover have "ys \<noteq> [] \<Longrightarrow> last ys \<noteq> z \<and> last ys \<noteq> x" using z(1) nx last_in_set by fastforce
      ultimately show ?thesis using xz by (auto simp: chained_snoc st en)
    qed
    moreover have "chained (pg_start s1) (pg_end s1 P) zs = chained (pg_start s) (pg_end s P) zs"
      by (rule chained_cong) (use z(1) pg_tree_distinct [OF c(2)] in \<open>auto simp: st en\<close>)
    moreover have "zs \<noteq> [] \<Longrightarrow> hd zs \<noteq> z" using z(1) hd_in_set by fastforce
    moreover have "chained (pg_start s) (pg_end s P) (ys @ [x])" "chained (pg_start s) (pg_end s P) (x # zs)"
      using c(3) chained_split [of "pg_start s" "pg_end s P" ys x zs] by (auto simp: pg_pages_def)
    ultimately show "chained (pg_start s1) (pg_end s1 P) (?ws z)"
      using xz by (subst chained_split) (auto simp: chained_Cons st en)
    have "pg_end s1 P y \<le> 2 ^ 64" if "y \<in> set (?ws z)" for y
      using that c(3) px(2) sx(2) z(1) by (auto simp: en pg_pages_def)
    moreover have "get_payload s1 y AND (pgp_pg_size s1 P - 1) = 0" if "y \<in> set (?ws z)" for y
      using that c(3) q(2) by (auto simp: pay pg_pages_def sel)
    moreover have "1 \<le> pgn_count s1 y \<and> pgn_count s1 y \<le> uint (pgp_maxpg_count s1 P)" if "y \<in> set (?ws z)" for y
    proof -
      have "1 \<le> pgn_count s x \<and> pgn_count s x \<le> uint (pgp_maxpg_count s P)" using c(3) by (simp add: pg_pages_def)
      then show ?thesis using that c(3) n by (auto simp: sel pg_pages_def)
    qed
    ultimately show "\<forall>y \<in> set (?ws z). 1 \<le> pgn_count s1 y \<and> pgn_count s1 y \<le> uint (pgp_maxpg_count s1 P) \<and>
        pg_end s1 P y \<le> 2 ^ 64 \<and> get_payload s1 y AND (pgp_pg_size s1 P - 1) = 0" by blast
  qed
  have ne: "free_pgn_list P \<noteq> flh_at s P i" if "i < pgp_freelist_count s P" for i
    using c(1) that by (auto simp: pg_cfg_def)
  have cls: "pg_class s1 (?ws z) (insert z {x}) i = pg_class s ?xs {x} i" for i
    using z(1) by (auto simp: pg_class_def usng sel)
  have lists1: "pg_lists s1 P ?A (?ws z) Z' (insert z {x})"
    using c(4) h1(2,3) z(1,2) ne Z dl_listD(3) [OF dl.family_rep [OF fam]]
    unfolding pg_lists_def cls sel usng by (auto simp: eq_commute [of "flh_at s P _"])
  have sum1: "(\<Sum>y\<leftarrow>?ws z. pgn_count s1 y) \<le> int (length (?ws z) + length Z')"
  proof -
    have nx: "x \<notin> set ys" "x \<notin> set zs" "z \<notin> set ys" "z \<notin> set zs" using pg_tree_distinct [OF c(2)] z(1) by auto
    have "(\<Sum>y\<leftarrow>as. pgn_count s1 y) = (\<Sum>y\<leftarrow>as. pgn_count s y)" if "x \<notin> set as" "z \<notin> set as" for as
      using that by (intro arg_cong [of _ _ sum_list] map_cong) (auto simp: sel)
    then show ?thesis using c(5) nx xz Z by (simp add: sel)
  qed
  have "pg_ok s2 P ?A (?ws z) Z' (insert z {x})"
    using cfg1 t'(2) pages1 lists1 sum1 by (simp add: pg_ok_def s2_def)
  moreover have "pgn_using s2 z = 0" using usng by (simp add: s2_def)
  ultimately obtain h A' where h: "link_fln junk P z s2 = Some (0, s2\<lparr>links := h\<rparr>)" "pg_ok (s2\<lparr>links := h\<rparr>) P A' (?ws z) Z' {x}"
    using link_fln_ok [of s2 P ?A "?ws z" Z' z "{x}" junk] xz by auto
  have "split_node junk P n x s = Some (s2\<lparr>links := h\<rparr>)"
    using run t'(1) h(1) by (simp add: s2_def)
  moreover have "pg_same s (s2\<lparr>links := h\<rparr>) P" using same1 by (simp add: s2_def pg_same_def)
  moreover have "\<forall>y \<in> set (ys @ zs). pgn_count (s2\<lparr>links := h\<rparr>) y = pgn_count s y"
    using z(1) pg_tree_distinct [OF c(2)] by (auto simp: s2_def sel)
  moreover have "pgn_count (s2\<lparr>links := h\<rparr>) x = n" by (simp add: s2_def sel)
  moreover have "\<forall>y \<in> set ?xs. pgn_payload (s2\<lparr>links := h\<rparr>) y = pgn_payload s y" using z(1) by (auto simp: s2_def sel)
  moreover have "pgn_using (s2\<lparr>links := h\<rparr>) z = 0" using usng by (simp add: s2_def)
  ultimately show ?thesis using h(2) by blast
qed

end
