(* ===== verification/Pgpool_Spec.thy ===== *)
theory Pgpool_Spec
  imports Pgpool_Take
begin

text \<open>
  What the page pool promises: regions of pages that do not overlap, each at least as long as asked
  for, which freeing gives back.
\<close>

section \<open>Taking a free node\<close>

lemma pg_count_le:
  assumes "pg_cfg s P" and "is_2power junk (of_int n)" and "1 \<le> n" and "n \<le> uint (pgp_maxpg_count s P)"
    and "1 \<le> c" and "c < 2 ^ 64" and "clog c = clog n"
  shows "n \<le> c"
proof (cases "n = 1")
  case True
  then show ?thesis using assms(5) by simp
next
  case False
  have b: "n < 2 ^ 30" using assms(1,4) by (auto simp: pg_cfg_def)
  have u: "unat (of_int n :: u64) = nat n" using assms(3) b by (intro unat_of_int_u64) auto
  have "2 \<le> unat (of_int n :: u64)" "unat (of_int n :: u64) < 2 ^ 30" using u False assms(3) b by auto
  then obtain k where k: "nat n = 2 ^ k" using is_2power_iff [of "of_int n" junk] assms(2) u by auto
  have "nat n < 2 ^ Suc (unat (clog n))" "2 ^ unat (clog n) \<le> nat n"
    using clog_bounds [of n] assms(3) b by auto
  then have "unat (clog n) = k" using power_two_squeeze [of "unat (clog n)" "nat n" k] k by simp
  moreover have "2 ^ unat (clog c) \<le> nat c" by (rule clog_bounds(1) [OF assms(5,6)])
  ultimately have "nat n \<le> nat c" using k assms(7) by simp
  then show ?thesis using assms(5) by simp
qed

lemma take_free_node_ok:
  assumes ok: "pg_ok s P A xs Z {}" and n: "1 \<le> n" "n < 2 ^ 64"
    and two: "is_2power junk (of_int n) \<Longrightarrow> n \<le> uint (pgp_maxpg_count s P)"
  shows "(\<exists>x s' A' xs' Z'. take_free_node junk P n s = Some (0, x, s') \<and> pg_ok s' P A' xs' Z' {x} \<and> fits s n x \<and>
      x \<in> set xs \<and> set xs \<subseteq> set xs' \<and> pgn_using s' x = 0 \<and> n \<le> pgn_count s' x \<and> pg_same s s' P \<and>
      (\<forall>y \<in> set xs. pgn_payload s' y = pgn_payload s y) \<and> (\<forall>y \<in> set xs - {x}. pgn_count s' y = pgn_count s y) \<and>
      (\<forall>y \<in> set xs' - set xs. pgn_using s' y = 0)) \<or>
    (\<forall>x \<in> set xs. \<not> fits s n x) \<and> take_free_node junk P n s = Some (-1, 0, s)"
proof -
  let ?i = "clog n"
  have c: "pg_cfg s P" "pg_tree s P xs" "pg_pages s P xs" "pg_lists s P A xs Z {}" using ok by (simp_all add: pg_ok_def)
  have lg: "log_2 junk (of_int n) = ?i" by (rule log_2_clog [OF n])
  have i: "?i < pgp_freelist_count s P" if "is_2power junk (of_int n)" by (rule clog_less_count [OF c(1) n(1) two [OF that]])
  have fam: "dl.family (links s) A" using c(4) by (simp add: pg_lists_def)
  obtain F where F: "is_2power junk (of_int n) \<longrightarrow> A (flh_at s P ?i) = Some F"
    using i c(4) unfolding pg_lists_def by blast
  have e: "lst_empty (flh_at s P ?i) (links s) = Some (F = [])" if "is_2power junk (of_int n)"
    using F that by (intro lst_empty_ok [OF dl.family_rep [OF fam]]) blast
  have max64: "uint (pgp_maxpg_count s P) < 2 ^ 64" using c(1) by (auto simp: pg_cfg_def)
  show ?thesis
  proof (cases "is_2power junk (of_int n) \<and> F \<noteq> []")
    case True
    then obtain x F' where x: "F = x # F'" by (cases F) auto
    obtain h A' where h: "fetch_fln P ?i s = Some (x, s\<lparr>links := h\<rparr>)" "pg_ok (s\<lparr>links := h\<rparr>) P A' xs Z {x}"
      "x \<in> set xs" "pgn_using s x = 0" "clog (pgn_count s x) = ?i"
      using fetch_fln_ok [OF ok i] F True x by blast
    have xc: "1 \<le> pgn_count s x" "pgn_count s x \<le> uint (pgp_maxpg_count s P)" using c(3) h(3) by (auto simp: pg_pages_def)
    have nx: "n \<le> pgn_count s x"
      by (rule pg_count_le [OF c(1) _ n(1) two xc(1) _ h(5)]) (use True xc max64 in auto)
    have "x \<noteq> 0" using c(4) h(3) by (auto simp: pg_lists_def)
    then have "take_free_node junk P n s = Some (0, x, s\<lparr>links := h\<rparr>)"
      using True e h(1,4) by (simp add: take_free_node_def lg)
    moreover have "pg_same s (s\<lparr>links := h\<rparr>) P" by (simp add: pg_same_def)
    ultimately show ?thesis using h(2-4) nx unfolding fits_def
      by (intro disjI1 exI [of _ x] exI [of _ "s\<lparr>links := h\<rparr>"] exI [of _ A'] exI [of _ xs] exI [of _ Z]) simp
  next
    case False
    obtain x where x: "find_candi s P n ?i = Some x" "x \<noteq> 0 \<longrightarrow> x \<in> set xs \<and> fits s n x"
      "x = 0 \<longrightarrow> (\<forall>y \<in> set xs. fits s n y \<longrightarrow> clog (pgn_count s y) < ?i)"
      using find_candi_ok [OF ok] by blast
    have tk: "take_free_node junk P n s = (if x = 0 then Some (-1, 0, s)
       else Option.bind (unlink_fln junk P x s) (\<lambda>(r, s).
         Option.bind (if pgn_count s x > n then split_node junk P n x s else Some s) (\<lambda>s. Some (0, x, s))))"
      using False e x(1) by (cases "is_2power junk (of_int n)") (auto simp: take_free_node_def lg Let_def)
    show ?thesis
    proof (cases "x = 0")
      case True
      have "\<not> fits s n y" if y: "y \<in> set xs" for y
      proof
        assume f: "fits s n y"
        have "pgn_count s y < 2 ^ 64" using c(3) y max64 by (auto simp: pg_pages_def)
        then have "?i \<le> clog (pgn_count s y)" using f n(1) by (intro clog_mono) (auto simp: fits_def)
        then show False using x(3) True y f by (auto simp: not_less [symmetric])
      qed
      then show ?thesis using tk True by simp
    next
      case False
      then have m: "x \<in> set xs" "n \<le> pgn_count s x" "pgn_using s x = 0" using x(2) by (simp_all add: fits_def)
      obtain h A' where h: "unlink_fln junk P x s = Some (0, s\<lparr>links := h\<rparr>)" "pg_ok (s\<lparr>links := h\<rparr>) P A' xs Z {x}"
        using unlink_fln_ok [OF ok m(1,3), of junk] by auto
      let ?s = "s\<lparr>links := h\<rparr>"
      show ?thesis
      proof (cases "pgn_count s x > n")
        case False
        then have "take_free_node junk P n s = Some (0, x, ?s)" using tk \<open>x \<noteq> 0\<close> h(1) by simp
        moreover have "pg_same s ?s P" by (simp add: pg_same_def)
        ultimately show ?thesis using h(2) m unfolding fits_def
          by (intro disjI1 exI [of _ x] exI [of _ ?s] exI [of _ A'] exI [of _ xs] exI [of _ Z]) simp
      next
        case True
        obtain ys zs where xs: "xs = ys @ x # zs" using m(1) by (meson split_list)
        have okh: "pg_ok ?s P A' (ys @ x # zs) Z {x}" using h(2) xs by simp
        have uh: "pgn_using ?s x = 0" "n < pgn_count ?s x" using m True by simp_all
        obtain z s' A'' Z' where s': "split_node junk P n x ?s = Some s'" "pg_ok s' P A'' (ys @ x # z # zs) Z' {x}"
          "pg_same ?s s' P" "pgn_count s' x = n" "\<forall>y \<in> set (ys @ zs). pgn_count s' y = pgn_count ?s y"
          "\<forall>y \<in> set (ys @ x # zs). pgn_payload s' y = pgn_payload ?s y" "pgn_using s' z = 0"
          using split_node_ok [OF okh uh(1) n(1) uh(2)] by blast
        have "take_free_node junk P n s = Some (0, x, s')" using tk \<open>x \<noteq> 0\<close> h(1) s'(1) True by simp
        moreover have "pg_same s s' P" using s'(3) by (simp add: pg_same_def)
        moreover have "pgn_using s' x = 0" using s'(6) m(3) by (simp add: pgn_using_def)
        moreover have "set xs \<subseteq> set (ys @ x # z # zs)" "\<forall>y \<in> set (ys @ x # z # zs) - set xs. pgn_using s' y = 0"
          using s'(7) by (auto simp: xs)
        moreover have "\<forall>y \<in> set xs - {x}. pgn_count s' y = pgn_count s y" using s'(5) by (auto simp: xs)
        moreover have "\<forall>y \<in> set xs. pgn_payload s' y = pgn_payload s y" using s'(6) by (auto simp: xs)
        ultimately show ?thesis using s'(2,4) m unfolding fits_def
          by (intro disjI1 exI [of _ x] exI [of _ s'] exI [of _ A''] exI [of _ "ys @ x # z # zs"] exI [of _ Z']) simp
      qed
    qed
  qed
qed

section \<open>Marking a node\<close>

lemma set_using_sel [simp]:
  "links (set_using x v s) = links s" "pgp_tree (set_using x v s) = pgp_tree s"
  "pgn_count (set_using x v s) = pgn_count s" "pgp_pg_size (set_using x v s) = pgp_pg_size s"
  "pgp_maxpg_count (set_using x v s) = pgp_maxpg_count s" "flh_at (set_using x v s) P i = flh_at s P i"
  "pgp_freelist_count (set_using x v s) = pgp_freelist_count s"
  by (simp_all add: set_using_def flh_at_def)

lemma set_using_payload [simp]:
  "get_payload (set_using x v s) y = get_payload s y"
  "pgn_using (set_using x v s) y = (if y = x then v AND 3 else pgn_using s y)"
proof -
  have a: "((w AND - 4) OR (v AND 3)) AND - 4 = w AND (- 4 :: u64)" for w
    by (simp add: bit.conj_disj_distrib2 and.assoc)
  have b: "((w AND - 4) OR (v AND 3)) AND 3 = v AND (3 :: u64)" for w
    by (simp add: bit.conj_disj_distrib2 and.assoc)
  show "get_payload (set_using x v s) y = get_payload s y" by (simp add: get_payload_def set_using_def a)
  show "pgn_using (set_using x v s) y = (if y = x then v AND 3 else pgn_using s y)"
    by (simp add: pgn_using_def set_using_def b)
qed

lemma set_using_pg [simp]:
  "pg_start (set_using x v s) = pg_start s" "pg_end (set_using x v s) P = pg_end s P"
  "pg_cfg (set_using x v s) P \<longleftrightarrow> pg_cfg s P" "pg_tree (set_using x v s) P xs \<longleftrightarrow> pg_tree s P xs"
  "pg_pages (set_using x v s) P xs \<longleftrightarrow> pg_pages s P xs"
proof -
  show st: "pg_start (set_using x v s) = pg_start s" by (simp add: pg_start_def fun_eq_iff)
  show en: "pg_end (set_using x v s) P = pg_end s P" by (simp add: pg_end_def st fun_eq_iff)
  show "pg_cfg (set_using x v s) P \<longleftrightarrow> pg_cfg s P" "pg_tree (set_using x v s) P xs \<longleftrightarrow> pg_tree s P xs"
    "pg_pages (set_using x v s) P xs \<longleftrightarrow> pg_pages s P xs"
    by (simp_all add: pg_cfg_def pg_tree_def pg_pages_def st en)
qed

text \<open>A detached node is handed out, and a used one is taken back.\<close>

lemma use_ok:
  assumes ok: "pg_ok s P A xs Z {x}" and x: "x \<in> set xs" shows "pg_ok (set_using x 1 s) P A xs Z {}"
proof -
  have c: "pg_cfg s P" "pg_pages s P xs" "pg_lists s P A xs Z {x}" using ok by (simp_all add: pg_ok_def)
  have "pg_class (set_using x 1 s) xs {} i = pg_class s xs {x} i" for i by (auto simp: pg_class_def)
  moreover have "x \<notin> set Z" using pg_spare [OF c] x by blast
  ultimately have "pg_lists (set_using x 1 s) P A xs Z {}" using c(3) x by (auto simp: pg_lists_def)
  then show ?thesis using ok by (simp add: pg_ok_def)
qed

lemma unuse_ok:
  assumes ok: "pg_ok s P A xs Z {}" and x: "x \<in> set xs" "pgn_using s x \<noteq> 0"
  shows "pg_ok (set_using x 0 s) P A xs Z {x}"
proof -
  have c: "pg_cfg s P" "pg_pages s P xs" "pg_lists s P A xs Z {}" using ok by (simp_all add: pg_ok_def)
  have "pg_class (set_using x 0 s) xs {x} i = pg_class s xs {} i" for i using x by (auto simp: pg_class_def)
  moreover have "x \<notin> set Z" using pg_spare [OF c] x by blast
  ultimately have "pg_lists (set_using x 0 s) P A xs Z {x}" using c(3) x by (auto simp: pg_lists_def)
  then show ?thesis using ok by (simp add: pg_ok_def)
qed

section \<open>Merging with the successors\<close>

lemma merge_adjacent:
  assumes c: "pg_cfg s P" and p: "pg_pages s P (ys @ x # z # zs)"
  shows "get_payload s z = get_payload s x + of_int (pgn_count s x) * pgp_pg_size s P"
proof -
  have "chained (pg_start s) (pg_end s P) (x # z # zs)"
    using p chained_split [of "pg_start s" "pg_end s P" ys x "z # zs"] by (simp add: pg_pages_def)
  then have e: "uint (get_payload s z) = uint (get_payload s x) + pgn_count s x * uint (pgp_pg_size s P)"
    by (simp add: pg_end_def pg_start_def)
  have "get_payload s z = of_int (uint (get_payload s z))" by simp
  also have "\<dots> = get_payload s x + of_int (pgn_count s x) * pgp_pg_size s P" unfolding e by simp
  finally show ?thesis .
qed

lemma merge_free_node_ok:
  assumes ok: "pg_ok s P A (ys @ x # z # zs) Z {x}" and u: "pgn_using s z = 0"
    and small: "pgn_count s x + pgn_count s z \<le> uint (pgp_maxpg_count s P)"
  shows "\<exists>s' A' Z'. merge_free_node junk P x z s = Some (0, s') \<and> pg_ok s' P A' (ys @ x # zs) Z' {x} \<and>
    pg_same s s' P \<and> pgn_payload s' = pgn_payload s \<and> pgn_count s' = (pgn_count s)(x := pgn_count s x + pgn_count s z)"
proof -
  let ?xs = "ys @ x # z # zs" and ?ws = "ys @ x # zs"
  have dist: "distinct ?xs" using ok pg_tree_distinct unfolding pg_ok_def by blast
  have xz: "z \<noteq> x" "z \<in> set ?xs" "z \<notin> {x}" using dist by auto
  obtain h A1 where h: "unlink_fln junk P z s = Some (0, s\<lparr>links := h\<rparr>)" "pg_ok (s\<lparr>links := h\<rparr>) P A1 ?xs Z {z, x}"
    using unlink_fln_ok [OF ok xz(2) u xz(3), of junk] by auto
  have c: "pg_cfg s P" "pg_tree s P ?xs" "pg_pages s P ?xs" using ok by (simp_all add: pg_ok_def)
  have t: "pg_tree (s\<lparr>links := h\<rparr>) P ((ys @ [x]) @ z # zs)" using c(2) by simp
  obtain t' where t': "unlink_rbn P z (s\<lparr>links := h\<rparr>) = Some ((), s\<lparr>links := h, pgp_tree := (pgp_tree s)(P := t')\<rparr>)"
    "pg_tree (s\<lparr>links := h, pgp_tree := (pgp_tree s)(P := t')\<rparr>) P ((ys @ [x]) @ zs)"
    using unlink_rbn_ok [OF t] by auto
  have l1: "pg_lists (s\<lparr>links := h\<rparr>) P A1 ?xs Z {z, x}" using h(2) by (simp add: pg_ok_def)
  have fam: "dl.family h A1" "A1 (free_pgn_list P) = Some Z" "z \<notin> dl.members A1" "z \<noteq> 0"
    using l1 by (auto simp: pg_lists_def)
  let ?A = "A1(free_pgn_list P := Some (z # Z))"
  obtain h2 where h2: "lst_push_front (free_pgn_list P) z h = Some (0, h2)" "dl.family h2 ?A"
    "dl.members ?A = insert z (dl.members A1)"
    using dl.family_push_front [OF fam] by blast
  define s' where "s' = s\<lparr>links := h2, pgp_tree := (pgp_tree s)(P := t'),
    pgn_count := (pgn_count s)(x := pgn_count s x + pgn_count s z)\<rparr>"
  have "merge_free_node junk P x z s = Some (0, s')"
    using merge_adjacent [OF c(1,3)] h(1) t'(1) h2(1)
    by (simp add: merge_free_node_def return_free_pgn_def set_count_def s'_def)
  moreover have same: "pg_same s s' P" by (simp add: pg_same_def s'_def)
  have sel: "pgn_payload s' = pgn_payload s" "pgn_count s' = (pgn_count s)(x := pgn_count s x + pgn_count s z)"
    "pgp_pg_size s' = pgp_pg_size s" "pgp_maxpg_count s' = pgp_maxpg_count s" "links s' = h2"
    "pgp_freelist_count s' = pgp_freelist_count s" "flh_at s' P i = flh_at s P i" "pgp_tree s' = (pgp_tree s)(P := t')" for i
    by (simp_all add: s'_def flh_at_def)
  have pay: "get_payload s' = get_payload s" "pgn_using s' = pgn_using s" by (simp_all add: fun_eq_iff get_payload_def pgn_using_def sel)
  have st: "pg_start s' = pg_start s" by (simp add: fun_eq_iff pg_start_def pay)
  have ch: "chained (pg_start s) (pg_end s P) (ys @ [x])" "chained (pg_start s) (pg_end s P) (x # z # zs)"
    using c(3) chained_split [of "pg_start s" "pg_end s P" ys x "z # zs"] by (auto simp: pg_pages_def)
  have en: "pg_end s' P y = (if y = x then pg_end s P z else pg_end s P y)" for y
  proof -
    have "pg_start s z = pg_end s P x" using ch(2) by simp
    then show ?thesis by (simp add: pg_end_def sel st algebra_simps)
  qed
  have "pg_cfg s' P" by (rule pg_same_cfg [OF same c(1)])
  moreover have "pg_tree s' P ?ws" using t'(2) by (simp add: pg_tree_def sel pay get_payload_def)
  moreover have "pg_pages s' P ?ws"
    unfolding pg_pages_def
  proof
    have "chained (pg_start s') (pg_end s' P) ys = chained (pg_start s) (pg_end s P) ys"
      by (rule chained_cong) (use dist in \<open>auto simp: st en\<close>)
    moreover have "ys \<noteq> [] \<Longrightarrow> last ys \<noteq> x" using dist last_in_set by fastforce
    moreover have "chained (pg_start s') (pg_end s' P) zs = chained (pg_start s) (pg_end s P) zs"
      by (rule chained_cong) (use dist in \<open>auto simp: st en\<close>)
    ultimately show "chained (pg_start s') (pg_end s' P) ?ws"
      using ch by (subst chained_split) (auto simp: chained_Cons chained_snoc st en)
    show "\<forall>y \<in> set ?ws. 1 \<le> pgn_count s' y \<and> pgn_count s' y \<le> uint (pgp_maxpg_count s' P) \<and>
        pg_end s' P y \<le> 2 ^ 64 \<and> get_payload s' y AND (pgp_pg_size s' P - 1) = 0"
    proof
      fix y assume y: "y \<in> set ?ws"
      show "1 \<le> pgn_count s' y \<and> pgn_count s' y \<le> uint (pgp_maxpg_count s' P) \<and>
        pg_end s' P y \<le> 2 ^ 64 \<and> get_payload s' y AND (pgp_pg_size s' P - 1) = 0"
      proof (cases "y = x")
        case True
        have "1 \<le> pgn_count s x" "1 \<le> pgn_count s z" "pg_end s P z \<le> 2 ^ 64"
          "get_payload s x AND (pgp_pg_size s P - 1) = 0"
          using c(3) by (simp_all add: pg_pages_def)
        then show ?thesis using True small by (simp add: sel pay en)
      next
        case False
        then show ?thesis using y c(3) by (auto simp: sel pay en pg_pages_def)
      qed
    qed
  qed
  moreover have "pg_lists s' P ?A ?ws (z # Z) {x}"
  proof -
    have "pg_class s' ?ws {x} i = pg_class s ?xs {z, x} i" for i using dist by (auto simp: pg_class_def sel pay)
    moreover have "flh_at s P i \<noteq> free_pgn_list P" if "i < pgp_freelist_count s P" for i
      using c(1) that by (auto simp: pg_cfg_def)
    moreover have "rb_of_pgn z \<noteq> 0" "aligned (rb_of_pgn z)"
      using c(2) rb_okD(2,3) [of "pgp_tree s P" "List.map rb_of_pgn ?xs"] by (auto simp: pg_tree_def)
    ultimately show ?thesis using l1 h2(2,3) u dist by (auto simp: pg_lists_def sel pay)
  qed
  moreover have "(\<Sum>y\<leftarrow>?ws. pgn_count s' y) \<le> int (length ?ws + length (z # Z))"
  proof -
    have "(\<Sum>y\<leftarrow>as. pgn_count s' y) = (\<Sum>y\<leftarrow>as. pgn_count s y)" if "x \<notin> set as" for as
      using that by (intro arg_cong [of _ _ sum_list] map_cong) (auto simp: sel)
    then show ?thesis using ok dist by (simp add: sel pg_ok_def)
  qed
  ultimately have "pg_ok s' P ?A ?ws (z # Z) {x}" by (simp add: pg_ok_def)
  then show ?thesis using \<open>merge_free_node junk P x z s = Some (0, s')\<close> same sel(1,2) by auto
qed

lemma merge_loop_ok:
  assumes "pg_ok s P A (ys @ x # zs) Z {x}"
  shows "\<exists>s' A' Z' ws zs'. merge_loop junk P x (if zs = [] then 0 else rb_of_pgn (hd zs)) 0 s = Some s' \<and>
    pg_ok s' P A' (ys @ x # zs') Z' {x} \<and> zs = ws @ zs' \<and> (\<forall>w \<in> set ws. pgn_using s w = 0) \<and>
    pg_same s s' P \<and> pgn_payload s' = pgn_payload s \<and> pgn_count s' = (pgn_count s)(x := pgn_count s x + (\<Sum>w\<leftarrow>ws. pgn_count s w)) \<and>
    (zs' \<noteq> [] \<longrightarrow> pgn_using s (hd zs') \<noteq> 0 \<or> uint (pgp_maxpg_count s P) < pgn_count s' x + pgn_count s (hd zs'))"
  using assms
proof (induction zs arbitrary: s A Z)
  case Nil
  then show ?case
    by (intro exI [of _ s] exI [of _ A] exI [of _ Z] exI [of _ "[]"]) (simp add: merge_loop.simps pg_same_def)
next
  case (Cons z zs)
  have c: "pg_cfg s P" "pg_tree s P (ys @ x # z # zs)" "pg_pages s P (ys @ x # z # zs)"
    using Cons.prems by (simp_all add: pg_ok_def)
  have r0: "rb_of_pgn z \<noteq> 0"
    using c(2) rb_okD(2) [of "pgp_tree s P" "List.map rb_of_pgn (ys @ x # z # zs)"] by (auto simp: pg_tree_def)
  let ?sum = "pgn_count s x + pgn_count s z"
  have sum: "0 \<le> ?sum" "?sum < 2 ^ 64"
    using c(1,3) by (auto simp: pg_pages_def pg_cfg_def)
  have "(of_int ?sum :: u64) > pgp_maxpg_count s P \<longleftrightarrow> uint (pgp_maxpg_count s P) < ?sum"
    unfolding word_less_def uint_of_int_u64 [OF sum] ..
  then have big: "pgp_maxpg_count s P < of_int (pgn_count s x) + of_int (pgn_count s z) \<longleftrightarrow>
      uint (pgp_maxpg_count s P) < ?sum" by simp
  show ?case
  proof (cases "pgn_using s z \<noteq> 0 \<or> uint (pgp_maxpg_count s P) < ?sum")
    case True
    then have "merge_loop junk P x (rb_of_pgn z) 0 s = Some s"
      using r0 by (subst merge_loop.simps) (simp add: big Let_def)
    then show ?thesis using Cons.prems True
      by (intro exI [of _ s] exI [of _ A] exI [of _ Z] exI [of _ "[]"] exI [of _ "z # zs"]) (simp add: pg_same_def)
  next
    case False
    obtain s1 A1 Z1 where s1: "merge_free_node junk P x z s = Some (0, s1)" "pg_ok s1 P A1 (ys @ x # zs) Z1 {x}"
      "pg_same s s1 P" "pgn_payload s1 = pgn_payload s" "pgn_count s1 = (pgn_count s)(x := ?sum)"
      using merge_free_node_ok [OF Cons.prems, of junk] False by (auto simp: not_less)
    have "rb_succ (pgp_tree s1 P) (rb_of_pgn x) = Some (if zs = [] then 0 else rb_of_pgn (hd zs))"
      by (rule pg_succ [of _ _ ys]) (use s1(2) in \<open>simp add: pg_ok_def\<close>)
    then have "merge_loop junk P x (rb_of_pgn z) 0 s = merge_loop junk P x (if zs = [] then 0 else rb_of_pgn (hd zs)) 0 s1"
      using r0 s1(1) False by (subst merge_loop.simps) (simp add: big Let_def)
    moreover obtain s' A' Z' ws zs' where IH:
      "merge_loop junk P x (if zs = [] then 0 else rb_of_pgn (hd zs)) 0 s1 = Some s'"
      "pg_ok s' P A' (ys @ x # zs') Z' {x}" "zs = ws @ zs'" "\<forall>w \<in> set ws. pgn_using s1 w = 0"
      "pg_same s1 s' P" "pgn_payload s' = pgn_payload s1"
      "pgn_count s' = (pgn_count s1)(x := pgn_count s1 x + (\<Sum>w\<leftarrow>ws. pgn_count s1 w))"
      "zs' \<noteq> [] \<longrightarrow> pgn_using s1 (hd zs') \<noteq> 0 \<or> uint (pgp_maxpg_count s1 P) < pgn_count s' x + pgn_count s1 (hd zs')"
      using Cons.IH [OF s1(2)] by blast
    moreover have us: "pgn_using s1 w = pgn_using s w" for w by (simp add: pgn_using_def s1(4))
    moreover have "distinct (ys @ x # z # zs)" using c(2) by (rule pg_tree_distinct)
    then have other: "pgn_count s1 w = pgn_count s w" if "w \<in> set zs" for w using that s1(5) by auto
    have mp: "List.map (pgn_count s1) ws = List.map (pgn_count s) ws" using other IH(3) by (intro map_cong) simp_all
    have c1: "pgn_count s1 x = ?sum" "\<And>y. y \<noteq> x \<Longrightarrow> pgn_count s1 y = pgn_count s y" using s1(5) by simp_all
    have "pgn_count s' = (pgn_count s)(x := pgn_count s x + (\<Sum>w\<leftarrow>z # ws. pgn_count s w))"
      unfolding IH(7) by (simp add: fun_eq_iff c1 mp)
    moreover have "zs' \<noteq> [] \<longrightarrow> pgn_using s (hd zs') \<noteq> 0 \<or> uint (pgp_maxpg_count s P) < pgn_count s' x + pgn_count s (hd zs')"
      using IH(8) s1(3) us other IH(3) by (cases zs') (auto simp: pg_same_def)
    ultimately show ?thesis using s1(3,4) False
      by (intro exI [of _ s'] exI [of _ A'] exI [of _ Z'] exI [of _ "z # ws"] exI [of _ zs']) (simp add: pg_same_def)
  qed
qed

section \<open>Allocation and release\<close>

text \<open>The regions handed out: start and number of pages.\<close>

definition pg_used :: "pgp_heap \<Rightarrow> ptr list \<Rightarrow> (u64 \<times> int) set" where
  "pg_used s xs = (\<lambda>x. (get_payload s x, pgn_count s x)) ` {x \<in> set xs. pgn_using s x \<noteq> 0}"

definition pg_need :: "pgp_heap \<Rightarrow> ptr \<Rightarrow> u64 \<Rightarrow> int" where
  "pg_need s P sz = (uint sz + uint (pgp_pg_size s P) - 1) div uint (pgp_pg_size s P)"

lemma int_less_div_mult: "0 < (m :: int) \<Longrightarrow> a < (a div m + 1) * m"
proof -
  assume "0 < m"
  then have "a mod m < m" by (rule pos_mod_bound)
  then show "a < (a div m + 1) * m" using div_mult_mod_eq [of a m] by (simp only: distrib_right mult_1)
qed

lemma pg_need_small:
  assumes c: "pg_cfg s P" and le: "pg_need s P sz \<le> uint (pgp_maxpg_count s P)"
  shows "uint sz + uint (pgp_pg_size s P) \<le> 2 ^ 63"
proof -
  obtain k where k: "k < 32" "pgp_pg_size s P = 2 ^ k" using c unfolding pg_cfg_def by blast
  have g: "uint (pgp_pg_size s P) = 2 ^ k" using k by (simp add: uint_power_u64)
  have "(uint sz + 2 ^ k - 1) div 2 ^ k < 2 ^ 30" using c le unfolding pg_need_def g by (simp add: pg_cfg_def)
  moreover have "uint sz + 2 ^ k - 1 < ((uint sz + 2 ^ k - 1) div 2 ^ k + 1) * 2 ^ k" by (rule int_less_div_mult) simp
  ultimately have "uint sz + 2 ^ k - 1 < 2 ^ 30 * 2 ^ k"
    by (meson add1_zle_eq less_le_trans mult_right_mono zero_le_numeral zero_le_power)
  moreover have "(2 :: int) ^ k \<le> 2 ^ 32" using k(1) by (intro power_increasing) simp_all
  ultimately show ?thesis unfolding g by simp
qed

lemma pg_count_of_size:
  assumes c: "pg_cfg s P" and le: "uint sz + uint (pgp_pg_size s P) \<le> 2 ^ 63"
  shows "sint (round_up sz (pgp_pg_size s P) div pgp_pg_size s P) = pg_need s P sz" and "pg_need s P sz < 2 ^ 63"
proof -
  obtain k where k: "k < 32" "pgp_pg_size s P = 2 ^ k" using c unfolding pg_cfg_def by blast
  let ?v = "unat sz + (2 ^ k - 1)"
  have g: "uint (pgp_pg_size s P) = 2 ^ k" using k by (simp add: uint_power_u64)
  have ug: "unat (pgp_pg_size s P) = 2 ^ k" using g by (simp only: unat_eq_nat_uint nat_power_eq) simp
  have need: "pg_need s P sz = int (?v div 2 ^ k)"
  proof -
    have "int (2 ^ k - 1) = 2 ^ k - 1" by (simp add: of_nat_diff)
    then have "uint sz + 2 ^ k - 1 = int ?v" by (simp only: of_nat_add) simp
    then show ?thesis unfolding pg_need_def g by (simp only: of_nat_div of_nat_power of_nat_numeral)
  qed
  have "int (unat sz) + 2 ^ k \<le> 2 ^ 63" using le unfolding g by simp
  moreover have "int (2 ^ k) = 2 ^ k" by simp
  ultimately have "int (unat sz + 2 ^ k) \<le> int (2 ^ 63)" by (simp only: of_nat_add of_nat_power of_nat_numeral)
  then have "unat sz + 2 ^ k \<le> 2 ^ 63" by (simp only: of_nat_le_iff)
  moreover have "(1 :: nat) \<le> 2 ^ k" by simp
  ultimately have v63: "?v < 2 ^ 63" by linarith
  then have v: "?v < 2 ^ 64" by simp
  have q: "?v div 2 ^ k < 2 ^ 63" by (rule le_less_trans [OF div_le_dividend v63])
  have "unat (round_up sz (pgp_pg_size s P)) = ?v - ?v mod 2 ^ k"
    unfolding k(2) by (rule unat_round_up [OF _ v]) (use k(1) in simp)
  then have "unat (round_up sz (pgp_pg_size s P) div pgp_pg_size s P) = (?v - ?v mod 2 ^ k) div 2 ^ k"
    by (simp only: unat_div ug)
  also have "\<dots> = ?v div 2 ^ k" by (simp add: minus_mod_eq_mult_div)
  finally have u: "uint (round_up sz (pgp_pg_size s P) div pgp_pg_size s P) = int (?v div 2 ^ k)" by (simp only: uint_nat)
  have l: "int (?v div 2 ^ k) < int (2 ^ 63)" using q by (simp only: of_nat_less_iff)
  then show "pg_need s P sz < 2 ^ 63" unfolding need by simp
  have "uint (round_up sz (pgp_pg_size s P) div pgp_pg_size s P) < 2 ^ 63" unfolding u using l by simp
  then show "sint (round_up sz (pgp_pg_size s P) div pgp_pg_size s P) = pg_need s P sz"
    unfolding need using sint_eq_uint_small u by simp
qed

lemma pg_need_pos: "pg_cfg s P \<Longrightarrow> sz \<noteq> 0 \<Longrightarrow> 1 \<le> pg_need s P sz"
proof -
  assume a: "pg_cfg s P" "sz \<noteq> 0"
  obtain k where k: "k < 32" "pgp_pg_size s P = 2 ^ k" using a(1) unfolding pg_cfg_def by blast
  have g: "uint (pgp_pg_size s P) = 2 ^ k" using k by (simp add: uint_power_u64)
  have "0 < uint sz" using a(2) by (simp add: word_neq_0_conv word_less_def)
  then have "(2 :: int) ^ k div 2 ^ k \<le> pg_need s P sz" unfolding pg_need_def g by (intro zdiv_mono1) simp_all
  then show ?thesis by simp
qed

lemma pg_ok_counters [simp]:
  "pg_ok (s\<lparr>pgp_alloc_count := a\<rparr>) P A xs Z D = pg_ok s P A xs Z D"
  "pg_ok (s\<lparr>pgp_free_count := a\<rparr>) P A xs Z D = pg_ok s P A xs Z D"
  "pg_used (s\<lparr>pgp_alloc_count := a\<rparr>) xs = pg_used s xs" "pg_used (s\<lparr>pgp_free_count := a\<rparr>) xs = pg_used s xs"
proof -
  have st: "pg_start (s\<lparr>pgp_alloc_count := a\<rparr>) = pg_start s" "pg_start (s\<lparr>pgp_free_count := a\<rparr>) = pg_start s"
    by (simp_all add: fun_eq_iff pg_start_def get_payload_def)
  have en: "pg_end (s\<lparr>pgp_alloc_count := a\<rparr>) P = pg_end s P" "pg_end (s\<lparr>pgp_free_count := a\<rparr>) P = pg_end s P"
    by (simp_all add: fun_eq_iff pg_end_def st)
  show "pg_ok (s\<lparr>pgp_alloc_count := a\<rparr>) P A xs Z D = pg_ok s P A xs Z D"
    "pg_ok (s\<lparr>pgp_free_count := a\<rparr>) P A xs Z D = pg_ok s P A xs Z D"
    by (simp_all add: pg_ok_def pg_cfg_def pg_tree_def pg_pages_def pg_lists_def pg_class_def flh_at_def st en
        get_payload_def pgn_using_def)
  show "pg_used (s\<lparr>pgp_alloc_count := a\<rparr>) xs = pg_used s xs" "pg_used (s\<lparr>pgp_free_count := a\<rparr>) xs = pg_used s xs"
    by (simp_all add: pg_used_def get_payload_def pgn_using_def)
qed

lemma pg_used_apart:
  assumes "pg_cfg s P" and "pg_pages s P xs" and "x \<in> set xs" and "pgn_using s x = 0" and "(q, d) \<in> pg_used s xs"
  shows "pg_end s P x \<le> uint q \<or> uint q + d * uint (pgp_pg_size s P) \<le> uint (get_payload s x)"
proof -
  obtain y where y: "y \<in> set xs" "pgn_using s y \<noteq> 0" "q = get_payload s y" "d = pgn_count s y"
    using assms(5) unfolding pg_used_def by auto
  then have "x \<noteq> y" using assms(4) by auto
  then show ?thesis using pg_disjoint [OF assms(1-3) y(1)] y by (auto simp: pg_end_def pg_start_def)
qed

lemma take_used:
  assumes tk: "pg_ok s' P A' xs' Z' {x}" "x \<in> set xs" "set xs \<subseteq> set xs'" "pgn_using s' x = 0"
    "\<forall>y \<in> set xs. pgn_payload s' y = pgn_payload s y" "\<forall>y \<in> set xs - {x}. pgn_count s' y = pgn_count s y"
    "\<forall>y \<in> set xs' - set xs. pgn_using s' y = 0"
  shows "pg_used s' xs' = pg_used s xs"
    and "pg_used (set_using x 1 s') xs' = insert (get_payload s' x, pgn_count s' x) (pg_used s xs)"
proof -
  have same: "get_payload s' y = get_payload s y" "pgn_using s' y = pgn_using s y" if "y \<in> set xs" for y
    using tk(5) that by (simp_all add: get_payload_def pgn_using_def)
  have set_eq: "{y \<in> set xs'. pgn_using s' y \<noteq> 0} = {y \<in> set xs. pgn_using s y \<noteq> 0}"
    using tk(3,7) same(2) by auto
  have nx: "pgn_using s x = 0" using same(2) [OF tk(2)] tk(4) by simp
  show u: "pg_used s' xs' = pg_used s xs"
    unfolding pg_used_def set_eq
  proof (rule image_cong [OF refl])
    fix y assume "y \<in> {y \<in> set xs. pgn_using s y \<noteq> 0}"
    then have "y \<in> set xs" "y \<noteq> x" using nx by auto
    then show "(get_payload s' y, pgn_count s' y) = (get_payload s y, pgn_count s y)" using same(1) tk(6) by auto
  qed
  have e: "{y \<in> set xs'. pgn_using (set_using x 1 s') y \<noteq> 0} = insert x {y \<in> set xs'. pgn_using s' y \<noteq> 0}"
    using tk(2,3) by auto
  show "pg_used (set_using x 1 s') xs' = insert (get_payload s' x, pgn_count s' x) (pg_used s xs)"
    unfolding u [symmetric] unfolding pg_used_def e by simp
qed

lemma pgp_alloc_ok:
  assumes "pg_ok s P A xs Z {}" and "pgp_handle P \<noteq> 0" and "sz \<noteq> 0"
    and "uint sz + uint (pgp_pg_size s P) \<le> 2 ^ 63"
    and "pg_need s P sz \<le> uint (pgp_maxpg_count s P) \<or> \<not> is_2power junk (of_int (pg_need s P sz))"
  shows "if \<exists>x \<in> set xs. pgn_using s x = 0 \<and> pg_need s P sz \<le> pgn_count s x
    then \<exists>p c s' A' xs' Z'. pgp_alloc junk (pgp_handle P) sz s = Some (p, s') \<and> pg_ok s' P A' xs' Z' {} \<and>
      pg_need s P sz \<le> c \<and> pg_used s' xs' = insert (p, c) (pg_used s xs) \<and>
      (\<forall>(q, d) \<in> pg_used s xs. uint p + c * uint (pgp_pg_size s P) \<le> uint q \<or>
         uint q + d * uint (pgp_pg_size s P) \<le> uint p)
    else pgp_alloc junk (pgp_handle P) sz s = Some (0, s)"
proof -
  have c: "pg_cfg s P" using assms(1) by (simp add: pg_ok_def)
  have g0: "pgp_pg_size s P \<noteq> 0"
  proof -
    obtain k where "k < 32" "pgp_pg_size s P = 2 ^ k" using c unfolding pg_cfg_def by blast
    then show ?thesis by simp
  qed
  let ?n = "pg_need s P sz"
  have n64: "?n < 2 ^ 64" using pg_count_of_size(2) [OF c assms(4)] by simp
  have pc: "pgp_alloc junk (pgp_handle P) sz s = Option.bind (take_free_node junk P ?n s) (\<lambda>(rslt, pgn, s).
     if rslt < 0 \<or> pgn = 0 then Some (0, s)
     else let payload = get_payload s pgn; s = set_using pgn 1 s
       in Some (payload, s\<lparr>pgp_alloc_count := (pgp_alloc_count s)(P := pgp_alloc_count s P + 1)\<rparr>))"
    using assms(2) g0 by (simp add: pgp_alloc_def pg_count_of_size(1) [OF c assms(4)])
  consider (took) x s' A' xs' Z' where "take_free_node junk P ?n s = Some (0, x, s')" "pg_ok s' P A' xs' Z' {x}"
      "x \<in> set xs" "fits s ?n x" "set xs \<subseteq> set xs'" "pgn_using s' x = 0" "?n \<le> pgn_count s' x" "pg_same s s' P"
      "\<forall>y \<in> set xs. pgn_payload s' y = pgn_payload s y" "\<forall>y \<in> set xs - {x}. pgn_count s' y = pgn_count s y"
      "\<forall>y \<in> set xs' - set xs. pgn_using s' y = 0"
    | (none) "\<forall>x \<in> set xs. \<not> fits s ?n x" "take_free_node junk P ?n s = Some (-1, 0, s)"
    using take_free_node_ok [OF assms(1) pg_need_pos [OF c assms(3)] n64, of junk] assms(5) by blast
  then show ?thesis
  proof cases
    case took
    let ?s = "set_using x 1 s'"
    let ?t = "?s\<lparr>pgp_alloc_count := (pgp_alloc_count ?s)(P := pgp_alloc_count ?s P + 1)\<rparr>"
    let ?p = "get_payload s' x" and ?c = "pgn_count s' x"
    have x': "x \<in> set xs'" using took(3,5) by blast
    have c': "pg_cfg s' P" "pg_pages s' P xs'" "pg_lists s' P A' xs' Z' {x}" using took(2) by (simp_all add: pg_ok_def)
    have "x \<noteq> 0" using c'(3) x' by (auto simp: pg_lists_def)
    then have run: "pgp_alloc junk (pgp_handle P) sz s = Some (?p, ?t)" using took(1) by (simp add: pc Let_def)
    have ok: "pg_ok ?t P A' xs' Z' {}" using use_ok [OF took(2) x'] by simp
    note used = take_used [OF took(2,3,5,6,9,10,11)]
    have used': "pg_used ?t xs' = insert (?p, ?c) (pg_used s xs)" using used(2) by simp
    have g: "pgp_pg_size s' = pgp_pg_size s" using took(8) by (simp add: pg_same_def)
    have apart: "\<forall>(q, d) \<in> pg_used s xs. uint ?p + ?c * uint (pgp_pg_size s P) \<le> uint q \<or>
         uint q + d * uint (pgp_pg_size s P) \<le> uint ?p"
      using pg_used_apart [OF c'(1,2) x' took(6)] unfolding used(1) by (auto simp: pg_end_def pg_start_def g)
    have "\<exists>y \<in> set xs. pgn_using s y = 0 \<and> ?n \<le> pgn_count s y" using took(3,4) by (auto simp: fits_def)
    then show ?thesis using run ok used' apart took(7) by auto
  next
    case none
    then have no: "\<not> (\<exists>x \<in> set xs. pgn_using s x = 0 \<and> ?n \<le> pgn_count s x)" by (auto simp: fits_def)
    have "pgp_alloc junk (pgp_handle P) sz s = Some (0, s)" using none(2) by (simp add: pc)
    then show ?thesis unfolding if_not_P [OF no] .
  qed
qed

lemma pg_payload_unique:
  assumes "pg_cfg s P" and "pg_pages s P xs" and "x \<in> set xs" and "y \<in> set xs" and "get_payload s x = get_payload s y"
  shows "x = y"
proof (rule ccontr)
  assume "x \<noteq> y"
  then show False
    using pg_disjoint [OF assms(1-4)] pg_pages_less [OF assms(1,2,3)] pg_pages_less [OF assms(1,2,4)] assms(5)
    by (auto simp: pg_start_def)
qed

text \<open>
  What releasing the node \<open>x\<close> does to the nodes: the free nodes \<open>ws\<close> behind it are merged into it, and the
  next one is in use or too big.
\<close>

definition freed :: "pgp_heap \<Rightarrow> ptr \<Rightarrow> ptr \<Rightarrow> ptr list \<Rightarrow> pgp_heap \<Rightarrow> ptr list \<Rightarrow> bool" where
  "freed s P x xs s' xs' \<longleftrightarrow> (\<exists>ys ws zs. xs = ys @ x # ws @ zs \<and> xs' = ys @ x # zs \<and>
     (\<forall>w \<in> set ws. pgn_using s w = 0) \<and> pgn_using s' x = 0 \<and> get_payload s' x = get_payload s x \<and>
     pgn_count s' x = pgn_count s x + (\<Sum>w\<leftarrow>ws. pgn_count s w) \<and>
     (zs \<noteq> [] \<longrightarrow> pgn_using s (hd zs) \<noteq> 0 \<or> uint (pgp_maxpg_count s P) < pgn_count s' x + pgn_count s (hd zs)) \<and>
     (\<forall>y \<in> set (ys @ zs). get_payload s' y = get_payload s y \<and> pgn_count s' y = pgn_count s y \<and>
        pgn_using s' y = pgn_using s y))"

lemma freed_counter: "freed s P x xs (s'\<lparr>pgp_free_count := c\<rparr>) xs' = freed s P x xs s' xs'"
  by (simp add: freed_def get_payload_def pgn_using_def)

lemma freed_unused:
  assumes "freed (set_using x 0 s) P x xs s' xs'" and d: "distinct xs" shows "freed s P x xs s' xs'"
proof -
  obtain ys ws zs where f: "xs = ys @ x # ws @ zs" "xs' = ys @ x # zs"
    "\<forall>w \<in> set ws. pgn_using (set_using x 0 s) w = 0" "pgn_using s' x = 0" "get_payload s' x = get_payload s x"
    "pgn_count s' x = pgn_count s x + (\<Sum>w\<leftarrow>ws. pgn_count s w)"
    "zs \<noteq> [] \<longrightarrow> pgn_using (set_using x 0 s) (hd zs) \<noteq> 0 \<or> uint (pgp_maxpg_count s P) < pgn_count s' x + pgn_count s (hd zs)"
    "\<forall>y \<in> set (ys @ zs). get_payload s' y = get_payload s y \<and> pgn_count s' y = pgn_count s y \<and>
       pgn_using s' y = pgn_using (set_using x 0 s) y"
    using assms(1) unfolding freed_def by auto
  have u: "pgn_using (set_using x 0 s) y = pgn_using s y" if "y \<in> set ys \<union> set ws \<union> set zs" for y
    using d f(1) that by auto
  have h: "pgn_using (set_using x 0 s) (hd zs) = pgn_using s (hd zs)" if "zs \<noteq> []" using u that by simp
  show ?thesis unfolding freed_def
    by (rule exI [of _ ys], rule exI [of _ ws], rule exI [of _ zs], intro conjI) (use f u h d in auto)
qed

lemma return_free_node_ok:
  assumes ok: "pg_ok s P A xs Z {x}" and x: "x \<in> set xs" "pgn_using s x = 0"
  shows "\<exists>s' A' xs' Z'. return_free_node junk P x s = Some (0, s') \<and> pg_ok s' P A' xs' Z' {} \<and>
    pg_used s' xs' = pg_used s xs \<and> freed s P x xs s' xs'"
proof -
  obtain ys zs where xs: "xs = ys @ x # zs" using x(1) by (meson split_list)
  have t: "pg_tree s P (ys @ x # zs)" and ok': "pg_ok s P A (ys @ x # zs) Z {x}"
    using ok by (simp_all add: pg_ok_def xs)
  have succ: "rb_succ (pgp_tree s P) (rb_of_pgn x) = Some (if zs = [] then 0 else rb_of_pgn (hd zs))" by (rule pg_succ [OF t])
  obtain s1 A1 Z1 ws zs' where s1: "merge_loop junk P x (if zs = [] then 0 else rb_of_pgn (hd zs)) 0 s = Some s1"
    "pg_ok s1 P A1 (ys @ x # zs') Z1 {x}" "zs = ws @ zs'" "\<forall>w \<in> set ws. pgn_using s w = 0"
    "pgn_payload s1 = pgn_payload s" "pgn_count s1 = (pgn_count s)(x := pgn_count s x + (\<Sum>w\<leftarrow>ws. pgn_count s w))"
    "zs' \<noteq> [] \<longrightarrow> pgn_using s (hd zs') \<noteq> 0 \<or> uint (pgp_maxpg_count s P) < pgn_count s1 x + pgn_count s (hd zs')"
    using merge_loop_ok [OF ok', of junk] by blast
  have same: "pgn_using s1 = pgn_using s" "get_payload s1 = get_payload s"
    using s1(5) by (simp_all add: fun_eq_iff pgn_using_def get_payload_def)
  obtain h A' where h: "link_fln junk P x s1 = Some (0, s1\<lparr>links := h\<rparr>)" "pg_ok (s1\<lparr>links := h\<rparr>) P A' (ys @ x # zs') Z1 {}"
    using link_fln_ok [OF s1(2), of junk] x(2) same by auto
  have "return_free_node junk P x s = Some (0, s1\<lparr>links := h\<rparr>)"
    using succ s1(1) h(1) by (simp add: return_free_node_def)
  moreover have "pg_used (s1\<lparr>links := h\<rparr>) (ys @ x # zs') = pg_used s xs"
    unfolding pg_used_def xs s1(3)
  proof (rule image_cong)
    show "{y \<in> set (ys @ x # zs'). pgn_using (s1\<lparr>links := h\<rparr>) y \<noteq> 0} = {y \<in> set (ys @ x # ws @ zs'). pgn_using s y \<noteq> 0}"
      using s1(4) same by auto
    fix y assume "y \<in> {y \<in> set (ys @ x # ws @ zs'). pgn_using s y \<noteq> 0}"
    then have "y \<noteq> x" using x(2) by auto
    then show "(get_payload (s1\<lparr>links := h\<rparr>) y, pgn_count (s1\<lparr>links := h\<rparr>) y) = (get_payload s y, pgn_count s y)"
      using s1(6) same by simp
  qed
  moreover have "freed s P x xs (s1\<lparr>links := h\<rparr>) (ys @ x # zs')"
    unfolding freed_def xs s1(3)
    by (rule exI [of _ ys], rule exI [of _ ws], rule exI [of _ zs'], intro conjI)
      (use s1(4-7) same pg_tree_distinct [OF t] s1(3) x(2) in \<open>auto simp: pgn_using_def get_payload_def\<close>)
  ultimately show ?thesis using h(2) by blast
qed

lemma pgp_free_ok:
  assumes "pg_ok s P A xs Z {}" and "pgp_handle P \<noteq> 0"
  shows "if p \<in> fst ` pg_used s xs
    then \<exists>s' A' xs' Z'. pgp_free junk (pgp_handle P) p s = Some (0, s') \<and> pg_ok s' P A' xs' Z' {} \<and>
      pg_used s' xs' = {(q, d) \<in> pg_used s xs. q \<noteq> p} \<and> (\<exists>x \<in> set xs. get_payload s x = p \<and> freed s P x xs s' xs')
    else pgp_free junk (pgp_handle P) p s = Some (-1, s)"
proof -
  have c: "pg_cfg s P" "pg_tree s P xs" "pg_pages s P xs" "pg_lists s P A xs Z {}" using assms(1) by (simp_all add: pg_ok_def)
  obtain x where x: "pgn_from_payload P p s = Some x" "x \<noteq> 0 \<longrightarrow> x \<in> set xs \<and> get_payload s x = p"
    "x = 0 \<longrightarrow> (\<forall>y \<in> set xs. y \<noteq> 0 \<longrightarrow> get_payload s y \<noteq> p)"
    using pgn_from_payload_ok [OF c(1-3)] by blast
  show ?thesis
  proof (cases "p \<in> fst ` pg_used s xs")
    case True
    then obtain y where y: "y \<in> set xs" "pgn_using s y \<noteq> 0" "p = get_payload s y" by (auto simp: pg_used_def)
    have y0: "y \<noteq> 0" using c(4) y(1) by (auto simp: pg_lists_def)
    then have "x \<noteq> 0" using x(3) y by auto
    then have xy: "x = y" using pg_payload_unique [OF c(1,3) _ y(1)] x(2) y(3) by blast
    let ?s = "set_using y 0 s"
    have ok: "pg_ok ?s P A xs Z {y}" by (rule unuse_ok [OF assms(1) y(1,2)])
    obtain s' A' xs' Z' where s': "return_free_node junk P y ?s = Some (0, s')" "pg_ok s' P A' xs' Z' {}"
      "pg_used s' xs' = pg_used ?s xs" "freed ?s P y xs s' xs'"
      using return_free_node_ok [OF ok y(1), of junk] by auto
    have al: "p AND (pgp_pg_size s P - 1) = 0" using c(3) y by (auto simp: pg_pages_def)
    have run: "pgp_free junk (pgp_handle P) p s = Some (0, s'\<lparr>pgp_free_count := (pgp_free_count s')(P := pgp_free_count s' P + 1)\<rparr>)"
      using assms(2) al x(1) xy y(2) y0 s'(1) by (simp add: pgp_free_def)
    have "pg_used ?s xs = {(q, d) \<in> pg_used s xs. q \<noteq> p}"
    proof
      show "pg_used ?s xs \<subseteq> {(q, d) \<in> pg_used s xs. q \<noteq> p}"
        using pg_payload_unique [OF c(1,3) _ y(1)] y(3) by (auto simp: pg_used_def split: if_splits)
      show "{(q, d) \<in> pg_used s xs. q \<noteq> p} \<subseteq> pg_used ?s xs"
        using y(3) by (auto simp: pg_used_def image_iff)
    qed
    then have u: "pg_used s' xs' = {(q, d) \<in> pg_used s xs. q \<noteq> p}" using s'(3) by (simp only:)
    have "distinct xs" using c(2) by (rule pg_tree_distinct)
    then have fr: "freed s P y xs (s'\<lparr>pgp_free_count := (pgp_free_count s')(P := pgp_free_count s' P + 1)\<rparr>) xs'"
      unfolding freed_counter by (rule freed_unused [OF s'(4)])
    show ?thesis unfolding if_P [OF True]
      by (intro exI conjI, rule run, subst pg_ok_counters, rule s'(2), subst pg_ok_counters, rule u, rule bexI, rule conjI,
          rule y(3) [symmetric], rule fr, rule y(1))
  next
    case False
    then have nu: "x \<noteq> 0 \<Longrightarrow> pgn_using s x = 0" using x(2) by (auto simp: pg_used_def image_iff)
    have "pgp_free junk (pgp_handle P) p s = Some (-1, s)"
      using assms(2) x(1) nu by (auto simp: pgp_free_def)
    then show ?thesis unfolding if_not_P [OF False] .
  qed
qed

text \<open>A region apart from all others starts elsewhere.\<close>

lemma pg_used_fresh:
  assumes ok: "pg_ok s P A xs Z {}"
    and ap: "\<forall>(q, d) \<in> pg_used s xs. uint p + c * uint (pgp_pg_size s P) \<le> uint q \<or> uint q + d * uint (pgp_pg_size s P) \<le> uint p"
    and "1 \<le> c" and q: "(q, d) \<in> pg_used s xs"
  shows "q \<noteq> p"
proof -
  have cfg: "pg_cfg s P" "pg_pages s P xs" using ok by (simp_all add: pg_ok_def)
  obtain k where "k < 32" "pgp_pg_size s P = 2 ^ k" using cfg(1) unfolding pg_cfg_def by blast
  then have g: "0 < uint (pgp_pg_size s P)" by (simp add: uint_power_u64)
  have "1 \<le> d" using q cfg(2) by (auto simp: pg_used_def pg_pages_def)
  then have "0 < c * uint (pgp_pg_size s P)" "0 < d * uint (pgp_pg_size s P)" using g assms(3) by simp_all
  then show ?thesis using ap q by fastforce
qed

text \<open>
  C5. Asked for a positive number of bytes, the page pool hands out a region whenever some free node
  has enough pages: the region has at least the pages asked for, overlaps no region in use, and is in
  use from then on with all others as before.  When no free node is big enough the call fails and
  changes nothing.  The request rounds up below \<open>2 ^ 63\<close>, and one of more pages than the largest node
  may have is not taken for a power of two: \<open>_take_free_node\<close> would look into the free list of just
  this order, which is behind the last one then.  A request of 0 bytes is left out because its order is
  what \<open>bsr\<close> leaves for 0.
\<close>

theorem pgp_alloc_regions:
  assumes "pg_ok s P A xs Z {}" and "pgp_handle P \<noteq> 0" and "sz \<noteq> 0"
    and "uint sz + uint (pgp_pg_size s P) \<le> 2 ^ 63"
    and "pg_need s P sz \<le> uint (pgp_maxpg_count s P) \<or> \<not> is_2power junk (of_int (pg_need s P sz))"
  shows "if \<exists>x \<in> set xs. pgn_using s x = 0 \<and> pg_need s P sz \<le> pgn_count s x
    then \<exists>p c s' A' xs' Z'. pgp_alloc junk (pgp_handle P) sz s = Some (p, s') \<and> pg_ok s' P A' xs' Z' {} \<and>
      pg_need s P sz \<le> c \<and> pg_used s' xs' = insert (p, c) (pg_used s xs) \<and>
      (\<forall>(q, d) \<in> pg_used s xs. uint p + c * uint (pgp_pg_size s P) \<le> uint q \<or>
         uint q + d * uint (pgp_pg_size s P) \<le> uint p)
    else pgp_alloc junk (pgp_handle P) sz s = Some (0, s)"
  by (rule pgp_alloc_ok [OF assms])

text \<open>
  C6. Freeing the start of a region in use takes exactly this region out of use and keeps the pool
  well-formed.  The node of the region takes in the free nodes right behind it, in address order, up to
  the first one in use or the first with which it would have more pages than allowed; no other node
  changes (\<open>freed\<close>).  Any other address is refused and changes nothing, so a region is not freed twice.
\<close>

theorem pgp_free_regions:
  assumes "pg_ok s P A xs Z {}" and "pgp_handle P \<noteq> 0"
  shows "if p \<in> fst ` pg_used s xs
    then \<exists>s' A' xs' Z'. pgp_free junk (pgp_handle P) p s = Some (0, s') \<and> pg_ok s' P A' xs' Z' {} \<and>
      pg_used s' xs' = {(q, d) \<in> pg_used s xs. q \<noteq> p} \<and> (\<exists>x \<in> set xs. get_payload s x = p \<and> freed s P x xs s' xs')
    else pgp_free junk (pgp_handle P) p s = Some (-1, s)"
  by (rule pgp_free_ok [OF assms])

text \<open>
  Allocating a region and freeing it gives a pool with the same regions in use as before.
\<close>

theorem pgp_alloc_free:
  assumes "pg_ok s P A xs Z {}" and "pgp_handle P \<noteq> 0" and "sz \<noteq> 0"
    and "pg_need s P sz \<le> uint (pgp_maxpg_count s P)"
    and "\<exists>x \<in> set xs. pgn_using s x = 0 \<and> pg_need s P sz \<le> pgn_count s x"
  shows "\<exists>p s1 s2 A2 xs2 Z2. pgp_alloc junk (pgp_handle P) sz s = Some (p, s1) \<and>
    pgp_free junk (pgp_handle P) p s1 = Some (0, s2) \<and> pg_ok s2 P A2 xs2 Z2 {} \<and> pg_used s2 xs2 = pg_used s xs"
proof -
  have cfg: "pg_cfg s P" using assms(1) by (simp add: pg_ok_def)
  obtain p c s1 A1 xs1 Z1 where a: "pgp_alloc junk (pgp_handle P) sz s = Some (p, s1)" "pg_ok s1 P A1 xs1 Z1 {}"
    "pg_used s1 xs1 = insert (p, c) (pg_used s xs)" "pg_need s P sz \<le> c"
    "\<forall>(q, d) \<in> pg_used s xs. uint p + c * uint (pgp_pg_size s P) \<le> uint q \<or> uint q + d * uint (pgp_pg_size s P) \<le> uint p"
    using pgp_alloc_ok [OF assms(1-3) pg_need_small [OF cfg assms(4)]] assms(4,5) by meson
  have p: "p \<in> fst ` pg_used s1 xs1" using a(3) by simp
  obtain s2 A2 xs2 Z2 where f: "pgp_free junk (pgp_handle P) p s1 = Some (0, s2)" "pg_ok s2 P A2 xs2 Z2 {}"
    "pg_used s2 xs2 = {(q, d) \<in> pg_used s1 xs1. q \<noteq> p}"
    using pgp_free_ok [OF a(2) assms(2), of p] unfolding if_P [OF p] freed_def by blast
  have "1 \<le> c" using pg_need_pos [OF cfg assms(3)] a(4) by linarith
  then have "q \<noteq> p" if "(q, d) \<in> pg_used s xs" for q d
    using pg_used_fresh [OF assms(1) a(5) _ that] by blast
  then have "pg_used s2 xs2 = pg_used s xs" unfolding f(3) a(3) by auto
  then show ?thesis using a(1) f(1,2) by blast
qed

section \<open>A pool of three pages\<close>

text \<open>
  The pool at 64 has one node, at 2048, with the three pages from 65536 on, and the spare nodes
  2112 and 2176; \<open>u\<close> says whether the node is in use.
\<close>

definition pgp_ex :: "u64 \<Rightarrow> pgp_heap" where
  "pgp_ex u = \<lparr>bytes = (\<lambda>_. 0),
     links = \<lparr>dl_prev = (\<lambda>p. if p = 176 then 2176 else if p = 2176 then 2112 else if p = 2112 then 160
                else if p = 1040 then 1024 else if p = 1080 then (if u = 0 then 2048 else 1064)
                else if p = 2048 \<and> u = 0 then 1064 else 0),
              dl_next = (\<lambda>p. if p = 160 then 2112 else if p = 2112 then 2176 else if p = 2176 then 176
                else if p = 1024 then 1040 else if p = 1064 then (if u = 0 then 2048 else 1080)
                else if p = 2048 \<and> u = 0 then 1080 else 0)\<rparr>,
     pgp_chunck_label = (\<lambda>_. PGP_CHUNK_LABEL), pgp_addr_begin = (\<lambda>_. 64), pgp_addr_end = (\<lambda>_. 77824),
     pgp_maxpg_count = (\<lambda>_. 3), pgp_freelist_count = (\<lambda>_. 2), pgp_pg_size = (\<lambda>_. 4096),
     pgp_chunk_addr = (\<lambda>_. 65536), pgp_chunk_pgcount = (\<lambda>_. 3),
     pgp_tree = (\<lambda>_. \<lparr>rb_key = (\<lambda>_. 65536), rb_lc = (\<lambda>_. 0), rb_rc = (\<lambda>_. 0), rb_pw = (\<lambda>_. 1),
       rb_size = 1, rb_depth = 0, rb_root = 2064, rb_cfunc = None\<rparr>),
     pgp_flh = (\<lambda>_. 1024), pgp_pgn_pool = (\<lambda>_. 2048), pgp_alloc_count = (\<lambda>_. 0), pgp_free_count = (\<lambda>_. 0),
     pgn_payload = (\<lambda>n. if n = 2048 then 65536 OR (u AND 3) else 0), pgn_count = (\<lambda>n. if n = 2048 then 3 else 0)\<rparr>"

definition pgp_ex_lists :: "u64 \<Rightarrow> ptr \<Rightarrow> ptr list option" where
  "pgp_ex_lists u = [160 \<mapsto> [2112, 2176], 1024 \<mapsto> [], 1064 \<mapsto> (if u = 0 then [2048] else [])]"

lemma pgp_ex_sel:
  "pgp_pg_size (pgp_ex u) P = 2 ^ 12" "pgp_maxpg_count (pgp_ex u) P = 3" "pgp_freelist_count (pgp_ex u) P = 2"
  "flh_at (pgp_ex u) P 0 = 1024" "flh_at (pgp_ex u) P 1 = 1064" "pgn_count (pgp_ex u) 2048 = 3"
  by (simp_all add: pgp_ex_def flh_at_def)

lemma clog_3: "clog 3 = 1"
  by (simp add: clog_def log_2_def msb_index.simps)

lemma pgp_ex_using:
  "u \<in> {0, 1} \<Longrightarrow> pgn_using (pgp_ex u) 2048 = u" "u \<in> {0, 1} \<Longrightarrow> get_payload (pgp_ex u) 2048 = 65536"
  "pgn_using (pgp_ex u) 2112 = 0" "pgn_using (pgp_ex u) 2176 = 0"
  by (auto simp: pgp_ex_def pgn_using_def get_payload_def simp del: pword_fold)

lemma pgp_ex_family:
  assumes "u \<in> {0, 1}"
  shows "dl.family (links (pgp_ex u)) (pgp_ex_lists u)"
proof -
  have l: "dl_list (links (pgp_ex u)) 160 [2112, 2176]" "dl_list (links (pgp_ex u)) 1024 []"
    "dl_list (links (pgp_ex u)) 1064 (if u = 0 then [2048] else [])"
    using assms by (auto simp: dl_list_def dl_nodes_def pgp_ex_def)
  have A: "pgp_ex_lists u l = Some xs \<longleftrightarrow> l = 160 \<and> xs = [2112, 2176] \<or> l = 1024 \<and> xs = [] \<or>
      l = 1064 \<and> xs = (if u = 0 then [2048] else [])" for l xs
    by (auto simp: pgp_ex_lists_def)
  show ?thesis unfolding dl.family_def A
  proof (intro conjI allI impI)
    show "dl_list (links (pgp_ex u)) l xs"
      if "l = 160 \<and> xs = [2112, 2176] \<or> l = 1024 \<and> xs = [] \<or> l = 1064 \<and> xs = (if u = 0 then [2048] else [])" for l xs
      using that l by auto
  qed (auto simp: dl.disjoint_def dl_nodes_def split: if_splits)
qed

lemma pgp_ex_ok:
  assumes "u \<in> {0, 1}" shows "pg_ok (pgp_ex u) 64 (pgp_ex_lists u) [2048] [2112, 2176] {}"
proof -
  have i2: "(i :: u64) < 2 \<longleftrightarrow> i = 0 \<or> i = 1" for i
    by (auto simp: word_less_nat_alt) (metis One_nat_def less_2_cases unat_1 unat_eq_0 word_unat_eq_iff)
  have "pg_cfg (pgp_ex u) 64"
    unfolding pg_cfg_def pgp_ex_sel i2 by (intro conjI exI [of _ 12]) (auto simp: pgp_ex_sel clog_3)
  moreover have "pg_tree (pgp_ex u) 64 [2048]"
  proof -
    have "rb_ok (pgp_tree (pgp_ex u) 64) [2064]"
      unfolding rb_ok_def
      by (intro conjI exI [of _ "Nd True Tip 2064 Tip"])
        (auto simp: tree_at_def rb_tree_def pgp_ex_def aligned_def pword_def simp del: pword_fold intro: exI [of _ 1])
    then show ?thesis using assms by (simp add: pg_tree_def pgp_ex_using) (simp add: pgp_ex_def)
  qed
  moreover have "pg_pages (pgp_ex u) 64 [2048]"
    using assms by (simp add: pg_pages_def pg_end_def pg_start_def pgp_ex_sel pgp_ex_using)
  moreover have "pg_lists (pgp_ex u) 64 (pgp_ex_lists u) [2048] [2112, 2176] {}"
  proof -
    have m: "pgn_using (pgp_ex u) 2048 \<noteq> 0 \<Longrightarrow> 2048 \<notin> dl.members (pgp_ex_lists u)"
    proof -
      assume "pgn_using (pgp_ex u) 2048 \<noteq> 0"
      then have "u \<noteq> 0" using pgp_ex_using(1) [OF assms] by simp
      then show ?thesis by (auto simp: dl.members_def pgp_ex_lists_def dl_nodes_def split: if_splits)
    qed
    show ?thesis
      unfolding pg_lists_def pgp_ex_sel i2 using pgp_ex_family [OF assms] m assms
      by (auto simp: pgp_ex_sel pgp_ex_using pgp_ex_lists_def pg_class_def clog_3 aligned_def)
  qed
  ultimately show ?thesis by (simp add: pg_ok_def pgp_ex_sel)
qed

lemma pgp_ex_need: "pg_need (pgp_ex u) 64 5000 = 2"
  by (simp add: pg_need_def pgp_ex_sel)

lemma pgp_ex_free: "\<exists>x \<in> set [2048]. pgn_using (pgp_ex 0) x = 0 \<and> pg_need (pgp_ex 0) 64 5000 \<le> pgn_count (pgp_ex 0) x"
  by (simp add: pgp_ex_need pgp_ex_sel pgp_ex_using)

theorem pgp_alloc_regions_witness:
  "\<exists>p c s' xs'. pgp_alloc 7 (pgp_handle 64) 5000 (pgp_ex 0) = Some (p, s') \<and> 2 \<le> c \<and>
    pg_used s' xs' = insert (p, c) (pg_used (pgp_ex 0) [2048])"
proof -
  have le: "pg_need (pgp_ex 0) 64 5000 \<le> uint (pgp_maxpg_count (pgp_ex 0) 64)" by (simp add: pgp_ex_need pgp_ex_sel)
  have h: "pgp_handle (64 :: ptr) \<noteq> 0" "(5000 :: u64) \<noteq> 0" "(0 :: u64) \<in> {0, 1}" by simp_all
  have b: "uint (5000 :: u64) + uint (pgp_pg_size (pgp_ex 0) 64) \<le> 2 ^ 63" by (simp add: pgp_ex_sel)
  note t = pgp_alloc_regions [OF pgp_ex_ok [OF h(3)] h(1,2) b disjI1 [OF le], of 7, unfolded if_P [OF pgp_ex_free]]
  from t show ?thesis unfolding pgp_ex_need by blast
qed

theorem pgp_free_regions_witness:
  "\<exists>s' xs'. pgp_free 7 (pgp_handle 64) 65536 (pgp_ex 1) = Some (0, s') \<and>
    pg_used s' xs' = {(q, d) \<in> pg_used (pgp_ex 1) [2048]. q \<noteq> 65536}"
proof -
  have h: "pgp_handle (64 :: ptr) \<noteq> 0" "(1 :: u64) \<in> {0, 1}" by simp_all
  have "(get_payload (pgp_ex 1) 2048, pgn_count (pgp_ex 1) 2048) \<in> pg_used (pgp_ex 1) [2048]"
    unfolding pg_used_def by (rule imageI) (simp add: pgp_ex_using)
  then have u: "65536 \<in> fst ` pg_used (pgp_ex 1) [2048]"
    using pgp_ex_using(2) [OF h(2)] by (metis fst_conv imageI)
  from pgp_free_regions [OF pgp_ex_ok [OF h(2)] h(1), of 65536 7, unfolded if_P [OF u]] show ?thesis by blast
qed

theorem pgp_alloc_free_witness:
  "\<exists>p s1 s2. pgp_alloc 7 (pgp_handle 64) 5000 (pgp_ex 0) = Some (p, s1) \<and> pgp_free 7 (pgp_handle 64) p s1 = Some (0, s2)"
proof -
  have le: "pg_need (pgp_ex 0) 64 5000 \<le> uint (pgp_maxpg_count (pgp_ex 0) 64)" by (simp add: pgp_ex_need pgp_ex_sel)
  show ?thesis using pgp_alloc_free [OF pgp_ex_ok [of 0] _ _ le pgp_ex_free, of 7] by simp blast
qed

end
