(* ===== verification/Mmpool.thy ===== *)
theory Mmpool
  imports Misc Mmops Memory
begin

text \<open>
  The buddy pool of \<open>src/src/mmpool.c\<close>.

  A \<open>struct _mmpool_impl\<close> at \<open>P\<close> (128 bytes) has its \<open>struct mmpool\<close>, the handle, at offset 8 and the
  list of spare list nodes at offset 80.  A \<open>struct _free_list_node\<close> (32 bytes) has its list node at
  offset 0, a \<open>struct _free_list_head\<close> (40 bytes) its list at offset 0.  A block begins with a
  \<open>struct _block_head\<close> and ends with a \<open>struct _block_tail\<close>, of 8 bytes each; their fields are maps from
  the addresses of heads and tails.  The bit fields \<open>_flag\<close> and \<open>_fln_idx\<close> keep 4 and 28 bits.

  A \<open>long\<close> is an integer; \<open>junk\<close> is what \<open>bsrq\<close> leaves for a zero operand.  An index outside of the
  array of list heads is an access out of bounds.
\<close>

record mmp_heap = heap +
  mmp_chunck_label :: "ptr \<Rightarrow> u64"
  mmp_addr_begin :: "ptr \<Rightarrow> ptr"
  mmp_addr_end :: "ptr \<Rightarrow> ptr"
  mmp_min_order :: "ptr \<Rightarrow> u32"
  mmp_max_order :: "ptr \<Rightarrow> u32"
  mmp_list_count :: "ptr \<Rightarrow> int"
  mmp_min_payload :: "ptr \<Rightarrow> int"
  mmp_max_payload :: "ptr \<Rightarrow> int"
  mmp_chunk_addr :: "ptr \<Rightarrow> ptr"
  mmp_chunk_size :: "ptr \<Rightarrow> int"
  mmp_fln_count :: "ptr \<Rightarrow> u64"
  mmp_fln_pool :: "ptr \<Rightarrow> ptr"
  mmp_flh :: "ptr \<Rightarrow> ptr"
  fln_block :: "ptr \<Rightarrow> ptr"
  fln_idx :: "ptr \<Rightarrow> int"
  flh_op_count :: "ptr \<Rightarrow> int"
  bh_flag :: "ptr \<Rightarrow> u32"
  bh_fln_idx :: "ptr \<Rightarrow> u32"
  bh_size :: "ptr \<Rightarrow> u32"
  tl_label :: "ptr \<Rightarrow> u32"
  tl_size :: "ptr \<Rightarrow> u32"

definition CHUNK_LABEL :: u64 where "CHUNK_LABEL = 0xabab1212dfdf6969"
definition TAIL_LABEL :: u32 where "TAIL_LABEL = 0x1a2b3c4d"
definition BLOCK_BIT_USED :: u32 where "BLOCK_BIT_USED = 1"
definition BLOCK_BIT_UNM :: u32 where "BLOCK_BIT_UNM = 2"
definition BLOCK_BIT_UNM_SUC :: u32 where "BLOCK_BIT_UNM_SUC = 4"
definition HEAD_TAIL_SIZE :: int where "HEAD_TAIL_SIZE = 16"

abbreviation (input) mmp_handle :: "ptr \<Rightarrow> ptr" where "mmp_handle P \<equiv> P + 8"
abbreviation (input) conv_mmp :: "ptr \<Rightarrow> ptr" where "conv_mmp mmp \<equiv> mmp - 8"
abbreviation free_fln_list :: "ptr \<Rightarrow> ptr" where "free_fln_list P \<equiv> P + 80"

section \<open>Sizes, lists and blocks\<close>

definition block_size :: "int \<Rightarrow> int" where
  "block_size idx = sint (shl_int_one (of_int idx))"

definition payload_size :: "int \<Rightarrow> int" where
  "payload_size bsz = bsz - HEAD_TAIL_SIZE"

definition payload_addr :: "ptr \<Rightarrow> ptr" where
  "payload_addr b = b + 8"

definition block_size_by_payload :: "int \<Rightarrow> int" where
  "block_size_by_payload psz = psz + HEAD_TAIL_SIZE"

definition block_size_by_idx :: "mmp_heap \<Rightarrow> ptr \<Rightarrow> int \<Rightarrow> int" where
  "block_size_by_idx s P idx = block_size (uint (mmp_min_order s P)) * sint (shl_int_one (of_int idx))"

definition mmp_flh_at :: "mmp_heap \<Rightarrow> ptr \<Rightarrow> int \<Rightarrow> ptr option" where
  "mmp_flh_at s P idx =
     (if 0 \<le> idx \<and> idx < mmp_list_count s P then Some (mmp_flh s P + 40 * of_int idx) else None)"

text \<open>\<open>log_2\<close> of a block's size less the smallest order, an unsigned difference stored in a \<open>long\<close>.\<close>

definition size_idx :: "u64 \<Rightarrow> mmp_heap \<Rightarrow> ptr \<Rightarrow> u64 \<Rightarrow> int" where
  "size_idx junk s P sz = sint (log_2 junk sz - ucast (mmp_min_order s P))"

definition get_flh :: "u64 \<Rightarrow> ptr \<Rightarrow> ptr \<Rightarrow> mmp_heap \<Rightarrow> ptr option" where
  "get_flh junk P bh s = do {
     sz \<leftarrow> deref bh (bh_size s bh);
     let idx = size_idx junk s P (ucast sz);
     if idx \<ge> mmp_list_count s P then Some 0 else mmp_flh_at s P idx }"

definition fetch_free_fln :: "ptr \<Rightarrow> mmp_heap \<Rightarrow> (ptr \<times> mmp_heap) option" where
  "fetch_free_fln P s = do {
     (dln, s) \<leftarrow> on_links (lst_pop_front (free_fln_list P)) s;
     fln \<leftarrow> deref dln dln;
     let s = s\<lparr>fln_block := (fln_block s)(fln := 0)\<rparr>;
     (r, s) \<leftarrow> on_links (lst_clr fln) s;
     Some (fln, s) }"

definition return_free_fln :: "ptr \<Rightarrow> ptr \<Rightarrow> mmp_heap \<Rightarrow> (int \<times> mmp_heap) option" where
  "return_free_fln P fln s = do {
     fln \<leftarrow> deref fln fln;
     let s = s\<lparr>fln_block := (fln_block s)(fln := 0)\<rparr>;
     (r, s) \<leftarrow> on_links (lst_clr fln) s;
     (rslt, s) \<leftarrow> on_links (lst_push_front (free_fln_list P) fln) s;
     if rslt < 0 then Some (-1, s) else Some (0, s) }"

definition block_head :: "ptr \<Rightarrow> ptr" where
  "block_head p = p + 8"

definition get_tail :: "mmp_heap \<Rightarrow> ptr \<Rightarrow> ptr" where
  "get_tail s bh = bh + ucast (bh_size s bh) - 8"

definition prev_block :: "mmp_heap \<Rightarrow> ptr \<Rightarrow> ptr" where
  "prev_block s bh = bh - ucast (tl_size s (bh - 8))"

definition next_block :: "mmp_heap \<Rightarrow> ptr \<Rightarrow> ptr" where
  "next_block s bh = bh + ucast (bh_size s bh)"

definition normalize_payload_size :: "u64 \<Rightarrow> int \<Rightarrow> int" where
  "normalize_payload_size junk psz =
     payload_size (sint (round_up_2power junk (of_int (block_size_by_payload psz))))"

definition normalize_block_size :: "u64 \<Rightarrow> int \<Rightarrow> int" where
  "normalize_block_size junk psz = sint (round_up_2power junk (of_int (block_size_by_payload psz)))"

definition flh_idx :: "u64 \<Rightarrow> mmp_heap \<Rightarrow> ptr \<Rightarrow> int \<Rightarrow> int" where
  "flh_idx junk s P psz =
     (let blk_size = normalize_block_size junk psz;
          min_blk_size = block_size (uint (mmp_min_order s P))
      in if blk_size > block_size (uint (mmp_max_order s P)) then -1
      else let blk_size = (if blk_size < min_blk_size then min_blk_size else blk_size)
        in size_idx junk s P (of_int blk_size))"

definition set_flag :: "ptr \<Rightarrow> u32 \<Rightarrow> mmp_heap \<Rightarrow> mmp_heap" where
  "set_flag bh v s = s\<lparr>bh_flag := (bh_flag s)(bh := v AND 15)\<rparr>"

definition set_fln_idx :: "ptr \<Rightarrow> int \<Rightarrow> mmp_heap \<Rightarrow> mmp_heap" where
  "set_fln_idx bh v s = s\<lparr>bh_fln_idx := (bh_fln_idx s)(bh := take_bit 28 (of_int v))\<rparr>"

definition make_block_tail :: "ptr \<Rightarrow> u32 \<Rightarrow> mmp_heap \<Rightarrow> mmp_heap" where
  "make_block_tail t bsz s = s\<lparr>tl_label := (tl_label s)(t := TAIL_LABEL), tl_size := (tl_size s)(t := bsz)\<rparr>"

definition make_block :: "u64 \<Rightarrow> ptr \<Rightarrow> u32 \<Rightarrow> mmp_heap \<Rightarrow> (ptr \<times> mmp_heap) option" where
  "make_block junk addr bsz s =
     (if \<not> is_2power junk (ucast bsz) then Some (0, s)
      else do {
        bh \<leftarrow> deref addr addr;
        let s = set_flag bh 0 (s\<lparr>bh_size := (bh_size s)(bh := bsz)\<rparr>);
        Some (bh, make_block_tail (get_tail s bh) bsz s) })"

definition make_unmblock :: "ptr \<Rightarrow> u32 \<Rightarrow> mmp_heap \<Rightarrow> (ptr \<times> mmp_heap) option" where
  "make_unmblock addr bsz s = do {
     bh \<leftarrow> deref addr addr;
     let s = set_flag bh BLOCK_BIT_UNM (s\<lparr>bh_size := (bh_size s)(bh := bsz)\<rparr>);
     Some (bh, make_block_tail (get_tail s bh) bsz s) }"

section \<open>Free blocks and their lists\<close>

text \<open>What both ways of returning a block share; \<open>push\<close> is the end of the list it goes to.\<close>

definition return_free_block ::
  "(ptr \<Rightarrow> ptr \<Rightarrow> dl_heap \<Rightarrow> (int \<times> dl_heap) option) \<Rightarrow> u64 \<Rightarrow> ptr \<Rightarrow> ptr \<Rightarrow> mmp_heap \<Rightarrow> (int \<times> mmp_heap) option" where
  "return_free_block push junk P bh s = do {
     bh \<leftarrow> deref bh bh;
     if bh_flag s bh AND BLOCK_BIT_USED \<noteq> 0 then Some (-1, s)
     else if uint (bh_size s bh) > block_size (uint (mmp_max_order s P)) then Some (-1, s)
     else do {
       let idx = size_idx junk s P (ucast (bh_size s bh));
       (fln, s) \<leftarrow> fetch_free_fln P s;
       if fln = 0 then Some (-1, s)
       else do {
         let s = set_fln_idx bh (fln_idx s fln) (s\<lparr>fln_block := (fln_block s)(fln := bh)\<rparr>);
         flh \<leftarrow> mmp_flh_at s P idx;
         (rslt, s) \<leftarrow> on_links (push flh fln) s;
         if rslt < 0 then Some (-1, s)
         else Some (0, s\<lparr>flh_op_count := (flh_op_count s)(flh := flh_op_count s flh + 1)\<rparr>) } } }"

definition return_free_node_to_head :: "u64 \<Rightarrow> ptr \<Rightarrow> ptr \<Rightarrow> mmp_heap \<Rightarrow> (int \<times> mmp_heap) option" where
  "return_free_node_to_head = return_free_block lst_push_front"

definition return_free_node_to_tail :: "u64 \<Rightarrow> ptr \<Rightarrow> ptr \<Rightarrow> mmp_heap \<Rightarrow> (int \<times> mmp_heap) option" where
  "return_free_node_to_tail = return_free_block lst_push_back"

section \<open>Taking a block\<close>

text \<open>The first size class from \<open>idx\<close> on whose list is not empty.\<close>

function first_list :: "ptr \<Rightarrow> int \<Rightarrow> mmp_heap \<Rightarrow> int option" where
  "first_list P idx s =
     (if idx < mmp_list_count s P
      then do {
        flh \<leftarrow> mmp_flh_at s P idx;
        e \<leftarrow> lst_empty flh (links s);
        if e then first_list P (idx + 1) s else Some idx }
      else Some idx)"
  by pat_completeness auto
termination first_list
  by (relation "measure (\<lambda>(P, idx, s). nat (mmp_list_count s P - idx))") auto

declare first_list.simps [simp del]

text \<open>The upper half of the block is cut off and returned, \<open>n\<close> times.\<close>

fun split_block :: "u64 \<Rightarrow> ptr \<Rightarrow> ptr \<Rightarrow> nat \<Rightarrow> int \<Rightarrow> mmp_heap \<Rightarrow> (int \<times> mmp_heap) option" where
  "split_block junk P bh 0 new_size s = Some (new_size, s)"
| "split_block junk P bh (Suc n) new_size s = do {
     let new_size = new_size div 2;
     (h, s) \<leftarrow> make_block junk (bh + of_int new_size) (of_int new_size) s;
     (r, s) \<leftarrow> return_free_node_to_head junk P h s;
     split_block junk P bh n new_size s }"

text \<open>The status, the block stored through the last argument, and the state.\<close>

definition mmp_take_free_node :: "u64 \<Rightarrow> ptr \<Rightarrow> int \<Rightarrow> mmp_heap \<Rightarrow> (int \<times> ptr \<times> mmp_heap) option" where
  "mmp_take_free_node junk P fidx s = do {
     idx \<leftarrow> first_list P fidx s;
     (fln, s) \<leftarrow> (if idx < mmp_list_count s P
                   then do { flh \<leftarrow> mmp_flh_at s P idx; on_links (lst_pop_front flh) s }
                   else Some (0, s));
     if fln = 0 then Some (-1, 0, s)
     else if idx > fidx
     then do {
       bh \<leftarrow> deref (fln_block s fln) (fln_block s fln);
       (new_size, s) \<leftarrow> split_block junk P bh (nat (idx - fidx)) (uint (bh_size s bh)) s;
       (bh, s) \<leftarrow> make_block junk bh (of_int new_size) s;
       (r, s) \<leftarrow> return_free_node_to_head junk P bh s;
       (rslt, s) \<leftarrow> return_free_fln P fln s;
       Some (rslt, 0, s) }
     else do {
       bh \<leftarrow> deref (fln_block s fln) (fln_block s fln);
       (rslt, s) \<leftarrow> return_free_fln P fln (set_fln_idx bh 0 s);
       Some (rslt, bh, s) } }"

definition try_spare_block :: "u64 \<Rightarrow> ptr \<Rightarrow> ptr \<Rightarrow> int \<Rightarrow> mmp_heap \<Rightarrow> (int \<times> mmp_heap) option" where
  "try_spare_block junk P bh psz s = do {
     bh \<leftarrow> deref bh bh;
     if bh_flag s bh \<noteq> 0 then Some (-1, s)
     else if \<not> is_2power junk (ucast (bh_size s bh)) then Some (-1, s)
     else do {
       let psz = sint (align8 (of_int psz));
       if psz \<le> mmp_min_payload s P then Some (0, s)
       else do {
         let end_p = bh + ucast (bh_size s bh);
         let off = uint (bh_size s bh) - HEAD_TAIL_SIZE - psz;
         let off = (if off > 0 then sint (round_down_2power junk (of_int off)) else off);
         if off \<ge> block_size (uint (mmp_min_order s P))
         then do {
           (h, s) \<leftarrow> make_block junk (end_p - of_int off) (of_int off) s;
           h \<leftarrow> deref h h;
           let s = set_flag h (bh_flag s h OR BLOCK_BIT_UNM_SUC) s;
           (r, s) \<leftarrow> return_free_node_to_head junk P h s;
           (bh, s) \<leftarrow> make_unmblock bh (of_int (uint (bh_size s bh) - off)) s;
           Some (0, s) }
         else Some (0, s) } } }"

section \<open>Merging\<close>

definition unlink_block :: "u64 \<Rightarrow> ptr \<Rightarrow> ptr \<Rightarrow> mmp_heap \<Rightarrow> (int \<times> mmp_heap) option" where
  "unlink_block junk P bh s = do {
     bh \<leftarrow> deref bh bh;
     let fln = mmp_fln_pool s P + 32 * ucast (bh_fln_idx s bh);
     flh \<leftarrow> get_flh junk P bh s;
     (rslt, s) \<leftarrow> on_links (lst_remove flh fln) s;
     if rslt < 0 then Some (-1, s)
     else return_free_fln P fln (set_fln_idx bh 0 s) }"

partial_function (option) merge_free_loop ::
  "u64 \<Rightarrow> ptr \<Rightarrow> ptr \<Rightarrow> int \<Rightarrow> int \<Rightarrow> int \<Rightarrow> mmp_heap \<Rightarrow> ((int \<times> int) \<times> mmp_heap) option" where
  "merge_free_loop junk P bh count max_count bsz s =
     (if count < max_count \<and> bsz < block_size (uint (mmp_max_order s P))
      then let nbh = next_block s bh in
        if nbh = 0 then None
        else if bh_flag s nbh \<noteq> 0 then Some ((0, bsz), s)
        else do {
          (rslt, s) \<leftarrow> unlink_block junk P nbh s;
          if rslt < 0 then Some ((-1, bsz), s)
          else merge_free_loop junk P bh count max_count (bsz + uint (bh_size s nbh)) s }
      else Some ((0, bsz), s))"

definition merge_free_blocks :: "u64 \<Rightarrow> ptr \<Rightarrow> ptr \<Rightarrow> int \<Rightarrow> mmp_heap \<Rightarrow> (int \<times> mmp_heap) option" where
  "merge_free_blocks junk P bh max_count s = do {
     bh \<leftarrow> deref bh bh;
     nbh \<leftarrow> deref (next_block s bh) (next_block s bh);
     if bh_flag s nbh AND BLOCK_BIT_USED \<noteq> 0 then Some (0, s)
     else do {
       let bsz = uint (bh_size s bh);
       (rslt, s) \<leftarrow> unlink_block junk P bh s;
       if rslt < 0 then Some (-1, s)
       else do {
         ((rslt, bsz), s) \<leftarrow> merge_free_loop junk P bh 0 max_count bsz s;
         if rslt < 0 then Some (-1, s)
         else if \<not> is_2power junk (of_int bsz) then Some (-1, s)
         else do { (r, s) \<leftarrow> make_block junk bh (of_int bsz) s; Some (0, s) } } } }"

text \<open>
  Two blocks are buddies when they have the same size and lie in the same block of twice the size.
  The merge takes \<open>out\<close> off its list: the second block when merging with the next one, the first when
  merging with the previous one.
\<close>

definition merge_buddy :: "ptr \<Rightarrow> u64 \<Rightarrow> ptr \<Rightarrow> ptr \<Rightarrow> ptr \<Rightarrow> mmp_heap \<Rightarrow> (ptr \<times> mmp_heap) option" where
  "merge_buddy out junk P bh nbh s = do {
     bh \<leftarrow> deref bh bh;
     if bh_flag s bh \<noteq> 0 then Some (0, s)
     else do {
       nbh \<leftarrow> deref nbh nbh;
       if bh_flag s nbh \<noteq> 0 then Some (0, s)
       else if bh_size s bh \<noteq> bh_size s nbh then Some (0, s)
       else do {
         let next_size = push_bit 1 (bh_size s bh);
         let m = - (ucast next_size :: u64);
         if (bh - mmp_chunk_addr s P) AND m \<noteq> (nbh - mmp_chunk_addr s P) AND m then Some (0, s)
         else do {
           (rslt, s) \<leftarrow> unlink_block junk P out s;
           if rslt < 0 then Some (0, s) else make_block junk bh next_size s } } } }"

definition merge_buddy_next :: "u64 \<Rightarrow> ptr \<Rightarrow> ptr \<Rightarrow> ptr \<Rightarrow> mmp_heap \<Rightarrow> (ptr \<times> mmp_heap) option" where
  "merge_buddy_next junk P bh nbh s = merge_buddy nbh junk P bh nbh s"

definition merge_buddy_prev :: "u64 \<Rightarrow> ptr \<Rightarrow> ptr \<Rightarrow> ptr \<Rightarrow> mmp_heap \<Rightarrow> (ptr \<times> mmp_heap) option" where
  "merge_buddy_prev junk P bh nbh s = merge_buddy bh junk P bh nbh s"

definition merge_unmblock :: "u64 \<Rightarrow> ptr \<Rightarrow> ptr \<Rightarrow> mmp_heap \<Rightarrow> (ptr \<times> mmp_heap) option" where
  "merge_unmblock junk P bh s = do {
     bh \<leftarrow> deref bh bh;
     if bh_flag s bh AND BLOCK_BIT_UNM = 0 \<or> bh_flag s bh AND BLOCK_BIT_USED \<noteq> 0 then Some (0, s)
     else do {
       nbh \<leftarrow> deref (next_block s bh) (next_block s bh);
       if bh_flag s nbh AND BLOCK_BIT_UNM_SUC = 0 \<or> bh_flag s nbh AND BLOCK_BIT_USED \<noteq> 0 then Some (0, s)
       else do {
         (rslt, s) \<leftarrow> unlink_block junk P nbh s;
         if rslt < 0 then Some (0, s)
         else let bsz = bh_size s bh + bh_size s nbh in
           if \<not> is_2power junk (ucast bsz) then Some (0, s) else make_block junk bh bsz s } } }"

definition merge_to_unmblock :: "u64 \<Rightarrow> ptr \<Rightarrow> ptr \<Rightarrow> mmp_heap \<Rightarrow> (ptr \<times> mmp_heap) option" where
  "merge_to_unmblock junk P bh s = do {
     bh \<leftarrow> deref bh bh;
     if bh_flag s bh AND BLOCK_BIT_UNM = 0 then Some (0, s)
     else do {
       let unm_used = (bh_flag s bh AND BLOCK_BIT_USED \<noteq> 0);
       nbh \<leftarrow> deref (next_block s bh) (next_block s bh);
       if bh_flag s nbh AND BLOCK_BIT_UNM_SUC = 0 \<or> bh_flag s nbh AND BLOCK_BIT_USED \<noteq> 0 then Some (0, s)
       else do {
         (rslt, s) \<leftarrow> unlink_block junk P nbh s;
         if rslt < 0 then Some (0, s)
         else let bsz = bh_size s bh + bh_size s nbh in
           if \<not> is_2power junk (ucast bsz) then Some (0, s)
           else do {
             (bh, s) \<leftarrow> make_block junk bh bsz s;
             if unm_used
             then do { bh \<leftarrow> deref bh bh; Some (bh, set_flag bh (bh_flag s bh OR BLOCK_BIT_USED) s) }
             else Some (bh, s) } } } }"


section \<open>Setting up a chunk\<close>

definition mmp_init_block :: "u64 \<Rightarrow> ptr \<Rightarrow> ptr \<Rightarrow> int \<Rightarrow> mmp_heap \<Rightarrow> (int \<times> mmp_heap) option" where
  "mmp_init_block junk P b head_idx s = do {
     (bh, s) \<leftarrow> make_block junk b (of_int (block_size_by_idx s P head_idx)) s;
     if bh = 0 then Some (-1, s) else return_free_node_to_head junk P bh s }"

partial_function (option) init_fln_pool :: "ptr \<Rightarrow> u64 \<Rightarrow> mmp_heap \<Rightarrow> mmp_heap option" where
  "init_fln_pool P i s =
     (if i < mmp_fln_count s P
      then do {
        let fln = mmp_fln_pool s P + 32 * i;
        (r, s) \<leftarrow> on_links (lst_clr fln) s;
        let s = s\<lparr>fln_block := (fln_block s)(fln := 0), fln_idx := (fln_idx s)(fln := sint i)\<rparr>;
        (r, s) \<leftarrow> on_links (lst_push_back (free_fln_list P) fln) s;
        init_fln_pool P (i + 1) s }
      else Some s)"

function init_flhs :: "ptr \<Rightarrow> int \<Rightarrow> int \<Rightarrow> mmp_heap \<Rightarrow> mmp_heap option" where
  "init_flhs P n i s =
     (if i < n
      then do {
        let flh = mmp_flh s P + 40 * of_int i;
        let s = s\<lparr>flh_op_count := (flh_op_count s)(flh := 0)\<rparr>;
        (r, s) \<leftarrow> on_links (lst_new flh) s;
        init_flhs P n (i + 1) s }
      else Some s)"
  by pat_completeness auto
termination init_flhs
  by (relation "measure (\<lambda>(P, n, i, s). nat (n - i))") auto

declare init_flhs.simps [simp del]

text \<open>
  Blocks of one size class fill the chunk from \<open>chk1\<close> on; the next class is half the index, not the
  index less one.  A status below 0 ends both loops.
\<close>

partial_function (option) init_class ::
  "u64 \<Rightarrow> ptr \<Rightarrow> int \<Rightarrow> int \<Rightarrow> ptr \<Rightarrow> ptr \<Rightarrow> ptr \<Rightarrow> mmp_heap \<Rightarrow> ((int \<times> ptr \<times> ptr) \<times> mmp_heap) option" where
  "init_class junk P idx blk_size end_p chk1 chk2 s =
     (if chk2 \<le> end_p
      then do {
        (rslt, s) \<leftarrow> mmp_init_block junk P chk1 idx s;
        if rslt < 0 then Some ((-1, chk1, chk2), s)
        else init_class junk P idx blk_size end_p chk2 (chk2 + of_int blk_size) s }
      else Some ((0, chk1, chk2), s))"

partial_function (option) init_blocks ::
  "u64 \<Rightarrow> ptr \<Rightarrow> int \<Rightarrow> ptr \<Rightarrow> ptr \<Rightarrow> ptr \<Rightarrow> mmp_heap \<Rightarrow> (int \<times> mmp_heap) option" where
  "init_blocks junk P idx end_p chk1 chk2 s =
     (if idx > 0 \<and> chk1 < end_p \<and> chk2 < end_p
      then do {
        let blk_size = block_size_by_idx s P idx;
        ((rslt, chk1, chk2), s) \<leftarrow> init_class junk P idx blk_size end_p chk1 (chk1 + of_int blk_size) s;
        if rslt < 0 then Some (-1, s)
        else init_blocks junk P (idx div 2) end_p chk1 chk2 s }
      else Some (0, s))"

definition mmp_init_chunk ::
  "u64 \<Rightarrow> ptr \<Rightarrow> u64 \<Rightarrow> u32 \<Rightarrow> u32 \<Rightarrow> mmp_heap \<Rightarrow> (ptr \<times> mmp_heap) option" where
  "mmp_init_chunk junk addr sz min_o max_o s =
     (let min_bs = shl_int_one (ucast min_o); max_bs = shl_int_one (ucast max_o); P = addr in
      if min_bs > max_bs then Some (0, s)
      else if min_bs < 16 \<or> max_bs \<le> min_bs then Some (0, s)
      else if mmp_chunck_label s P = CHUNK_LABEL then Some (0, s)
      else do {
        let cur = move_ptr_align64 addr 128;
        let s = s\<lparr>mmp_chunck_label := (mmp_chunck_label s)(P := CHUNK_LABEL),
                  mmp_addr_begin := (mmp_addr_begin s)(P := addr),
                  mmp_addr_end := (mmp_addr_end s)(P := align8 (addr + sz)),
                  mmp_min_order := (mmp_min_order s)(P := min_o),
                  mmp_max_order := (mmp_max_order s)(P := max_o),
                  mmp_list_count := (mmp_list_count s)(P := uint (max_o - min_o + 1)),
                  mmp_min_payload := (mmp_min_payload s)(P := sint (min_bs - 16)),
                  mmp_max_payload := (mmp_max_payload s)(P := sint (max_bs - 16)),
                  mmp_flh := (mmp_flh s)(P := cur)\<rparr>;
        let cur = move_ptr_align64 cur (40 * of_int (mmp_list_count s P));
        let s = s\<lparr>mmp_fln_pool := (mmp_fln_pool s)(P := cur),
                  mmp_fln_count := (mmp_fln_count s)(P :=
                    (mmp_addr_end s P - cur) div align8 (of_int (block_size (uint min_o)) + 32))\<rparr>;
        let cur = move_ptr_align64 cur (32 * mmp_fln_count s P);
        (r, s) \<leftarrow> on_links (lst_new (free_fln_list P)) s;
        s \<leftarrow> init_fln_pool P 0 s;
        s \<leftarrow> init_flhs P (mmp_list_count s P) 0 s;
        if cur \<ge> mmp_addr_end s P then Some (0, s)
        else do {
          let chunk_size = (mmp_addr_end s P - cur) AND of_int (- block_size (uint (mmp_max_order s P)));
          let s = s\<lparr>mmp_chunk_addr := (mmp_chunk_addr s)(P := cur),
                    mmp_chunk_size := (mmp_chunk_size s)(P := sint chunk_size)\<rparr>;
          (rslt, s) \<leftarrow> init_blocks junk P (mmp_list_count s P - 1) (cur + chunk_size) cur 0 s;
          Some (if rslt < 0 then 0 else P, s) } })"

definition mmp_load_chunk :: "ptr \<Rightarrow> mmp_heap \<Rightarrow> ptr option" where
  "mmp_load_chunk addr s = do {
     P \<leftarrow> deref (conv_mmp addr) (conv_mmp addr);
     if mmp_chunck_label s P \<noteq> CHUNK_LABEL then Some 0
     else if mmp_addr_begin s P \<noteq> P \<or> mmp_addr_end s P \<le> addr then Some 0
     else Some P }"

section \<open>The interface\<close>

definition mmp_create :: "u64 \<Rightarrow> ptr \<Rightarrow> mm_config \<Rightarrow> mmp_heap \<Rightarrow> (ptr \<times> mmp_heap) option" where
  "mmp_create junk addr cfg s =
     (if addr = 0 then Some (0, s)
      else if addr AND 7 \<noteq> 0 then Some (0, s)
      else if total_size cfg < of_int (block_size (uint (min_order cfg))) then Some (0, s)
      else if total_size cfg > 0xFFFFFFFF then Some (0, s)
      else do {
        (P, s) \<leftarrow> mmp_init_chunk junk addr (total_size cfg) (min_order cfg) (max_order cfg) s;
        Some (if P = 0 then 0 else mmp_handle P, s) })"

definition mmp_load :: "ptr \<Rightarrow> mmp_heap \<Rightarrow> ptr option" where
  "mmp_load addr s =
     (if addr AND 7 \<noteq> 0 then Some 0
      else do { P \<leftarrow> mmp_load_chunk addr s; Some (if P = 0 then 0 else mmp_handle P) })"

definition mmp_destroy :: "ptr \<Rightarrow> mmp_heap \<Rightarrow> mmp_heap option" where
  "mmp_destroy mmp s = do {
     P \<leftarrow> deref (conv_mmp mmp) (conv_mmp mmp);
     if mmp_chunck_label s P \<noteq> CHUNK_LABEL then Some s
     else Some (s\<lparr>mmp_chunck_label := (mmp_chunck_label s)(P := 0),
                 mmp_addr_begin := (mmp_addr_begin s)(P := 0), mmp_addr_end := (mmp_addr_end s)(P := 0)\<rparr>) }"

text \<open>A round that only splits a larger block stores no block, and the loop goes on.\<close>

partial_function (option) mmp_take_loop :: "u64 \<Rightarrow> ptr \<Rightarrow> int \<Rightarrow> mmp_heap \<Rightarrow> (int \<times> ptr \<times> mmp_heap) option" where
  "mmp_take_loop junk P fidx s = do {
     (rslt, bh, s) \<leftarrow> mmp_take_free_node junk P fidx s;
     if rslt < 0 then Some (-1, bh, s)
     else if bh = 0 then mmp_take_loop junk P fidx s
     else Some (0, bh, s) }"

definition mmp_alloc :: "u64 \<Rightarrow> ptr \<Rightarrow> u64 \<Rightarrow> mmp_heap \<Rightarrow> (ptr \<times> mmp_heap) option" where
  "mmp_alloc junk mmp psz s = do {
     P \<leftarrow> deref (conv_mmp mmp) (conv_mmp mmp);
     if psz = 0 \<or> psz > of_int (mmp_max_payload s P) then Some (0, s)
     else let idx = flh_idx junk s P (sint psz) in
       if idx < 0 then Some (0, s)
       else do {
         (rslt, bh, s) \<leftarrow> mmp_take_loop junk P idx s;
         if rslt < 0 then Some (0, s)
         else if bh_flag s bh AND BLOCK_BIT_USED \<noteq> 0 \<or> bh_flag s bh AND BLOCK_BIT_UNM \<noteq> 0 then Some (0, s)
         else Some (payload_addr bh, set_flag bh (bh_flag s bh OR BLOCK_BIT_USED) s) } }"

text \<open>The freed block is merged with its buddy, next or previous, as long as there is one.\<close>

partial_function (option) mmp_merge :: "u64 \<Rightarrow> ptr \<Rightarrow> int \<Rightarrow> ptr \<Rightarrow> mmp_heap \<Rightarrow> (ptr \<times> mmp_heap) option" where
  "mmp_merge junk P max_bs bh s =
     (if uint (bh_size s bh) < max_bs
      then do {
        (ret, s) \<leftarrow> merge_buddy_next junk P bh (next_block s bh) s;
        (ret, s) \<leftarrow> (if ret = 0 then merge_buddy_prev junk P (prev_block s bh) bh s else Some (ret, s));
        if ret = 0 then Some (bh, s) else mmp_merge junk P max_bs ret s }
      else Some (bh, s))"

definition mmp_free :: "u64 \<Rightarrow> ptr \<Rightarrow> ptr \<Rightarrow> mmp_heap \<Rightarrow> (int \<times> mmp_heap) option" where
  "mmp_free junk mmp p s =
     (let P = conv_mmp mmp in
      if p = 0 then Some (-1, s)
      else do {
        bh \<leftarrow> deref (p - 8) (p - 8);
        let t = get_tail s bh;
        if tl_size s t \<noteq> bh_size s bh \<or> tl_label s t \<noteq> TAIL_LABEL then Some (-1, s)
        else if bh_flag s bh AND BLOCK_BIT_USED = 0 then Some (-1, s)
        else do {
          let s = set_flag bh (bh_flag s bh XOR BLOCK_BIT_USED) s;
          P \<leftarrow> deref P P;
          (bh, s) \<leftarrow> mmp_merge junk P (block_size (uint (mmp_max_order s P))) bh s;
          (rslt, s) \<leftarrow> return_free_node_to_head junk P bh s;
          if rslt < 0 then Some (-1, s) else Some (rslt, s) } })"

section \<open>Checks\<close>

text \<open>The walk over all blocks, which adds up the free ones.\<close>

partial_function (option) check_walk :: "ptr \<Rightarrow> ptr \<Rightarrow> int \<Rightarrow> mmp_heap \<Rightarrow> int option" where
  "check_walk end_p h sum_free s =
     (if h < end_p
      then if h = 0 then None
        else check_walk end_p (next_block s h)
          (if bh_flag s h AND BLOCK_BIT_USED = 0 \<and> bh_flag s h AND BLOCK_BIT_UNM = 0
           then sum_free + uint (bh_size s h) else sum_free) s
      else Some sum_free)"

partial_function (option) check_list :: "ptr \<Rightarrow> int \<Rightarrow> ptr \<Rightarrow> int \<Rightarrow> mmp_heap \<Rightarrow> (bool \<times> int) option" where
  "check_list flh bsz dln acc s =
     (if dln = tail_of flh then Some (True, acc)
      else do {
        h \<leftarrow> deref dln (fln_block s dln);
        h \<leftarrow> deref h h;
        if bh_flag s h \<noteq> 0 \<or> uint (bh_size s h) \<noteq> bsz then Some (False, acc)
        else do {
          dln \<leftarrow> ld_next (links s) dln;
          check_list flh bsz dln (acc + uint (bh_size s h)) s } })"

function check_lists :: "ptr \<Rightarrow> int \<Rightarrow> int \<Rightarrow> mmp_heap \<Rightarrow> (bool \<times> int) option" where
  "check_lists P i acc s =
     (if i < mmp_list_count s P
      then do {
        flh \<leftarrow> mmp_flh_at s P i;
        dln \<leftarrow> ld_next (links s) (head_of flh);
        (ok, acc) \<leftarrow> check_list flh (block_size_by_idx s P i) dln acc s;
        if ok then check_lists P (i + 1) acc s else Some (False, acc) }
      else Some (True, acc))"
  by pat_completeness auto
termination check_lists
  by (relation "measure (\<lambda>(P, i, acc, s). nat (mmp_list_count s P - i))") auto

declare check_lists.simps [simp del]

function check_links :: "ptr \<Rightarrow> int \<Rightarrow> mmp_heap \<Rightarrow> unit option" where
  "check_links P i s =
     (if i < mmp_list_count s P
      then do { flh \<leftarrow> mmp_flh_at s P i; r \<leftarrow> lst_check flh (links s); check_links P (i + 1) s }
      else Some ())"
  by pat_completeness auto
termination check_links
  by (relation "measure (\<lambda>(P, i, s). nat (mmp_list_count s P - i))") auto

declare check_links.simps [simp del]

definition mmp_check :: "ptr \<Rightarrow> mmp_heap \<Rightarrow> int option" where
  "mmp_check mmp s = do {
     P \<leftarrow> deref (conv_mmp mmp) (conv_mmp mmp);
     sum_free \<leftarrow> check_walk (mmp_chunk_addr s P + of_int (mmp_chunk_size s P)) (mmp_chunk_addr s P) 0 s;
     (ok, free_list_free) \<leftarrow> check_lists P 0 0 s;
     if \<not> ok then Some (-1)
     else do {
       u \<leftarrow> check_links P 0 s;
       r \<leftarrow> lst_check (free_fln_list P) (links s);
       Some 0 } }"

definition mmp_freelist_profile :: "ptr \<Rightarrow> mmp_heap \<Rightarrow> int option" where
  "mmp_freelist_profile mmp s = deref (conv_mmp mmp) 0"

definition mmp_ops :: "u64 \<Rightarrow> mmp_heap mm_ops" where
  "mmp_ops junk =
     \<lparr>create_func = mmp_create junk,
      load_func = (\<lambda>addr s. do { p \<leftarrow> mmp_load addr s; Some (p, s) }),
      destroy_func = mmp_destroy,
      alloc_func = mmp_alloc junk,
      free_func = mmp_free junk,
      counts_func = None\<rparr>"

end
