(* ===== verification/Mmpool_Inv.thy ===== *)
theory Mmpool_Inv
  imports Mmpool Dlist_Family
begin

text \<open>
  The invariant of a buddy pool: blocks of a power of two bytes, aligned to their size, tile the chunk; the
  free ones are on the list of their order, each through a list node that knows it; the other list nodes
  are spare.
\<close>

section \<open>Blocks that tile a region\<close>

definition span :: "ptr \<Rightarrow> nat \<Rightarrow> int set" where
  "span b k = {uint b ..< uint b + 2 ^ k}"

text \<open>\<open>K\<close> gives the order of each block; \<open>C\<close> is the address the blocks are aligned to.\<close>

definition tiles :: "(ptr \<Rightarrow> nat option) \<Rightarrow> int \<Rightarrow> int set \<Rightarrow> bool" where
  "tiles K C R \<longleftrightarrow>
     (\<forall>b k. K b = Some k \<longrightarrow> 0 < uint b \<and> uint b + 2 ^ k < 2 ^ 64 \<and> C \<le> uint b \<and> 2 ^ k dvd uint b - C) \<and>
     (\<forall>a k b j. K a = Some k \<longrightarrow> K b = Some j \<longrightarrow> a \<noteq> b \<longrightarrow> span a k \<inter> span b j = {}) \<and>
     (\<Union>b \<in> dom K. span b (the (K b))) = R"

lemma span_self: "uint b \<in> span b k"
  by (simp add: span_def)

lemma tiles_block:
  assumes "tiles K C R" and "K b = Some k"
  shows "0 < uint b" and "b \<noteq> 0" and "uint b + 2 ^ k < 2 ^ 64" and "C \<le> uint b" and "2 ^ k dvd uint b - C"
proof -
  have B: "0 < uint b \<and> uint b + 2 ^ k < 2 ^ 64 \<and> C \<le> uint b \<and> 2 ^ k dvd uint b - C"
    using assms unfolding tiles_def by blast
  then show "0 < uint b" "uint b + 2 ^ k < 2 ^ 64" "C \<le> uint b" "2 ^ k dvd uint b - C" by simp_all
  show "b \<noteq> 0" using B by auto
qed

lemma tiles_apart:
  "tiles K C R \<Longrightarrow> K a = Some k \<Longrightarrow> K b = Some j \<Longrightarrow> a \<noteq> b \<Longrightarrow> span a k \<inter> span b j = {}"
  unfolding tiles_def by blast

lemma uint_half:
  assumes "uint (b :: ptr) + 2 ^ Suc k < 2 ^ 64" shows "uint (b + 2 ^ k) = uint b + 2 ^ k"
proof -
  have p: "(0 :: int) < 2 ^ k" by simp
  have "b + 2 ^ k = of_int (uint b + 2 ^ k)" by simp
  moreover have "(2 :: int) ^ Suc k = 2 ^ k + 2 ^ k" by simp
  then have "uint b + 2 ^ k < 2 ^ 64" "0 \<le> uint b + 2 ^ k" using assms p uint_ge_0 [of b] by linarith+
  ultimately show ?thesis using uint_of_int_u64 by metis
qed

lemma span_halves:
  assumes "uint b + 2 ^ Suc k < 2 ^ 64"
  shows "span b (Suc k) = span b k \<union> span (b + 2 ^ k) k" and "span b k \<inter> span (b + 2 ^ k) k = {}"
    and "b + 2 ^ k \<noteq> b"
proof -
  have p: "(0 :: int) < 2 ^ k" by simp
  show "span b (Suc k) = span b k \<union> span (b + 2 ^ k) k" "span b k \<inter> span (b + 2 ^ k) k = {}"
    using uint_half [OF assms] p by (auto simp: span_def)
  show "b + 2 ^ k \<noteq> b" using uint_half [OF assms] p by (metis add_cancel_right_right less_irrefl)
qed

lemma tiles_split:
  assumes t: "tiles K C R" and b: "K b = Some (Suc k)"
  shows "tiles (K(b \<mapsto> k, b + 2 ^ k \<mapsto> k)) C R" and "K (b + 2 ^ k) = None"
proof -
  let ?h = "b + 2 ^ k"
  note B = tiles_block [OF t b]
  note S = span_halves [OF B(3)]
  have h: "uint ?h = uint b + 2 ^ k" by (rule uint_half [OF B(3)])
  show n: "K ?h = None"
  proof (rule ccontr)
    assume "K ?h \<noteq> None"
    then obtain j where j: "K ?h = Some j" by blast
    have "uint ?h \<in> span b (Suc k)" using span_self [of ?h k] unfolding S(1) by blast
    then show False using tiles_apart [OF t j b S(3)] span_self [of ?h j] by blast
  qed
  have dvd: "2 ^ k dvd uint b - C" using B(5) by (rule power_le_dvd) simp
  have "uint ?h - C = (uint b - C) + 2 ^ k" unfolding h by simp
  moreover have "2 ^ k dvd (uint b - C) + 2 ^ k" using dvd by (intro dvd_add) simp_all
  ultimately have dvd': "2 ^ k dvd uint ?h - C" by (simp only:)
  have p: "(0 :: int) < 2 ^ k" by simp
  have two: "(2 :: int) ^ Suc k = 2 ^ k + 2 ^ k" by simp
  let ?K = "K(b \<mapsto> k, ?h \<mapsto> k)"
  have sub: "\<exists>c l. K c = Some l \<and> span a j \<subseteq> span c l \<and> (a \<noteq> c \<longrightarrow> c = b \<and> a = ?h)" if "?K a = Some j" for a j
    using that b S(1) by (auto split: if_splits)
  show "tiles ?K C R" unfolding tiles_def
  proof (intro conjI allI impI)
    fix a j assume "?K a = Some j"
    then consider "a = ?h" "j = k" | "a = b" "j = k" | "K a = Some j"
      unfolding fun_upd_apply by (metis option.inject)
    then have "0 < uint a \<and> uint a + 2 ^ j < 2 ^ 64 \<and> C \<le> uint a \<and> 2 ^ j dvd uint a - C"
    proof cases
      case 1
      have "0 < uint b + 2 ^ k" "uint b + 2 ^ k + 2 ^ k < 2 ^ 64" "C \<le> uint b + 2 ^ k"
        using B(1,3,4) two p by linarith+
      then show ?thesis using dvd' unfolding 1 h by blast
    next
      case 2
      have "uint b + 2 ^ k < 2 ^ 64" using B(3) two p by linarith
      then show ?thesis using B(1,4) dvd unfolding 2 by blast
    next
      case 3
      then show ?thesis using tiles_block [OF t 3] by blast
    qed
    then show "0 < uint a" "uint a + 2 ^ j < 2 ^ 64" "C \<le> uint a" "2 ^ j dvd uint a - C" by blast+
  next
    fix a i c j assume a: "?K a = Some i" and c: "?K c = Some j" and ac: "a \<noteq> c"
    consider "a \<in> {b, ?h}" "c \<in> {b, ?h}" | "a \<in> {b, ?h}" "c \<notin> {b, ?h}" | "a \<notin> {b, ?h}" "c \<in> {b, ?h}"
      | "a \<notin> {b, ?h}" "c \<notin> {b, ?h}" by blast
    then show "span a i \<inter> span c j = {}"
    proof cases
      case 1
      then show ?thesis using a c ac S(2) by (auto simp: Int_commute split: if_splits)
    next
      case 2
      then have "span c j \<inter> span b (Suc k) = {}" using tiles_apart [OF t _ b, of c j] c by simp
      moreover have "span a i \<subseteq> span b (Suc k)" using 2(1) a S(1) by (auto split: if_splits)
      ultimately show ?thesis by blast
    next
      case 3
      then have "span a i \<inter> span b (Suc k) = {}" using tiles_apart [OF t _ b, of a i] a by simp
      moreover have "span c j \<subseteq> span b (Suc k)" using 3(2) c S(1) by (auto split: if_splits)
      ultimately show ?thesis by blast
    next
      case 4
      then show ?thesis using tiles_apart [OF t _ _ ac] a c by simp
    qed
  next
    let ?D = "dom K - {b}"
    have d: "dom ?K = insert ?h (insert b ?D)" "dom K = insert b ?D" using b by auto
    have e: "(\<Union>a \<in> ?D. span a (the (?K a))) = (\<Union>a \<in> ?D. span a (the (K a)))"
      by (rule SUP_cong) (use n in auto)
    have "(\<Union>a \<in> dom ?K. span a (the (?K a))) = span ?h k \<union> (span b k \<union> (\<Union>a \<in> ?D. span a (the (K a))))"
      unfolding d(1) UN_insert e using S(3) by simp
    also have "\<dots> = span b (Suc k) \<union> (\<Union>a \<in> ?D. span a (the (K a)))" unfolding S(1) by blast
    also have "\<dots> = (\<Union>a \<in> insert b ?D. span a (the (K a)))" unfolding UN_insert b option.sel ..
    also have "\<dots> = (\<Union>a \<in> dom K. span a (the (K a)))" unfolding d(2) [symmetric] ..
    finally show "(\<Union>a \<in> dom ?K. span a (the (?K a))) = R" using t unfolding tiles_def by simp
  qed
qed

section \<open>Sizes\<close>

lemma uint_power_u32: "k < 32 \<Longrightarrow> uint (2 ^ k :: u32) = 2 ^ k"
  by (rule uint_2p) (simp add: word_neq_0_conv [symmetric])

lemma ucast_power_u32: "k < 32 \<Longrightarrow> ucast (2 ^ k :: u32) = (2 ^ k :: u64)"
  using uint_power_u32 [of k] by (metis of_int_numeral of_int_power ucast_eq)

lemma unat_power_u64: "k < 64 \<Longrightarrow> unat (2 ^ k :: u64) = 2 ^ k"
  using uint_power_u64 [of k] by (simp add: unat_eq_nat_uint nat_power_eq)

lemma log_2_power: "k < 64 \<Longrightarrow> log_2 junk (2 ^ k) = of_nat k"
proof -
  assume k: "k < 64"
  then have "(2 ^ k :: u64) \<noteq> 0" using unat_power_u64 [of k] by (metis power_not_zero unat_0 zero_neq_numeral)
  then show ?thesis by (simp add: log_2_def unat_power_u64 [OF k])
qed

lemma is_2power_power: "1 \<le> k \<Longrightarrow> k < 30 \<Longrightarrow> is_2power junk (2 ^ k)"
proof -
  assume k: "1 \<le> k" "k < 30"
  have "(2 :: nat) ^ 1 \<le> 2 ^ k" using k(1) by (rule power_increasing) simp
  moreover have "(2 :: nat) ^ k < 2 ^ 30" using k(2) by (rule power_strict_increasing) simp
  ultimately show ?thesis using is_2power_iff [of "2 ^ k" junk] k unat_power_u64 [of k] by simp
qed

lemma shl_one_eq: "k < 31 \<Longrightarrow> shl_int_one (of_nat k) = 2 ^ k"
  using unat_shl_int_one [of "of_nat k"] unat_power_u64 [of k] by (simp add: word_unat_eq_iff unat_of_nat)

lemma sint_power_u64: "k < 63 \<Longrightarrow> sint (2 ^ k :: u64) = 2 ^ k"
proof -
  assume k: "k < 63"
  have "(2 :: int) ^ k < 2 ^ 63" using k by (rule power_strict_increasing) simp
  then show ?thesis using sint_eq_uint_small [of "2 ^ k"] uint_power_u64 [of k] k by simp
qed

lemma block_size_power: "k < 31 \<Longrightarrow> block_size (int k) = 2 ^ k"
  by (simp add: block_size_def shl_one_eq sint_power_u64)

section \<open>The geometry of a pool\<close>

record geo =
  ord_min :: nat
  ord_max :: nat
  flhs :: ptr
  flns :: ptr
  base :: int

definition geo_of :: "mmp_heap \<Rightarrow> ptr \<Rightarrow> geo" where
  "geo_of s P = \<lparr>ord_min = unat (mmp_min_order s P), ord_max = unat (mmp_max_order s P), flhs = mmp_flh s P,
     flns = mmp_fln_pool s P, base = uint (mmp_chunk_addr s P)\<rparr>"

text \<open>The list of the blocks of order \<open>k\<close>.\<close>

definition cls :: "geo \<Rightarrow> nat \<Rightarrow> ptr" where
  "cls g k = flhs g + 40 * of_nat (k - ord_min g)"

definition geo_ok :: "mmp_heap \<Rightarrow> ptr \<Rightarrow> geo \<Rightarrow> bool" where
  "geo_ok s P g \<longleftrightarrow> geo_of s P = g \<and> P \<noteq> 0 \<and> 4 \<le> ord_min g \<and> ord_min g < ord_max g \<and> ord_max g < 30 \<and>
     mmp_list_count s P = int (ord_max g - ord_min g) + 1 \<and> mmp_max_payload s P = 2 ^ ord_max g - 16 \<and>
     (\<forall>k \<in> {ord_min g .. ord_max g}. cls g k \<noteq> free_fln_list P)"

definition is_ord :: "geo \<Rightarrow> nat \<Rightarrow> bool" where
  "is_ord g k \<longleftrightarrow> ord_min g \<le> k \<and> k \<le> ord_max g"

lemma unat_times_40: "n < 30 \<Longrightarrow> unat (40 * of_nat n :: u64) = 40 * n"
  by (simp add: unat_word_ariths unat_of_nat)

lemma cls_inj:
  assumes g: "geo_ok s P g" and "is_ord g k" and "is_ord g j" shows "cls g k = cls g j \<longleftrightarrow> k = j"
proof
  have u: "unat (40 * of_nat (i - ord_min g) :: u64) = 40 * (i - ord_min g)" if "is_ord g i" for i
  proof -
    have "i - ord_min g < 30" using that g by (auto simp: is_ord_def geo_ok_def)
    then show ?thesis by (rule unat_times_40)
  qed
  assume "cls g k = cls g j"
  then have "unat (40 * of_nat (k - ord_min g) :: u64) = unat (40 * of_nat (j - ord_min g) :: u64)" by (simp add: cls_def)
  then have "k - ord_min g = j - ord_min g" unfolding u [OF assms(2)] u [OF assms(3)] by simp
  then show "k = j" using assms(2,3) unfolding is_ord_def by arith
qed simp

lemma geo_facts:
  assumes g: "geo_ok s P g" and k: "is_ord g k"
  shows "k < 30" and "1 \<le> k" and "4 \<le> k"
    and "size_idx junk s P (2 ^ k) = int (k - ord_min g)"
    and "mmp_flh_at s P (int (k - ord_min g)) = Some (cls g k)"
    and "block_size (uint (mmp_max_order s P)) = 2 ^ ord_max g" and "cls g k \<noteq> free_fln_list P"
proof -
  have m: "unat (mmp_min_order s P) = ord_min g" "unat (mmp_max_order s P) = ord_max g" "mmp_flh s P = flhs g"
    using g by (auto simp: geo_ok_def geo_of_def)
  show k30: "k < 30" and "1 \<le> k" "4 \<le> k" using g k by (auto simp: geo_ok_def is_ord_def)
  have o: "ucast (mmp_min_order s P) = (of_nat (ord_min g) :: u64)" unfolding m(1) [symmetric] by simp
  have "(of_nat k :: u64) - of_nat (ord_min g) = of_nat (k - ord_min g)" using k by (simp add: is_ord_def of_nat_diff)
  moreover have "sint (of_nat (k - ord_min g) :: u64) = int (k - ord_min g)"
  proof -
    have "uint (of_int (int (k - ord_min g)) :: u64) = int (k - ord_min g)" using k30 by (intro uint_of_int_u64) simp_all
    then show ?thesis using sint_eq_uint_small [of "of_nat (k - ord_min g)"] k30 by simp
  qed
  ultimately show "size_idx junk s P (2 ^ k) = int (k - ord_min g)"
    using k30 by (simp add: size_idx_def log_2_power o)
  show "mmp_flh_at s P (int (k - ord_min g)) = Some (cls g k)"
    using g k m(3) by (auto simp: mmp_flh_at_def geo_ok_def is_ord_def cls_def)
  have "uint (mmp_max_order s P) = int (ord_max g)" unfolding m(2) [symmetric] uint_nat ..
  then show "block_size (uint (mmp_max_order s P)) = 2 ^ ord_max g"
    using g by (simp add: geo_ok_def block_size_power)
  show "cls g k \<noteq> free_fln_list P" using g k by (simp add: geo_ok_def is_ord_def)
qed

section \<open>The invariant\<close>

definition fln_ok :: "geo \<Rightarrow> mmp_heap \<Rightarrow> ptr \<Rightarrow> bool" where
  "fln_ok g s x \<longleftrightarrow> x \<noteq> 0 \<and> 0 \<le> fln_idx s x \<and> fln_idx s x < 2 ^ 28 \<and> x = flns g + 32 * of_int (fln_idx s x)"

definition hdr :: "mmp_heap \<Rightarrow> ptr \<Rightarrow> nat \<Rightarrow> bool" where
  "hdr s b k \<longleftrightarrow> bh_size s b = 2 ^ k \<and> tl_size s (b + 2 ^ k - 8) = 2 ^ k \<and> tl_label s (b + 2 ^ k - 8) = TAIL_LABEL"

text \<open>The list node \<open>x\<close> stands for a free block of order \<open>k\<close>; \<open>W\<close> are the blocks that are not free.\<close>

definition stands_for :: "geo \<Rightarrow> mmp_heap \<Rightarrow> (ptr \<Rightarrow> nat option) \<Rightarrow> ptr set \<Rightarrow> nat \<Rightarrow> ptr \<Rightarrow> bool" where
  "stands_for g s K W k x \<longleftrightarrow> fln_ok g s x \<and> K (fln_block s x) = Some k \<and> fln_block s x \<notin> W \<and>
     bh_flag s (fln_block s x) = 0 \<and> x = flns g + 32 * ucast (bh_fln_idx s (fln_block s x))"

text \<open>\<open>H\<close> are blocks whose header is about to be written.\<close>

definition core :: "geo \<Rightarrow> ptr \<Rightarrow> (ptr \<Rightarrow> ptr list option) \<Rightarrow> (ptr \<Rightarrow> nat option) \<Rightarrow> ptr set \<Rightarrow> ptr set \<Rightarrow> int set \<Rightarrow>
    mmp_heap \<Rightarrow> bool" where
  "core g P A K W H R s \<longleftrightarrow> geo_ok s P g \<and> dl.family (links s) A \<and> A (free_fln_list P) \<noteq> None \<and>
     (\<forall>x \<in> set (the (A (free_fln_list P))). fln_ok g s x) \<and>
     (\<forall>k. is_ord g k \<longrightarrow> A (cls g k) \<noteq> None \<and> (\<forall>x \<in> set (the (A (cls g k))). stands_for g s K W k x)) \<and>
     W \<subseteq> dom K \<and>
     (\<forall>b k. K b = Some k \<longrightarrow> is_ord g k \<and> (b \<notin> H \<longrightarrow> hdr s b k) \<and>
        (b \<notin> W \<longrightarrow> (\<exists>x \<in> set (the (A (cls g k))). fln_block s x = b))) \<and>
     tiles K (base g) R"

text \<open>The pool between two calls: every block that is not free is marked as used.\<close>

definition mmp_ok :: "geo \<Rightarrow> ptr \<Rightarrow> (ptr \<Rightarrow> ptr list option) \<Rightarrow> (ptr \<Rightarrow> nat option) \<Rightarrow> ptr set \<Rightarrow> int set \<Rightarrow>
    mmp_heap \<Rightarrow> bool" where
  "mmp_ok g P A K U R s \<longleftrightarrow> core g P A K U {} R s \<and> (\<forall>b \<in> U. bh_flag s b = BLOCK_BIT_USED)"

lemma coreD:
  assumes "core g P A K W H R s"
  shows "geo_ok s P g" and "dl.family (links s) A" and "A (free_fln_list P) = Some (the (A (free_fln_list P)))"
    and "x \<in> set (the (A (free_fln_list P))) \<Longrightarrow> fln_ok g s x"
    and "is_ord g k \<Longrightarrow> A (cls g k) = Some (the (A (cls g k)))"
    and "is_ord g k \<Longrightarrow> x \<in> set (the (A (cls g k))) \<Longrightarrow> stands_for g s K W k x"
    and "W \<subseteq> dom K" and "K b = Some k \<Longrightarrow> is_ord g k" and "K b = Some k \<Longrightarrow> b \<notin> H \<Longrightarrow> hdr s b k"
    and "K b = Some k \<Longrightarrow> b \<notin> W \<Longrightarrow> \<exists>x \<in> set (the (A (cls g k))). fln_block s x = b"
    and "tiles K (base g) R"
  using assms unfolding core_def by auto

lemma coreI:
  assumes "geo_ok s P g" and "dl.family (links s) A" and "A (free_fln_list P) \<noteq> None"
    and "\<And>x. x \<in> set (the (A (free_fln_list P))) \<Longrightarrow> fln_ok g s x"
    and "\<And>k. is_ord g k \<Longrightarrow> A (cls g k) \<noteq> None"
    and "\<And>k x. is_ord g k \<Longrightarrow> x \<in> set (the (A (cls g k))) \<Longrightarrow> stands_for g s K W k x"
    and "W \<subseteq> dom K" and "\<And>b k. K b = Some k \<Longrightarrow> is_ord g k" and "\<And>b k. K b = Some k \<Longrightarrow> b \<notin> H \<Longrightarrow> hdr s b k"
    and "\<And>b k. K b = Some k \<Longrightarrow> b \<notin> W \<Longrightarrow> \<exists>x \<in> set (the (A (cls g k))). fln_block s x = b"
    and "tiles K (base g) R"
  shows "core g P A K W H R s"
  using assms unfolding core_def by blast

text \<open>A node stands on one list only.\<close>

lemma core_lists_apart:
  assumes c: "core g P A K W H R s" and k: "is_ord g k" and x: "x \<in> set (the (A (cls g k)))"
  shows "x \<notin> set (the (A (free_fln_list P)))" and "is_ord g j \<Longrightarrow> x \<in> set (the (A (cls g j))) \<Longrightarrow> j = k"
proof -
  note f = coreD(2) [OF c]
  show "x \<notin> set (the (A (free_fln_list P)))"
    using dl.family_unique [OF f coreD(5) [OF c k] coreD(3) [OF c] x] geo_facts(7) [OF coreD(1) [OF c] k] by blast
  assume j: "is_ord g j" and "x \<in> set (the (A (cls g j)))"
  then have "cls g j = cls g k" using dl.family_unique [OF f coreD(5) [OF c j] coreD(5) [OF c k]] x by blast
  then show "j = k" using cls_inj [OF coreD(1) [OF c] j k] by blast
qed

lemma fln_idx_bits:
  assumes "0 \<le> i" and "i < 2 ^ 28" shows "ucast (take_bit 28 (of_int i :: u32)) = (of_int i :: u64)"
proof -
  have "uint (of_int i :: u32) = i" using assms by (simp add: unsigned_of_int take_bit_int_eq_self)
  then have "uint (take_bit 28 (of_int i :: u32)) = i"
    using assms by (simp add: unsigned_take_bit_eq take_bit_int_eq_self)
  then show ?thesis by (metis ucast_eq)
qed

section \<open>Spare list nodes\<close>

lemma fetch_free_fln_ok:
  assumes f: "dl.family (links s) A" and l: "A (free_fln_list P) = Some (x # sp)" and x: "x \<noteq> 0"
  shows "\<exists>h. fetch_free_fln P s = Some (x, s\<lparr>links := h, fln_block := (fln_block s)(x := 0)\<rparr>) \<and>
    dl.family h (A(free_fln_list P := Some sp)) \<and> x \<in> dl.members A \<and>
    dl.members (A(free_fln_list P := Some sp)) = dl.members A - {x}"
proof -
  let ?A = "A(free_fln_list P := Some sp)"
  obtain h where h: "lst_pop_front (free_fln_list P) (links s) = Some (x, h)" "dl.family h ?A"
    "dl.members ?A = dl.members A - {x}" using dl.family_pop_front [OF f l] by blast
  have m: "x \<notin> dl.members ?A" using h(3) by simp
  have "x \<in> set (dl_nodes (free_fln_list P) (x # sp))" by (simp add: dl_nodes_def)
  with l have "x \<in> dl.members A" by (rule dl.membersI)
  moreover obtain h' where h': "lst_clr x h = Some (0, h')" "dl.family h' ?A" using family_clr [OF h(2) m x] by blast
  moreover have "fetch_free_fln P s = Some (x, s\<lparr>links := h', fln_block := (fln_block s)(x := 0)\<rparr>)"
    using h(1) h'(1) x by (simp add: fetch_free_fln_def Let_def)
  ultimately show ?thesis using h'(2) h(3) by blast
qed

lemma return_fln_ok:
  assumes f: "dl.family (links s) A" and l: "A (free_fln_list P) = Some sp" and m: "x \<notin> dl.members A" and x: "x \<noteq> 0"
  shows "\<exists>h. return_free_fln P x s = Some (0, s\<lparr>links := h, fln_block := (fln_block s)(x := 0)\<rparr>) \<and>
    dl.family h (A(free_fln_list P := Some (x # sp)))"
proof -
  obtain h where h: "lst_clr x (links s) = Some (0, h)" "dl.family h A" using family_clr [OF f m x] by blast
  obtain h' where h': "lst_push_front (free_fln_list P) x h = Some (0, h')" "dl.family h' (A(free_fln_list P := Some (x # sp)))"
    using dl.family_push_front [OF h(2) l m x] by blast
  have "return_free_fln P x s = Some (0, s\<lparr>links := h', fln_block := (fln_block s)(x := 0)\<rparr>)"
    using h(1) h'(1) x by (simp add: return_free_fln_def Let_def)
  then show ?thesis using h'(2) by blast
qed

section \<open>A block joins the free ones\<close>

lemma push_free_ok:
  assumes c: "core g P A K W H R s" and b: "b \<in> W" "K b = Some k" "b \<notin> H" "bh_flag s b = 0"
    and sp: "A (free_fln_list P) = Some (x # sp)"
  defines "A' \<equiv> A(free_fln_list P := Some sp, cls g k := Some (x # the (A (cls g k))))"
  shows "\<exists>s'. return_free_node_to_head junk P b s = Some (0, s') \<and> core g P A' K (W - {b}) H R s' \<and>
    bh_flag s' = bh_flag s \<and> bh_size s' = bh_size s \<and> fln_idx s' = fln_idx s \<and> dl.members A' = dl.members A"
proof -
  note d = coreD [OF c]
  have k: "is_ord g k" by (rule d(8) [OF b(2)])
  note geo = geo_facts [OF d(1) k]
  have b0: "b \<noteq> 0" using tiles_block(2) [OF d(11) b(2)] .
  have sz: "bh_size s b = 2 ^ k" using d(9) [OF b(2,3)] by (simp add: hdr_def)
  have xo: "fln_ok g s x" using d(4) sp by simp
  have x0: "x \<noteq> 0" using xo by (simp add: fln_ok_def)
  obtain h where h: "fetch_free_fln P s = Some (x, s\<lparr>links := h, fln_block := (fln_block s)(x := 0)\<rparr>)"
    "dl.family h (A(free_fln_list P := Some sp))" "x \<in> dl.members A"
    "dl.members (A(free_fln_list P := Some sp)) = dl.members A - {x}"
    using fetch_free_fln_ok [OF d(2) sp x0] by blast
  have ck: "(A(free_fln_list P := Some sp)) (cls g k) = Some (the (A (cls g k)))" using d(5) [OF k] geo(7) by simp
  obtain h' where h': "lst_push_front (cls g k) x h = Some (0, h')" "dl.family h' A'"
    "dl.members A' = insert x (dl.members (A(free_fln_list P := Some sp)))"
    unfolding A'_def using dl.family_push_front [OF h(2) ck _ x0] h(4) by blast
  define s' where "s' = s\<lparr>links := h', fln_block := (fln_block s)(x := b),
     bh_fln_idx := (bh_fln_idx s)(b := take_bit 28 (of_int (fln_idx s x))),
     flh_op_count := (flh_op_count s)(cls g k := flh_op_count s (cls g k) + 1)\<rparr>"
  have le: "\<not> (2 :: int) ^ ord_max g < 2 ^ k" using k by (simp add: is_ord_def)
  have at: "mmp_flh_at (s\<lparr>links := l, fln_block := fb, bh_fln_idx := fi\<rparr>) P j = mmp_flh_at s P j" for l fb fi j
    by (simp add: mmp_flh_at_def)
  have run: "return_free_node_to_head junk P b s = Some (0, s')"
    using b0 b(4) h(1) h'(1) geo(1) le x0
    by (simp add: return_free_node_to_head_def return_free_block_def sz uint_power_u32 ucast_power_u32 geo(6)
        geo(4) at geo(5) Let_def set_fln_idx_def s'_def)
  have mem: "dl.members A' = dl.members A" unfolding h'(3) h(4) using h(3) by (rule insert_Diff)
  have other: "y \<noteq> x \<and> fln_block s y \<noteq> b \<and> stands_for g s K W j y"
    if "is_ord g j" "y \<in> set (the (A (cls g j)))" for j y
  proof -
    have w: "fln_block s y \<notin> W" using d(6) [OF that] unfolding stands_for_def by blast
    have "x \<in> set (the (A (free_fln_list P)))" using sp by simp
    then have "y \<noteq> x" using core_lists_apart(1) [OF c that] by blast
    moreover have "fln_block s y \<noteq> b" using w b(1) by blast
    ultimately show ?thesis using d(6) [OF that] by simp
  qed
  have "core g P A' K (W - {b}) H R s'"
  proof (rule coreI)
    show "geo_ok s' P g" using d(1) by (simp add: geo_ok_def geo_of_def s'_def)
    show "dl.family (links s') A'" using h'(2) by (simp add: s'_def)
    show "A' (free_fln_list P) \<noteq> None" by (simp add: A'_def)
    show "fln_ok g s' y" if "y \<in> set (the (A' (free_fln_list P)))" for y
      using d(4) [of y] that sp geo(7) by (simp add: A'_def fln_ok_def s'_def)
    show "A' (cls g j) \<noteq> None" if "is_ord g j" for j
      using d(5) [OF that] geo_facts(7) [OF d(1) that] by (cases "A (cls g j)") (simp_all add: A'_def)
    show "stands_for g s' K (W - {b}) j y" if j: "is_ord g j" and y: "y \<in> set (the (A' (cls g j)))" for j y
    proof (cases "y \<in> set (the (A (cls g j)))")
      case True
      then show ?thesis using other [OF j True] by (simp add: stands_for_def fln_ok_def s'_def)
    next
      case False
      then have "y = x \<and> j = k"
        using y geo_facts(7) [OF d(1) j] cls_inj [OF d(1) j k] by (auto simp: A'_def split: if_splits)
      then show ?thesis
        using xo b fln_idx_bits [of "fln_idx s x"] by (simp add: stands_for_def fln_ok_def s'_def)
    qed
    show "W - {b} \<subseteq> dom K" using d(7) by blast
    show "is_ord g j" if "K a = Some j" for a j by (rule d(8) [OF that])
    show "hdr s' a j" if "K a = Some j" "a \<notin> H" for a j using d(9) [OF that] by (simp add: hdr_def s'_def)
    show "\<exists>y \<in> set (the (A' (cls g j))). fln_block s' y = a" if a: "K a = Some j" "a \<notin> W - {b}" for a j
    proof (cases "a = b")
      case True
      then have "j = k" using a b(2) by simp
      then show ?thesis using True geo(7) by (simp add: A'_def s'_def)
    next
      case False
      then obtain y where y: "y \<in> set (the (A (cls g j)))" "fln_block s y = a" using d(10) [OF a(1)] a(2) by blast
      have j: "is_ord g j" by (rule d(8) [OF a(1)])
      have "y \<in> set (the (A' (cls g j)))"
        using y(1) geo_facts(7) [OF d(1) j] cls_inj [OF d(1) j k] by (cases "j = k") (auto simp: A'_def)
      then show ?thesis using y(2) other [OF j y(1)] by (auto simp: s'_def)
    qed
    show "tiles K (base g) R" by (rule d(11))
  qed
  then show ?thesis using run mem by (intro exI [of _ s']) (simp add: s'_def)
qed

section \<open>Taking a block off its list, giving a list node back\<close>

lemma core_off_list:
  assumes c: "core g P A K W H R s" and k: "is_ord g k" and l: "A (cls g k) = Some xs" and xm: "x \<in> set xs"
    and h: "dl.family h A'" and A': "A' = A(cls g k := Some (remove1 x xs))"
  shows "core g P A' K (insert (fln_block s x) W) H R (s\<lparr>links := h\<rparr>)" and "stands_for g s K W k x"
proof -
  note d = coreD [OF c]
  define b where "b = fln_block s x"
  show x: "stands_for g s K W k x" using d(6) [OF k] l xm by simp
  have fl: "cls g j \<noteq> free_fln_list P" if "is_ord g j" for j by (rule geo_facts(7) [OF d(1) that])
  have sub: "y \<in> set (the (A (cls g j))) \<and> y \<noteq> x" if j: "is_ord g j" and y: "y \<in> set (the (A' (cls g j)))" for j y
  proof (cases "j = k")
    case True
    have "distinct xs" using dl.rep_nodes [OF dl.family_rep [OF d(2) l]] by blast
    then show ?thesis using y l True by (auto simp: A')
  next
    case False
    then have e: "A' (cls g j) = A (cls g j)" using cls_inj [OF d(1) j k] by (simp add: A')
    then have "y \<in> set (the (A (cls g j)))" using y by simp
    moreover from this have "y \<noteq> x" using core_lists_apart(2) [OF c j _ k, of y] l False xm by auto
    ultimately show ?thesis by simp
  qed
  show "core g P A' K (insert (fln_block s x) W) H R (s\<lparr>links := h\<rparr>)"
    unfolding b_def [symmetric]
  proof (rule coreI)
    show "geo_ok (s\<lparr>links := h\<rparr>) P g" using d(1) by (simp add: geo_ok_def geo_of_def)
    show "dl.family (links (s\<lparr>links := h\<rparr>)) A'" using h by simp
    show "A' (free_fln_list P) \<noteq> None" using d(3) fl [OF k] by (cases "A (free_fln_list P)") (simp_all add: A')
    show "fln_ok g (s\<lparr>links := h\<rparr>) y" if "y \<in> set (the (A' (free_fln_list P)))" for y
      using d(4) [of y] that fl [OF k] by (simp add: A' fln_ok_def)
    show "A' (cls g j) \<noteq> None" if "is_ord g j" for j
      using d(5) [OF that] by (cases "A (cls g j)") (simp_all add: A')
    show "stands_for g (s\<lparr>links := h\<rparr>) K (insert b W) j y" if j: "is_ord g j" and y: "y \<in> set (the (A' (cls g j)))" for j y
    proof -
      have y': "stands_for g s K W j y" "y \<noteq> x" using sub [OF j y] d(6) [OF j] by blast+
      have "fln_block s y \<noteq> b"
      proof
        assume "fln_block s y = b"
        then have "y = flns g + 32 * ucast (bh_fln_idx s b)" using y'(1) by (simp add: stands_for_def)
        moreover have "x = flns g + 32 * ucast (bh_fln_idx s b)" using x by (simp add: stands_for_def b_def)
        ultimately show False using y'(2) by simp
      qed
      then show ?thesis using y'(1) by (simp add: stands_for_def fln_ok_def)
    qed
    show "insert b W \<subseteq> dom K" using d(7) x by (auto simp: stands_for_def b_def)
    show "is_ord g j" if "K a = Some j" for a j by (rule d(8) [OF that])
    show "hdr (s\<lparr>links := h\<rparr>) a j" if "K a = Some j" "a \<notin> H" for a j using d(9) [OF that] by (simp add: hdr_def)
    show "\<exists>y \<in> set (the (A' (cls g j))). fln_block (s\<lparr>links := h\<rparr>) y = a" if a: "K a = Some j" "a \<notin> insert b W" for a j
    proof -
      obtain y where y: "y \<in> set (the (A (cls g j)))" "fln_block s y = a" using d(10) [OF a(1)] a(2) by blast
      have "y \<noteq> x" using y(2) a(2) by (auto simp: b_def)
      then have "y \<in> set (the (A' (cls g j)))"
        using y(1) l cls_inj [OF d(1) d(8) [OF a(1)] k] by (auto simp: A')
      then show ?thesis using y(2) by auto
    qed
    show "tiles K (base g) R" by (rule d(11))
  qed
qed

lemma pop_block_ok:
  assumes c: "core g P A K W H R s" and k: "is_ord g k" and l: "A (cls g k) = Some (x # xs)"
  defines "b \<equiv> fln_block s x" and "A' \<equiv> A(cls g k := Some xs)"
  shows "\<exists>h. lst_pop_front (cls g k) (links s) = Some (x, h) \<and> core g P A' K (insert b W) H R (s\<lparr>links := h\<rparr>) \<and>
    x \<notin> dl.members A' \<and> stands_for g s K W k x"
proof -
  obtain h where h: "lst_pop_front (cls g k) (links s) = Some (x, h)" "dl.family h A'" "dl.members A' = dl.members A - {x}"
    unfolding A'_def using dl.family_pop_front [OF coreD(2) [OF c] l] by blast
  have "A' = A(cls g k := Some (remove1 x (x # xs)))" by (simp add: A'_def)
  from core_off_list [OF c k l _ h(2) this] show ?thesis using h(1,3) unfolding b_def by simp
qed

lemma core_return_fln:
  assumes c: "core g P A K W H R s" and x: "x \<notin> dl.members A" "fln_ok g s x"
  defines "A' \<equiv> A(free_fln_list P := Some (x # the (A (free_fln_list P))))"
  shows "\<exists>s'. return_free_fln P x s = Some (0, s') \<and> core g P A' K W H R s' \<and> bh_flag s' = bh_flag s \<and> bh_size s' = bh_size s \<and>
    fln_idx s' = fln_idx s \<and> tl_size s' = tl_size s \<and> tl_label s' = tl_label s"
proof -
  note d = coreD [OF c]
  have x0: "x \<noteq> 0" using x(2) by (simp add: fln_ok_def)
  obtain h where h: "return_free_fln P x s = Some (0, s\<lparr>links := h, fln_block := (fln_block s)(x := 0)\<rparr>)" "dl.family h A'"
    unfolding A'_def using return_fln_ok [OF d(2,3) x(1) x0] by blast
  define s' where "s' = s\<lparr>links := h, fln_block := (fln_block s)(x := 0)\<rparr>"
  have fl: "cls g j \<noteq> free_fln_list P" if "is_ord g j" for j by (rule geo_facts(7) [OF d(1) that])
  have ne: "y \<noteq> x" if "is_ord g j" "y \<in> set (the (A (cls g j)))" for j y
  proof -
    have "y \<in> dl.members A" using d(5) [OF that(1)] that(2) by (rule dl.members_listI)
    then show ?thesis using x(1) by blast
  qed
  have "core g P A' K W H R s'"
  proof (rule coreI)
    show "geo_ok s' P g" using d(1) by (simp add: geo_ok_def geo_of_def s'_def)
    show "dl.family (links s') A'" using h(2) by (simp add: s'_def)
    show "A' (free_fln_list P) \<noteq> None" by (simp add: A'_def)
    show "fln_ok g s' y" if "y \<in> set (the (A' (free_fln_list P)))" for y
      using d(4) [of y] that x(2) by (auto simp: A'_def fln_ok_def s'_def)
    show "A' (cls g j) \<noteq> None" if "is_ord g j" for j
      using d(5) [OF that] fl [OF that] by (cases "A (cls g j)") (simp_all add: A'_def)
    show "stands_for g s' K W j y" if j: "is_ord g j" and y: "y \<in> set (the (A' (cls g j)))" for j y
    proof -
      have "y \<in> set (the (A (cls g j)))" using y fl [OF j] by (simp add: A'_def)
      then show ?thesis using d(6) [OF j, of y] ne [OF j, of y] by (simp add: stands_for_def fln_ok_def s'_def)
    qed
    show "W \<subseteq> dom K" by (rule d(7))
    show "is_ord g j" if "K a = Some j" for a j by (rule d(8) [OF that])
    show "hdr s' a j" if "K a = Some j" "a \<notin> H" for a j using d(9) [OF that] by (simp add: hdr_def s'_def)
    show "\<exists>y \<in> set (the (A' (cls g j))). fln_block s' y = a" if a: "K a = Some j" "a \<notin> W" for a j
    proof -
      obtain y where y: "y \<in> set (the (A (cls g j)))" "fln_block s y = a" using d(10) [OF a] by blast
      have "y \<in> set (the (A' (cls g j)))" using y(1) fl [OF d(8) [OF a(1)]] by (simp add: A'_def)
      moreover have "fln_block s' y = a" using y(2) ne [OF d(8) [OF a(1)] y(1)] by (simp add: s'_def)
      ultimately show ?thesis by blast
    qed
    show "tiles K (base g) R" by (rule d(11))
  qed
  then show ?thesis using h(1) by (intro exI [of _ s']) (simp add: s'_def)
qed

section \<open>Cutting and writing blocks\<close>

lemma core_split:
  assumes c: "core g P A K W H R s" and b: "b \<in> W" "K b = Some (Suc k)" and k: "is_ord g k"
  shows "core g P A (K(b \<mapsto> k, b + 2 ^ k \<mapsto> k)) (insert (b + 2 ^ k) W) (insert (b + 2 ^ k) (insert b H)) R s"
    and "b + 2 ^ k \<notin> dom K" and "b + 2 ^ k \<noteq> b"
proof -
  note d = coreD [OF c]
  let ?h = "b + 2 ^ k" let ?K = "K(b \<mapsto> k, ?h \<mapsto> k)"
  note t = tiles_split [OF d(11) b(2)]
  show n: "?h \<notin> dom K" using t(2) by auto
  show nb: "?h \<noteq> b" by (rule span_halves(3) [OF tiles_block(3) [OF d(11) b(2)]])
  show "core g P A ?K (insert ?h W) (insert ?h (insert b H)) R s"
  proof (rule coreI)
    show "stands_for g s ?K (insert ?h W) j y" if j: "is_ord g j" and y: "y \<in> set (the (A (cls g j)))" for j y
    proof -
      have s: "stands_for g s K W j y" by (rule d(6) [OF j y])
      then have "fln_block s y \<noteq> b" "fln_block s y \<noteq> ?h" using b(1) n by (auto simp: stands_for_def)
      then show ?thesis using s by (simp add: stands_for_def)
    qed
    show "insert ?h W \<subseteq> dom ?K" using d(7) by auto
    show "is_ord g j" if "?K a = Some j" for a j using that d(8) [of a j] k by (auto split: if_splits)
    show "hdr s a j" if "?K a = Some j" "a \<notin> insert ?h (insert b H)" for a j
      using that d(9) [of a j] by simp
    show "\<exists>y \<in> set (the (A (cls g j))). fln_block s y = a" if "?K a = Some j" "a \<notin> insert ?h W" for a j
      using that d(10) [of a j] b(1) by (auto split: if_splits)
  qed (use d(1-5) t(1) in auto)
qed

definition written :: "ptr \<Rightarrow> nat \<Rightarrow> mmp_heap \<Rightarrow> mmp_heap" where
  "written b k s = s\<lparr>bh_size := (bh_size s)(b := 2 ^ k), bh_flag := (bh_flag s)(b := 0),
     tl_label := (tl_label s)(b + 2 ^ k - 8 := TAIL_LABEL), tl_size := (tl_size s)(b + 2 ^ k - 8 := 2 ^ k)\<rparr>"

lemma make_block_written:
  assumes "b \<noteq> 0" and "1 \<le> k" and "k < 30"
  shows "make_block junk b (2 ^ k) s = Some (b, written b k s)"
  using assms by (simp add: make_block_def ucast_power_u32 is_2power_power set_flag_def make_block_tail_def
      get_tail_def written_def Let_def)

text \<open>The tails of different blocks are different words.\<close>

lemma tails_apart:
  assumes t: "tiles K C R" and a: "K a = Some i" "3 \<le> i" and b: "K b = Some j" "3 \<le> j" and ne: "a \<noteq> b"
  shows "a + 2 ^ i - 8 \<noteq> b + 2 ^ j - 8"
proof
  have u: "uint (x + 2 ^ k - 8) = uint x + 2 ^ k - 8 \<and> uint (x + 2 ^ k - 8) \<in> span x k"
    if x: "K x = Some k" and k: "3 \<le> k" for x k
  proof -
    note B = tiles_block [OF t x]
    have p: "(8 :: int) \<le> 2 ^ k" using power_increasing [OF k, of "2 :: int"] by simp
    have "x + 2 ^ k - 8 = of_int (uint x + 2 ^ k - 8)" by simp
    moreover have "uint x + 2 ^ k - 8 < 2 ^ 64" "0 \<le> uint x + 2 ^ k - 8" using B(1,3) p by linarith+
    ultimately have "uint (x + 2 ^ k - 8) = uint x + 2 ^ k - 8" using uint_of_int_u64 by metis
    then show ?thesis using p by (simp add: span_def)
  qed
  assume "a + 2 ^ i - 8 = b + 2 ^ j - 8"
  then have "uint (a + 2 ^ i - 8) \<in> span a i \<inter> span b j" using u [OF a] u [OF b] by auto
  then show False using tiles_apart [OF t a(1) b(1) ne] by blast
qed

lemma core_written:
  assumes c: "core g P A K W H R s" and b: "b \<in> W" "K b = Some k"
  shows "core g P A K W (H - {b}) R (written b k s)"
proof -
  note d = coreD [OF c]
  let ?s = "written b k s"
  have four: "4 \<le> j" if "K a = Some j" for a j by (rule geo_facts(3) [OF d(1) d(8) [OF that]])
  show ?thesis
  proof (rule coreI)
    show "geo_ok ?s P g" using d(1) by (simp add: geo_ok_def geo_of_def written_def)
    show "dl.family (links ?s) A" using d(2) by (simp add: written_def)
    show "A (free_fln_list P) \<noteq> None" using d(3) by auto
    show "fln_ok g ?s y" if "y \<in> set (the (A (free_fln_list P)))" for y
      using d(4) [OF that] by (simp add: fln_ok_def written_def)
    show "A (cls g j) \<noteq> None" if "is_ord g j" for j using d(5) [OF that] by auto
    show "stands_for g ?s K W j y" if "is_ord g j" "y \<in> set (the (A (cls g j)))" for j y
    proof -
      have s: "stands_for g s K W j y" by (rule d(6) [OF that])
      then have "fln_block s y \<noteq> b" using b(1) by (auto simp: stands_for_def)
      then show ?thesis using s by (simp add: stands_for_def fln_ok_def written_def)
    qed
    show "hdr ?s a j" if a: "K a = Some j" "a \<notin> H - {b}" for a j
    proof (cases "a = b")
      case True
      then show ?thesis using a(1) b(2) by (simp add: hdr_def written_def)
    next
      case False
      then have "a + 2 ^ j - 8 \<noteq> b + 2 ^ k - 8" using tails_apart [OF d(11) a(1) _ b(2)] four [OF a(1)] four [OF b(2)] by simp
      then show ?thesis using d(9) [OF a(1)] a(2) False by (simp add: hdr_def written_def)
    qed
    show "\<exists>y \<in> set (the (A (cls g j))). fln_block ?s y = a" if "K a = Some j" "a \<notin> W" for a j
      using d(10) [OF that] by (simp add: written_def)
  qed (use d(7,8,11) in auto)
qed

end
