(* ===== verification/Mmpool_Alloc.thy ===== *)
theory Mmpool_Alloc
  imports Mmpool_Inv
begin

text \<open>
  Allocation from a buddy pool: the order a request needs, the search for a free block, splitting, and
  what \<open>mmp_alloc\<close> does to the blocks.
\<close>

section \<open>The order of a request\<close>

definition fits_order :: "geo \<Rightarrow> int \<Rightarrow> nat \<Rightarrow> bool" where
  "fits_order g n k \<longleftrightarrow> is_ord g k \<and> n + HEAD_TAIL_SIZE \<le> 2 ^ k \<and> (k = ord_min g \<or> 2 ^ (k - 1) < n + HEAD_TAIL_SIZE)"

lemma power_le_nat: "(2 :: nat) ^ a \<le> 2 ^ b \<longleftrightarrow> a \<le> b" "(2 :: nat) ^ a < 2 ^ b \<longleftrightarrow> a < b"
  by simp_all

lemma flh_idx_fits:
  assumes g: "geo_ok s P g" and n: "0 < n" "n \<le> 2 ^ ord_max g - HEAD_TAIL_SIZE"
  shows "\<exists>k. fits_order g n k \<and> flh_idx junk s P n = int (k - ord_min g)"
proof -
  have M: "4 \<le> ord_min g" "ord_min g < ord_max g" "ord_max g < 30" using g by (auto simp: geo_ok_def)
  have o: "is_ord g (ord_min g)" "is_ord g (ord_max g)" using M by (auto simp: is_ord_def)
  define v where "v = n + 16"
  have top: "(2 :: int) ^ ord_max g < 2 ^ 30" using M(3) by (intro power_strict_increasing) simp_all
  have v: "17 \<le> v" "v \<le> 2 ^ ord_max g" using n by (simp_all add: v_def HEAD_TAIL_SIZE_def)
  have u: "unat (of_int v :: u64) = nat v" using v top by (intro unat_of_int_u64) simp_all
  have n2: "2 \<le> nat v" "nat v \<le> 2 ^ 30" using v top by simp_all
  obtain i where i: "unat (round_up_2power junk (of_int v)) = 2 ^ Suc i" "2 ^ i < nat v" "nat v \<le> 2 ^ Suc i"
    using round_up_2power_bounds [of "of_int v" junk] n2 unfolding u by blast
  have iv: "2 ^ i < v" "v \<le> 2 ^ Suc i"
  proof -
    have "int (2 ^ i) < int (nat v)" "int (nat v) \<le> int (2 ^ Suc i)" using i(2,3) by (simp_all only: of_nat_less_iff of_nat_le_iff)
    then show "2 ^ i < v" "v \<le> 2 ^ Suc i" using v(1) by simp_all
  qed
  have "(2 :: int) ^ i < 2 ^ ord_max g" using iv(1) v(2) by linarith
  then have iM: "i < ord_max g" by (rule power_less_imp_less_exp [rotated]) simp
  have ru: "round_up_2power junk (of_int v) = 2 ^ Suc i"
    using i(1) unat_power_u64 [of "Suc i"] iM M(3) by (simp add: word_unat_eq_iff)
  have nb: "normalize_block_size junk n = 2 ^ Suc i"
    using ru sint_power_u64 [of "Suc i"] iM M(3) by (simp add: normalize_block_size_def block_size_by_payload_def HEAD_TAIL_SIZE_def v_def)
  have mn: "block_size (uint (mmp_min_order s P)) = 2 ^ ord_min g"
  proof -
    have "uint (mmp_min_order s P) = int (ord_min g)" using g by (auto simp: geo_ok_def geo_of_def)
    then show ?thesis using M by (simp add: block_size_power)
  qed
  let ?k = "max (ord_min g) (Suc i)"
  have k: "is_ord g ?k" using iM M by (auto simp: is_ord_def)
  have "v \<le> 2 ^ ?k" using iv(2) power_increasing [of "Suc i" ?k "2 :: int"] by linarith
  then have f: "fits_order g n ?k" using k iv(1) by (auto simp: fits_order_def HEAD_TAIL_SIZE_def v_def max_def)
  have big: "\<not> (2 :: int) ^ ord_max g < 2 ^ Suc i" using iM by (simp only: not_less) (rule power_increasing, simp_all)
  have small: "(if (2 :: int) ^ Suc i < 2 ^ ord_min g then 2 ^ ord_min g else 2 ^ Suc i) = 2 ^ ?k"
    by (auto simp: max_def simp del: power_Suc)
  have "flh_idx junk s P n = size_idx junk s P (2 ^ ?k)"
    using big unfolding flh_idx_def Let_def nb geo_facts(6) [OF g o(1)] mn small by (simp del: power_Suc)
  then show ?thesis using f geo_facts(4) [OF g k] by (intro exI [of _ ?k]) simp
qed

section \<open>The search\<close>

lemma first_list_ok:
  assumes c: "core g P A K W H R s" and k: "ord_min g \<le> k" "k \<le> Suc (ord_max g)"
  shows "\<exists>j. first_list P (int (k - ord_min g)) s = Some (int (j - ord_min g)) \<and> k \<le> j \<and> j \<le> Suc (ord_max g) \<and>
    (\<forall>i. k \<le> i \<longrightarrow> i < j \<longrightarrow> the (A (cls g i)) = []) \<and> (j \<le> ord_max g \<longrightarrow> the (A (cls g j)) \<noteq> [])"
  using k
proof (induction "Suc (ord_max g) - k" arbitrary: k)
  case 0
  have "mmp_list_count s P = int (ord_max g - ord_min g) + 1" "ord_min g < ord_max g"
    using coreD(1) [OF c] by (simp_all add: geo_ok_def)
  then have "\<not> int (k - ord_min g) < mmp_list_count s P" using 0 by linarith
  then have "first_list P (int (k - ord_min g)) s = Some (int (k - ord_min g))"
    by (subst first_list.simps) (rule if_not_P)
  then show ?case using 0 by (intro exI [of _ k]) auto
next
  case (Suc n)
  have o: "is_ord g k" using Suc.hyps(2) Suc.prems by (simp add: is_ord_def)
  note geo = geo_facts [OF coreD(1) [OF c] o]
  have lt: "int (k - ord_min g) < mmp_list_count s P" using coreD(1) [OF c] o by (simp add: geo_ok_def is_ord_def)
  have e: "lst_empty (cls g k) (links s) = Some (the (A (cls g k)) = [])"
    by (rule lst_empty_ok) (rule dl.family_rep [OF coreD(2) [OF c] coreD(5) [OF c o]])
  have step: "first_list P (int (k - ord_min g)) s =
     (if the (A (cls g k)) = [] then first_list P (int (Suc k - ord_min g)) s else Some (int (k - ord_min g)))"
  proof -
    have "int (k - ord_min g) + 1 = int (Suc k - ord_min g)" using Suc.prems(1) by simp
    then show ?thesis by (subst first_list.simps) (simp only: if_P [OF lt] geo(5) e Option.bind.bind_lunit)
  qed
  show ?case
  proof (cases "the (A (cls g k)) = []")
    case True
    obtain j where "first_list P (int (Suc k - ord_min g)) s = Some (int (j - ord_min g))" "Suc k \<le> j" "j \<le> Suc (ord_max g)"
      "\<forall>i. Suc k \<le> i \<longrightarrow> i < j \<longrightarrow> the (A (cls g i)) = []" "j \<le> ord_max g \<longrightarrow> the (A (cls g j)) \<noteq> []"
    proof -
      have "n = Suc (ord_max g) - Suc k" "ord_min g \<le> Suc k" "Suc k \<le> Suc (ord_max g)"
        using Suc.hyps(2) Suc.prems by simp_all
      from Suc.hyps(1) [OF this] show thesis using that by blast
    qed
    moreover have "the (A (cls g i)) = []" if "k \<le> i" "i < j" for i
      using that True calculation(4) by (cases "i = k") auto
    ultimately show ?thesis using step True by (intro exI [of _ j]) auto
  next
    case False
    then show ?thesis using step o by (intro exI [of _ k]) (auto simp: is_ord_def)
  qed
qed

section \<open>Splitting\<close>

lemma core_mono_H: "core g P A K W H R s \<Longrightarrow> H \<subseteq> H' \<Longrightarrow> core g P A K W H' R s"
  unfolding core_def by blast

text \<open>What splitting and pushing leave alone: the blocks in \<open>W\<close> and the list nodes.\<close>

definition keeps :: "ptr set \<Rightarrow> (ptr \<Rightarrow> nat option) \<Rightarrow> mmp_heap \<Rightarrow> (ptr \<Rightarrow> nat option) \<Rightarrow> mmp_heap \<Rightarrow> bool" where
  "keeps W K s K' s' \<longleftrightarrow> fln_idx s' = fln_idx s \<and> (\<forall>a \<in> W. K' a = K a \<and> bh_flag s' a = bh_flag s a)"

lemma split_block_ok:
  assumes "core g P A K W {b} R s" and "b \<in> W" and "K b = Some (k + n)" and "is_ord g k"
    and "n \<le> length (the (A (free_fln_list P)))"
  shows "\<exists>s' A' K'. split_block junk P b n (2 ^ (k + n)) s = Some (2 ^ k, s') \<and> core g P A' K' W {b} R s' \<and>
    K' b = Some k \<and> dl.members A' = dl.members A \<and> the (A' (free_fln_list P)) = drop n (the (A (free_fln_list P))) \<and>
    keeps (W - {b}) K s K' s'"
  using assms
proof (induction n arbitrary: A K s)
  case 0
  then show ?case by (intro exI [of _ s] exI [of _ A] exI [of _ K]) (simp add: keeps_def)
next
  case (Suc n)
  note c = Suc.prems(1) and b = Suc.prems(2)
  note d = coreD [OF c]
  let ?k = "k + n" let ?h = "b + 2 ^ ?k" let ?K = "K(b \<mapsto> ?k, ?h \<mapsto> ?k)"
  have Kb: "K b = Some (Suc ?k)" using Suc.prems(3) by simp
  have o: "is_ord g ?k" using d(8) [OF Kb] Suc.prems(4) by (simp add: is_ord_def)
  note geo = geo_facts [OF d(1) o]
  note sp = core_split [OF c b Kb o]
  have h0: "?h \<noteq> 0" using tiles_block(2) [OF coreD(11) [OF sp(1)], of ?h ?k] by simp
  have w: "make_block junk ?h (2 ^ ?k) s = Some (?h, written ?h ?k s)" by (rule make_block_written [OF h0 geo(2,1)])
  have "core g P A ?K (insert ?h W) ({?h, b} - {?h}) R (written ?h ?k s)"
    using core_written [OF sp(1), of ?h ?k] by simp
  moreover have "{?h, b} - {?h} = {b}" using sp(3) by auto
  ultimately have cw: "core g P A ?K (insert ?h W) {b} R (written ?h ?k s)" by simp
  obtain x xs where x: "the (A (free_fln_list P)) = x # xs" using Suc.prems(5) by (cases "the (A (free_fln_list P))") auto
  then have fl: "A (free_fln_list P) = Some (x # xs)" using d(3) by simp
  let ?A = "A(free_fln_list P := Some xs, cls g ?k := Some (x # the (A (cls g ?k))))"
  obtain s1 where s1: "return_free_node_to_head junk P ?h (written ?h ?k s) = Some (0, s1)"
    "core g P ?A ?K (insert ?h W - {?h}) {b} R s1" "bh_flag s1 = bh_flag (written ?h ?k s)"
    "fln_idx s1 = fln_idx (written ?h ?k s)" "dl.members ?A = dl.members A"
    using push_free_ok [OF cw _ _ _ _ fl, of ?h ?k junk] sp(3) by (auto simp: written_def)
  have hW: "?h \<notin> W" using sp(2) d(7) by blast
  have Wh: "insert ?h W - {?h} = W" using hW by auto
  define A1 where "A1 = ?A"
  define K1 where "K1 = ?K"
  have fl': "the (A1 (free_fln_list P)) = xs" using geo(7) by (simp add: A1_def)
  have c1: "core g P A1 K1 W {b} R s1" using s1(2) unfolding Wh A1_def K1_def .
  have K1: "K1 b = Some ?k" using sp(3) by (simp add: K1_def)
  have n: "n \<le> length (the (A1 (free_fln_list P)))" using Suc.prems(5) x fl' by simp
  obtain s' A' K' where IH: "split_block junk P b n (2 ^ ?k) s1 = Some (2 ^ k, s')" "core g P A' K' W {b} R s'"
    "K' b = Some k" "dl.members A' = dl.members A1" "the (A' (free_fln_list P)) = drop n xs" "keeps (W - {b}) K1 s1 K' s'"
    using Suc.IH [OF c1 b K1 Suc.prems(4) n] unfolding fl' by blast
  have half: "(2 :: int) ^ (k + Suc n) div 2 = 2 ^ ?k" by simp
  have "split_block junk P b (Suc n) (2 ^ (k + Suc n)) s = split_block junk P b n (2 ^ ?k) s1"
    using w s1(1) unfolding split_block.simps half Let_def by simp
  moreover have "keeps (W - {b}) K s K' s'"
    using IH(6) s1(3,4) hW by (auto simp: keeps_def written_def K1_def)
  moreover have "dl.members A' = dl.members A" using IH(4) s1(5) by (simp add: A1_def)
  moreover have "the (A' (free_fln_list P)) = drop (Suc n) (the (A (free_fln_list P)))" using IH(5) x by simp
  ultimately show ?case using IH(1-3) by auto
qed

section \<open>Taking a free block\<close>

lemma core_set_fln_idx:
  assumes c: "core g P A K W H R s" and b: "b \<in> W" shows "core g P A K W H R (set_fln_idx b v s)"
proof -
  note d = coreD [OF c]
  show ?thesis
  proof (rule coreI)
    show "geo_ok (set_fln_idx b v s) P g" using d(1) by (simp add: geo_ok_def geo_of_def set_fln_idx_def)
    show "fln_ok g (set_fln_idx b v s) y" if "y \<in> set (the (A (free_fln_list P)))" for y
      using d(4) [OF that] by (simp add: fln_ok_def set_fln_idx_def)
    show "stands_for g (set_fln_idx b v s) K W j y" if "is_ord g j" "y \<in> set (the (A (cls g j)))" for j y
    proof -
      have y: "stands_for g s K W j y" by (rule d(6) [OF that])
      then have "fln_block s y \<noteq> b" using b by (auto simp: stands_for_def)
      then show ?thesis using y by (simp add: stands_for_def fln_ok_def set_fln_idx_def)
    qed
    show "hdr (set_fln_idx b v s) a j" if "K a = Some j" "a \<notin> H" for a j
      using d(9) [OF that] by (simp add: hdr_def set_fln_idx_def)
    show "\<exists>y \<in> set (the (A (cls g j))). fln_block (set_fln_idx b v s) y = a" if "K a = Some j" "a \<notin> W" for a j
      using d(10) [OF that] by (simp add: set_fln_idx_def)
  qed (use d(2,3,5,7,8,11) in \<open>auto simp: set_fln_idx_def\<close>)
qed

lemma core_set_flag:
  assumes c: "core g P A K W H R s" and b: "b \<in> W" shows "core g P A K W H R (set_flag b v s)"
proof -
  note d = coreD [OF c]
  show ?thesis
  proof (rule coreI)
    show "geo_ok (set_flag b v s) P g" using d(1) by (simp add: geo_ok_def geo_of_def set_flag_def)
    show "fln_ok g (set_flag b v s) y" if "y \<in> set (the (A (free_fln_list P)))" for y
      using d(4) [OF that] by (simp add: fln_ok_def set_flag_def)
    show "stands_for g (set_flag b v s) K W j y" if "is_ord g j" "y \<in> set (the (A (cls g j)))" for j y
    proof -
      have y: "stands_for g s K W j y" by (rule d(6) [OF that])
      then have "fln_block s y \<noteq> b" using b by (auto simp: stands_for_def)
      then show ?thesis using y by (simp add: stands_for_def fln_ok_def set_flag_def)
    qed
    show "hdr (set_flag b v s) a j" if "K a = Some j" "a \<notin> H" for a j
      using d(9) [OF that] by (simp add: hdr_def set_flag_def)
    show "\<exists>y \<in> set (the (A (cls g j))). fln_block (set_flag b v s) y = a" if "K a = Some j" "a \<notin> W" for a j
      using d(10) [OF that] by (simp add: set_flag_def)
  qed (use d(2,3,5,7,8,11) in \<open>auto simp: set_flag_def\<close>)
qed

text \<open>The spare list nodes.\<close>

definition spares :: "(ptr \<Rightarrow> ptr list option) \<Rightarrow> ptr \<Rightarrow> nat" where
  "spares A P = length (the (A (free_fln_list P)))"

lemma take_exact:
  assumes c: "core g P A K U {} R s" and k: "is_ord g k" and ne: "the (A (cls g k)) \<noteq> []"
  shows "\<exists>b A' s'. mmp_take_free_node junk P (int (k - ord_min g)) s = Some (0, b, s') \<and> core g P A' K (insert b U) {} R s' \<and>
    K b = Some k \<and> b \<notin> U \<and> b \<noteq> 0 \<and> bh_flag s' b = 0 \<and> bh_flag s' = bh_flag s \<and> spares A' P = Suc (spares A P)"
proof -
  note d = coreD [OF c]
  note geo = geo_facts [OF d(1) k]
  obtain x xs where x: "A (cls g k) = Some (x # xs)" using ne d(5) [OF k] by (cases "the (A (cls g k))") auto
  obtain j where j: "first_list P (int (k - ord_min g)) s = Some (int (j - ord_min g))" "k \<le> j"
    "\<forall>i. k \<le> i \<longrightarrow> i < j \<longrightarrow> the (A (cls g i)) = []"
    using first_list_ok [OF c, of k] k by (auto simp: is_ord_def)
  have jk: "j = k" using j(2) j(3) [rule_format, of k] ne by (cases "k = j") simp_all
  define b where "b = fln_block s x"
  let ?A = "A(cls g k := Some xs)"
  obtain h where h: "lst_pop_front (cls g k) (links s) = Some (x, h)" "core g P ?A K (insert b U) {} R (s\<lparr>links := h\<rparr>)"
    "x \<notin> dl.members ?A" "stands_for g s K U k x"
    using pop_block_ok [OF c k x] unfolding b_def by blast
  define s1 where "s1 = set_fln_idx b 0 (s\<lparr>links := h\<rparr>)"
  have c1: "core g P ?A K (insert b U) {} R s1" unfolding s1_def by (rule core_set_fln_idx [OF h(2)]) simp
  have xo: "fln_ok g s1 x" using h(4) by (simp add: stands_for_def fln_ok_def s1_def set_fln_idx_def)
  obtain s' where s': "return_free_fln P x s1 = Some (0, s')"
    "core g P (?A(free_fln_list P := Some (x # the (?A (free_fln_list P))))) K (insert b U) {} R s'" "bh_flag s' = bh_flag s1"
    using core_return_fln [OF c1 h(3) xo] by blast
  have b: "K b = Some k" "b \<notin> U" "bh_flag s b = 0" using h(4) by (simp_all add: stands_for_def b_def)
  have b0: "b \<noteq> 0" by (rule tiles_block(2) [OF d(11) b(1)])
  have x0: "x \<noteq> 0" using h(4) by (simp add: stands_for_def fln_ok_def)
  have lt: "int (k - ord_min g) < mmp_list_count s P" using d(1) k by (simp add: geo_ok_def is_ord_def)
  have p: "on_links (lst_pop_front (cls g k)) s = Some (x, s\<lparr>links := h\<rparr>)" using h(1) by simp
  have "mmp_take_free_node junk P (int (k - ord_min g)) s = Some (0, b, s')"
    using j(1) lt geo(5) p x0 b0 s'(1)
    by (simp add: jk mmp_take_free_node_def b_def [symmetric] s1_def [symmetric] del: of_nat_diff)
  moreover have "bh_flag s' = bh_flag s" using s'(3) by (simp add: s1_def set_fln_idx_def)
  moreover have "spares (?A(free_fln_list P := Some (x # the (?A (free_fln_list P))))) P = Suc (spares A P)"
    using geo(7) by (simp add: spares_def)
  ultimately show ?thesis using s'(2) b b0 by (intro exI [of _ b] exI [of _ "?A(free_fln_list P := Some (x # the (?A (free_fln_list P))))"] exI [of _ s']) simp
qed

lemma take_split:
  assumes c: "core g P A K U {} R s" and k: "is_ord g k" and j: "is_ord g j" "k < j" "the (A (cls g j)) \<noteq> []"
    and empty: "\<And>i. k \<le> i \<Longrightarrow> i < j \<Longrightarrow> the (A (cls g i)) = []" and sp: "ord_max g - ord_min g < spares A P"
  shows "\<exists>A' K' s'. mmp_take_free_node junk P (int (k - ord_min g)) s = Some (0, 0, s') \<and> core g P A' K' U {} R s' \<and>
    the (A' (cls g k)) \<noteq> [] \<and> keeps U K s K' s' \<and> spares A P = spares A' P + (j - k)"
proof -
  note d = coreD [OF c]
  note geo = geo_facts [OF d(1) j(1)]
  note geok = geo_facts [OF d(1) k]
  obtain x xs where x: "A (cls g j) = Some (x # xs)" using j(3) d(5) [OF j(1)] by (cases "the (A (cls g j))") auto
  obtain j' where j': "first_list P (int (k - ord_min g)) s = Some (int (j' - ord_min g))" "k \<le> j'"
    "\<forall>i. k \<le> i \<longrightarrow> i < j' \<longrightarrow> the (A (cls g i)) = []" "j' \<le> ord_max g \<longrightarrow> the (A (cls g j')) \<noteq> []"
    using first_list_ok [OF c, of k] k by (auto simp: is_ord_def)
  have jj: "j' = j"
  proof (rule ccontr)
    assume "j' \<noteq> j"
    then consider "j < j'" | "j' < j" by linarith
    then show False
    proof cases
      case 1
      then show False using j'(3) j(2,3) by auto
    next
      case 2
      then show False using j'(2,4) empty [of j'] j(1) by (auto simp: is_ord_def)
    qed
  qed
  define b where "b = fln_block s x"
  define A1 where "A1 = A(cls g j := Some xs)"
  define n where "n = j - k"
  have kn: "k + n = j" using j(2) by (simp add: n_def)
  obtain h where h: "lst_pop_front (cls g j) (links s) = Some (x, h)" "core g P A1 K (insert b U) {} R (s\<lparr>links := h\<rparr>)"
    "x \<notin> dl.members A1" "stands_for g s K U j x"
    using pop_block_ok [OF c j(1) x] unfolding b_def A1_def by blast
  define s1 where "s1 = s\<lparr>links := h\<rparr>"
  have b: "K b = Some (k + n)" "b \<notin> U" using h(4) kn by (simp_all add: stands_for_def b_def)
  have c1: "core g P A1 K (insert b U) {b} R s1" unfolding s1_def by (rule core_mono_H [OF h(2)]) simp
  have sp1: "the (A1 (free_fln_list P)) = the (A (free_fln_list P))" using geo(7) by (simp add: A1_def)
  have len: "n < length (the (A1 (free_fln_list P)))"
    using sp j(1) k unfolding sp1 spares_def n_def is_ord_def by linarith
  obtain s2 A2 K2 where s2: "split_block junk P b n (2 ^ (k + n)) s1 = Some (2 ^ k, s2)" "core g P A2 K2 (insert b U) {b} R s2"
    "K2 b = Some k" "dl.members A2 = dl.members A1" "the (A2 (free_fln_list P)) = drop n (the (A1 (free_fln_list P)))"
    "keeps (insert b U - {b}) K s1 K2 s2"
    using split_block_ok [OF c1 insertI1 b(1) k less_imp_le [OF len], of junk] by blast
  have bU: "insert b U - {b} = U" using b(2) by auto
  have b0: "b \<noteq> 0" by (rule tiles_block(2) [OF coreD(11) [OF s2(2)] s2(3)])
  have mk: "make_block junk b (2 ^ k) s2 = Some (b, written b k s2)" by (rule make_block_written [OF b0 geok(2,1)])
  have c2: "core g P A2 K2 (insert b U) {} R (written b k s2)" using core_written [OF s2(2) _ s2(3)] by simp
  obtain y ys where y: "A2 (free_fln_list P) = Some (y # ys)" "length (the (A1 (free_fln_list P))) = Suc (length ys) + n"
  proof -
    have "the (A2 (free_fln_list P)) \<noteq> []" using s2(5) len by simp
    then obtain y ys where e: "the (A2 (free_fln_list P)) = y # ys" by (cases "the (A2 (free_fln_list P))") auto
    then have "A2 (free_fln_list P) = Some (y # ys)" using coreD(3) [OF c2] by simp
    moreover have "length (y # ys) = length (the (A1 (free_fln_list P))) - n" using s2(5) e by (metis length_drop)
    ultimately show thesis using that len by simp
  qed
  define A3 where "A3 = A2(free_fln_list P := Some ys, cls g k := Some (y # the (A2 (cls g k))))"
  obtain s3 where s3: "return_free_node_to_head junk P b (written b k s2) = Some (0, s3)" "core g P A3 K2 U {} R s3"
    "bh_flag s3 = bh_flag (written b k s2)" "fln_idx s3 = fln_idx (written b k s2)" "dl.members A3 = dl.members A2"
    using push_free_ok [OF c2 _ s2(3) _ _ y(1), of junk] unfolding bU A3_def by (auto simp: written_def)
  have xo: "fln_ok g s3 x"
  proof -
    have "fln_idx s3 = fln_idx s" using s3(4) s2(6) by (simp add: written_def keeps_def s1_def)
    then show ?thesis using h(4) by (simp add: stands_for_def fln_ok_def)
  qed
  have xm: "x \<notin> dl.members A3" using h(3) s2(4) s3(5) by simp
  define A4 where "A4 = A3(free_fln_list P := Some (x # the (A3 (free_fln_list P))))"
  obtain s4 where s4: "return_free_fln P x s3 = Some (0, s4)" "core g P A4 K2 U {} R s4" "bh_flag s4 = bh_flag s3"
      "fln_idx s4 = fln_idx s3"
    using core_return_fln [OF s3(2) xm xo] unfolding A4_def by blast
  have x0: "x \<noteq> 0" using h(4) by (simp add: stands_for_def fln_ok_def)
  have lt: "int (j - ord_min g) < mmp_list_count s P" using d(1) j(1) by (simp add: geo_ok_def is_ord_def)
  have gt: "int (k - ord_min g) < int (j - ord_min g)" using j(2) k by (simp add: is_ord_def)
  have nn: "nat (int (j - ord_min g) - int (k - ord_min g)) = n" using j(2) k by (simp add: n_def is_ord_def)
  have p: "on_links (lst_pop_front (cls g j)) s = Some (x, s1)" using h(1) by (simp add: s1_def)
  have sz: "uint (bh_size s1 b) = 2 ^ (k + n)"
  proof -
    have "hdr s b (k + n)" by (rule d(9) [OF b(1)]) simp
    then show ?thesis using geo(1) kn uint_power_u32 [of j] by (simp add: hdr_def s1_def)
  qed
  have blk: "fln_block s1 x = b" by (simp add: s1_def b_def)
  have "mmp_take_free_node junk P (int (k - ord_min g)) s = Some (0, 0, s4)"
    using j'(1) lt gt geo(5) p x0 b0 s2(1) mk s3(1) s4(1)
    by (simp add: jj mmp_take_free_node_def nn sz blk del: of_nat_diff)
  moreover have "the (A4 (cls g k)) \<noteq> []" using coreD(10) [OF s4(2) s2(3) b(2)] by auto
  moreover have "keeps U K s K2 s4"
    using s2(6) s3(3,4) s4(3,4) b(2) unfolding bU by (auto simp: keeps_def written_def s1_def)
  moreover have "spares A P = spares A4 P + n"
  proof -
    have "the (A3 (free_fln_list P)) = ys" using geok(7) by (simp add: A3_def)
    then show ?thesis using y(2) sp1 by (simp add: spares_def A4_def)
  qed
  ultimately show ?thesis using s4(2) unfolding n_def by blast
qed

section \<open>Allocation\<close>

lemma take_loop_exact:
  assumes c: "core g P A K U {} R s" and k: "is_ord g k" and ne: "the (A (cls g k)) \<noteq> []"
  shows "\<exists>b A' s'. mmp_take_loop junk P (int (k - ord_min g)) s = Some (0, b, s') \<and> core g P A' K (insert b U) {} R s' \<and>
    K b = Some k \<and> b \<notin> U \<and> bh_flag s' b = 0 \<and> bh_flag s' = bh_flag s \<and> spares A' P = Suc (spares A P)"
proof -
  obtain b A' s' where t: "mmp_take_free_node junk P (int (k - ord_min g)) s = Some (0, b, s')"
    "core g P A' K (insert b U) {} R s'" "K b = Some k" "b \<notin> U" "b \<noteq> 0" "bh_flag s' b = 0" "bh_flag s' = bh_flag s"
    "spares A' P = Suc (spares A P)"
    using take_exact [OF c k ne, of junk] by blast
  have "mmp_take_loop junk P (int (k - ord_min g)) s = Some (0, b, s')"
    using t(1,5) by (subst mmp_take_loop.simps) simp
  then show ?thesis using t(2-4,6-8) by blast
qed

text \<open>Some block of order \<open>k\<close> or above is free.\<close>

definition has_free :: "geo \<Rightarrow> (ptr \<Rightarrow> nat option) \<Rightarrow> ptr set \<Rightarrow> nat \<Rightarrow> bool" where
  "has_free g K U k \<longleftrightarrow> (\<exists>a j. K a = Some j \<and> k \<le> j \<and> a \<notin> U)"

lemma has_free_lists:
  assumes c: "core g P A K U H R s"
  shows "has_free g K U k \<longleftrightarrow> (\<exists>j. k \<le> j \<and> is_ord g j \<and> the (A (cls g j)) \<noteq> [])"
proof
  assume "has_free g K U k"
  then obtain a j where "K a = Some j" "k \<le> j" "a \<notin> U" by (auto simp: has_free_def)
  then show "\<exists>j. k \<le> j \<and> is_ord g j \<and> the (A (cls g j)) \<noteq> []"
    using coreD(8) [OF c, of a j] coreD(10) [OF c, of a j] by (intro exI [of _ j]) auto
next
  assume "\<exists>j. k \<le> j \<and> is_ord g j \<and> the (A (cls g j)) \<noteq> []"
  then obtain j where j: "k \<le> j" "is_ord g j" "the (A (cls g j)) \<noteq> []" by blast
  then have "stands_for g s K U j (hd (the (A (cls g j))))" using coreD(6) [OF c j(2)] by simp
  then show "has_free g K U k" using j(1) unfolding stands_for_def has_free_def by blast
qed

lemma take_loop_none:
  assumes c: "core g P A K U {} R s" and k: "is_ord g k" and no: "\<not> has_free g K U k"
  shows "mmp_take_loop junk P (int (k - ord_min g)) s = Some (-1, 0, s)"
proof -
  obtain j where j: "first_list P (int (k - ord_min g)) s = Some (int (j - ord_min g))" "k \<le> j" "j \<le> Suc (ord_max g)"
    "j \<le> ord_max g \<longrightarrow> the (A (cls g j)) \<noteq> []"
    using first_list_ok [OF c, of k] k by (auto simp: is_ord_def)
  have "\<not> j \<le> ord_max g" using no j(2,4) k has_free_lists [OF c] by (auto simp: is_ord_def)
  then have "\<not> int (j - ord_min g) < mmp_list_count s P" using coreD(1) [OF c] by (simp add: geo_ok_def)
  then have "mmp_take_free_node junk P (int (k - ord_min g)) s = Some (-1, 0, s)"
    using j(1) by (simp add: mmp_take_free_node_def del: of_nat_diff)
  then show ?thesis by (subst mmp_take_loop.simps) simp
qed

lemma take_loop_ok:
  assumes c: "core g P A K U {} R s" and k: "is_ord g k" and free: "has_free g K U k"
    and sp: "ord_max g - ord_min g < spares A P"
  shows "\<exists>b A' K' s'. mmp_take_loop junk P (int (k - ord_min g)) s = Some (0, b, s') \<and> core g P A' K' (insert b U) {} R s' \<and>
    K' b = Some k \<and> b \<notin> U \<and> bh_flag s' b = 0 \<and> (\<forall>a \<in> U. K' a = K a \<and> bh_flag s' a = bh_flag s a) \<and>
    spares A P \<le> spares A' P + (ord_max g - ord_min g)"
proof -
  define j where "j = (LEAST j. k \<le> j \<and> is_ord g j \<and> the (A (cls g j)) \<noteq> [])"
  have j: "k \<le> j \<and> is_ord g j \<and> the (A (cls g j)) \<noteq> []"
    unfolding j_def by (rule LeastI_ex) (use has_free_lists [OF c] free in blast)
  have empty: "the (A (cls g i)) = []" if "k \<le> i" "i < j" for i
    using not_less_Least [OF that(2) [unfolded j_def]] that k j by (auto simp: is_ord_def)
  show ?thesis
  proof (cases "k = j")
    case True
    obtain b A' s' where t: "mmp_take_loop junk P (int (k - ord_min g)) s = Some (0, b, s')" "core g P A' K (insert b U) {} R s'"
      "K b = Some k" "b \<notin> U" "bh_flag s' b = 0" "bh_flag s' = bh_flag s" "spares A' P = Suc (spares A P)"
      using take_loop_exact [OF c k, of junk] j True by blast
    then show ?thesis by (intro exI [of _ b] exI [of _ A'] exI [of _ K] exI [of _ s']) simp
  next
    case False
    then have lt: "k < j" using j by simp
    obtain A1 K1 s1 where t: "mmp_take_free_node junk P (int (k - ord_min g)) s = Some (0, 0, s1)" "core g P A1 K1 U {} R s1"
      "the (A1 (cls g k)) \<noteq> []" "keeps U K s K1 s1" "spares A P = spares A1 P + (j - k)"
      using take_split [OF c k _ lt _ empty sp, of junk] j by blast
    obtain b A' s' where u: "mmp_take_loop junk P (int (k - ord_min g)) s1 = Some (0, b, s')" "core g P A' K1 (insert b U) {} R s'"
      "K1 b = Some k" "b \<notin> U" "bh_flag s' b = 0" "bh_flag s' = bh_flag s1" "spares A' P = Suc (spares A1 P)"
      using take_loop_exact [OF t(2) k t(3), of junk] by blast
    have "mmp_take_loop junk P (int (k - ord_min g)) s = Some (0, b, s')"
      using t(1) u(1) by (subst mmp_take_loop.simps) simp
    moreover have "spares A P \<le> spares A' P + (ord_max g - ord_min g)"
      using t(5) u(7) j k unfolding is_ord_def by linarith
    moreover have "\<forall>a \<in> U. K1 a = K a \<and> bh_flag s' a = bh_flag s a" using t(4) u(6) by (simp add: keeps_def)
    ultimately show ?thesis using u(2-5) by blast
  qed
qed

lemma request_too_large:
  assumes g: "geo_ok s P g" shows "(psz :: u64) > of_int (mmp_max_payload s P) \<longleftrightarrow> uint psz > 2 ^ ord_max g - HEAD_TAIL_SIZE"
proof -
  have M: "4 \<le> ord_min g" "ord_min g < ord_max g" "ord_max g < 30" and mp: "mmp_max_payload s P = 2 ^ ord_max g - 16"
    using g by (auto simp: geo_ok_def)
  have top: "(2 :: int) ^ ord_max g < 2 ^ 30" using M(3) by (intro power_strict_increasing) simp_all
  have low: "(2 :: int) ^ 5 \<le> 2 ^ ord_max g" using M(1,2) by (intro power_increasing) simp_all
  have "uint (of_int (2 ^ ord_max g - 16) :: u64) = 2 ^ ord_max g - 16"
    by (rule uint_of_int_u64) (use top low in simp_all)
  then show ?thesis unfolding mp word_less_def HEAD_TAIL_SIZE_def by simp
qed

text \<open>A request that is not refused at once is one for a block of the least order it fits.\<close>

lemma mmp_alloc_run:
  assumes g: "geo_ok s P g" and ok: "\<not> (psz = 0 \<or> uint psz > 2 ^ ord_max g - HEAD_TAIL_SIZE)"
  obtains k where "fits_order g (uint psz) k" and "mmp_alloc junk (P + 8) psz s = do {
      (rslt, bh, s) \<leftarrow> mmp_take_loop junk P (int (k - ord_min g)) s;
      if rslt < 0 then Some (0, s)
      else if bh_flag s bh AND BLOCK_BIT_USED \<noteq> 0 \<or> bh_flag s bh AND BLOCK_BIT_UNM \<noteq> 0 then Some (0, s)
      else Some (payload_addr bh, set_flag bh (bh_flag s bh OR BLOCK_BIT_USED) s) }"
proof -
  have n: "0 < uint psz" "uint psz \<le> 2 ^ ord_max g - HEAD_TAIL_SIZE"
    using ok uint_ge_0 [of psz] word_uint_eq_iff [of psz 0] by (auto simp: less_le)
  obtain k where k: "fits_order g (uint psz) k" "flh_idx junk s P (uint psz) = int (k - ord_min g)"
    using flh_idx_fits [OF g n, of junk] by blast
  have P0: "P \<noteq> 0" and M: "ord_max g < 30" using g by (auto simp: geo_ok_def)
  have "(2 :: int) ^ ord_max g < 2 ^ 30" using M by (intro power_strict_increasing) simp_all
  then have "sint psz = uint psz" using n(2) by (intro sint_eq_uint_small) (simp add: HEAD_TAIL_SIZE_def)
  then show thesis using that [OF k(1)] ok request_too_large [OF g, of psz] P0
    by (simp add: mmp_alloc_def k(2) Let_def del: of_nat_diff)
qed

text \<open>What the caller gets when a block was taken.\<close>

lemma taken_blocks:
  assumes ok: "mmp_ok g P A K U R s" and c: "core g P A' K' (insert b U) {} R s1" and b: "K' b = Some k" "b \<notin> U"
    and keep: "\<forall>a \<in> U. K' a = K a \<and> bh_flag s1 a = bh_flag s a"
  shows "mmp_ok g P A' K' (insert b U) R (set_flag b BLOCK_BIT_USED s1)" and "span b k \<subseteq> R"
    and "\<forall>a \<in> U. K' a = K a \<and> span a (the (K a)) \<inter> span b k = {}"
proof -
  have c0: "core g P A K U {} R s" and used: "\<forall>b \<in> U. bh_flag s b = BLOCK_BIT_USED" using ok by (auto simp: mmp_ok_def)
  note dom = coreD(7) [OF c0]
  show "mmp_ok g P A' K' (insert b U) R (set_flag b BLOCK_BIT_USED s1)"
    using core_set_flag [OF c, of b BLOCK_BIT_USED] keep used by (auto simp: mmp_ok_def set_flag_def BLOCK_BIT_USED_def)
  show "span b k \<subseteq> R" using coreD(11) [OF c] b(1) unfolding tiles_def by (force simp: dom_def)
  show "\<forall>a \<in> U. K' a = K a \<and> span a (the (K a)) \<inter> span b k = {}"
  proof (intro ballI conjI)
    fix a assume a: "a \<in> U"
    show e: "K' a = K a" using keep a by simp
    obtain i where i: "K a = Some i" using dom a by blast
    have "a \<noteq> b" using a b(2) by blast
    then show "span a (the (K a)) \<inter> span b k = {}" using tiles_apart [OF coreD(11) [OF c], of a i b k] e i b(1) by simp
  qed
qed

text \<open>
  C3.  On a pool of blocks that tile the region \<open>R\<close>, with more spare list nodes than there are orders above
  the least, \<open>mmp_alloc\<close> ends.  It refuses an empty request and one
  above the largest block.  Otherwise it takes the least order \<open>k\<close> whose blocks hold the payload, head and
  tail; if no free block of that order or above is left it fails and changes nothing, and if there is one it
  returns the payload of a block of order \<open>k\<close> that was not in use, overlaps none in use, and is marked as
  used; the blocks in use keep their place and size, and the blocks still tile \<open>R\<close>.
\<close>

theorem mmp_alloc_blocks:
  assumes ok: "mmp_ok g P A K U R s" and sp: "ord_max g - ord_min g < spares A P"
  shows "if psz = 0 \<or> uint psz > 2 ^ ord_max g - HEAD_TAIL_SIZE then mmp_alloc junk (P + 8) psz s = Some (0, s)
    else \<exists>k. fits_order g (uint psz) k \<and>
      (if has_free g K U k
       then \<exists>b A' K' s'. mmp_alloc junk (P + 8) psz s = Some (b + 8, s') \<and> b \<notin> U \<and> K' b = Some k \<and>
         mmp_ok g P A' K' (insert b U) R s' \<and> span b k \<subseteq> R \<and>
         (\<forall>a \<in> U. K' a = K a \<and> span a (the (K a)) \<inter> span b k = {}) \<and>
         spares A P \<le> spares A' P + (ord_max g - ord_min g)
       else mmp_alloc junk (P + 8) psz s = Some (0, s))"
proof (cases "psz = 0 \<or> uint psz > 2 ^ ord_max g - HEAD_TAIL_SIZE")
  case True
  have g: "geo_ok s P g" using ok coreD(1) by (auto simp: mmp_ok_def)
  then have "P \<noteq> 0" by (simp add: geo_ok_def)
  then show ?thesis using True request_too_large [OF g, of psz] by (auto simp: mmp_alloc_def)
next
  case False
  have c: "core g P A K U {} R s" using ok by (simp add: mmp_ok_def)
  obtain k where k: "fits_order g (uint psz) k" and run: "mmp_alloc junk (P + 8) psz s = do {
      (rslt, bh, s) \<leftarrow> mmp_take_loop junk P (int (k - ord_min g)) s;
      if rslt < 0 then Some (0, s)
      else if bh_flag s bh AND BLOCK_BIT_USED \<noteq> 0 \<or> bh_flag s bh AND BLOCK_BIT_UNM \<noteq> 0 then Some (0, s)
      else Some (payload_addr bh, set_flag bh (bh_flag s bh OR BLOCK_BIT_USED) s) }"
    using mmp_alloc_run [OF coreD(1) [OF c] False, of junk] by blast
  have ko: "is_ord g k" using k by (simp add: fits_order_def)
  show ?thesis
  proof (cases "has_free g K U k")
    case no: False
    then show ?thesis using False k take_loop_none [OF c ko no, of junk] by (auto simp: run)
  next
    case True
    obtain b A' K' s1 where t: "mmp_take_loop junk P (int (k - ord_min g)) s = Some (0, b, s1)"
      "core g P A' K' (insert b U) {} R s1" "K' b = Some k" "b \<notin> U" "bh_flag s1 b = 0"
      "\<forall>a \<in> U. K' a = K a \<and> bh_flag s1 a = bh_flag s a" "spares A P \<le> spares A' P + (ord_max g - ord_min g)"
      using take_loop_ok [OF c ko True sp, of junk] by blast
    have "mmp_alloc junk (P + 8) psz s = Some (b + 8, set_flag b BLOCK_BIT_USED s1)" using t(1,5) by (simp add: run payload_addr_def)
    then have "\<exists>b A' K' s'. mmp_alloc junk (P + 8) psz s = Some (b + 8, s') \<and> b \<notin> U \<and> K' b = Some k \<and>
        mmp_ok g P A' K' (insert b U) R s' \<and> span b k \<subseteq> R \<and> (\<forall>a \<in> U. K' a = K a \<and> span a (the (K a)) \<inter> span b k = {}) \<and>
        spares A P \<le> spares A' P + (ord_max g - ord_min g)"
      using taken_blocks [OF ok t(2,3,4,6)] t(3,4,7) by blast
    then show ?thesis unfolding if_not_P [OF False] using k True by (intro exI [of _ k]) simp
  qed
qed

section \<open>A small pool\<close>

definition mmp_ex :: "dl_heap \<Rightarrow> mmp_heap" where
  "mmp_ex h = \<lparr>bytes = (\<lambda>_. 0), links = h, mmp_chunck_label = (\<lambda>_. CHUNK_LABEL), mmp_addr_begin = (\<lambda>_. 0x1000),
     mmp_addr_end = (\<lambda>_. 0x3000), mmp_min_order = (\<lambda>_. 5), mmp_max_order = (\<lambda>_. 6), mmp_list_count = (\<lambda>_. 2),
     mmp_min_payload = (\<lambda>_. 16), mmp_max_payload = (\<lambda>_. 48), mmp_chunk_addr = (\<lambda>_. 0x2000), mmp_chunk_size = (\<lambda>_. 64),
     mmp_fln_count = (\<lambda>_. 3), mmp_fln_pool = (\<lambda>_. 0x1100), mmp_flh = (\<lambda>_. 0x1080), fln_block = (\<lambda>_. 0x2000),
     fln_idx = (\<lambda>a. if a = 0x1100 then 0 else if a = 0x1120 then 1 else 2), flh_op_count = (\<lambda>_. 0), bh_flag = (\<lambda>_. 0),
     bh_fln_idx = (\<lambda>_. 0), bh_size = (\<lambda>_. 64), tl_label = (\<lambda>_. TAIL_LABEL), tl_size = (\<lambda>_. 64)\<rparr>"

definition geo_ex :: geo where
  "geo_ex = \<lparr>ord_min = 5, ord_max = 6, flhs = 0x1080, flns = 0x1100, base = 0x2000\<rparr>"

text \<open>Its lists: the node of the only free block is on the list at \<open>l\<close>.\<close>

definition mmp_ex_lists :: "ptr \<Rightarrow> ptr \<Rightarrow> ptr list option" where
  "mmp_ex_lists l = [0x1050 \<mapsto> [], 0x1080 \<mapsto> [], 0x10A8 \<mapsto> []](l \<mapsto> [0x1100], 0x1050 \<mapsto> [0x1140, 0x1120])"

lemma mmp_ex_family:
  assumes l: "l \<in> {0x1080, 0x10A8}" shows "\<exists>h. dl.family h (mmp_ex_lists l)"
proof -
  obtain h1 where h1: "dl.family h1 [0x1050 \<mapsto> []]" "dl.members [0x1050 \<mapsto> []] = {0x1050, 0x1060}"
    using family_new [OF family_empty, of "0x1050"] by (auto simp: dl.members_def)
  obtain h2 where h2: "dl.family h2 ([0x1050 \<mapsto> []](0x1080 \<mapsto> []))"
    "dl.members ([0x1050 \<mapsto> []](0x1080 \<mapsto> [])) = {0x1080, 0x1090, 0x1050, 0x1060}"
    using family_new [OF h1(1), of "0x1080"] h1(2) by auto
  define A3 :: "ptr \<Rightarrow> ptr list option" where "A3 = [0x1050 \<mapsto> [], 0x1080 \<mapsto> [], 0x10A8 \<mapsto> []]"
  obtain h3 where h3: "dl.family h3 A3" "dl.members A3 = {0x10A8, 0x10B8, 0x1080, 0x1090, 0x1050, 0x1060}"
    unfolding A3_def using family_new [OF h2(1), of "0x10A8"] h2(2) by auto
  have l3: "A3 l = Some []" "l \<noteq> 0x1050" using l by (auto simp: A3_def)
  define A4 where "A4 = A3(l \<mapsto> [0x1100])"
  have n4: "0x1100 \<notin> dl.members A3" unfolding h3(2) by simp
  obtain h4 where h4: "dl.family h4 A4" "dl.members A4 = insert 0x1100 (dl.members A3)"
    unfolding A4_def using dl.family_push_front [OF h3(1) l3(1) n4] by auto
  define A5 where "A5 = A4(0x1050 \<mapsto> [0x1120])"
  have l4: "A4 0x1050 = Some []" using l3(2) by (simp add: A4_def A3_def)
  have n5: "0x1120 \<notin> dl.members A4" unfolding h4(2) h3(2) by simp
  obtain h5 where h5: "dl.family h5 A5" "dl.members A5 = insert 0x1120 (dl.members A4)"
    unfolding A5_def using dl.family_push_front [OF h4(1) l4 n5] by auto
  have l5: "A5 0x1050 = Some [0x1120]" by (simp add: A5_def)
  have n6: "0x1140 \<notin> dl.members A5" unfolding h5(2) h4(2) h3(2) by simp
  obtain h6 where "dl.family h6 (A5(0x1050 \<mapsto> [0x1140, 0x1120]))"
    using dl.family_push_front [OF h5(1) l5 n6] by auto
  then show ?thesis unfolding mmp_ex_lists_def A5_def A4_def A3_def fun_upd_upd by blast
qed

lemma mmp_ex_ok:
  "\<exists>h A. mmp_ok geo_ex 0x1000 A [0x2000 \<mapsto> 6] {} {0x2000 ..< 0x2040} (mmp_ex h) \<and> spares A 0x1000 = 2"
proof -
  define A :: "ptr \<Rightarrow> ptr list option" where "A = mmp_ex_lists 0x10A8"
  obtain h6 where h6: "dl.family h6 A" using mmp_ex_family [of "0x10A8"] unfolding A_def by blast
  have o: "is_ord geo_ex k \<longleftrightarrow> k = 5 \<or> k = 6" for k by (auto simp: is_ord_def geo_ex_def)
  have t: "tiles [0x2000 \<mapsto> 6] (base geo_ex) {0x2000 ..< 0x2040}"
    by (auto simp: tiles_def span_def geo_ex_def split: if_splits)
  have "core geo_ex 0x1000 A [0x2000 \<mapsto> 6] {} {} {0x2000 ..< 0x2040} (mmp_ex h6)"
  proof (rule coreI)
    show "geo_ok (mmp_ex h6) 0x1000 geo_ex"
      by (auto simp: geo_ok_def geo_of_def mmp_ex_def geo_ex_def cls_def atLeastAtMost_insertL [symmetric])
    show "dl.family (links (mmp_ex h6)) A" using h6 by (simp add: mmp_ex_def)
  qed (use t o in \<open>auto simp: A_def mmp_ex_lists_def o cls_def geo_ex_def mmp_ex_def fln_ok_def stands_for_def hdr_def split: if_splits\<close>)
  then have "mmp_ok geo_ex 0x1000 A [0x2000 \<mapsto> 6] {} {0x2000 ..< 0x2040} (mmp_ex h6)" by (simp add: mmp_ok_def)
  moreover have "spares A 0x1000 = 2" by (simp add: spares_def A_def mmp_ex_lists_def)
  ultimately show ?thesis by blast
qed

theorem mmp_alloc_blocks_witness:
  "\<exists>h b A K s'. mmp_alloc 0 0x1008 10 (mmp_ex h) = Some (b + 8, s') \<and> K b = Some 5 \<and>
     mmp_ok geo_ex 0x1000 A K {b} {0x2000 ..< 0x2040} s' \<and> span b 5 \<subseteq> {0x2000 ..< 0x2040}"
proof -
  obtain h A where ok: "mmp_ok geo_ex 0x1000 A [0x2000 \<mapsto> 6] {} {0x2000 ..< 0x2040} (mmp_ex h)" and sp: "spares A 0x1000 = 2"
    using mmp_ex_ok by blast
  have m: "ord_max geo_ex - ord_min geo_ex < spares A 0x1000" by (simp add: sp geo_ex_def)
  have n: "\<not> ((10 :: u64) = 0 \<or> uint (10 :: u64) > 2 ^ ord_max geo_ex - HEAD_TAIL_SIZE)"
    by (simp add: geo_ex_def HEAD_TAIL_SIZE_def)
  obtain k where k: "fits_order geo_ex (uint (10 :: u64)) k" "if has_free geo_ex [0x2000 \<mapsto> 6] {} k
       then \<exists>b A' K' s'. mmp_alloc 0 (0x1000 + 8) 10 (mmp_ex h) = Some (b + 8, s') \<and> b \<notin> {} \<and> K' b = Some k \<and>
         mmp_ok geo_ex 0x1000 A' K' {b} {0x2000 ..< 0x2040} s' \<and> span b k \<subseteq> {0x2000 ..< 0x2040} \<and>
         (\<forall>a \<in> {}. K' a = [0x2000 \<mapsto> 6] a \<and> span a (the ([0x2000 \<mapsto> 6] a)) \<inter> span b k = {}) \<and>
         spares A 0x1000 \<le> spares A' 0x1000 + (ord_max geo_ex - ord_min geo_ex)
       else mmp_alloc 0 (0x1000 + 8) 10 (mmp_ex h) = Some (0, mmp_ex h)"
    using mmp_alloc_blocks [OF ok m, of 10 0] unfolding if_not_P [OF n] by blast
  have k5: "k = 5"
  proof -
    have "k = 5 \<or> k = 6" using k(1) by (auto simp: fits_order_def is_ord_def geo_ex_def)
    then show ?thesis using k(1) by (auto simp: fits_order_def geo_ex_def HEAD_TAIL_SIZE_def)
  qed
  have free: "has_free geo_ex [0x2000 \<mapsto> 6] {} 5" by (auto simp: has_free_def)
  obtain b A' K' s' where "mmp_alloc 0 (0x1000 + 8) 10 (mmp_ex h) = Some (b + 8, s')" "K' b = Some 5"
    "mmp_ok geo_ex 0x1000 A' K' {b} {0x2000 ..< 0x2040} s'" "span b 5 \<subseteq> {0x2000 ..< 0x2040}"
    using k(2) unfolding k5 if_P [OF free] by blast
  then show ?thesis by (intro exI [of _ h] exI [of _ b] exI [of _ A'] exI [of _ K'] exI [of _ s']) simp
qed

end
