(* ===== verification/Mmpool_Free.thy ===== *)
theory Mmpool_Free
  imports Mmpool_Alloc
begin

text \<open>
  Releasing a block of a buddy pool: the merge with its buddy, and what \<open>mmp_free\<close> does to the blocks.
\<close>

section \<open>Buddies\<close>

lemma tiles_merge:
  assumes t: "tiles K C R" and b: "K b = Some k" "K (b + 2 ^ k) = Some k" and al: "2 ^ Suc k dvd uint b - C"
    and nw: "uint (b + 2 ^ k) = uint b + 2 ^ k"
  shows "tiles (K(b + 2 ^ k := None, b \<mapsto> Suc k)) C R" and "b + 2 ^ k \<noteq> b"
proof -
  let ?h = "b + 2 ^ k" let ?K = "K(?h := None, b \<mapsto> Suc k)"
  have p: "(0 :: int) < 2 ^ k" by simp
  have two: "(2 :: int) ^ Suc k = 2 ^ k + 2 ^ k" by simp
  have lim: "uint b + 2 ^ Suc k < 2 ^ 64" using tiles_block(3) [OF t b(2)] nw two by linarith
  note S = span_halves [OF lim]
  show nb: "?h \<noteq> b" by (rule S(3))
  have old: "K a = Some j \<and> a \<noteq> b \<and> a \<noteq> ?h" if "?K a = Some j" "a \<noteq> b" for a j
    using that by (auto split: if_splits)
  have ap: "span a j \<inter> span b (Suc k) = {}" if "?K a = Some j" "a \<noteq> b" for a j
    using tiles_apart [OF t _ b(1), of a j] tiles_apart [OF t _ b(2), of a j] old [OF that] S(1) by blast
  show "tiles ?K C R" unfolding tiles_def
  proof (intro conjI allI impI)
    fix a j assume a: "?K a = Some j"
    have "0 < uint a \<and> uint a + 2 ^ j < 2 ^ 64 \<and> C \<le> uint a \<and> 2 ^ j dvd uint a - C"
    proof (cases "a = b")
      case True
      then have "j = Suc k" using a by simp
      then show ?thesis using True tiles_block(1,4) [OF t b(1)] lim al by blast
    next
      case False
      then show ?thesis using tiles_block [OF t, of a j] old [OF a] by blast
    qed
    then show "0 < uint a" "uint a + 2 ^ j < 2 ^ 64" "C \<le> uint a" "2 ^ j dvd uint a - C" by blast+
  next
    fix a i c j assume a: "?K a = Some i" and c: "?K c = Some j" and ac: "a \<noteq> c"
    consider "a = b" | "c = b" | "a \<noteq> b" "c \<noteq> b" by blast
    then show "span a i \<inter> span c j = {}"
    proof cases
      case 1
      then show ?thesis using ap [OF c] a ac by (auto simp: Int_commute)
    next
      case 2
      then show ?thesis using ap [OF a] c ac by auto
    next
      case 3
      then show ?thesis using tiles_apart [OF t _ _ ac] old [OF a] old [OF c] by blast
    qed
  next
    let ?D = "dom K - {b, ?h}"
    have d: "dom ?K = insert b ?D" "dom K = insert b (insert ?h ?D)" using b nb by auto
    have e: "(\<Union>a \<in> ?D. span a (the (?K a))) = (\<Union>a \<in> ?D. span a (the (K a)))"
      by (rule SUP_cong) auto
    have "(\<Union>a \<in> dom ?K. span a (the (?K a))) = span b (Suc k) \<union> (\<Union>a \<in> ?D. span a (the (K a)))"
      unfolding d(1) UN_insert e by simp
    also have "\<dots> = span b k \<union> (span ?h k \<union> (\<Union>a \<in> ?D. span a (the (K a))))" unfolding S(1) by blast
    also have "\<dots> = (\<Union>a \<in> insert b (insert ?h ?D). span a (the (K a)))" unfolding UN_insert b option.sel ..
    also have "\<dots> = (\<Union>a \<in> dom K. span a (the (K a)))" unfolding d(2) [symmetric] ..
    finally show "(\<Union>a \<in> dom ?K. span a (the (?K a))) = R" using t unfolding tiles_def by simp
  qed
qed

text \<open>The neighbours of a block in the region are blocks.\<close>

lemma tiles_cover: "tiles K C R \<Longrightarrow> x \<in> R \<Longrightarrow> \<exists>c j. K c = Some j \<and> x \<in> span c j"
  unfolding tiles_def by force

lemma uint_next:
  assumes "tiles K C R" and "K b = Some k" shows "uint (b + 2 ^ k) = uint b + 2 ^ k"
proof -
  have p: "(0 :: int) < 2 ^ k" by simp
  have "b + 2 ^ k = of_int (uint b + 2 ^ k)" by simp
  moreover have "0 \<le> uint b + 2 ^ k" using uint_ge_0 [of b] p by linarith
  ultimately show ?thesis using uint_of_int_u64 [OF _ tiles_block(3) [OF assms]] by metis
qed

lemma tiles_next:
  assumes t: "tiles K C {C ..< E}" and b: "K b = Some k" and e: "uint b + 2 ^ k < E"
  shows "\<exists>j. K (b + 2 ^ k) = Some j"
proof -
  let ?x = "uint b + 2 ^ k"
  have p: "(0 :: int) < 2 ^ k" by simp
  have "C \<le> ?x" using tiles_block(4) [OF t b] p by linarith
  then have "?x \<in> {C ..< E}" using e by simp
  then obtain c j where c: "K c = Some j" "?x \<in> span c j" using tiles_cover [OF t] by blast
  have "?x \<notin> span b k" by (simp add: span_def)
  then have ne: "c \<noteq> b" using c b by auto
  have "uint c = ?x"
  proof (rule ccontr)
    assume "uint c \<noteq> ?x"
    then have "?x - 1 \<in> span c j" "?x - 1 \<in> span b k" using c(2) p by (auto simp: span_def)
    then show False using tiles_apart [OF t c(1) b ne] by blast
  qed
  then have "c = b + 2 ^ k" using uint_next [OF t b] by (simp add: word_uint_eq_iff)
  then show ?thesis using c(1) by blast
qed

lemma tiles_prev:
  assumes t: "tiles K C {C ..< E}" and b: "K b = Some k" and e: "C < uint b"
  shows "\<exists>c j. K c = Some j \<and> b = c + 2 ^ j \<and> c \<noteq> b \<and> uint b = uint c + 2 ^ j"
proof -
  have p: "(0 :: int) < 2 ^ k" by simp
  have bR: "uint b \<in> {C ..< E}" using span_self [of b k] t b unfolding tiles_def by force
  then have "uint b - 1 \<in> {C ..< E}" using e by simp
  then obtain c j where c: "K c = Some j" "uint b - 1 \<in> span c j" using tiles_cover [OF t] by blast
  have ne: "c \<noteq> b" using c(2) by (auto simp: span_def)
  have "uint b \<notin> span c j" using tiles_apart [OF t c(1) b ne] span_self [of b k] by blast
  then have u: "uint b = uint c + 2 ^ j" using c(2) by (auto simp: span_def)
  then have "b = c + 2 ^ j" using uint_next [OF t c(1)] by (simp add: word_uint_eq_iff)
  then show ?thesis using c(1) ne u by blast
qed

section \<open>Taking a free block off its list\<close>

lemma get_flh_ok:
  assumes c: "core g P A K W H R s" and b: "K b = Some k" "b \<notin> H"
  shows "get_flh junk P b s = Some (cls g k)"
proof -
  note d = coreD [OF c]
  note geo = geo_facts [OF d(1) d(8) [OF b(1)]]
  have sz: "bh_size s b = 2 ^ k" using d(9) [OF b] by (simp add: hdr_def)
  have b0: "b \<noteq> 0" by (rule tiles_block(2) [OF d(11) b(1)])
  have n: "\<not> mmp_list_count s P \<le> int (k - ord_min g)"
    using d(1) d(8) [OF b(1)] by (simp add: geo_ok_def is_ord_def)
  have "get_flh junk P b s = (if size_idx junk s P (2 ^ k) \<ge> mmp_list_count s P then Some 0
      else mmp_flh_at s P (size_idx junk s P (2 ^ k)))"
    using b0 ucast_power_u32 [of k] geo(1) by (simp add: get_flh_def sz Let_def)
  then show ?thesis unfolding geo(4) if_not_P [OF n] geo(5) .
qed

lemma unlink_ok:
  assumes c: "core g P A K W {} R s" and b: "K b = Some k" "b \<notin> W"
  shows "\<exists>A' s'. unlink_block junk P b s = Some (0, s') \<and> core g P A' K (insert b W) {} R s' \<and>
    bh_flag s' = bh_flag s \<and> bh_size s' = bh_size s \<and> tl_size s' = tl_size s \<and> tl_label s' = tl_label s \<and>
    spares A' P = Suc (spares A P)"
proof -
  note d = coreD [OF c]
  have k: "is_ord g k" by (rule d(8) [OF b(1)])
  have b0: "b \<noteq> 0" by (rule tiles_block(2) [OF d(11) b(1)])
  obtain x where x: "x \<in> set (the (A (cls g k)))" "fln_block s x = b" using d(10) [OF b] by blast
  have sf: "stands_for g s K W k x" by (rule d(6) [OF k x(1)])
  have fl: "mmp_fln_pool s P + 32 * ucast (bh_fln_idx s b) = x"
    using sf d(1) x(2) by (auto simp: stands_for_def geo_ok_def geo_of_def)
  define A1 where "A1 = A(cls g k := Some (remove1 x (the (A (cls g k)))))"
  obtain h where h: "lst_remove (cls g k) x (links s) = Some (0, h)" "dl.family h A1" "dl.members A1 = dl.members A - {x}"
    unfolding A1_def using dl.family_remove [OF d(2) d(5) [OF k] x(1)] by blast
  have c1: "core g P A1 K (insert b W) {} R (s\<lparr>links := h\<rparr>)"
    using core_off_list(1) [OF c k d(5) [OF k] x(1) h(2) A1_def] unfolding x(2) .
  define s1 where "s1 = set_fln_idx b 0 (s\<lparr>links := h\<rparr>)"
  have c2: "core g P A1 K (insert b W) {} R s1" unfolding s1_def by (rule core_set_fln_idx [OF c1]) simp
  have xm: "x \<notin> dl.members A1" unfolding h(3) by simp
  have xo: "fln_ok g s1 x" using sf by (simp add: stands_for_def fln_ok_def s1_def set_fln_idx_def)
  define A' where "A' = A1(free_fln_list P := Some (x # the (A1 (free_fln_list P))))"
  obtain s' where s': "return_free_fln P x s1 = Some (0, s')" "core g P A' K (insert b W) {} R s'"
    "bh_flag s' = bh_flag s1" "bh_size s' = bh_size s1" "tl_size s' = tl_size s1" "tl_label s' = tl_label s1"
    unfolding A'_def using core_return_fln [OF c2 xm xo] by blast
  have "unlink_block junk P b s = Some (0, s')"
    using b0 h(1) s'(1) get_flh_ok [OF c b(1), of junk]
    by (simp add: unlink_block_def Let_def fl s1_def)
  moreover have "spares A' P = Suc (spares A P)"
    using geo_facts(7) [OF d(1) k] by (simp add: spares_def A'_def A1_def)
  moreover have "bh_flag s' = bh_flag s" "bh_size s' = bh_size s" "tl_size s' = tl_size s" "tl_label s' = tl_label s"
    unfolding s'(3-6) s1_def set_fln_idx_def by simp_all
  ultimately show ?thesis using s'(2) by blast
qed

section \<open>Putting two buddies together\<close>

lemma core_merge:
  assumes c: "core g P A K W H R s" and ab: "a \<in> W" "a + 2 ^ k \<in> W" "K a = Some k" "K (a + 2 ^ k) = Some k"
    and k: "k < ord_max g" and al: "2 ^ Suc k dvd uint a - base g"
  shows "core g P A (K(a + 2 ^ k := None, a \<mapsto> Suc k)) (W - {a + 2 ^ k}) (insert a H) R s" and "a + 2 ^ k \<noteq> a"
proof -
  note d = coreD [OF c]
  let ?b = "a + 2 ^ k" let ?K = "K(?b := None, a \<mapsto> Suc k)"
  note t = tiles_merge [OF d(11) ab(3,4) al uint_next [OF d(11) ab(3)]]
  show ne: "?b \<noteq> a" by (rule t(2))
  show "core g P A ?K (W - {?b}) (insert a H) R s"
  proof (rule coreI)
    show "stands_for g s ?K (W - {?b}) j y" if "is_ord g j" "y \<in> set (the (A (cls g j)))" for j y
    proof -
      have y: "stands_for g s K W j y" by (rule d(6) [OF that])
      then have "fln_block s y \<noteq> a" "fln_block s y \<noteq> ?b" using ab(1,2) by (auto simp: stands_for_def)
      then show ?thesis using y by (simp add: stands_for_def)
    qed
    show "W - {?b} \<subseteq> dom ?K" using d(7) by auto
    show "is_ord g j" if "?K x = Some j" for x j
      using that d(8) [of x j] d(8) [OF ab(3)] k by (auto simp: is_ord_def split: if_splits)
    show "hdr s x j" if "?K x = Some j" "x \<notin> insert a H" for x j using that d(9) [of x j] by (auto split: if_splits)
    show "\<exists>y \<in> set (the (A (cls g j))). fln_block s y = x" if "?K x = Some j" "x \<notin> W - {?b}" for x j
      using that d(10) [of x j] ab(1) ne by (auto split: if_splits)
  qed (use d(1-5) t(1) in auto)
qed

text \<open>The comparison under the mask: the two offsets lie in the same block of \<open>2 ^ n\<close> bytes.\<close>

lemma same_block_iff:
  fixes v w :: u64
  shows "v AND - (2 ^ n) = w AND - (2 ^ n) \<longleftrightarrow> unat v div 2 ^ n = unat w div 2 ^ n"
proof -
  have m: "unat (x AND - (2 ^ n)) = 2 ^ n * (unat x div 2 ^ n)" for x :: u64
    unfolding minus_exp_eq_not_mask unat_and_not_mask by (rule minus_mod_eq_mult_div)
  show ?thesis unfolding word_unat_eq_iff m by simp
qed

lemma half_block_iff:
  assumes "2 ^ k dvd (x :: nat)" shows "(x + 2 ^ k) div 2 ^ Suc k = x div 2 ^ Suc k \<longleftrightarrow> 2 ^ Suc k dvd x"
proof -
  obtain m where m: "x = 2 ^ k * m" using assms by blast
  have d: "(2 ^ k * a) div 2 ^ Suc k = a div 2" for a :: nat
    unfolding power_Suc by (subst mult.commute [of 2]) (rule div_mult_mult1, simp)
  have e: "x + 2 ^ k = 2 ^ k * (m + 1)" unfolding m by simp
  have v: "2 ^ Suc k dvd x \<longleftrightarrow> even m" unfolding m power_Suc by (subst mult.commute [of 2]) simp
  show ?thesis unfolding e d v unfolding m d by presburger
qed

lemma buddy_mask:
  fixes a c :: u64
  assumes c: "uint c \<le> uint a" and n: "uint (a + 2 ^ k) = uint a + 2 ^ k" and al: "2 ^ k dvd uint a - uint c"
  shows "(a - c) AND - (2 ^ Suc k) = (a + 2 ^ k - c) AND - (2 ^ Suc k) \<longleftrightarrow> 2 ^ Suc k dvd uint a - uint c"
proof -
  have p: "(0 :: int) < 2 ^ k" by simp
  have u: "uint (a - c) = uint a - uint c" using c by (rule uint_minus_simple_alt [THEN iffD1, unfolded word_le_def])
  have "uint c \<le> uint (a + 2 ^ k)" using c n p by linarith
  then have u': "uint (a + 2 ^ k - c) = uint (a + 2 ^ k) - uint c"
    by (rule uint_minus_simple_alt [THEN iffD1, unfolded word_le_def])
  define x where "x = unat (a - c)"
  have x: "int x = uint a - uint c" unfolding u [symmetric] unfolding x_def uint_nat by (rule refl)
  have "int (unat (a + 2 ^ k - c)) = int x + 2 ^ k" using u' n x unfolding uint_nat by linarith
  then have "int (unat (a + 2 ^ k - c)) = int (x + 2 ^ k)" by (simp only: of_nat_add of_nat_power of_nat_numeral)
  then have y: "unat (a + 2 ^ k - c) = x + 2 ^ k" by (simp only: of_nat_eq_iff)
  have dv: "2 ^ j dvd uint a - uint c \<longleftrightarrow> 2 ^ j dvd x" for j
    unfolding x [symmetric] by (metis of_nat_dvd_iff of_nat_numeral of_nat_power)
  show ?thesis
    unfolding same_block_iff y x_def [symmetric] dv half_block_iff [OF al [unfolded dv], symmetric] by (rule eq_commute)
qed

lemma shl_power_u32: "k < 31 \<Longrightarrow> push_bit 1 (2 ^ k :: u32) = 2 ^ Suc k"
  by (simp add: push_bit_eq_mult)

lemma power_inj_u32: "k < 32 \<Longrightarrow> j < 32 \<Longrightarrow> (2 ^ k :: u32) = 2 ^ j \<longleftrightarrow> k = j"
  using uint_power_u32 [of k] uint_power_u32 [of j] by (metis power_inject_exp one_less_numeral_iff semiring_norm(76))

text \<open>What a merge leaves of the pool, when \<open>merge_buddy\<close> gets two buddies one of which is free.\<close>

lemma merge_buddy_ok:
  assumes c: "core g P A K W {} R s" and ab: "K a = Some k" "K (a + 2 ^ k) = Some k" and k: "k < ord_max g"
    and al: "2 ^ Suc k dvd uint a - base g" and fl: "bh_flag s a = 0" "bh_flag s (a + 2 ^ k) = 0"
    and out: "out \<in> {a, a + 2 ^ k}" "out \<notin> W" "a \<in> insert out W" "a + 2 ^ k \<in> insert out W"
  shows "\<exists>A' s'. merge_buddy out junk P a (a + 2 ^ k) s = Some (a, s') \<and>
    core g P A' (K(a + 2 ^ k := None, a \<mapsto> Suc k)) (insert out W - {a + 2 ^ k}) {} R s' \<and>
    bh_flag s' = bh_flag s \<and> spares A' P = Suc (spares A P)"
proof -
  note d = coreD [OF c]
  let ?b = "a + 2 ^ k" let ?K = "K(a + 2 ^ k := None, a \<mapsto> Suc k)"
  have o: "is_ord g k" by (rule d(8) [OF ab(1)])
  have o': "is_ord g (Suc k)" using o k by (simp add: is_ord_def)
  note geo = geo_facts [OF d(1) o']
  have nz: "a \<noteq> 0" "?b \<noteq> 0" using tiles_block(2) [OF d(11)] ab by blast+
  have sz: "bh_size s a = 2 ^ k" "bh_size s ?b = 2 ^ k" using d(9) ab unfolding hdr_def by blast+
  have cb: "uint (mmp_chunk_addr s P) = base g" using d(1) by (auto simp: geo_ok_def geo_of_def)
  have "(a - mmp_chunk_addr s P) AND - (2 ^ Suc k) = (?b - mmp_chunk_addr s P) AND - (2 ^ Suc k)"
    using buddy_mask [of "mmp_chunk_addr s P" a k] tiles_block(4,5) [OF d(11) ab(1)] uint_next [OF d(11) ab(1)] al
    unfolding cb by blast
  moreover have pb: "push_bit 1 (2 ^ k :: u32) = 2 ^ Suc k" using shl_power_u32 [of k] geo(1) by simp
  moreover have "ucast (push_bit 1 (2 ^ k :: u32)) = (2 ^ Suc k :: u64)"
    unfolding pb by (rule ucast_power_u32) (use geo(1) in simp)
  moreover obtain j where "K out = Some j" using out(1) ab by blast
  then obtain A' s1 where u: "unlink_block junk P out s = Some (0, s1)" "core g P A' K (insert out W) {} R s1"
    "bh_flag s1 = bh_flag s" "bh_size s1 = bh_size s" "tl_size s1 = tl_size s" "spares A' P = Suc (spares A P)"
    using unlink_ok [OF c _ out(2), of j junk] by blast
  ultimately have run: "merge_buddy out junk P a ?b s = make_block junk a (2 ^ Suc k) s1"
    using nz fl sz by (simp add: merge_buddy_def Let_def del: power_Suc push_bit_of_1)
  note m = core_merge [OF u(2) out(3,4) ab k al]
  have w: "make_block junk a (2 ^ Suc k) s1 = Some (a, written a (Suc k) s1)"
    by (rule make_block_written [OF nz(1) geo(2,1)])
  have Ka: "?K a = Some (Suc k)" by simp
  have aW: "a \<in> insert out W - {?b}" using out(3) m(2) [symmetric] by simp
  have "core g P A' ?K (insert out W - {?b}) (insert a {} - {a}) R (written a (Suc k) s1)"
    by (rule core_written [OF m(1) aW Ka])
  then have cw: "core g P A' ?K (insert out W - {?b}) {} R (written a (Suc k) s1)" by simp
  have "bh_flag (written a (Suc k) s1) = bh_flag s" using fl(1) u(3) by (simp add: written_def fun_upd_idem)
  then show ?thesis using run w cw u(6) by (intro exI [of _ A'] exI [of _ "written a (Suc k) s1"]) simp
qed

lemma merge_buddy_refused:
  assumes "a \<noteq> 0" and "b \<noteq> 0"
    and "bh_flag s a \<noteq> 0 \<or> bh_flag s b \<noteq> 0 \<or> bh_size s a \<noteq> bh_size s b \<or>
      (a - mmp_chunk_addr s P) AND - ucast (push_bit 1 (bh_size s a)) \<noteq>
      (b - mmp_chunk_addr s P) AND - ucast (push_bit 1 (bh_size s a))"
  shows "merge_buddy out junk P a b s = Some (0, s)"
  using assms by (auto simp: merge_buddy_def Let_def)

section \<open>One round of merging\<close>

text \<open>The buddy of a block, and whether it is a free block of the same order.\<close>

definition buddy :: "geo \<Rightarrow> ptr \<Rightarrow> nat \<Rightarrow> ptr" where
  "buddy g b k = (if 2 ^ Suc k dvd uint b - base g then b + 2 ^ k else b - 2 ^ k)"

definition free_buddy :: "geo \<Rightarrow> (ptr \<Rightarrow> nat option) \<Rightarrow> ptr set \<Rightarrow> ptr \<Rightarrow> nat \<Rightarrow> bool" where
  "free_buddy g K U b k \<longleftrightarrow> K (buddy g b k) = Some k \<and> buddy g b k \<notin> U"

text \<open>
  The block that \<open>b\<close> of order \<open>k\<close> grows to: as long as the buddy is a free block of the same order, the two
  become the block at the lower of their addresses.
\<close>

function merge_end :: "geo \<Rightarrow> (ptr \<Rightarrow> nat option) \<Rightarrow> ptr set \<Rightarrow> ptr \<Rightarrow> nat \<Rightarrow> ptr \<times> nat" where
  "merge_end g K U b k =
     (if k < ord_max g \<and> free_buddy g K U b k
      then merge_end g K U (if 2 ^ Suc k dvd uint b - base g then b else b - 2 ^ k) (Suc k)
      else (b, k))"
  by pat_completeness auto
termination by (relation "measure (\<lambda>(g, K, U, b, k). ord_max g - k)") auto

declare merge_end.simps [simp del]

lemma unat_double:
  assumes "unat (x :: u64) < 2 ^ k" and "k < 60"
  shows "unat x < 2 ^ Suc k" and "unat (x + 2 ^ k) < 2 ^ Suc k"
proof -
  have l: "(2 :: nat) ^ Suc k < 2 ^ 64" using assms(2) by (intro power_strict_increasing) simp_all
  have p: "unat (2 ^ k :: u64) = 2 ^ k" using assms(2) by (simp add: unat_power_u64)
  have d: "(2 :: nat) ^ Suc k = 2 ^ k + 2 ^ k" by simp
  show "unat x < 2 ^ Suc k" using assms(1) unfolding d by linarith
  have "unat x + unat (2 ^ k :: u64) < 2 ^ LENGTH(64)" using assms(1) l unfolding p d by simp
  then have "unat (x + 2 ^ k) = unat x + 2 ^ k" using unat_add_lem [of x "2 ^ k"] p by simp
  then show "unat (x + 2 ^ k) < 2 ^ Suc k" using assms(1) unfolding d by linarith
qed

text \<open>The blocks within the one that grows do not matter.\<close>

lemma merge_end_cong:
  assumes "\<And>a. \<not> unat (a - b) < 2 ^ k \<Longrightarrow> K a = K' a" and g: "ord_max g < 60"
  shows "merge_end g K U b k = merge_end g K' U b k"
  using assms(1)
proof (induction "ord_max g - k" arbitrary: b k rule: less_induct)
  case less
  show ?case
  proof (cases "k < ord_max g")
    case False
    then show ?thesis by (subst (1 2) merge_end.simps) simp
  next
    case True
    then have k: "k < 60" using g by simp
    have p: "unat (2 ^ k :: u64) = 2 ^ k" using k by (simp add: unat_power_u64)
    have l: "(2 :: nat) ^ Suc k < 2 ^ 64" using k by (intro power_strict_increasing) simp_all
    have q: "\<not> unat (- (2 ^ k) :: u64) < 2 ^ k"
    proof
      assume "unat (- (2 ^ k) :: u64) < 2 ^ k"
      then have "unat (- (2 ^ k) :: u64) + unat (2 ^ k :: u64) < 2 ^ LENGTH(64)" using l unfolding p by simp
      then have "unat (- (2 ^ k) + 2 ^ k :: u64) = unat (- (2 ^ k) :: u64) + unat (2 ^ k :: u64)" by (rule unat_add_lem [THEN iffD1])
      then show False unfolding p by simp
    qed
    have "K (buddy g b k) = K' (buddy g b k)" by (rule less.prems) (use p q in \<open>simp add: buddy_def\<close>)
    then have f: "free_buddy g K U b k = free_buddy g K' U b k" by (simp add: free_buddy_def)
    define c where "c = (if 2 ^ Suc k dvd uint b - base g then b else b - 2 ^ k)"
    have "merge_end g K U c (Suc k) = merge_end g K' U c (Suc k)"
    proof (rule less.hyps)
      show "ord_max g - Suc k < ord_max g - k" using True by simp
      show "K a = K' a" if "\<not> unat (a - c) < 2 ^ Suc k" for a
      proof (rule less.prems, rule notI)
        assume "unat (a - b) < 2 ^ k"
        from unat_double [OF this k] that show False by (auto simp: c_def algebra_simps split: if_splits)
      qed
    qed
    then show ?thesis unfolding merge_end.simps [of g K U b k] merge_end.simps [of g K' U b k] f c_def [symmetric] by simp
  qed
qed

lemma merge_end_step:
  assumes k: "k < ord_max g" "ord_max g < 60" and fb: "free_buddy g K U b k"
    and r: "r = (if 2 ^ Suc k dvd uint b - base g then b else b - 2 ^ k)"
  shows "merge_end g (K(r + 2 ^ k := None, r \<mapsto> Suc k)) U r (Suc k) = merge_end g K U b k"
proof -
  have "merge_end g K U b k = merge_end g K U r (Suc k)" using k(1) fb r by (subst merge_end.simps) simp
  also have "\<dots> = merge_end g (K(r + 2 ^ k := None, r \<mapsto> Suc k)) U r (Suc k)"
    by (rule merge_end_cong) (use unat_double [of 0 k] k in auto)
  finally show ?thesis by simp
qed

definition merge_round :: "u64 \<Rightarrow> ptr \<Rightarrow> ptr \<Rightarrow> mmp_heap \<Rightarrow> (ptr \<times> mmp_heap) option" where
  "merge_round junk P b s = do {
     (ret, s) \<leftarrow> merge_buddy_next junk P b (next_block s b) s;
     if ret = 0 then merge_buddy_prev junk P (prev_block s b) b s else Some (ret, s) }"

lemma odd_half:
  assumes "2 ^ k dvd (x :: int)" shows "2 ^ Suc k dvd x - 2 ^ k \<longleftrightarrow> \<not> 2 ^ Suc k dvd x"
proof -
  obtain m where m: "x = 2 ^ k * m" using assms by blast
  have e: "x - 2 ^ k = 2 ^ k * (m - 1)" unfolding m by (simp add: right_diff_distrib)
  have v: "2 ^ Suc k dvd 2 ^ k * n \<longleftrightarrow> even n" for n :: int
    unfolding power_Suc by (subst mult.commute [of 2]) simp
  show ?thesis unfolding e unfolding m v by simp
qed

lemma buddy_mask_size: "k < 30 \<Longrightarrow> - ucast (push_bit 1 (2 ^ k :: u32)) = (- (2 ^ Suc k) :: u64)"
proof -
  assume k: "k < 30"
  have pb: "push_bit 1 (2 ^ k :: u32) = 2 ^ Suc k" using shl_power_u32 [of k] k by simp
  show ?thesis unfolding pb using ucast_power_u32 [of "Suc k"] k by simp
qed

text \<open>Blocks that are no buddies are left alone.\<close>

lemma merge_neighbours_refused:
  assumes c: "core g P A K W {} R s" and a: "K a = Some i"
    and no: "\<not> 2 ^ Suc i dvd uint a - base g \<or> bh_flag s a \<noteq> 0 \<or> bh_flag s (a + 2 ^ i) \<noteq> 0 \<or>
      K (a + 2 ^ i) = Some j \<and> i \<noteq> j"
  shows "merge_buddy out junk P a (a + 2 ^ i) s = Some (0, s)"
proof (rule merge_buddy_refused)
  note d = coreD [OF c]
  have p: "(0 :: int) < 2 ^ i" by simp
  show "a \<noteq> 0" by (rule tiles_block(2) [OF d(11) a])
  show "a + 2 ^ i \<noteq> 0"
  proof
    assume "a + 2 ^ i = 0"
    then show False using uint_next [OF d(11) a] tiles_block(1) [OF d(11) a] p by simp
  qed
  have sz: "bh_size s a = 2 ^ i" and i: "i < 30"
    using d(9) [OF a] geo_facts(1) [OF d(1) d(8) [OF a]] unfolding hdr_def by blast+
  have j: "bh_size s (a + 2 ^ i) \<noteq> 2 ^ i" if "K (a + 2 ^ i) = Some j" "i \<noteq> j"
    using d(9) [OF that(1)] geo_facts(1) [OF d(1) d(8) [OF that(1)]] that(2) i power_inj_u32 [of j i] unfolding hdr_def by simp
  have cb: "uint (mmp_chunk_addr s P) = base g" using d(1) by (auto simp: geo_ok_def geo_of_def)
  have m: "(a - mmp_chunk_addr s P) AND - (2 ^ Suc i) \<noteq> (a + 2 ^ i - mmp_chunk_addr s P) AND - (2 ^ Suc i)"
    if "\<not> 2 ^ Suc i dvd uint a - base g"
    using buddy_mask [of "mmp_chunk_addr s P" a i] tiles_block(4,5) [OF d(11) a] uint_next [OF d(11) a] that
    unfolding cb by blast
  show "bh_flag s a \<noteq> 0 \<or> bh_flag s (a + 2 ^ i) \<noteq> 0 \<or> bh_size s a \<noteq> bh_size s (a + 2 ^ i) \<or>
      (a - mmp_chunk_addr s P) AND - ucast (push_bit 1 (bh_size s a)) \<noteq>
      (a + 2 ^ i - mmp_chunk_addr s P) AND - ucast (push_bit 1 (bh_size s a))"
    unfolding sz buddy_mask_size [OF i] using no m j by metis
qed

text \<open>The state of the loop: \<open>b\<close> is the block that grows, \<open>U\<close> the blocks in use.\<close>

definition merging :: "geo \<Rightarrow> ptr \<Rightarrow> (ptr \<Rightarrow> ptr list option) \<Rightarrow> (ptr \<Rightarrow> nat option) \<Rightarrow> ptr set \<Rightarrow> ptr \<Rightarrow> nat \<Rightarrow> int \<Rightarrow>
    mmp_heap \<Rightarrow> bool" where
  "merging g P A K U b k E s \<longleftrightarrow> core g P A K (insert b U) {} {base g ..< E} s \<and> K b = Some k \<and> b \<notin> U \<and>
     bh_flag s b = 0 \<and> (\<forall>a \<in> U. bh_flag s a = BLOCK_BIT_USED) \<and> 2 ^ ord_max g dvd E - base g"

lemma next_block_ok:
  assumes c: "core g P A K W {} R s" and b: "K b = Some k" shows "next_block s b = b + 2 ^ k"
  using coreD(9) [OF c b] geo_facts(1) [OF coreD(1) [OF c] coreD(8) [OF c b]]
  by (simp add: next_block_def hdr_def ucast_power_u32)

lemma prev_block_ok:
  assumes c: "core g P A K W {} R s" and b: "K b = Some k" shows "prev_block s (b + 2 ^ k) = b"
  using coreD(9) [OF c b] geo_facts(1) [OF coreD(1) [OF c] coreD(8) [OF c b]]
  by (simp add: prev_block_def hdr_def ucast_power_u32)

lemma free_flag:
  assumes c: "core g P A K W H R s" and b: "K b = Some k" "b \<notin> W" shows "bh_flag s b = 0"
proof -
  obtain x where x: "x \<in> set (the (A (cls g k)))" "fln_block s x = b" using coreD(10) [OF c b] by blast
  show ?thesis using coreD(6) [OF c coreD(8) [OF c b(1)] x(1)] x(2) unfolding stands_for_def by blast
qed

lemma merge_with_next:
  assumes m: "merging g P A K U b k E s" and k: "k < ord_max g" and al: "2 ^ Suc k dvd uint b - base g"
    and h: "K (b + 2 ^ k) = Some k" "b + 2 ^ k \<notin> U"
  shows "\<exists>A' s'. merge_round junk P b s = Some (b, s') \<and> merging g P A' (K(b + 2 ^ k := None, b \<mapsto> Suc k)) U b (Suc k) E s' \<and>
    spares A' P = Suc (spares A P)"
proof -
  have c: "core g P A K (insert b U) {} {base g ..< E} s" and b: "K b = Some k" "b \<notin> U" "bh_flag s b = 0"
    and u: "\<forall>a \<in> U. bh_flag s a = BLOCK_BIT_USED" and e: "2 ^ ord_max g dvd E - base g"
    using m by (simp_all add: merging_def)
  note d = coreD [OF c]
  let ?h = "b + 2 ^ k"
  have ne: "?h \<noteq> b" by (rule tiles_merge(2) [OF d(11) b(1) h(1) al uint_next [OF d(11) b(1)]])
  have hW: "?h \<notin> insert b U" using h(2) ne by simp
  obtain A' s' where r: "merge_buddy ?h junk P b ?h s = Some (b, s')"
    "core g P A' (K(?h := None, b \<mapsto> Suc k)) (insert ?h (insert b U) - {?h}) {} {base g ..< E} s'"
    "bh_flag s' = bh_flag s" "spares A' P = Suc (spares A P)"
    using merge_buddy_ok [OF c b(1) h(1) k al b(3) free_flag [OF c h(1) hW], of ?h junk] hW by blast
  have W: "insert ?h (insert b U) - {?h} = insert b U" using hW by auto
  have "merge_round junk P b s = Some (b, s')"
    using r(1) tiles_block(2) [OF d(11) b(1)] next_block_ok [OF c b(1)] by (simp add: merge_round_def merge_buddy_next_def)
  then show ?thesis using r(2,3,4) u b(2,3) e unfolding W by (intro exI [of _ A'] exI [of _ s']) (simp add: merging_def)
qed

lemma merge_with_prev:
  assumes m: "merging g P A K U b k E s" and k: "k < ord_max g" and al: "2 ^ Suc k dvd uint c - base g"
    and b: "b = c + 2 ^ k" "c \<noteq> b" and h: "K c = Some k" "c \<notin> U"
  shows "\<exists>A' s'. merge_round junk P b s = Some (c, s') \<and> merging g P A' (K(b := None, c \<mapsto> Suc k)) U c (Suc k) E s' \<and>
    spares A' P = Suc (spares A P)"
proof -
  have c: "core g P A K (insert b U) {} {base g ..< E} s" and kb: "K b = Some k" "b \<notin> U" "bh_flag s b = 0"
    and u: "\<forall>a \<in> U. bh_flag s a = BLOCK_BIT_USED" and e: "2 ^ ord_max g dvd E - base g"
    using m by (simp_all add: merging_def)
  note d = coreD [OF c]
  have ub: "uint b = uint c + 2 ^ k" unfolding b(1) by (rule uint_next [OF d(11) h(1)])
  have cW: "c \<notin> insert b U" using h(2) b(2) by simp
  have fc: "bh_flag s c = 0" by (rule free_flag [OF c h(1) cW])
  have nb: "\<not> 2 ^ Suc k dvd uint b - base g"
    using odd_half [OF tiles_block(5) [OF d(11) kb(1)]] al unfolding ub by (simp add: algebra_simps)
  have n: "merge_buddy_next junk P b (next_block s b) s = Some (0, s)"
    unfolding next_block_ok [OF c kb(1)] merge_buddy_next_def by (rule merge_neighbours_refused [OF c kb(1)]) (use nb in blast)
  obtain A' s' where r: "merge_buddy c junk P c b s = Some (c, s')"
    "core g P A' (K(b := None, c \<mapsto> Suc k)) (insert c (insert b U) - {b}) {} {base g ..< E} s'"
    "bh_flag s' = bh_flag s" "spares A' P = Suc (spares A P)"
    using merge_buddy_ok [OF c h(1) _ k al fc, of c junk] kb(1,3) cW unfolding b(1) [symmetric] by blast
  have W: "insert c (insert b U) - {b} = insert c U" using kb(2) b(2) by auto
  have "merge_round junk P b s = Some (c, s')"
    using n r(1) prev_block_ok [OF c h(1)] by (simp add: merge_round_def merge_buddy_prev_def b(1) [symmetric])
  then show ?thesis using r(2,3,4) u h(2) fc e unfolding W by (intro exI [of _ A'] exI [of _ s']) (simp add: merging_def)
qed

lemma merging_next:
  assumes m: "merging g P A K U b k E s" and k: "k < ord_max g" and al: "2 ^ Suc k dvd uint b - base g"
  shows "\<exists>j. K (b + 2 ^ k) = Some j"
proof -
  have t: "tiles K (base g) {base g ..< E}" and b: "K b = Some k" and e: "2 ^ ord_max g dvd E - base g"
    using m coreD(11) unfolding merging_def by blast+
  have bE: "uint b < E" using span_self [of b k] t b unfolding tiles_def by force
  have "2 ^ Suc k dvd (2 ^ ord_max g :: int)" using k by (intro le_imp_power_dvd) simp
  then have "2 ^ Suc k dvd E - base g" using e by (rule dvd_trans)
  then have "2 ^ Suc k dvd (E - base g) - (uint b - base g)" using al by (rule dvd_diff)
  then have "2 ^ Suc k dvd E - uint b" by simp
  then have "2 ^ Suc k \<le> E - uint b" using bE by (intro zdvd_imp_le) simp_all
  moreover have "(2 :: int) ^ Suc k = 2 ^ k + 2 ^ k" "(0 :: int) < 2 ^ k" by simp_all
  ultimately have "uint b + 2 ^ k < E" by linarith
  then show ?thesis by (rule tiles_next [OF t b])
qed

lemma merge_round_stop:
  assumes m: "merging g P A K U b k E s" and k: "k < ord_max g" and no: "\<not> free_buddy g K U b k" and f: "uint b \<noteq> base g"
  shows "merge_round junk P b s = Some (0, s)"
proof -
  have c: "core g P A K (insert b U) {} {base g ..< E} s" and b: "K b = Some k"
    and u: "\<forall>a \<in> U. bh_flag s a = BLOCK_BIT_USED"
    using m by (simp_all add: merging_def)
  note d = coreD [OF c]
  have used: "bh_flag s a \<noteq> 0" if "a \<in> U" for a using u that by (simp add: BLOCK_BIT_USED_def)
  let ?al = "2 ^ Suc k dvd uint b - base g"
  have "\<exists>j. \<not> ?al \<or> bh_flag s (b + 2 ^ k) \<noteq> 0 \<or> K (b + 2 ^ k) = Some j \<and> k \<noteq> j"
  proof (cases ?al)
    case True
    obtain j where j: "K (b + 2 ^ k) = Some j" using merging_next [OF m k True] by blast
    have "b + 2 ^ k \<in> U \<or> k \<noteq> j" using no True j by (auto simp: free_buddy_def buddy_def)
    then show ?thesis using used j by blast
  qed blast
  then obtain j where "\<not> ?al \<or> bh_flag s (b + 2 ^ k) \<noteq> 0 \<or> bh_flag s (b + 2 ^ k) \<noteq> 0 \<or> K (b + 2 ^ k) = Some j \<and> k \<noteq> j"
    by blast
  then have n: "merge_buddy_next junk P b (next_block s b) s = Some (0, s)"
    unfolding next_block_ok [OF c b] merge_buddy_next_def by (intro merge_neighbours_refused [OF c b, of j]) blast
  have "merge_buddy_prev junk P (prev_block s b) b s = Some (0, s)"
  proof -
    have lt: "base g < uint b" using tiles_block(4) [OF d(11) b] f by simp
    obtain c' i where p: "K c' = Some i" "b = c' + 2 ^ i" "c' \<noteq> b" "uint b = uint c' + 2 ^ i"
      using tiles_prev [OF d(11) b lt] by blast
    have "\<not> 2 ^ Suc i dvd uint c' - base g \<or> bh_flag s c' \<noteq> 0 \<or> bh_flag s (c' + 2 ^ i) \<noteq> 0 \<or>
        K (c' + 2 ^ i) = Some k \<and> i \<noteq> k"
    proof (cases "i = k")
      case False
      then show ?thesis using b p(2) by simp
    next
      case ik: True
      have x: "uint c' - base g = (uint b - base g) - 2 ^ k" using p(4) ik by simp
      show ?thesis
      proof (cases ?al)
        case True
        then show ?thesis using odd_half [OF tiles_block(5) [OF d(11) b]] unfolding ik x by blast
      next
        case False
        have "buddy g b k = c'" using False p(2) ik by (simp add: buddy_def)
        then have "c' \<in> U" using no p(1) ik by (simp add: free_buddy_def)
        then show ?thesis using used by blast
      qed
    qed
    from merge_neighbours_refused [OF c p(1) this] show ?thesis
      unfolding p(2) prev_block_ok [OF c p(1)] merge_buddy_prev_def .
  qed
  then show ?thesis using n by (simp add: merge_round_def)
qed

text \<open>A round merges the block with its buddy when this is free and of its order, and does nothing otherwise.\<close>

lemma merging_max: "merging g P A K U b k E s \<Longrightarrow> ord_max g < 60"
proof -
  assume "merging g P A K U b k E s"
  then have c: "core g P A K (insert b U) {} {base g ..< E} s" and b: "K b = Some k" by (simp_all add: merging_def)
  have "is_ord g (ord_max g)" using coreD(8) [OF c b] by (simp add: is_ord_def)
  then show "ord_max g < 60" using geo_facts(1) [OF coreD(1) [OF c]] by fastforce
qed

lemma merge_round_go:
  assumes m: "merging g P A K U b k E s" and k: "k < ord_max g" and fb: "free_buddy g K U b k"
  shows "\<exists>r A' K' s'. merge_round junk P b s = Some (r, s') \<and> r \<noteq> 0 \<and> merging g P A' K' U r (Suc k) E s' \<and>
    spares A' P = Suc (spares A P) \<and> span b k \<subseteq> span r (Suc k) \<and> (\<forall>a \<in> U. K' a = K a) \<and>
    (\<forall>a. uint a \<notin> span r (Suc k) \<longrightarrow> K' a = K a) \<and> merge_end g K' U r (Suc k) = merge_end g K U b k"
proof (cases "2 ^ Suc k dvd uint b - base g")
  case True
  then have h: "K (b + 2 ^ k) = Some k" "b + 2 ^ k \<notin> U" using fb by (simp_all add: free_buddy_def buddy_def)
  obtain A' s' where r: "merge_round junk P b s = Some (b, s')"
    "merging g P A' (K(b + 2 ^ k := None, b \<mapsto> Suc k)) U b (Suc k) E s'" "spares A' P = Suc (spares A P)"
    using merge_with_next [OF m k True h] by blast
  have "b \<noteq> 0" and bU: "b \<notin> U" using m tiles_block(2) [OF coreD(11)] unfolding merging_def by blast+
  moreover have "span b k \<subseteq> span b (Suc k)" by (auto simp: span_def)
  moreover have c: "core g P A K (insert b U) {} {base g ..< E} s" and kb: "K b = Some k" using m by (simp_all add: merging_def)
  moreover have "uint b \<in> span b (Suc k)" "uint (b + 2 ^ k) \<in> span b (Suc k)"
    unfolding uint_next [OF coreD(11) [OF c] kb] by (simp_all add: span_def)
  then have "\<forall>a. uint a \<notin> span b (Suc k) \<longrightarrow> (K(b + 2 ^ k := None, b \<mapsto> Suc k)) a = K a" by auto
  moreover have "merge_end g (K(b + 2 ^ k := None, b \<mapsto> Suc k)) U b (Suc k) = merge_end g K U b k"
    by (rule merge_end_step [OF k merging_max [OF m] fb]) (use True in simp)
  moreover have "\<forall>a \<in> U. (K(b + 2 ^ k := None, b \<mapsto> Suc k)) a = K a" using h(2) bU by auto
  ultimately show ?thesis using r by blast
next
  case False
  define c where "c = b - 2 ^ k"
  have h: "K c = Some k" "c \<notin> U" using fb False by (simp_all add: free_buddy_def buddy_def c_def)
  have b: "b = c + 2 ^ k" by (simp add: c_def)
  have core: "core g P A K (insert b U) {} {base g ..< E} s" and kb: "K b = Some k" "b \<notin> U" using m by (simp_all add: merging_def)
  have ub: "uint b = uint c + 2 ^ k" unfolding b by (rule uint_next [OF coreD(11) [OF core] h(1)])
  then have cb: "c \<noteq> b" by auto
  have x: "uint c - base g = (uint b - base g) - 2 ^ k" using ub by simp
  have al: "2 ^ Suc k dvd uint c - base g" unfolding x odd_half [OF tiles_block(5) [OF coreD(11) [OF core] kb(1)]] by (rule False)
  obtain A' s' where r: "merge_round junk P b s = Some (c, s')" "merging g P A' (K(b := None, c \<mapsto> Suc k)) U c (Suc k) E s'"
    "spares A' P = Suc (spares A P)"
    using merge_with_prev [OF m k al b cb h] by blast
  have "c \<noteq> 0" by (rule tiles_block(2) [OF coreD(11) [OF core] h(1)])
  moreover have "span b k \<subseteq> span c (Suc k)" using ub by (auto simp: span_def)
  moreover have "uint b \<in> span c (Suc k)" "uint c \<in> span c (Suc k)" unfolding ub by (simp_all add: span_def)
  then have "\<forall>a. uint a \<notin> span c (Suc k) \<longrightarrow> (K(b := None, c \<mapsto> Suc k)) a = K a" by auto
  moreover have "merge_end g (K(b := None, c \<mapsto> Suc k)) U c (Suc k) = merge_end g K U b k"
    using merge_end_step [OF k merging_max [OF m] fb, of c] False unfolding b [symmetric] by (simp add: c_def)
  moreover have "\<forall>a \<in> U. (K(b := None, c \<mapsto> Suc k)) a = K a" using h(2) kb(2) by auto
  ultimately show ?thesis using r by blast
qed

text \<open>
  In front of the first block the code reads no tail of a block.  Where the word there is 0, \<open>_prev_block\<close> of
  the first block is the block itself, which passes all the tests of a buddy: the list node 0 is unlinked, to
  which the index of a block without one points, and the block is doubled over the one behind it.
\<close>

lemma merge_with_itself:
  assumes "b \<noteq> 0" and "tl_size s (b - 8) = 0" and "bh_flag s b = 0"
  shows "merge_buddy_prev junk P (prev_block s b) b s = do {
    (rslt, s') \<leftarrow> unlink_block junk P b s;
    if rslt < 0 then Some (0, s') else make_block junk b (push_bit 1 (bh_size s b)) s' }"
  using assms by (simp add: merge_buddy_prev_def merge_buddy_def prev_block_def Let_def cong del: if_weak_cong)

section \<open>The loop\<close>

lemma mmp_merge_unfold:
  "mmp_merge junk P max_bs b s =
     (if uint (bh_size s b) < max_bs
      then do { (r, s) \<leftarrow> merge_round junk P b s; if r = 0 then Some (b, s) else mmp_merge junk P max_bs r s }
      else Some (b, s))"
proof (cases "merge_buddy_next junk P b (next_block s b) s")
  case None
  then show ?thesis by (subst mmp_merge.simps) (simp add: merge_round_def)
next
  case (Some r)
  then show ?thesis by (subst mmp_merge.simps) (cases r, simp add: merge_round_def)
qed

lemma mmp_merge_ok:
  assumes "merging g P A K U b k E s" and "uint (fst (merge_end g K U b k)) = base g \<longrightarrow> snd (merge_end g K U b k) = ord_max g"
  shows "\<exists>r j A' K' s'. mmp_merge junk P (2 ^ ord_max g) b s = Some (r, s') \<and> merging g P A' K' U r j E s' \<and>
    spares A P \<le> spares A' P \<and> span b k \<subseteq> span r j \<and> (\<forall>a \<in> U. K' a = K a) \<and>
    (\<forall>a. uint a \<notin> span r j \<longrightarrow> K' a = K a) \<and> (j = ord_max g \<or> \<not> free_buddy g K' U r j) \<and> merge_end g K U b k = (r, j)"
  using assms
proof (induction "ord_max g - k" arbitrary: A K b k s rule: less_induct)
  case less
  note m = less.prems(1)
  have c: "core g P A K (insert b U) {} {base g ..< E} s" and b: "K b = Some k" using m by (simp_all add: merging_def)
  have o: "is_ord g k" by (rule coreD(8) [OF c b])
  note geo = geo_facts [OF coreD(1) [OF c] o]
  have sz: "uint (bh_size s b) = 2 ^ k" using coreD(9) [OF c b] geo(1) by (simp add: hdr_def uint_power_u32)
  have go: "uint (bh_size s b) < 2 ^ ord_max g \<longleftrightarrow> k < ord_max g" unfolding sz by simp
  consider "k = ord_max g" | "k < ord_max g" "\<not> free_buddy g K U b k" | "k < ord_max g" "free_buddy g K U b k"
    using o by (fastforce simp: is_ord_def)
  then show ?case
  proof cases
    case 1
    then have "mmp_merge junk P (2 ^ ord_max g) b s = Some (b, s)" using go by (subst mmp_merge_unfold) simp
    moreover have "merge_end g K U b k = (b, k)" using 1 by (subst merge_end.simps) simp
    ultimately show ?thesis using m 1 by blast
  next
    case 2
    have e: "merge_end g K U b k = (b, k)" using 2(2) by (subst merge_end.simps) simp
    then have "uint b \<noteq> base g" using less.prems(2) 2(1) by auto
    then have "mmp_merge junk P (2 ^ ord_max g) b s = Some (b, s)"
      using go 2(1) merge_round_stop [OF m 2, of junk] by (subst mmp_merge_unfold) simp
    then show ?thesis using m 2 e by blast
  next
    case 3
    obtain r A1 K1 s1 where r: "merge_round junk P b s = Some (r, s1)" "r \<noteq> 0" "merging g P A1 K1 U r (Suc k) E s1"
      "spares A1 P = Suc (spares A P)" "span b k \<subseteq> span r (Suc k)" "\<forall>a \<in> U. K1 a = K a"
      "\<forall>a. uint a \<notin> span r (Suc k) \<longrightarrow> K1 a = K a" "merge_end g K1 U r (Suc k) = merge_end g K U b k"
      using merge_round_go [OF m 3] by blast
    have lt: "ord_max g - Suc k < ord_max g - k" using 3(1) by simp
    obtain q j A' K' s' where q: "mmp_merge junk P (2 ^ ord_max g) r s1 = Some (q, s')" "merging g P A' K' U q j E s'"
      "spares A1 P \<le> spares A' P" "span r (Suc k) \<subseteq> span q j" "\<forall>a \<in> U. K' a = K1 a"
      "\<forall>a. uint a \<notin> span q j \<longrightarrow> K' a = K1 a" "j = ord_max g \<or> \<not> free_buddy g K' U q j" "merge_end g K1 U r (Suc k) = (q, j)"
      using less.hyps [OF lt r(3)] less.prems(2) unfolding r(8) by blast
    have "mmp_merge junk P (2 ^ ord_max g) b s = Some (q, s')" using go 3(1) r(1,2) q(1) by (subst mmp_merge_unfold) simp
    moreover have "spares A P \<le> spares A' P" using q(3) r(4) by simp
    moreover have "span b k \<subseteq> span q j" using q(4) r(5) by blast
    moreover have "\<forall>a \<in> U. K' a = K a" using q(5) r(6) by simp
    moreover have "\<forall>a. uint a \<notin> span q j \<longrightarrow> K' a = K a" using q(4,6) r(7) by (metis subsetD)
    ultimately show ?thesis using q(2,7,8) r(8) by metis
  qed
qed

section \<open>Release\<close>

text \<open>The head and the tail of a block, as \<open>mmp_free\<close> reads them from the payload.\<close>

lemma block_marks:
  assumes c: "core g P A K U {} R s" and b: "K b = Some k"
  shows "b \<noteq> 0" and "b + 8 \<noteq> 0" and "bh_size s b = 2 ^ k" and "get_tail s b = b + 2 ^ k - 8"
    and "tl_size s (b + 2 ^ k - 8) = 2 ^ k" and "tl_label s (b + 2 ^ k - 8) = TAIL_LABEL"
proof -
  note d = coreD [OF c]
  note geo = geo_facts [OF d(1) d(8) [OF b]]
  show "b \<noteq> 0" by (rule tiles_block(2) [OF d(11) b])
  show hd: "bh_size s b = 2 ^ k" and "tl_size s (b + 2 ^ k - 8) = 2 ^ k" and "tl_label s (b + 2 ^ k - 8) = TAIL_LABEL"
    using d(9) [OF b] unfolding hdr_def by simp_all
  show "get_tail s b = b + 2 ^ k - 8" using geo(1) by (simp add: get_tail_def hd ucast_power_u32)
  show "b + 8 \<noteq> 0"
  proof
    assume "b + 8 = 0"
    then have "b = -8" by (simp add: eq_neg_iff_add_eq_0)
    then have "uint b = 2 ^ 64 - 8" by simp
    moreover have "(8 :: int) \<le> 2 ^ k" using power_increasing [of 3 k "2 :: int"] geo(3) by simp
    ultimately show False using tiles_block(3) [OF d(11) b] by linarith
  qed
qed

text \<open>A block that was merged is put on the list of its order.\<close>

lemma push_merged:
  assumes m: "merging g P A K V r j E s" and sp: "0 < spares A P"
  obtains A' s' where "return_free_node_to_head junk P r s = Some (0, s')" and "mmp_ok g P A' K V {base g ..< E} s'"
    and "spares A P = Suc (spares A' P)"
proof -
  have c: "core g P A K (insert r V) {} {base g ..< E} s" and r: "K r = Some j" "r \<notin> V" "bh_flag s r = 0"
    and u: "\<forall>a \<in> V. bh_flag s a = BLOCK_BIT_USED" using m by (simp_all add: merging_def)
  obtain x xs where x: "A (free_fln_list P) = Some (x # xs)"
    using sp coreD(3) [OF c] by (cases "the (A (free_fln_list P))") (auto simp: spares_def)
  let ?A = "A(free_fln_list P := Some xs, cls g j := Some (x # the (A (cls g j))))"
  obtain s' where s': "return_free_node_to_head junk P r s = Some (0, s')"
    "core g P ?A K (insert r V - {r}) {} {base g ..< E} s'" "bh_flag s' = bh_flag s"
    using push_free_ok [OF c _ r(1) _ r(3) x, of junk] by blast
  have "insert r V - {r} = V" using r(2) by simp
  then have "mmp_ok g P ?A K V {base g ..< E} s'" using s'(2,3) u by (simp add: mmp_ok_def)
  moreover have "spares A P = Suc (spares ?A P)"
    using x geo_facts(7) [OF coreD(1) [OF c] coreD(8) [OF c r(1)]] by (simp add: spares_def)
  ultimately show thesis using that s'(1) by blast
qed

text \<open>
  C4.  On a pool of blocks that tile the chunk, with a list node to spare, \<open>mmp_free\<close> of a block that is not
  in use is refused and changes nothing.  For a block in use whose merging does not end at the start of the
  chunk below the largest order it ends with status 0: the block is no longer in use and is part of a free
  block \<open>r\<close> of order \<open>j\<close>, which is what \<open>merge_end\<close> gives: the block is merged with its buddy, on either
  side, over and over.  In the end the buddy of \<open>r\<close> is no free block of its order, or \<open>r\<close> has the largest
  order.  The blocks outside \<open>r\<close> keep their place, size and use, and the blocks still tile the chunk.  The case
  left out is the one the code gets wrong (\<open>merge_with_itself\<close>).
\<close>

theorem mmp_free_blocks:
  assumes ok: "mmp_ok g P A K U {base g ..< E} s" and e: "2 ^ ord_max g dvd E - base g" and sp: "0 < spares A P"
    and b: "K b = Some k" and r: "merge_end g K (U - {b}) b k = (r, j)" and front: "b \<in> U \<and> uint r = base g \<longrightarrow> j = ord_max g"
  shows "if b \<in> U
    then \<exists>A' K' s'. mmp_free junk (P + 8) (b + 8) s = Some (0, s') \<and> mmp_ok g P A' K' (U - {b}) {base g ..< E} s' \<and>
      K' r = Some j \<and> r \<notin> U - {b} \<and> span b k \<subseteq> span r j \<and> (j = ord_max g \<or> \<not> free_buddy g K' (U - {b}) r j) \<and>
      (\<forall>a. uint a \<notin> span r j \<longrightarrow> K' a = K a) \<and> (\<forall>a \<in> U - {b}. K' a = K a) \<and> spares A P \<le> Suc (spares A' P)
    else mmp_free junk (P + 8) (b + 8) s = Some (-1, s)"
proof -
  have c: "core g P A K U {} {base g ..< E} s" and used: "\<forall>b \<in> U. bh_flag s b = BLOCK_BIT_USED" using ok by (simp_all add: mmp_ok_def)
  note geo = geo_facts [OF coreD(1) [OF c] coreD(8) [OF c b]]
  note hd = block_marks [OF c b]
  have P0: "P \<noteq> 0" using coreD(1) [OF c] by (simp add: geo_ok_def)
  show ?thesis
  proof (cases "b \<in> U")
    case False
    then show ?thesis using free_flag [OF c b] by (simp add: mmp_free_def hd Let_def)
  next
    case True
    define V where "V = U - {b}"
    have U: "insert b V = U" using True by (auto simp: V_def)
    have fb: "bh_flag s b = BLOCK_BIT_USED" using used True by blast
    define s1 where "s1 = set_flag b 0 s"
    have fl: "bh_flag s1 = (bh_flag s)(b := 0)" by (simp add: s1_def set_flag_def)
    have "core g P A K (insert b V) {} {base g ..< E} s1" unfolding s1_def U by (rule core_set_flag [OF c True])
    then have m: "merging g P A K V b k E s1" using b e used by (simp add: merging_def fl V_def)
    have f: "uint (fst (merge_end g K V b k)) = base g \<longrightarrow> snd (merge_end g K V b k) = ord_max g"
      using front True r by (simp add: V_def)
    obtain A1 K1 s2 where r: "mmp_merge junk P (2 ^ ord_max g) b s1 = Some (r, s2)" "merging g P A1 K1 V r j E s2"
      "spares A P \<le> spares A1 P" "span b k \<subseteq> span r j" "\<forall>a \<in> V. K1 a = K a" "\<forall>a. uint a \<notin> span r j \<longrightarrow> K1 a = K a"
      "j = ord_max g \<or> \<not> free_buddy g K1 V r j"
      using mmp_merge_ok [OF m f, of junk] r [folded V_def] by auto
    have rj: "K1 r = Some j" "r \<notin> V" using r(2) by (simp_all add: merging_def)
    have "0 < spares A1 P" using r(3) sp by simp
    then obtain A' s3 where s3: "return_free_node_to_head junk P r s2 = Some (0, s3)" "mmp_ok g P A' K1 V {base g ..< E} s3"
      "spares A1 P = Suc (spares A' P)" using push_merged [OF r(2), of junk] by blast
    have sz: "block_size (uint (mmp_max_order s1 P)) = 2 ^ ord_max g" using geo(6) by (simp add: s1_def set_flag_def)
    have nz: "BLOCK_BIT_USED AND BLOCK_BIT_USED \<noteq> 0" by (simp add: BLOCK_BIT_USED_def)
    have "mmp_free junk (P + 8) (b + 8) s = Some (0, s3)"
      using P0 r(1) s3(1) nz sz by (simp add: mmp_free_def hd fb Let_def s1_def [symmetric])
    moreover have "spares A P \<le> Suc (spares A' P)" using r(3) s3(3) by simp
    ultimately show ?thesis unfolding if_P [OF True] V_def [symmetric] using r(4-7) s3(2) rj by blast
  qed
qed

section \<open>Two blocks of a small pool\<close>

definition mmp_halves :: "dl_heap \<Rightarrow> mmp_heap" where
  "mmp_halves h = (mmp_ex h)\<lparr>bh_flag := (\<lambda>a. if a = 0x2020 then BLOCK_BIT_USED else 0), bh_size := (\<lambda>_. 32),
     tl_size := (\<lambda>a. if a = 0x1FF8 then 0 else 32)\<rparr>"

lemma mmp_halves_ok:
  "\<exists>h A. mmp_ok geo_ex 0x1000 A [0x2000 \<mapsto> 5, 0x2020 \<mapsto> 5] {0x2020} {0x2000 ..< 0x2040} (mmp_halves h) \<and> spares A 0x1000 = 2"
proof -
  define A :: "ptr \<Rightarrow> ptr list option" where "A = mmp_ex_lists 0x1080"
  obtain h where h: "dl.family h A" using mmp_ex_family [of "0x1080"] unfolding A_def by blast
  have o: "is_ord geo_ex k \<longleftrightarrow> k = 5 \<or> k = 6" for k by (auto simp: is_ord_def geo_ex_def)
  have t: "tiles [0x2000 \<mapsto> 5, 0x2020 \<mapsto> 5] (base geo_ex) {0x2000 ..< 0x2040}"
    by (auto simp: tiles_def span_def geo_ex_def split: if_splits)
  have "core geo_ex 0x1000 A [0x2000 \<mapsto> 5, 0x2020 \<mapsto> 5] {0x2020} {} {0x2000 ..< 0x2040} (mmp_halves h)"
  proof (rule coreI)
    show "geo_ok (mmp_halves h) 0x1000 geo_ex"
      by (auto simp: geo_ok_def geo_of_def mmp_halves_def mmp_ex_def geo_ex_def cls_def atLeastAtMost_insertL [symmetric])
    show "dl.family (links (mmp_halves h)) A" using h by (simp add: mmp_halves_def mmp_ex_def)
  qed (use t o in \<open>auto simp: A_def mmp_ex_lists_def o cls_def geo_ex_def mmp_halves_def mmp_ex_def fln_ok_def stands_for_def hdr_def
      split: if_splits\<close>)
  then have "mmp_ok geo_ex 0x1000 A [0x2000 \<mapsto> 5, 0x2020 \<mapsto> 5] {0x2020} {0x2000 ..< 0x2040} (mmp_halves h)"
    by (simp add: mmp_ok_def mmp_halves_def)
  moreover have "spares A 0x1000 = 2" by (simp add: spares_def A_def mmp_ex_lists_def)
  ultimately show ?thesis by blast
qed

theorem mmp_free_blocks_witness:
  "\<exists>h A K s'. tl_size (mmp_halves h) 0x1FF8 = 0 \<and> mmp_free 0 0x1008 0x2028 (mmp_halves h) = Some (0, s') \<and>
     mmp_ok geo_ex 0x1000 A K {} {0x2000 ..< 0x2040} s' \<and> K 0x2000 = Some 6"
proof -
  let ?K = "[0x2000 \<mapsto> 5, 0x2020 \<mapsto> 5] :: ptr \<Rightarrow> nat option"
  have g: "base geo_ex = 0x2000" "ord_max geo_ex = 6" by (simp_all add: geo_ex_def)
  obtain h A where ok: "mmp_ok geo_ex 0x1000 A ?K {0x2020} {0x2000 ..< 0x2040} (mmp_halves h)" and sp: "spares A 0x1000 = 2"
    using mmp_halves_ok by blast
  have ok': "mmp_ok geo_ex 0x1000 A ?K {0x2020} {base geo_ex ..< 0x2040} (mmp_halves h)" using ok unfolding g .
  have e: "2 ^ ord_max geo_ex dvd (0x2040 :: int) - base geo_ex" by (simp add: g)
  have s: "0 < spares A 0x1000" by (simp add: sp)
  have k: "?K 0x2020 = Some 5" by simp
  have r: "merge_end geo_ex ?K ({0x2020} - {0x2020}) 0x2020 5 = (0x2000, 6)"
    by (subst merge_end.simps, subst merge_end.simps) (simp add: free_buddy_def buddy_def g)
  have f: "(0x2020 :: ptr) \<in> {0x2020} \<and> uint (0x2000 :: ptr) = base geo_ex \<longrightarrow> 6 = ord_max geo_ex" by (simp add: g)
  have u: "(0x2020 :: ptr) \<in> {0x2020}" by simp
  obtain A' K' s' where "mmp_free 0 (0x1000 + 8) (0x2020 + 8) (mmp_halves h) = Some (0, s')"
    "mmp_ok geo_ex 0x1000 A' K' ({0x2020} - {0x2020}) {base geo_ex ..< 0x2040} s'" "K' 0x2000 = Some 6"
    using mmp_free_blocks [OF ok' e s k r f, of 0] unfolding if_P [OF u] by blast
  then show ?thesis unfolding g
    by (intro exI [of _ h] exI [of _ A'] exI [of _ K'] exI [of _ s']) (simp add: mmp_halves_def)
qed

end
