(* ===== verification/Shmem.thy ===== *)
theory Shmem
  imports Misc Hash Rbtree_Map
begin

text \<open>
  The shared memory blocks of \<open>src/src/shmem.c\<close>.

  A \<open>struct _shmm_blk_impl\<close> (80 bytes) lies at the start of an attached segment; its \<open>struct
  shmm_blk\<close>, the handle, is at offset 8.  In the block, \<open>rb_node\<close> is at offset 16 and \<open>lst_node\<close> at
  offset 48.  The search tree the blocks are nodes of is \<open>sec_tree\<close>.

  The System V calls are arguments, gathered in \<open>shm_sys\<close>, over a state \<open>'o\<close> of the operating
  system; \<open>shmat\<close> returns the address of the attached segment, or -1.  The \<open>int\<close> results are
  integers, keys and flags 32-bit words.
\<close>

record 'o shm_sys =
  sys_shmget :: "u32 \<Rightarrow> u64 \<Rightarrow> u32 \<Rightarrow> 'o \<Rightarrow> int \<times> 'o"
  sys_shmat :: "int \<Rightarrow> ptr \<Rightarrow> u32 \<Rightarrow> 'o \<Rightarrow> ptr \<times> 'o"
  sys_shmdt :: "ptr \<Rightarrow> 'o \<Rightarrow> int \<times> 'o"
  sys_shmctl_rmid :: "int \<Rightarrow> 'o \<Rightarrow> int \<times> 'o"

record 'o shm_heap = hash_heap +
  shm_os :: 'o
  sec_tree :: rbtree
  shmm_tag :: "ptr \<Rightarrow> u64"
  shmm_begin_off :: "ptr \<Rightarrow> u64"
  shmm_end_off :: "ptr \<Rightarrow> u64"
  shmm_key :: "ptr \<Rightarrow> u32"
  shmm_fd :: "ptr \<Rightarrow> int"

definition SHMM_TAG :: u64 where "SHMM_TAG = 0x1234567890abcdef"
definition SHM_PAGE_SIZE :: u64 where "SHM_PAGE_SIZE = 4096"
definition SHMM_MID_PAGE_THRESHOLD :: u64 where "SHMM_MID_PAGE_THRESHOLD = push_bit 18 1"
definition SHMM_HUGE_PAGE_THRESHOLD :: u64 where "SHMM_HUGE_PAGE_THRESHOLD = push_bit 28 1"
definition SHM_HUGE_2MB :: u32 where "SHM_HUGE_2MB = push_bit 26 21"
definition SHM_HUGE_1GB :: u32 where "SHM_HUGE_1GB = push_bit 26 30"

text \<open>The flag values of the Linux headers, in octal \<open>01000\<close>, \<open>02000\<close>, \<open>04000\<close>, \<open>0400\<close>, \<open>0200\<close> and \<open>020000\<close>.\<close>

definition IPC_CREAT :: u32 where "IPC_CREAT = 0x200"
definition IPC_EXCL :: u32 where "IPC_EXCL = 0x400"
definition SHM_HUGETLB :: u32 where "SHM_HUGETLB = 0x800"
definition SHM_R :: u32 where "SHM_R = 0x100"
definition SHM_W :: u32 where "SHM_W = 0x80"
definition S_IRUSR :: u32 where "S_IRUSR = 0x100"
definition S_IWUSR :: u32 where "S_IWUSR = 0x80"
definition SHM_RND :: u32 where "SHM_RND = 0x2000"

abbreviation (input) the_blk :: "ptr \<Rightarrow> ptr" where "the_blk sbi \<equiv> sbi + 8"
abbreviation (input) conv_blk :: "ptr \<Rightarrow> ptr" where "conv_blk bk \<equiv> bk - 8"
abbreviation (input) shm_rb_node :: "ptr \<Rightarrow> ptr" where "shm_rb_node shm \<equiv> shm + 16"
abbreviation (input) shm_lst_node :: "ptr \<Rightarrow> ptr" where "shm_lst_node shm \<equiv> shm + 48"

definition shmm_begin_addr :: "('o, 'z) shm_heap_scheme \<Rightarrow> ptr \<Rightarrow> ptr" where
  "shmm_begin_addr s shm = (if shm = 0 then 0 else shm + shmm_begin_off s shm)"

definition shmm_end_addr :: "('o, 'z) shm_heap_scheme \<Rightarrow> ptr \<Rightarrow> ptr" where
  "shmm_end_addr s shm = (if shm = 0 then 0 else shm + shmm_end_off s shm)"

text \<open>A system call on the state of the operating system.\<close>

definition on_os :: "('o \<Rightarrow> 'r \<times> 'o) \<Rightarrow> ('o, 'z) shm_heap_scheme \<Rightarrow> 'r \<times> ('o, 'z) shm_heap_scheme" where
  "on_os f s = (let (r, w) = f (shm_os s) in (r, s\<lparr>shm_os := w\<rparr>))"

section \<open>Creating and opening\<close>

definition shmm_flag :: "u64 \<Rightarrow> bool \<Rightarrow> u32" where
  "shmm_flag sz try_huge_page =
     (IPC_CREAT OR IPC_EXCL OR SHM_R OR SHM_W OR S_IRUSR OR S_IWUSR) OR
     (if try_huge_page \<and> sz > SHMM_MID_PAGE_THRESHOLD
      then SHM_HUGETLB OR (if sz \<le> SHMM_HUGE_PAGE_THRESHOLD then SHM_HUGE_2MB else SHM_HUGE_1GB)
      else 0)"

text \<open>
  The test of \<open>at_addr\<close> binds as \<open>at_addr & ((SHM_PAGE_SIZE - 1) != 0)\<close>, so it looks at the lowest bit
  only.  \<open>uninit\<close> is the value of the pointer \<open>sbi\<close>, which the error exit reads unset.
\<close>

definition shmm_create ::
  "'o shm_sys \<Rightarrow> ptr \<Rightarrow> u32 \<Rightarrow> ptr \<Rightarrow> u64 \<Rightarrow> bool \<Rightarrow> ('o, 'z) shm_heap_scheme \<Rightarrow>
   (ptr \<times> ('o, 'z) shm_heap_scheme) option" where
  "shmm_create sys uninit key at_addr sz try_huge_page s =
     (let fail = (\<lambda>ret_addr s. if uninit \<noteq> 0 \<and> ret_addr \<noteq> 0
                    then let (r, s) = on_os (sys_shmdt sys ret_addr) s in (0, s) else (0, s)) in
      if key = 0 \<or> sint key \<le> 0 \<or> sz = 0 then Some (fail 0 s)
      else if at_addr AND (if SHM_PAGE_SIZE - 1 \<noteq> 0 then 1 else 0) \<noteq> 0 then Some (fail 0 s)
      else
        let flag = shmm_flag sz try_huge_page;
            sz = round_up sz SHM_PAGE_SIZE + SHM_PAGE_SIZE;
            (fd, s) = on_os (sys_shmget sys key sz flag) s
        in if fd < 0 then Some (fail 0 s)
        else
          let (ret_addr, s) = on_os (sys_shmat sys fd at_addr SHM_RND) s
          in if ret_addr = -1 then Some (fail ret_addr s)
          else do {
            sbi \<leftarrow> deref ret_addr ret_addr;
            let bk = the_blk sbi;
            let addr_begin = move_ptr_roundup ret_addr 80 SHM_PAGE_SIZE;
            let s = s\<lparr>shmm_tag := (shmm_tag s)(bk := SHMM_TAG),
                      shmm_end_off := (shmm_end_off s)(bk := sz),
                      shmm_begin_off := (shmm_begin_off s)(bk := addr_begin - ret_addr),
                      shmm_key := (shmm_key s)(bk := key),
                      shmm_fd := (shmm_fd s)(bk := fd)\<rparr>;
            t \<leftarrow> rb_fillnew (shm_rb_node bk) (sec_tree s);
            Some (bk, s\<lparr>sec_tree := t\<rparr>) })"

definition shmm_open_raw ::
  "'o shm_sys \<Rightarrow> u32 \<Rightarrow> ptr \<Rightarrow> ('o, 'z) shm_heap_scheme \<Rightarrow> (ptr \<times> ('o, 'z) shm_heap_scheme) option" where
  "shmm_open_raw sys key at_addr s =
     (if key = 0 \<or> sint key \<le> 0 then Some (0, s)
      else if at_addr \<noteq> 0 \<and> at_addr AND (SHM_PAGE_SIZE - 1) \<noteq> 0 then Some (0, s)
      else
        let flag = SHM_R OR SHM_W OR S_IRUSR OR S_IWUSR;
            (fd, s) = on_os (sys_shmget sys key 0 flag) s
        in if fd < 0 then Some (0, s)
        else
          let (ret_addr, s) = on_os (sys_shmat sys fd at_addr 0) s
          in if ret_addr = -1 then Some (0, s)
          else do {
            sbi \<leftarrow> deref ret_addr ret_addr;
            let bk = the_blk sbi;
            if shmm_tag s bk \<noteq> SHMM_TAG \<or> shmm_key s bk \<noteq> key
            then let (r, s) = on_os (sys_shmdt sys ret_addr) s in Some (0, s)
            else Some (bk, s) })"

definition shmm_open ::
  "'o shm_sys \<Rightarrow> u32 \<Rightarrow> ptr \<Rightarrow> ('o, 'z) shm_heap_scheme \<Rightarrow> (ptr \<times> ('o, 'z) shm_heap_scheme) option" where
  "shmm_open sys key at_addr s = shmm_open_raw sys key (conv_blk at_addr) s"

section \<open>Closing and destroying\<close>

definition shmm_close ::
  "'o shm_sys \<Rightarrow> ptr \<Rightarrow> ('o, 'z) shm_heap_scheme \<Rightarrow> (int \<times> ('o, 'z) shm_heap_scheme) option" where
  "shmm_close sys shm s =
     (if shm = 0 then None
      else if shmm_begin_off s shm = 0 \<or> shmm_end_off s shm = 0 then Some (-1, s)
      else if shmm_tag s shm \<noteq> SHMM_TAG then Some (-1, s)
      else let (r, s) = on_os (sys_shmdt sys shm) s in Some (0, s))"

definition shmm_destroy ::
  "'o shm_sys \<Rightarrow> ptr \<Rightarrow> ('o, 'z) shm_heap_scheme \<Rightarrow> (int \<times> ('o, 'z) shm_heap_scheme) option" where
  "shmm_destroy sys shm s =
     (if shm = 0 then None
      else
        let (rslt, s) = on_os (sys_shmctl_rmid sys (shmm_fd s shm)) s
        in if rslt < 0 then Some (-1, s)
        else do {
          (r, s) \<leftarrow> shmm_close sys shm s;
          if r < 0 then Some (-1, s) else Some (0, s) })"

section \<open>Lemmas\<close>

lemma on_os_eq: "on_os f s = (fst (f (shm_os s)), s\<lparr>shm_os := snd (f (shm_os s))\<rparr>)"
  by (simp add: on_os_def Let_def split_beta)

lemma shmm_create_ok:
  assumes "shmm_create sys uninit key at_addr sz huge s = Some (bk, s')" and "bk \<noteq> 0"
  defines "n \<equiv> round_up sz SHM_PAGE_SIZE + SHM_PAGE_SIZE"
  defines "g \<equiv> sys_shmget sys key n (shmm_flag sz huge) (shm_os s)"
  defines "r \<equiv> fst (sys_shmat sys (fst g) at_addr SHM_RND (snd g))"
  shows "bk = r + 8" "r \<noteq> 0" "r \<noteq> -1" "0 \<le> fst g" "shmm_tag s' bk = SHMM_TAG" "shmm_key s' bk = key"
    "shmm_fd s' bk = fst g" "shmm_end_off s' bk = n"
    "shmm_begin_off s' bk = move_ptr_roundup r 80 SHM_PAGE_SIZE - r" "key \<noteq> 0" "0 < sint key"
  using assms(1,2)
  by (auto simp: shmm_create_def Let_def on_os_eq deref_def bind_eq_Some_conv n_def g_def r_def
      split: if_splits)

lemma and_eq_mod_page: "unat (a AND 4095) = unat (a :: u64) mod 4096"
proof -
  have "a AND 4095 = take_bit 12 a" by (simp add: take_bit_eq_mask mask_eq_exp_minus_1)
  then show ?thesis by (simp only: unsigned_take_bit_eq) (simp add: take_bit_eq_mod)
qed

lemma page_round:
  assumes a: "ret AND 4095 = (0 :: u64)" and b: "unat ret + 8192 < 2 ^ 64"
  shows "move_ptr_roundup ret 80 SHM_PAGE_SIZE = ret + 4096"
proof -
  have m: "unat ret mod 4096 = 0" using and_eq_mod_page [of ret] a by simp
  then obtain q where q: "unat ret = 4096 * q" by (auto elim: dvdE)
  have u: "unat (ret + 80) = unat ret + 80"
    using b unat_add_lem [of ret 80] by simp
  have "unat (round_up (ret + 80) (2 ^ 12)) = unat ret + 4096"
    using unat_round_up [of 12 "ret + 80"] b by (simp add: u q)
  moreover have "unat (ret + 4096) = unat ret + 4096"
    using b unat_add_lem [of ret 4096] by simp
  ultimately have "round_up (ret + 80) (2 ^ 12) = ret + 4096"
    by (simp add: word_unat_eq_iff)
  then show ?thesis by (simp add: move_ptr_roundup_round_up SHM_PAGE_SIZE_def)
qed

section \<open>Properties\<close>

text \<open>
  C34. A block that \<open>shmm_create\<close> returns has a region of whole pages that is at least as large as
  asked for, where \<open>shmat\<close> maps to page boundaries and nothing wraps around.  As the offsets are
  counted from the start of the segment but added to the handle, eight bytes behind it, the region
  begins eight bytes behind a page boundary and ends eight bytes behind the segment.
\<close>

theorem shmm_create_region:
  assumes "shmm_create sys uninit key at_addr sz huge s = Some (bk, s')" and "bk \<noteq> 0"
    and "\<And>fd a f w. fst (sys_shmat sys fd a f w) \<noteq> -1 \<Longrightarrow> fst (sys_shmat sys fd a f w) AND 4095 = 0"
    and "unat bk + unat sz + 4 * 4096 < 2 ^ 64"
  shows "shmm_begin_addr s' bk = (bk - 8) + 4096 + 8
    \<and> shmm_end_addr s' bk = (bk - 8) + (round_up sz SHM_PAGE_SIZE + SHM_PAGE_SIZE) + 8
    \<and> unat (shmm_end_addr s' bk) = unat (shmm_begin_addr s' bk) + unat (round_up sz SHM_PAGE_SIZE)
    \<and> unat sz \<le> unat (round_up sz SHM_PAGE_SIZE)"
proof -
  obtain ret fd w where r: "bk = ret + 8" "ret \<noteq> 0" "ret \<noteq> -1"
    "shmm_end_off s' bk = round_up sz SHM_PAGE_SIZE + SHM_PAGE_SIZE"
    "shmm_begin_off s' bk = move_ptr_roundup ret 80 SHM_PAGE_SIZE - ret"
    "fst (sys_shmat sys fd at_addr SHM_RND w) = ret"
    using shmm_create_ok(1-3,8,9) [OF assms(1,2)] by blast
  have al: "ret AND 4095 = 0" using assms(3) [of fd at_addr SHM_RND w] r(3,6) by simp
  have m: "unat ret mod 4096 = 0" using and_eq_mod_page [of ret] al by simp
  then obtain q where q: "unat ret = 4096 * q" by (auto elim: dvdE)
  have "unat ret < 2 ^ 64" using unat_less [of ret] by simp
  then have b8: "unat ret + 8 < 2 ^ 64" using q by simp
  have u: "unat bk = unat ret + 8" using b8 unat_add_lem [of ret 8] by (simp add: r(1))
  have p: "move_ptr_roundup ret 80 SHM_PAGE_SIZE = ret + 4096"
    using assms(4) u by (intro page_round [OF al]) simp
  have z: "unat sz \<le> unat (round_up sz (2 ^ 12))" "unat (round_up sz (2 ^ 12)) < unat sz + 2 ^ 12"
    using round_up_nat [of "2 ^ 12" "unat sz"] unat_round_up [of 12 sz] assms(4) by simp_all
  have S: "SHM_PAGE_SIZE = 2 ^ 12" by (simp add: SHM_PAGE_SIZE_def)
  have b: "shmm_begin_addr s' bk = ret + 4096 + 8"
    using assms(2) by (simp add: shmm_begin_addr_def r(5) p) (simp add: r(1))
  have e: "shmm_end_addr s' bk = ret + (round_up sz SHM_PAGE_SIZE + SHM_PAGE_SIZE) + 8"
    using assms(2) by (simp add: shmm_end_addr_def r(4)) (simp add: r(1))
  have ub: "unat (ret + 4096 + 8) = unat ret + 4096 + 8"
    using assms(4) u by (simp add: unat_word_ariths)
  have "ret + (round_up sz SHM_PAGE_SIZE + SHM_PAGE_SIZE) + 8 = (ret + 4096 + 8) + round_up sz SHM_PAGE_SIZE"
    by (simp add: SHM_PAGE_SIZE_def)
  moreover have "unat ((ret + 4096 + 8) + round_up sz SHM_PAGE_SIZE)
      = unat (ret + 4096 + 8) + unat (round_up sz SHM_PAGE_SIZE)"
    using assms(4) u z ub unat_add_lem [of "ret + 4096 + 8" "round_up sz SHM_PAGE_SIZE"] by (simp add: S)
  ultimately have ue: "unat (shmm_end_addr s' bk) = unat (shmm_begin_addr s' bk) + unat (round_up sz SHM_PAGE_SIZE)"
    by (simp only: b e)
  have "bk - 8 = ret" by (simp add: r(1))
  then show ?thesis using b e ue z(1) by (simp only: S)
qed

text \<open>An operating system with one segment number and one place to attach.\<close>

definition shm_ex_sys :: "unit shm_sys" where
  "shm_ex_sys = \<lparr>sys_shmget = (\<lambda>k n f w. (3, w)), sys_shmat = (\<lambda>fd a f w. (0x10000, w)),
     sys_shmdt = (\<lambda>a w. (if a AND 4095 = 0 then 0 else -1, w)), sys_shmctl_rmid = (\<lambda>fd w. (0, w))\<rparr>"

definition shm_ex :: "unit shm_heap" where
  "shm_ex = \<lparr>bytes = (\<lambda>_. 0), links = \<lparr>dl_prev = (\<lambda>_. 0), dl_next = (\<lambda>_. 0)\<rparr>,
     ht_bucket_size = (\<lambda>_. 0), ht_hash_list = (\<lambda>_. 0), shm_os = (), sec_tree = \<lparr>rb_key = (\<lambda>_. 0), rb_lc = (\<lambda>_. 0), rb_rc = (\<lambda>_. 0), rb_pw = (\<lambda>_. 0),
       rb_size = 0, rb_depth = 0, rb_root = 0, rb_cfunc = None\<rparr>,
     shmm_tag = (\<lambda>_. 0), shmm_begin_off = (\<lambda>_. 0), shmm_end_off = (\<lambda>_. 0), shmm_key = (\<lambda>_. 0),
     shmm_fd = (\<lambda>_. 0)\<rparr>"

lemma shm_ex_create:
  "\<exists>s'. shmm_create shm_ex_sys 0 7 0 5000 False shm_ex = Some (0x10008, s')
    \<and> shm_os s' = () \<and> shmm_tag s' 0x10008 = SHMM_TAG \<and> shmm_key s' 0x10008 = 7 \<and> shmm_fd s' 0x10008 = 3
    \<and> shmm_begin_off s' 0x10008 = 4096 \<and> shmm_end_off s' 0x10008 = 12288"
  by (simp add: shmm_create_def on_os_eq shm_ex_sys_def rb_fillnew_eq SHM_PAGE_SIZE_def
      move_ptr_roundup_def round_up_def)

theorem shmm_create_region_witness:
  "\<exists>s'. shmm_create shm_ex_sys 0 7 0 5000 False shm_ex = Some (0x10008, s')
    \<and> shmm_begin_addr s' 0x10008 = 0x11008
    \<and> unat (shmm_end_addr s' 0x10008) = unat (0x11008 :: u64) + unat (round_up 5000 SHM_PAGE_SIZE)"
proof -
  obtain s' where s': "shmm_create shm_ex_sys 0 7 0 5000 False shm_ex = Some (0x10008, s')"
    using shm_ex_create by blast
  show ?thesis
    using shmm_create_region [OF s' _ _ _, THEN conjunct1]
      shmm_create_region [OF s' _ _ _, THEN conjunct2, THEN conjunct2, THEN conjunct1] s'
    by (simp add: shm_ex_sys_def)
qed

text \<open>
  C35. A block that was created is opened again at its old address: where the start of the segment still reads
  as \<open>shmm_create\<close> left it, \<open>shmm_open\<close> with the key and the old handle attaches the segment where it was and
  returns the same handle, with the same region, or null when \<open>shmget\<close> or \<open>shmat\<close> fails; it writes nothing.
  \<open>shmat\<close> is taken to do what its page says: it returns page boundaries, and without \<open>SHM_RND\<close> the address
  asked for, where this is not null and at a page boundary.
\<close>

theorem shmm_create_open:
  assumes "shmm_create sys uninit key at_addr sz huge s = Some (bk, s')" and "bk \<noteq> 0"
    and "\<And>fd a f w. fst (sys_shmat sys fd a f w) \<noteq> -1 \<Longrightarrow> fst (sys_shmat sys fd a f w) AND 4095 = 0"
    and "\<And>fd a w. a \<noteq> 0 \<Longrightarrow> a AND 4095 = 0 \<Longrightarrow> fst (sys_shmat sys fd a 0 w) = a \<or> fst (sys_shmat sys fd a 0 w) = -1"
    and kept: "shmm_tag s2 bk = shmm_tag s' bk" "shmm_key s2 bk = shmm_key s' bk"
      "shmm_begin_off s2 bk = shmm_begin_off s' bk" "shmm_end_off s2 bk = shmm_end_off s' bk"
    and get: "sys_shmget sys key 0 (SHM_R OR SHM_W OR S_IRUSR OR S_IWUSR) (shm_os s2) = (fd, w)"
    and att: "sys_shmat sys fd (bk - 8) 0 w = (r, w')"
  shows "\<exists>s3. shmm_open sys key bk s2 = Some (if fd < 0 \<or> r = -1 then 0 else bk, s3) \<and>
    s3 = s2\<lparr>shm_os := if fd < 0 then w else w'\<rparr> \<and>
    shmm_begin_addr s3 bk = shmm_begin_addr s' bk \<and> shmm_end_addr s3 bk = shmm_end_addr s' bk"
proof -
  note c = shmm_create_ok [OF assms(1,2)]
  have b: "bk - 8 \<noteq> 0" "bk - 8 \<noteq> -1" "bk - 8 + 8 = bk" using c(1-3) by simp_all
  have al: "(bk - 8) AND 4095 = 0" using assms(3) c(1,3) by simp
  have P: "(bk - 8) AND (SHM_PAGE_SIZE - 1) = 0" using al by (simp add: SHM_PAGE_SIZE_def)
  have r: "r = bk - 8 \<or> r = -1" using assms(4) [OF b(1) al, of fd w] by (simp add: att)
  have g: "on_os (sys_shmget sys key 0 (SHM_R OR SHM_W OR S_IRUSR OR S_IWUSR)) s2 = (fd, s2\<lparr>shm_os := w\<rparr>)"
    by (simp add: on_os_def get)
  have a: "on_os (sys_shmat sys fd (bk - 8) 0) (s2\<lparr>shm_os := w\<rparr>) = (r, s2\<lparr>shm_os := w'\<rparr>)"
    by (simp add: on_os_def att)
  have t: "shmm_tag s2 bk = SHMM_TAG" "shmm_key s2 bk = key" using kept(1,2) c(5,6) by simp_all
  have "shmm_open sys key bk s2 = Some (if fd < 0 \<or> r = -1 then 0 else bk, s2\<lparr>shm_os := if fd < 0 then w else w'\<rparr>)"
    unfolding shmm_open_def shmm_open_raw_def Let_def g split_conv a using c(10,11) r b t P by (auto simp: deref_def)
  then show ?thesis using kept(3,4) by (simp add: shmm_begin_addr_def shmm_end_addr_def)
qed

text \<open>
  An operating system with one segment number, whose state says whether the segment is attached; then it is
  not attached again.  The block is created and attached again after it was detached, as by another process.
\<close>

definition shm_one_sys :: "bool shm_sys" where
  "shm_one_sys = \<lparr>sys_shmget = (\<lambda>k n f w. (3, w)),
     sys_shmat = (\<lambda>fd a f w. if w \<or> a AND 4095 \<noteq> 0 then (-1, w) else (if a = 0 then 0x10000 else a, True)),
     sys_shmdt = (\<lambda>a w. if a AND 4095 = 0 then (0, False) else (-1, w)), sys_shmctl_rmid = (\<lambda>fd w. (0, w))\<rparr>"

definition shm_one :: "bool shm_heap" where
  "shm_one = \<lparr>bytes = bytes shm_ex, links = links shm_ex, ht_bucket_size = (\<lambda>_. 0), ht_hash_list = (\<lambda>_. 0),
     shm_os = False, sec_tree = sec_tree shm_ex, shmm_tag = (\<lambda>_. 0), shmm_begin_off = (\<lambda>_. 0), shmm_end_off = (\<lambda>_. 0),
     shmm_key = (\<lambda>_. 0), shmm_fd = (\<lambda>_. 0)\<rparr>"

lemma shm_one_sys_at:
  "fst (sys_shmat shm_one_sys fd a f w) \<noteq> -1 \<Longrightarrow> fst (sys_shmat shm_one_sys fd a f w) AND 4095 = 0"
  "a \<noteq> 0 \<Longrightarrow> a AND 4095 = 0 \<Longrightarrow> fst (sys_shmat shm_one_sys fd a 0 w) = a \<or> fst (sys_shmat shm_one_sys fd a 0 w) = -1"
  by (auto simp: shm_one_sys_def split: if_splits)

theorem shmm_create_open_witness:
  "\<exists>s'. shmm_create shm_one_sys 0 7 0 5000 False shm_one = Some (0x10008, s')
    \<and> shmm_open shm_one_sys 7 0x10008 (s'\<lparr>shm_os := False\<rparr>) = Some (0x10008, s'\<lparr>shm_os := True\<rparr>)"
proof -
  obtain s' where s': "shmm_create shm_one_sys 0 7 0 5000 False shm_one = Some (0x10008, s')"
    by (simp add: shmm_create_def on_os_eq shm_one_sys_def shm_one_def rb_fillnew_eq SHM_PAGE_SIZE_def
      move_ptr_roundup_def round_up_def)
  let ?s = "s'\<lparr>shm_os := False\<rparr>"
  have "\<exists>s3. shmm_open shm_one_sys 7 0x10008 ?s = Some (if (3 :: int) < 0 \<or> (0x10000 :: ptr) = -1 then 0 else 0x10008, s3) \<and>
      s3 = ?s\<lparr>shm_os := if (3 :: int) < 0 then False else True\<rparr> \<and>
      shmm_begin_addr s3 0x10008 = shmm_begin_addr s' 0x10008 \<and> shmm_end_addr s3 0x10008 = shmm_end_addr s' 0x10008"
    by (rule shmm_create_open [OF s' _ shm_one_sys_at]) (auto simp: shm_one_sys_def)
  then show ?thesis using s' by auto
qed

text \<open>
  \<open>shmm_close\<close> gives \<open>shmdt\<close> the handle instead of the start of the segment, so that where \<open>shmdt\<close>
  refuses an address that is not at a page boundary, closing a block reports success and detaches nothing.
\<close>

theorem shmm_close_keeps_attached:
  assumes "\<And>a w. a AND 4095 \<noteq> 0 \<Longrightarrow> sys_shmdt sys a w = (-1, w)"
    and "shm AND 4095 = 8" and "shmm_begin_off s shm \<noteq> 0" "shmm_end_off s shm \<noteq> 0"
    and "shmm_tag s shm = SHMM_TAG"
  shows "shmm_close sys shm s = Some (0, s)"
proof -
  have "shm \<noteq> 0" using assms(2) by auto
  then show ?thesis using assms by (simp add: shmm_close_def on_os_def)
qed

theorem shmm_close_keeps_attached_witness:
  "\<exists>s'. shmm_create shm_ex_sys 0 7 0 5000 False shm_ex = Some (0x10008, s')
    \<and> shmm_close shm_ex_sys 0x10008 s' = Some (0, s')"
proof -
  obtain s' where s': "shmm_create shm_ex_sys 0 7 0 5000 False shm_ex = Some (0x10008, s')"
    "shmm_tag s' 0x10008 = SHMM_TAG" "shmm_begin_off s' 0x10008 = 4096" "shmm_end_off s' 0x10008 = 12288"
    using shm_ex_create by blast
  show ?thesis
    using shmm_close_keeps_attached [of shm_ex_sys "0x10008" s'] s' by (simp add: shm_ex_sys_def)
qed

end
