(* ===== verification/Stkpool.thy ===== *)
theory Stkpool
  imports Misc Mmops Memory Dlist_Family
begin

text \<open>
  The pool of stack frames of \<open>src/src/stkpool.c\<close>.

  A \<open>struct _stkp_impl\<close> at \<open>P\<close> (88 bytes) has its \<open>struct stkpool\<close>, the handle, at offset 8, the list of
  free frames at offset 24 and the nodes behind it.  A \<open>struct _stkp_node\<close> (24 bytes) has a list node
  at offset 0 and the payload address, whose two low bits are \<open>using\<close>.

  The size of a system page (\<open>sysconf\<close>) and \<open>mprotect\<close>, over a state of the operating system, are
  arguments.  Indexing the node pool behind the last node is an access out of bounds.
\<close>

record 'o stk_sys =
  sys_pagesize :: u64
  sys_mprotect :: "ptr \<Rightarrow> u64 \<Rightarrow> u32 \<Rightarrow> 'o \<Rightarrow> int \<times> 'o"

record 'o stk_heap = heap +
  stk_os :: 'o
  stkp_tag :: "ptr \<Rightarrow> u64"
  stkp_addr_begin :: "ptr \<Rightarrow> ptr"
  stkp_addr_end :: "ptr \<Rightarrow> ptr"
  stkp_trunk :: "ptr \<Rightarrow> ptr"
  stkp_frm_size :: "ptr \<Rightarrow> u64"
  stkp_frm_cnt :: "ptr \<Rightarrow> u64"
  stkp_pg_size :: "ptr \<Rightarrow> u64"
  stkn_payload :: "ptr \<Rightarrow> u64"

definition STKP_TAG :: u64 where "STKP_TAG = 0xAAFFBBEE00995577"
definition MIN_STK_SIZE :: u64 where "MIN_STK_SIZE = 0x2000"

text \<open>The values of \<open>sys/mman.h\<close>.\<close>

definition PROT_READ :: u32 where "PROT_READ = 1"
definition PROT_WRITE :: u32 where "PROT_WRITE = 2"

abbreviation (input) stkp_handle :: "ptr \<Rightarrow> ptr" where "stkp_handle P \<equiv> P + 8"
abbreviation (input) stkp_conv_impl :: "ptr \<Rightarrow> ptr" where "stkp_conv_impl stkp \<equiv> stkp - 8"
abbreviation (input) stkp_conv_dln :: "ptr \<Rightarrow> ptr" where "stkp_conv_dln dln \<equiv> dln"
abbreviation stkp_free_list :: "ptr \<Rightarrow> ptr" where "stkp_free_list P \<equiv> P + 24"

definition stkp_node :: "ptr \<Rightarrow> u64 \<Rightarrow> ptr" where
  "stkp_node P i = P + 88 + 24 * i"

definition stkn_using :: "('o, 'z) stk_heap_scheme \<Rightarrow> ptr \<Rightarrow> u64" where
  "stkn_using s n = stkn_payload s n AND 3"

definition stkn_set_using :: "ptr \<Rightarrow> u64 \<Rightarrow> ('o, 'z) stk_heap_scheme \<Rightarrow> ('o, 'z) stk_heap_scheme" where
  "stkn_set_using n v s = s\<lparr>stkn_payload := (stkn_payload s)(n := (stkn_payload s n AND - 4) OR (v AND 3))\<rparr>"

definition stkn_set_payload :: "ptr \<Rightarrow> u64 \<Rightarrow> ('o, 'z) stk_heap_scheme \<Rightarrow> ('o, 'z) stk_heap_scheme" where
  "stkn_set_payload n payload s = s\<lparr>stkn_payload := (stkn_payload s)(n := payload OR stkn_using s n)\<rparr>"

definition stkn_get_payload :: "('o, 'z) stk_heap_scheme \<Rightarrow> ptr \<Rightarrow> u64" where
  "stkn_get_payload s n = stkn_payload s n AND - 4"

definition stkn_by_payload :: "ptr \<Rightarrow> u64 \<Rightarrow> ('o, 'z) stk_heap_scheme \<Rightarrow> ptr option" where
  "stkn_by_payload P payload s =
     (if stkp_frm_size s P = 0 then None
      else Some (stkp_node P ((payload - stkp_trunk s P) div stkp_frm_size s P)))"

definition stk_mprotect ::
  "'o stk_sys \<Rightarrow> ptr \<Rightarrow> u64 \<Rightarrow> u32 \<Rightarrow> ('o, 'z) stk_heap_scheme \<Rightarrow> int \<times> ('o, 'z) stk_heap_scheme" where
  "stk_mprotect sys p n prot s = (let (r, w) = sys_mprotect sys p n prot (stk_os s) in (r, s\<lparr>stk_os := w\<rparr>))"

section \<open>Setting up a pool\<close>

text \<open>
  How many frames fit.  The loop counts in the field \<open>_stk_frm_cnt\<close>, which nothing has set: the count
  starts at what the memory holds.
\<close>

partial_function (option) stkp_fit :: "ptr \<Rightarrow> ptr \<Rightarrow> u64 \<Rightarrow> u64 \<Rightarrow> u64 option" where
  "stkp_fit cur_ptr addr_end frm_size cnt =
     (if cur_ptr + cnt * 24 > addr_end - frm_size * cnt then Some (cnt - 1)
      else stkp_fit cur_ptr addr_end frm_size (cnt + 1))"

partial_function (option) stkp_frames ::
  "'o stk_sys \<Rightarrow> ptr \<Rightarrow> u64 \<Rightarrow> ('o, 'z) stk_heap_scheme \<Rightarrow> (ptr \<times> ('o, 'z) stk_heap_scheme) option" where
  "stkp_frames sys P i s =
     (if i < stkp_frm_cnt s P
      then do {
        (r, s) \<leftarrow> on_links (lst_clr (stkp_node P i)) s;
        let payload_ptr = stkp_trunk s P + i * stkp_frm_size s P;
        let s = s\<lparr>stkn_payload := (stkn_payload s)(stkp_node P i := payload_ptr + stkp_pg_size s P)\<rparr>;
        (r, s) \<leftarrow> on_links (lst_push_back (stkp_free_list P) (stkp_node P i)) s;
        let (rslt, s) = stk_mprotect sys payload_ptr (stkp_pg_size s P) PROT_READ s;
        if rslt < 0 then Some (0, s) else stkp_frames sys P (i + 1) s }
      else Some (P, s))"

definition stkp_init ::
  "'o stk_sys \<Rightarrow> ptr \<Rightarrow> u64 \<Rightarrow> u32 \<Rightarrow> ('o, 'z) stk_heap_scheme \<Rightarrow> (ptr \<times> ('o, 'z) stk_heap_scheme) option" where
  "stkp_init sys addr total_sz stk_frm s = do {
     let P = addr;
     let cur_ptr = move_ptr_align8 addr 88;
     let pg = sys_pagesize sys;
     let frm = round_up (pg + ucast stk_frm) pg;
     let s = s\<lparr>stkp_pg_size := (stkp_pg_size s)(P := pg),
               stkp_frm_size := (stkp_frm_size s)(P := frm),
               stkp_tag := (stkp_tag s)(P := STKP_TAG),
               stkp_addr_begin := (stkp_addr_begin s)(P := addr),
               stkp_addr_end := (stkp_addr_end s)(P := round_down (addr + total_sz) frm)\<rparr>;
     (r, s) \<leftarrow> on_links (lst_new (stkp_free_list P)) s;
     cnt \<leftarrow> stkp_fit cur_ptr (stkp_addr_end s P) frm (stkp_frm_cnt s P);
     let s = s\<lparr>stkp_frm_cnt := (stkp_frm_cnt s)(P := cnt)\<rparr>;
     if cnt = 0 then Some (0, s)
     else stkp_frames sys P 0 (s\<lparr>stkp_trunk := (stkp_trunk s)(P := stkp_addr_end s P - frm * cnt)\<rparr>) }"

text \<open>
  The alignment tests bind as \<open>addr & (7 != 0)\<close>: they look at the lowest bit.
\<close>

definition stkp_create ::
  "'o stk_sys \<Rightarrow> ptr \<Rightarrow> mm_config \<Rightarrow> ('o, 'z) stk_heap_scheme \<Rightarrow> (ptr \<times> ('o, 'z) stk_heap_scheme) option" where
  "stkp_create sys addr cfg s =
     (if addr = 0 \<or> addr AND 1 \<noteq> 0 then Some (0, s)
      else if ucast (stk_frm_size cfg) < MIN_STK_SIZE then Some (0, s)
      else do {
        (P, s) \<leftarrow> stkp_init sys addr (total_size cfg) (stk_frm_size cfg) s;
        Some (if P = 0 then 0 else stkp_handle P, s) })"

definition stkp_load :: "ptr \<Rightarrow> ('o, 'z) stk_heap_scheme \<Rightarrow> ptr" where
  "stkp_load addr s =
     (if addr = 0 \<or> addr AND 1 \<noteq> 0 then 0
      else if stkp_tag s addr \<noteq> STKP_TAG then 0 else stkp_handle addr)"

text \<open>The loop of \<open>stkp_destroy\<close> unprotects the guard page of the first frame once for each frame.\<close>

partial_function (option) stkp_unprotect ::
  "'o stk_sys \<Rightarrow> ptr \<Rightarrow> ptr \<Rightarrow> u64 \<Rightarrow> ('o, 'z) stk_heap_scheme \<Rightarrow> ('o, 'z) stk_heap_scheme option" where
  "stkp_unprotect sys P p i s =
     (if i < stkp_frm_cnt s P
      then let (rslt, s) = stk_mprotect sys p (stkp_pg_size s P) (PROT_READ OR PROT_WRITE) s
           in stkp_unprotect sys P p (i + 1) s
      else Some s)"

definition stkp_destroy :: "'o stk_sys \<Rightarrow> ptr \<Rightarrow> ('o, 'z) stk_heap_scheme \<Rightarrow> ('o, 'z) stk_heap_scheme option" where
  "stkp_destroy sys stkp s =
     (if stkp = 0 then Some s
      else do {
        let P = stkp_conv_impl stkp;
        s \<leftarrow> stkp_unprotect sys P (stkp_trunk s P) 0 s;
        Some (s\<lparr>stkp_tag := (stkp_tag s)(P := 0)\<rparr>) })"

section \<open>Frames\<close>

definition stkp_alloc :: "ptr \<Rightarrow> ('o, 'z) stk_heap_scheme \<Rightarrow> (ptr \<times> ('o, 'z) stk_heap_scheme) option" where
  "stkp_alloc stkp s =
     (if stkp = 0 then Some (0, s)
      else do {
        let P = stkp_conv_impl stkp;
        (dln, s) \<leftarrow> on_links (lst_pop_front (stkp_free_list P)) s;
        if dln = 0 then Some (0, s)
        else do {
          let nd = stkp_conv_dln dln;
          let s = stkn_set_using nd 1 s;
          Some (stkn_get_payload s nd, s) } })"

definition stkp_free :: "ptr \<Rightarrow> ptr \<Rightarrow> ('o, 'z) stk_heap_scheme \<Rightarrow> (int \<times> ('o, 'z) stk_heap_scheme) option" where
  "stkp_free stkp p s =
     (if stkp = 0 \<or> p = 0 then Some (-1, s)
      else let P = stkp_conv_impl stkp in
        if p AND (stkp_pg_size s P - 1) \<noteq> 0 then Some (-1, s)
        else let p = p - stkp_pg_size s P in
          if p < stkp_trunk s P then Some (-1, s)
          else if stkp_frm_size s P = 0 then None
          else let idx = (p - stkp_trunk s P) div stkp_frm_size s P in
            if \<not> idx < stkp_frm_cnt s P then None
            else if stkn_using s (stkp_node P idx) = 0 then Some (-1, s)
            else do {
              let s = stkn_set_using (stkp_node P idx) 0 s;
              (r, s) \<leftarrow> on_links (lst_push_front (stkp_free_list P) (stkp_node P idx)) s;
              Some (0, s) })"

definition stkp_ops :: "'o stk_sys \<Rightarrow> 'o stk_heap mm_ops" where
  "stkp_ops sys =
     \<lparr>create_func = stkp_create sys,
      load_func = (\<lambda>addr s. Some (stkp_load addr s, s)),
      destroy_func = stkp_destroy sys,
      alloc_func = (\<lambda>alloc n. stkp_alloc alloc),
      free_func = stkp_free,
      counts_func = None\<rparr>"

end
