(* ===== verification/Stkpool_Spec.thy ===== *)
theory Stkpool_Spec
  imports Stkpool
begin

text \<open>
  The pool of stack frames as what it promises: a queue of free frames, of which \<open>stkp_alloc\<close> hands
  out the first and to whose front \<open>stkp_free\<close> returns one.
\<close>

section \<open>The invariant\<close>

text \<open>
  \<open>stk_frame s P i\<close> is the usable part of frame \<open>i\<close>, behind its guard page.  \<open>stk_ok s P is\<close>: the
  frames \<open>is\<close> are free, in this order, the others are in use.
\<close>

abbreviation stk_node :: "ptr \<Rightarrow> nat \<Rightarrow> ptr" where
  "stk_node P i \<equiv> stkp_node P (of_nat i)"

definition stk_frame :: "('o, 'z) stk_heap_scheme \<Rightarrow> ptr \<Rightarrow> nat \<Rightarrow> ptr" where
  "stk_frame s P i = stkp_trunk s P + of_nat i * stkp_frm_size s P + stkp_pg_size s P"

definition stk_geom :: "('o, 'z) stk_heap_scheme \<Rightarrow> ptr \<Rightarrow> bool" where
  "stk_geom s P \<longleftrightarrow> P \<noteq> 0 \<and> P + 8 \<noteq> 0 \<and>
     (\<exists>k. 2 \<le> k \<and> k < 64 \<and> stkp_pg_size s P = 2 ^ k \<and> 2 ^ k dvd uint (stkp_trunk s P)
        \<and> 2 ^ k dvd uint (stkp_frm_size s P) \<and> 2 ^ k \<le> uint (stkp_frm_size s P)) \<and>
     uint P + 88 + 24 * uint (stkp_frm_cnt s P) \<le> uint (stkp_trunk s P) \<and>
     uint (stkp_trunk s P) + uint (stkp_frm_cnt s P) * uint (stkp_frm_size s P) < 2 ^ 64"

definition stk_ok :: "('o, 'z) stk_heap_scheme \<Rightarrow> ptr \<Rightarrow> nat list \<Rightarrow> bool" where
  "stk_ok s P is \<longleftrightarrow> stk_geom s P \<and> dl_list (links s) (stkp_free_list P) (map (stk_node P) is) \<and>
     set is \<subseteq> {..< unat (stkp_frm_cnt s P)} \<and>
     (\<forall>i < unat (stkp_frm_cnt s P).
        stkn_payload s (stk_node P i) = stk_frame s P i OR (if i \<in> set is then 0 else 1))"

section \<open>Where nodes and frames lie\<close>

lemma uint_stk_node:
  assumes "uint P + 88 + 24 * int n < 2 ^ 64" and "i \<le> n"
  shows "uint (stk_node P i) = uint P + 88 + 24 * int i"
proof -
  have "stk_node P i = of_int (uint P + 88 + 24 * int i)" by (simp add: stkp_node_def)
  then show ?thesis using assms by (simp only:) (rule uint_of_int_u64, simp_all)
qed

lemma stk_geom_node:
  assumes "stk_geom s P" and "i < unat (stkp_frm_cnt s P)"
  shows "uint (stk_node P i) = uint P + 88 + 24 * int i"
proof (rule uint_stk_node)
  have "uint (stkp_trunk s P) < 2 ^ 64" using uint_lt2p [of "stkp_trunk s P"] by simp
  then show "uint P + 88 + 24 * int (unat (stkp_frm_cnt s P)) < 2 ^ 64"
    using assms(1) by (simp add: stk_geom_def)
qed (use assms(2) in simp)

lemma stk_node_inj:
  "stk_geom s P \<Longrightarrow> i < unat (stkp_frm_cnt s P) \<Longrightarrow> j < unat (stkp_frm_cnt s P) \<Longrightarrow>
   stk_node P i = stk_node P j \<longleftrightarrow> i = j"
  using stk_geom_node [of s P i] stk_geom_node [of s P j] by (metis add_left_cancel mult_cancel_left of_nat_eq_iff zero_neq_numeral)

lemma stk_node_fresh:
  assumes g: "stk_geom s P" and i: "i < unat (stkp_frm_cnt s P)" "set is \<subseteq> {..< unat (stkp_frm_cnt s P)}" "i \<notin> set is"
  shows "stk_node P i \<noteq> 0" and "stk_node P i \<notin> set (dl_nodes (stkp_free_list P) (map (stk_node P) is))"
proof -
  have n: "uint (stk_node P i) = uint P + 88 + 24 * int i" by (rule stk_geom_node [OF g i(1)])
  have P: "0 \<le> uint P" by simp
  with n show "stk_node P i \<noteq> 0" by fastforce
  have "uint (stkp_trunk s P) < 2 ^ 64" using uint_lt2p [of "stkp_trunk s P"] by simp
  moreover have "uint P + 88 + 24 * uint (stkp_frm_cnt s P) \<le> uint (stkp_trunk s P)" using g by (simp add: stk_geom_def)
  ultimately have b: "uint P + 88 < 2 ^ 64" using uint_ge_0 [of "stkp_frm_cnt s P"] by linarith
  have o: "uint (P + c) = uint P + uint c" if "uint c < 88" for c
    using b that by (subst uint_plus_if') auto
  have "stk_node P i \<noteq> P + 24" "stk_node P i \<noteq> P + 40"
    using n o [of 24] o [of 40] by auto
  moreover have "stk_node P i \<noteq> stk_node P j" if "j \<in> set is" for j
    using stk_node_inj [OF g i(1), of j] that i(2,3) by auto
  ultimately show "stk_node P i \<notin> set (dl_nodes (stkp_free_list P) (map (stk_node P) is))"
    by (auto simp: dl_nodes_def add.assoc)
qed

lemma uint_stk_frame:
  assumes g: "stk_geom s P" and i: "i < unat (stkp_frm_cnt s P)"
  shows "uint (stk_frame s P i) = uint (stkp_trunk s P) + int i * uint (stkp_frm_size s P) + uint (stkp_pg_size s P)"
    and "int i * uint (stkp_frm_size s P) + uint (stkp_frm_size s P) \<le> uint (stkp_frm_cnt s P) * uint (stkp_frm_size s P)"
    and "uint (stkp_pg_size s P) \<le> uint (stkp_frm_size s P)"
proof -
  let ?f = "uint (stkp_frm_size s P)" and ?T = "uint (stkp_trunk s P)" and ?p = "uint (stkp_pg_size s P)"
  obtain k where "k < 64" "stkp_pg_size s P = 2 ^ k" "2 ^ k \<le> ?f" using g unfolding stk_geom_def by blast
  then show p: "?p \<le> ?f" by (simp add: uint_power_u64)
  have "int i + 1 \<le> uint (stkp_frm_cnt s P)" unfolding uint_nat using i by linarith
  then have "(int i + 1) * ?f \<le> uint (stkp_frm_cnt s P) * ?f" by (rule mult_right_mono) simp
  then show m: "int i * ?f + ?f \<le> uint (stkp_frm_cnt s P) * ?f" by (simp add: algebra_simps)
  have "?T + uint (stkp_frm_cnt s P) * ?f < 2 ^ 64" using g by (simp add: stk_geom_def)
  then have "?T + int i * ?f + ?p < 2 ^ 64" using m p by linarith
  moreover have "stk_frame s P i = of_int (?T + int i * ?f + ?p)" by (simp add: stk_frame_def)
  ultimately show "uint (stk_frame s P i) = ?T + int i * ?f + ?p"
    by (simp only:) (rule uint_of_int_u64, simp_all)
qed

lemma stk_frame_aligned:
  assumes g: "stk_geom s P" and i: "i < unat (stkp_frm_cnt s P)"
  shows "stk_frame s P i AND (stkp_pg_size s P - 1) = 0" and "stk_frame s P i AND 3 = 0" and "stk_frame s P i \<noteq> 0"
proof -
  obtain k where k: "2 \<le> k" "k < 64" "stkp_pg_size s P = 2 ^ k" "2 ^ k dvd uint (stkp_trunk s P)"
    "2 ^ k dvd uint (stkp_frm_size s P)" using g unfolding stk_geom_def by blast
  have u: "uint (stk_frame s P i) = uint (stkp_trunk s P) + int i * uint (stkp_frm_size s P) + 2 ^ k"
    using uint_stk_frame(1) [OF g i] k(2,3) by (simp add: uint_power_u64)
  have d: "2 ^ k dvd uint (stk_frame s P i)" unfolding u by (intro dvd_add dvd_mult dvd_refl k(4,5))
  show "stk_frame s P i AND (stkp_pg_size s P - 1) = 0"
    using d and_mask_dvd [of k "stk_frame s P i"] by (simp add: k(3) power_minus_1_mask)
  show "stk_frame s P i AND 3 = 0" by (rule low_bits_of_page [OF k(1) d])
  have "0 < uint (stk_frame s P i)" unfolding u by (simp add: add_nonneg_pos)
  then show "stk_frame s P i \<noteq> 0" by auto
qed

text \<open>The address a frame was handed out at gives its index back.\<close>

lemma stk_frame_index:
  assumes g: "stk_geom s P" and i: "i < unat (stkp_frm_cnt s P)"
  shows "\<not> stk_frame s P i - stkp_pg_size s P < stkp_trunk s P" and "stkp_frm_size s P \<noteq> 0"
    and "(stk_frame s P i - stkp_pg_size s P - stkp_trunk s P) div stkp_frm_size s P = of_nat i"
proof -
  let ?f = "uint (stkp_frm_size s P)" and ?T = "uint (stkp_trunk s P)"
  obtain k where "2 ^ k \<le> ?f" using g unfolding stk_geom_def by blast
  then have f: "0 < ?f" by (rule less_le_trans [OF zero_less_power, rotated]) simp
  then show "stkp_frm_size s P \<noteq> 0" by auto
  have "uint (stk_frame s P i) < 2 ^ 64" using uint_lt2p [of "stk_frame s P i"] by simp
  moreover have "?T + int i * ?f \<le> uint (stk_frame s P i)" by (simp add: uint_stk_frame(1) [OF g i])
  ultimately have b: "?T + int i * ?f < 2 ^ 64" by (rule le_less_trans [rotated])
  have "stk_frame s P i - stkp_pg_size s P = of_int (?T + int i * ?f)" by (simp add: stk_frame_def)
  then have "uint (stk_frame s P i - stkp_pg_size s P) = ?T + int i * ?f"
    using b by (simp only:) (rule uint_of_int_u64, simp_all)
  then show "\<not> stk_frame s P i - stkp_pg_size s P < stkp_trunk s P" by (simp add: word_less_def linorder_not_less)
  have e: "stk_frame s P i - stkp_pg_size s P - stkp_trunk s P = of_int (int i * ?f)" by (simp add: stk_frame_def)
  have n: "int i * ?f < 2 ^ 64" using b uint_ge_0 [of "stkp_trunk s P"] by linarith
  have "uint (of_int (int i * ?f) :: u64) = int i * ?f" by (rule uint_of_int_u64 [OF _ n]) simp
  then have "uint ((of_int (int i * ?f) :: u64) div stkp_frm_size s P) = int i"
    using f by (simp add: uint_div)
  moreover have "uint (of_nat i :: u64) = int i"
    using uint_of_int_u64 [of "int i"] n f mult_left_mono [of 1 ?f "int i"] by simp
  ultimately show "(stk_frame s P i - stkp_pg_size s P - stkp_trunk s P) div stkp_frm_size s P = of_nat i"
    unfolding e by (simp only: word_uint_eq_iff)
qed


section \<open>Frames are handed out and returned\<close>

lemma stk_links [simp]:
  "stk_frame (s\<lparr>links := h\<rparr>) P i = stk_frame s P i" "stk_geom (s\<lparr>links := h\<rparr>) P = stk_geom s P"
  "stk_frame (stkn_set_using n v s) P i = stk_frame s P i" "stk_geom (stkn_set_using n v s) P = stk_geom s P"
  "links (stkn_set_using n v s) = links s" "stkp_frm_cnt (stkn_set_using n v s) = stkp_frm_cnt s"
  by (simp_all add: stk_frame_def stk_geom_def stkn_set_using_def)

lemma stkn_using_frame:
  assumes "x AND 3 = 0" and "stkn_payload s n = x OR (v AND 3)"
  shows "stkn_using s n = v AND 3" and "stkn_get_payload (stkn_set_using n w s) n = x"
    and "stkn_payload (stkn_set_using n w s) = (stkn_payload s)(n := x OR (w AND 3))"
  using low_bits(2,3) [OF assms(1)]
  by (simp_all add: stkn_using_def stkn_get_payload_def stkn_set_using_def assms(2))

lemma stk_ok_payload:
  assumes "stk_ok s P is" and "i < unat (stkp_frm_cnt s P)"
  shows "stkn_payload s (stk_node P i) = stk_frame s P i OR ((if i \<in> set is then 0 else 1) AND 3)"
  using assms by (simp add: stk_ok_def)

lemma stk_ok_distinct: "stk_ok s P is \<Longrightarrow> distinct is"
  using dl_listD(3) [of "links s" "stkp_free_list P" "map (stk_node P) is"] by (simp add: stk_ok_def distinct_map)

lemma stkp_alloc_ok:
  assumes ok: "stk_ok s P (i # is)"
  shows "\<exists>s'. stkp_alloc (P + 8) s = Some (stk_frame s P i, s') \<and> stk_ok s' P is
    \<and> (\<forall>j. stk_frame s' P j = stk_frame s P j) \<and> stkp_frm_cnt s' = stkp_frm_cnt s"
proof -
  have P: "P + 8 \<noteq> 0" and g: "stk_geom s P" using ok by (simp_all add: stk_ok_def stk_geom_def)
  have l: "dl_list (links s) (stkp_free_list P) (stk_node P i # map (stk_node P) is)"
    and i: "i < unat (stkp_frm_cnt s P)" and r: "set is \<subseteq> {..< unat (stkp_frm_cnt s P)}"
    using ok by (simp_all add: stk_ok_def)
  have d: "i \<notin> set is" using stk_ok_distinct [OF ok] by simp
  obtain h where h: "lst_pop_front (stkp_free_list P) (links s) = Some (stk_node P i, h)"
    "dl_list h (stkp_free_list P) (map (stk_node P) is)"
    using lst_pop_front_ok [OF l] by blast
  let ?s = "stkn_set_using (stk_node P i) 1 (s\<lparr>links := h\<rparr>)"
  have al: "stk_frame s P i AND 3 = 0" by (rule stk_frame_aligned(2) [OF g i])
  have pay: "stkn_payload (s\<lparr>links := h\<rparr>) (stk_node P i) = stk_frame s P i OR (0 AND 3)"
    using stk_ok_payload [OF ok i] by simp
  note u = stkn_using_frame [OF al pay]
  have n0: "stk_node P i \<noteq> 0" by (rule stk_node_fresh(1) [OF g i r d])
  have "stkp_alloc (P + 8) s = Some (stk_frame s P i, ?s)"
    using P n0 u(2) h(1) by (simp add: stkp_alloc_def)
  moreover have "stkn_payload ?s (stk_node P j) = stk_frame s P j OR (if j \<in> set is then 0 else 1)"
    if j: "j < unat (stkp_frm_cnt s P)" for j
    using stk_ok_payload [OF ok j] stk_node_inj [OF g j i] d by (auto simp: u(3))
  then have "stk_ok ?s P is" using h(2) g r by (simp add: stk_ok_def)
  ultimately show ?thesis by auto
qed

lemma stkp_free_ok:
  assumes ok: "stk_ok s P is" and i: "i < unat (stkp_frm_cnt s P)" and u: "i \<notin> set is"
  shows "\<exists>s'. stkp_free (P + 8) (stk_frame s P i) s = Some (0, s') \<and> stk_ok s' P (i # is)
    \<and> (\<forall>j. stk_frame s' P j = stk_frame s P j)"
proof -
  have P: "P + 8 \<noteq> 0" and g: "stk_geom s P" using ok by (simp_all add: stk_ok_def stk_geom_def)
  have l: "dl_list (links s) (stkp_free_list P) (map (stk_node P) is)"
    and r: "set is \<subseteq> {..< unat (stkp_frm_cnt s P)}"
    using ok by (simp_all add: stk_ok_def)
  obtain h where h: "lst_push_front (stkp_free_list P) (stk_node P i) (links s) = Some (0, h)"
    "dl_list h (stkp_free_list P) (stk_node P i # map (stk_node P) is)"
    using lst_push_front_ok [OF l _ _] stk_node_fresh [OF g i r u] by blast
  let ?s = "(stkn_set_using (stk_node P i) 0 s)\<lparr>links := h\<rparr>"
  have al: "stk_frame s P i AND 3 = 0" by (rule stk_frame_aligned(2) [OF g i])
  have pay: "stkn_payload s (stk_node P i) = stk_frame s P i OR (1 AND 3)"
    using stk_ok_payload [OF ok i] u by simp
  note f = stkn_using_frame [OF al pay]
  note x = stk_frame_index [OF g i]
  have c: "of_nat i < stkp_frm_cnt s P" by (rule word_of_nat_less [OF i])
  have "stkp_free (P + 8) (stk_frame s P i) s = Some (0, ?s)"
    using P x stk_frame_aligned(1,3) [OF g i] c f(1) h(1) by (simp add: stkp_free_def Let_def)
  moreover have "stkn_payload ?s (stk_node P j) = stk_frame s P j OR (if j \<in> set (i # is) then 0 else 1)"
    if j: "j < unat (stkp_frm_cnt s P)" for j
    using stk_ok_payload [OF ok j] stk_node_inj [OF g j i] by (auto simp: f(3))
  then have "stk_ok ?s P (i # is)" using h(2) g r i by (simp add: stk_ok_def)
  ultimately show ?thesis by auto
qed

lemma stkp_alloc_empty: "stk_ok s P [] \<Longrightarrow> stkp_alloc (P + 8) s = Some (0, s)"
  using lst_pop_empty(1) [of "links s" "stkp_free_list P"]
  by (simp add: stkp_alloc_def stk_ok_def stk_geom_def)

lemma stkp_free_twice:
  assumes ok: "stk_ok s P is" and i: "i \<in> set is"
  shows "stkp_free (P + 8) (stk_frame s P i) s = Some (-1, s)"
proof -
  have P: "P + 8 \<noteq> 0" and g: "stk_geom s P" using ok by (simp_all add: stk_ok_def stk_geom_def)
  have n: "i < unat (stkp_frm_cnt s P)" using ok i by (auto simp: stk_ok_def)
  have al: "stk_frame s P i AND 3 = 0" by (rule stk_frame_aligned(2) [OF g n])
  have "stkn_using s (stk_node P i) = 0"
    using stkn_using_frame(1) [OF al stk_ok_payload [OF ok n]] i by simp
  moreover have "of_nat i < stkp_frm_cnt s P" by (rule word_of_nat_less [OF n])
  ultimately show ?thesis
    using P stk_frame_index [OF g n] stk_frame_aligned(1,3) [OF g n] by (simp add: stkp_free_def Let_def)
qed

section \<open>Setting up\<close>

lemma stkp_fit_ok:
  fixes n :: nat and cur e f :: u64
  assumes lo: "uint cur + 24 * int n + uint f * int n \<le> uint e"
    and hi: "uint e < uint cur + 24 * int (n + 1) + uint f * int (n + 1)"
    and n: "1 \<le> n" and f: "24 \<le> uint f" "uint f \<le> uint cur"
  shows "c \<le> n + 1 \<Longrightarrow> stkp_fit cur e f (of_nat c) = Some (of_nat n)"
proof (induction "n + 1 - c" arbitrary: c)
  have e: "uint e < 2 ^ 64" using uint_lt2p [of e] by simp
  have fn: "uint f * 1 \<le> uint f * int n" using n f(1) by (intro mult_left_mono) simp_all
  have m: "uint f * int c \<le> uint f * int n + uint f" if "c \<le> n + 1" for c
  proof -
    have "uint f * int c \<le> uint f * (int n + 1)" using that by (intro mult_left_mono) simp_all
    then show ?thesis by (simp add: algebra_simps)
  qed
  have a: "uint (cur + of_nat c * 24) = uint cur + 24 * int c" if "c \<le> n + 1" for c
  proof -
    have "uint cur + 24 * int c < 2 ^ 64" using that lo fn f e by linarith
    moreover have "cur + of_nat c * 24 = of_int (uint cur + 24 * int c)" by simp
    ultimately show ?thesis by (simp only:) (rule uint_of_int_u64, simp_all)
  qed
  have b: "uint (e - f * of_nat c) = uint e - uint f * int c" if "c \<le> n + 1" for c
  proof -
    have "0 \<le> uint e - uint f * int c" using m [OF that] lo f by linarith
    moreover have "0 \<le> uint f * int c" by simp
    then have "uint e - uint f * int c < 2 ^ 64" using e by linarith
    moreover have "e - f * of_nat c = of_int (uint e - uint f * int c)" by simp
    ultimately show ?thesis by (simp only:) (rule uint_of_int_u64, simp_all)
  qed
  { case 0
    then have c: "c = n + 1" by simp
    have "e - f * of_nat c < cur + of_nat c * 24"
      unfolding word_less_def using a [of c] b [of c] hi by (simp add: c algebra_simps)
    then show ?case by (subst stkp_fit.simps) (simp add: c)
  next
    case (Suc d)
    then have c: "c \<le> n" by simp
    have "uint f * int c \<le> uint f * int n" using c by (intro mult_left_mono) simp_all
    then have "uint cur + 24 * int c \<le> uint e - uint f * int c" using lo c by linarith
    then have "\<not> e - f * of_nat c < cur + of_nat c * 24"
      unfolding word_less_def using a [of c] b [of c] c by simp
    then show ?case using Suc.hyps(1) [of "c + 1"] Suc.hyps(2) c
      by (subst stkp_fit.simps) (simp add: add.commute) }
qed

definition stk_same :: "('o, 'z) stk_heap_scheme \<Rightarrow> ('o, 'z) stk_heap_scheme \<Rightarrow> bool" where
  "stk_same s s' \<longleftrightarrow> stkp_trunk s' = stkp_trunk s \<and> stkp_frm_size s' = stkp_frm_size s \<and>
     stkp_frm_cnt s' = stkp_frm_cnt s \<and> stkp_pg_size s' = stkp_pg_size s \<and>
     stkp_addr_end s' = stkp_addr_end s \<and> stkp_tag s' = stkp_tag s"

lemma stk_sameD:
  "stk_same s s' \<Longrightarrow> stk_geom s' P = stk_geom s P" "stk_same s s' \<Longrightarrow> stk_frame s' P i = stk_frame s P i"
  by (simp_all add: stk_same_def stk_geom_def stk_frame_def)

lemma stk_same_trans: "stk_same s s' \<Longrightarrow> stk_same s' s'' \<Longrightarrow> stk_same s s''"
  by (simp add: stk_same_def)

lemma lst_clr_ok: "x \<noteq> 0 \<Longrightarrow> \<exists>h'. lst_clr x h = Some (0, h') \<and> dl_same (- {x}) h h'"
  by (auto simp: lst_clr_def mem_defs dl_same_def)

text \<open>One round of the loop appends the next frame to the list.\<close>

lemma stkp_frames_run:
  assumes "i < stkp_frm_cnt s P" and "on_links (lst_clr (stkp_node P i)) s = Some (r1, s1)"
    and "p = stkp_trunk s1 P + i * stkp_frm_size s1 P"
    and "s2 = s1\<lparr>stkn_payload := (stkn_payload s1)(stkp_node P i := p + stkp_pg_size s1 P)\<rparr>"
    and "on_links (lst_push_back (stkp_free_list P) (stkp_node P i)) s2 = Some (r2, s3)"
    and "stk_mprotect sys p (stkp_pg_size s3 P) PROT_READ s3 = (rslt, s4)" and "\<not> rslt < 0"
  shows "stkp_frames sys P i s = stkp_frames sys P (i + 1) s4"
  unfolding stkp_frames.simps [of sys P i s]
  using assms(1,5-7) by (simp add: assms(2) assms(3,4) [symmetric])

lemma stkp_frames_step:
  assumes mp: "\<And>p n w. 0 \<le> fst (sys_mprotect sys p n PROT_READ w)"
    and g: "stk_geom s P" and i: "i < unat (stkp_frm_cnt s P)"
    and l: "dl_list (links s) (stkp_free_list P) (map (stk_node P) [0..<i])"
    and p: "\<forall>j < i. stkn_payload s (stk_node P j) = stk_frame s P j"
  shows "\<exists>s'. stkp_frames sys P (of_nat i) s = stkp_frames sys P (of_nat (Suc i)) s' \<and> stk_same s s' \<and>
    dl_list (links s') (stkp_free_list P) (map (stk_node P) [0..<Suc i]) \<and>
    (\<forall>j < Suc i. stkn_payload s' (stk_node P j) = stk_frame s' P j)"
proof -
  let ?n = "stk_node P i" and ?L = "map (stk_node P) [0..<i]"
  have fr: "?n \<noteq> 0" "?n \<notin> set (dl_nodes (stkp_free_list P) ?L)"
    using stk_node_fresh [OF g i, of "[0..<i]"] i by (auto simp: subset_iff)
  obtain h where h: "lst_clr ?n (links s) = Some (0, h)" "dl_same (- {?n}) (links s) h"
    using lst_clr_ok [OF fr(1)] by blast
  have "dl_list h (stkp_free_list P) ?L"
    using l dl_list_same [OF dl_same_subset [OF h(2)], of "stkp_free_list P" ?L] fr(2) by auto
  then obtain h2 where h2: "lst_push_back (stkp_free_list P) ?n h = Some (0, h2)"
    "dl_list h2 (stkp_free_list P) (?L @ [?n])"
    using lst_push_back_ok [of h "stkp_free_list P" ?L ?n] fr by blast
  define ptr where "ptr = stkp_trunk s P + of_nat i * stkp_frm_size s P"
  define w where "w = sys_mprotect sys ptr (stkp_pg_size s P) PROT_READ (stk_os s)"
  define s' where "s' = s\<lparr>links := h2, stkn_payload := (stkn_payload s)(?n := ptr + stkp_pg_size s P), stk_os := snd w\<rparr>"
  have lt: "of_nat i < stkp_frm_cnt s P" by (rule word_of_nat_less [OF i])
  have w: "\<not> fst w < 0" using mp [of ptr "stkp_pg_size s P" "stk_os s"] by (simp add: w_def)
  define s2 where "s2 = s\<lparr>links := h, stkn_payload := (stkn_payload s)(?n := ptr + stkp_pg_size s P)\<rparr>"
  have e1: "on_links (lst_clr ?n) s = Some (0, s\<lparr>links := h\<rparr>)" using h(1) by simp
  have e2: "on_links (lst_push_back (stkp_free_list P) ?n) s2 = Some (0, s2\<lparr>links := h2\<rparr>)"
    using h2(1) by (simp add: s2_def)
  have e3: "stk_mprotect sys ptr (stkp_pg_size (s2\<lparr>links := h2\<rparr>) P) PROT_READ (s2\<lparr>links := h2\<rparr>) = (fst w, s')"
    by (simp add: stk_mprotect_def w_def s2_def s'_def split_beta)
  have "stkp_frames sys P (of_nat i) s = stkp_frames sys P (of_nat i + 1) s'"
    by (rule stkp_frames_run [OF lt e1 _ _ e2 e3 w]) (simp_all add: ptr_def s2_def)
  then have "stkp_frames sys P (of_nat i) s = stkp_frames sys P (of_nat (Suc i)) s'" by (simp add: add.commute)
  moreover have same: "stk_same s s'" by (simp add: stk_same_def s'_def)
  moreover have "stkn_payload s' (stk_node P j) = stk_frame s' P j" if "j < Suc i" for j
    using that p stk_node_inj [OF g, of j i] i stk_sameD(2) [OF same, of P j]
    by (auto simp: s'_def ptr_def stk_frame_def less_Suc_eq)
  ultimately show ?thesis using h2(2) by (auto simp: s'_def)
qed

lemma stkp_frames_ok:
  assumes mp: "\<And>p n w. 0 \<le> fst (sys_mprotect sys p n PROT_READ w)"
  shows "stk_geom s P \<Longrightarrow> i \<le> unat (stkp_frm_cnt s P) \<Longrightarrow>
    dl_list (links s) (stkp_free_list P) (map (stk_node P) [0..<i]) \<Longrightarrow>
    \<forall>j < i. stkn_payload s (stk_node P j) = stk_frame s P j \<Longrightarrow>
    \<exists>s'. stkp_frames sys P (of_nat i) s = Some (P, s') \<and> stk_same s s' \<and> stk_ok s' P [0..<unat (stkp_frm_cnt s P)]"
proof (induction "unat (stkp_frm_cnt s P) - i" arbitrary: i s)
  case 0
  then have i: "i = unat (stkp_frm_cnt s P)" by simp
  then have "stkp_frames sys P (of_nat i) s = Some (P, s)" by (subst stkp_frames.simps) simp
  moreover have "stk_ok s P [0..<i]" using 0(2,4,5) i by (simp add: stk_ok_def atLeast0LessThan)
  moreover have "stk_same s s" by (simp add: stk_same_def)
  ultimately show ?case using i by blast
next
  case (Suc d)
  then have i: "i < unat (stkp_frm_cnt s P)" by simp
  obtain s1 where s1: "stkp_frames sys P (of_nat i) s = stkp_frames sys P (of_nat (Suc i)) s1" "stk_same s s1"
    "dl_list (links s1) (stkp_free_list P) (map (stk_node P) [0..<Suc i])"
    "\<forall>j < Suc i. stkn_payload s1 (stk_node P j) = stk_frame s1 P j"
    using stkp_frames_step [OF mp Suc.prems(1) i Suc.prems(3,4)] by blast
  have c: "stkp_frm_cnt s1 = stkp_frm_cnt s" using s1(2) by (simp add: stk_same_def)
  have "\<exists>s'. stkp_frames sys P (of_nat (Suc i)) s1 = Some (P, s') \<and> stk_same s1 s' \<and>
      stk_ok s' P [0..<unat (stkp_frm_cnt s1 P)]"
    by (rule Suc.hyps(1)) (use Suc.hyps(2) Suc.prems(1) i c s1 stk_sameD(1) [OF s1(2)] in simp_all)
  then show ?case using s1(1,2) stk_same_trans c by metis
qed

text \<open>A size of whole pages keeps the page boundary, also where it is no power of two.\<close>

lemma round_down_pages:
  assumes "2 ^ k dvd uint f" and "k < 64"
  shows "2 ^ k dvd uint (round_down x f)"
proof -
  have "take_bit k (uint f) = 0" using assms(1) by (simp add: take_bit_eq_mod mod_eq_0_iff_dvd)
  then have t: "take_bit k (uint f - 1) = mask k"
    using take_bit_diff [of k "uint f" 1] take_bit_diff [of k 0 1] by (simp add: take_bit_minus_one_eq_mask)
  have f: "f - 1 = word_of_int (uint f - 1)" by simp
  have "bit (f - 1) i" if "i < k" "i < 64" for i
  proof -
    have "bit (take_bit k (uint f - 1)) i" unfolding t using that by (simp add: bit_mask_iff)
    then show ?thesis unfolding f using that by (simp add: bit_word_of_int_iff bit_take_bit_iff del: of_int_diff of_int_uint)
  qed
  then have "round_down x f AND mask k = 0"
    by (intro bit_eqI) (auto simp: round_down_def bit_and_iff bit_not_iff bit_mask_iff)
  then show ?thesis by (simp add: and_mask_dvd)
qed

lemma stkp_init_run:
  assumes "P \<noteq> 0" "tail_of (stkp_free_list P) \<noteq> 0" "stkp_free_list P \<noteq> 0"
    and "round_up (sys_pagesize sys + ucast fs) (sys_pagesize sys) = f" and "round_down (P + total_sz) f = e"
    and "stkp_fit (move_ptr_align8 P 88) e f (stkp_frm_cnt s P) = Some n" and "n \<noteq> 0"
  shows "\<exists>s1. stkp_init sys P total_sz fs s = stkp_frames sys P 0 s1 \<and> stkp_pg_size s1 P = sys_pagesize sys \<and>
    stkp_frm_size s1 P = f \<and> stkp_frm_cnt s1 P = n \<and> stkp_trunk s1 P = e - f * n \<and>
    stkp_addr_end s1 P = e \<and> stkp_tag s1 P = STKP_TAG \<and> dl_list (links s1) (stkp_free_list P) []"
proof -
  obtain h where h: "lst_new (stkp_free_list P) (links s) = Some (0, h)" "dl_list h (stkp_free_list P) []"
    using lst_new_ok [of "stkp_free_list P" "links s"] assms(2,3) by blast
  show ?thesis using assms(1,5-7) h by (simp add: stkp_init_def assms(4)) (intro exI conjI, rule refl, simp_all)
qed

lemma stkp_create_ok:
  assumes mp: "\<And>p n w. 0 \<le> fst (sys_mprotect sys p n PROT_READ w)"
    and pg: "sys_pagesize sys = 2 ^ k" "2 \<le> k" "k \<le> 32"
    and P: "P \<noteq> 0" "P AND 7 = 0" and fs: "MIN_STK_SIZE \<le> ucast (stk_frm_size cfg)"
    and cnt: "stkp_frm_cnt s P = 0"
  defines "f \<equiv> round_up (2 ^ k + ucast (stk_frm_size cfg)) (2 ^ k)"
  defines "e \<equiv> round_down (P + total_size cfg) f"
  defines "n \<equiv> nat ((uint e - uint P - 88) div (24 + uint f))"
  assumes room: "uint f \<le> uint P" "uint P + 112 + uint f \<le> uint e"
  shows "\<exists>s'. stkp_create sys P cfg s = Some (P + 8, s') \<and> stk_ok s' P [0..<n] \<and>
    unat (stkp_frm_cnt s' P) = n \<and> 1 \<le> n \<and> stkp_frm_size s' P = f \<and> stkp_pg_size s' P = 2 ^ k \<and>
    uint (stkp_trunk s' P) + int n * uint f = uint e"
proof -
  have k: "k < 64" using pg(3) by simp
  have e: "uint e < 2 ^ 64" using uint_lt2p [of e] by simp
  have v: "uint (2 ^ k + ucast (stk_frm_size cfg) :: u64) = 2 ^ k + uint (stk_frm_size cfg)"
  proof -
    have "uint (stk_frm_size cfg) < 2 ^ 32" using uint_lt2p [of "stk_frm_size cfg"] by simp
    moreover have "(2 :: int) ^ k \<le> 2 ^ 32" using pg(3) by (rule power_increasing) simp
    ultimately have "2 ^ k + uint (stk_frm_size cfg) < 2 ^ 64" by simp
    moreover have "(2 ^ k + ucast (stk_frm_size cfg) :: u64) = of_int (2 ^ k + uint (stk_frm_size cfg))" by simp
    ultimately show ?thesis by (simp only:) (rule uint_of_int_u64, simp_all)
  qed
  have k32: "(2 :: int) ^ k \<le> 2 ^ 32" using pg(3) by (rule power_increasing) simp
  have fs32: "uint (stk_frm_size cfg) < 2 ^ 32" using uint_lt2p [of "stk_frm_size cfg"] by simp
  have f: "2 ^ k dvd uint f" "2 ^ k + uint (stk_frm_size cfg) \<le> uint f"
    using round_up_uint(1,2) [OF k, of "2 ^ k + ucast (stk_frm_size cfg)"] k32 fs32 by (simp_all add: v f_def)
  have "uint (0x2000 :: u64) \<le> uint (ucast (stk_frm_size cfg) :: u64)"
    using fs by (simp add: MIN_STK_SIZE_def word_le_def)
  then have mn: "0x2000 \<le> uint (stk_frm_size cfg)" by (simp add: uint_up_ucast is_up)
  have "0 \<le> (2 :: int) ^ k" by simp
  then have f24: "24 \<le> uint f" using f(2) mn by linarith
  have Pd: "2 ^ 3 dvd uint P" using P(2) and_mask_dvd [of 3 P] by (simp add: mask_eq_exp_minus_1)
  have P1: "P AND 1 = 0"
  proof -
    have "P AND 1 = (P AND 7) AND 1" by (simp add: and.assoc)
    then show ?thesis using P(2) by simp
  qed
  have P88: "uint (P + 88) = uint P + 88"
    using room(2) e f24 by (subst uint_plus_if') auto
  have cur: "move_ptr_align8 P 88 = P + 88"
  proof -
    have "move_ptr_align8 P 88 = round_up (P + 88) (2 ^ 3)"
      by (simp add: move_ptr_align8_def round_up_def add.commute)
    moreover have "2 ^ 3 dvd uint (P + 88)" unfolding P88 by (rule dvd_add [OF Pd]) simp
    ultimately show ?thesis using round_up_id [of 3 "P + 88"] by simp
  qed
  have d: "(24 + uint f) * ((uint e - uint P - 88) div (24 + uint f)) \<le> uint e - uint P - 88"
    "uint e - uint P - 88 < (24 + uint f) * ((uint e - uint P - 88) div (24 + uint f)) + (24 + uint f)"
    "1 \<le> (uint e - uint P - 88) div (24 + uint f)"
    using f24 room(2) pos_imp_zdiv_pos_iff [of "24 + uint f" "uint e - uint P - 88"]
      pos_mod_bound [of "24 + uint f" "uint e - uint P - 88"] pos_mod_sign [of "24 + uint f" "uint e - uint P - 88"]
      mult_div_mod_eq [of "24 + uint f" "uint e - uint P - 88"]
    by linarith+
  have n: "int n = (uint e - uint P - 88) div (24 + uint f)" "1 \<le> n" using d(3) by (simp_all add: n_def)
  have m: "24 * int n + uint f * int n \<le> uint e - uint P - 88"
    "uint e - uint P - 88 < 24 * int n + uint f * int n + (24 + uint f)"
    using d(1,2) unfolding n(1) [symmetric] by (simp_all only: distrib_right)
  have fit: "stkp_fit (P + 88) e f (of_nat 0) = Some (of_nat n)"
    by (rule stkp_fit_ok) (use m n(2) f24 room(1) in \<open>simp_all add: P88 algebra_simps\<close>)
  have nf: "0 \<le> uint f * int n" by simp
  then have n64: "int n < 2 ^ 64" using m(1) e uint_ge_0 [of P] of_nat_0_le_iff [of n] by linarith
  have un: "unat (of_nat n :: u64) = n" using unat_of_int_u64 [OF _ n64] by simp
  then have n0: "(of_nat n :: u64) \<noteq> 0" using n(2) by auto
  have un': "uint (of_nat n :: u64) = int n" using uint_of_int_u64 [OF _ n64] by simp
  have o: "P + c \<noteq> 0" if "uint c < 88" "0 < uint c" for c
  proof -
    have "uint (P + c) = uint P + uint c"
      using P88 uint_lt2p [of "P + 88"] that by (subst uint_plus_if') auto
    then have "0 < uint (P + c)" using that(2) uint_ge_0 [of P] by linarith
    then show ?thesis by auto
  qed
  obtain s1 where s1: "stkp_init sys P (total_size cfg) (stk_frm_size cfg) s = stkp_frames sys P 0 s1"
    "stkp_pg_size s1 P = 2 ^ k" "stkp_frm_size s1 P = f" "stkp_frm_cnt s1 P = of_nat n"
    "stkp_trunk s1 P = e - f * of_nat n" "dl_list (links s1) (stkp_free_list P) []"
    using stkp_init_run [of P sys "stk_frm_size cfg" f "total_size cfg" e s "of_nat n"] P(1) o [of 40] o [of 24]
      fit cur cnt n0 by (auto simp: pg(1) f_def e_def add.assoc)
  have t: "uint (e - f * of_nat n) = uint e - uint f * int n"
  proof -
    have "e - f * of_nat n = of_int (uint e - uint f * int n)" by simp
    moreover have "0 \<le> uint e - uint f * int n" using m(1) uint_ge_0 [of P] by linarith
    moreover have "uint e - uint f * int n < 2 ^ 64" using e nf by linarith
    ultimately show ?thesis by (simp only:) (rule uint_of_int_u64, simp_all)
  qed
  have "2 ^ k dvd uint e" unfolding e_def by (rule round_down_pages [OF f(1) k])
  then have "2 ^ k dvd uint (stkp_trunk s1 P)" unfolding s1(5) t using f(1) by simp
  moreover have "2 ^ k \<le> uint f" using f(2) uint_ge_0 [of "stk_frm_size cfg"] by linarith
  ultimately have g: "stk_geom s1 P"
    unfolding stk_geom_def s1(2-4) using P(1) o [of 8] pg(2) k f(1) m(1) e
    by (auto simp: s1(5) t un' mult.commute)
  obtain s' where s': "stkp_frames sys P (of_nat 0) s1 = Some (P, s')" "stk_same s1 s'"
    "stk_ok s' P [0..<unat (stkp_frm_cnt s1 P)]"
    using stkp_frames_ok [OF mp g, of 0] s1(6) by auto
  have "stkp_create sys P cfg s = Some (P + 8, s')"
    using P s1(1) s'(1) P1 fs by (simp add: stkp_create_def linorder_not_less [symmetric])
  moreover have "stkp_frm_cnt s' P = of_nat n" "stkp_frm_size s' P = f" "stkp_trunk s' P = e - f * of_nat n" "stkp_pg_size s' P = 2 ^ k"
    using s'(2) s1(2-5) by (simp_all add: stk_same_def)
  ultimately show ?thesis using s'(3) n(2) by (simp add: un s1(4) t mult.commute)
qed


section \<open>Properties\<close>

text \<open>
  C33. Where \<open>mprotect\<close> succeeds, the pages are a power of two and the memory is zero where the pool
  counts its frames, \<open>stkp_create\<close> ends and builds a pool in which every frame is free.  It has as many
  frames as fit between the descriptor and the rounded end, with a node each; each consists of
  a guard page and the usable rest, and the last one ends at the end of the pool.  The region has to lie above a frame's size, so that no difference wraps around.
\<close>

theorem stkp_create_pool:
  assumes "\<And>p n w. 0 \<le> fst (sys_mprotect sys p n PROT_READ w)"
    and "sys_pagesize sys = 2 ^ k" "2 \<le> k" "k \<le> 32" and "P \<noteq> 0" "P AND 7 = 0"
    and "MIN_STK_SIZE \<le> ucast (stk_frm_size cfg)" and "stkp_frm_cnt s P = 0"
    and "f = round_up (2 ^ k + ucast (stk_frm_size cfg)) (2 ^ k)" and "e = round_down (P + total_size cfg) f"
    and "uint f \<le> uint P" "uint P + 112 + uint f \<le> uint e"
  shows "\<exists>s' n. stkp_create sys P cfg s = Some (P + 8, s') \<and> stk_ok s' P [0..<n] \<and> 1 \<le> n \<and>
    n = nat ((uint e - uint P - 88) div (24 + uint f)) \<and>
    (\<forall>i < n. uint (stk_frame s' P i) + (uint f - 2 ^ k) = uint (stkp_trunk s' P) + (int i + 1) * uint f) \<and>
    uint (stkp_trunk s' P) + int n * uint f = uint e"
proof -
  let ?n = "nat ((uint e - uint P - 88) div (24 + uint f))"
  obtain s' where s': "stkp_create sys P cfg s = Some (P + 8, s')" "stk_ok s' P [0..<?n]"
    "unat (stkp_frm_cnt s' P) = ?n" "1 \<le> ?n" "stkp_frm_size s' P = f" "stkp_pg_size s' P = 2 ^ k"
    "uint (stkp_trunk s' P) + int ?n * uint f = uint e"
    using stkp_create_ok [OF assms(1-8)] assms(11,12) unfolding assms(9,10) by blast
  have g: "stk_geom s' P" using s'(2) by (simp add: stk_ok_def)
  have p: "uint (2 ^ k :: u64) = 2 ^ k" using assms(4) by (intro uint_power_u64) simp
  have "uint (stk_frame s' P i) + (uint f - 2 ^ k) = uint (stkp_trunk s' P) + (int i + 1) * uint f" if "i < ?n" for i
    using uint_stk_frame(1) [OF g, of i] that by (simp add: s'(3,5,6) p algebra_simps)
  with s' show ?thesis by blast
qed

definition stk_ex_sys :: "unit stk_sys" where
  "stk_ex_sys = \<lparr>sys_pagesize = 4096, sys_mprotect = (\<lambda>p n prot w. (0, w))\<rparr>"

definition stk_ex_cfg :: mm_config where
  "stk_ex_cfg = \<lparr>total_size = 0x10000, cfg_word0 = 0x2000, cfg_word1 = 0\<rparr>"

definition stk_ex :: "unit stk_heap" where
  "stk_ex = \<lparr>bytes = (\<lambda>_. 0), links = \<lparr>dl_prev = (\<lambda>_. 0), dl_next = (\<lambda>_. 0)\<rparr>, stk_os = (),
     stkp_tag = (\<lambda>_. 0), stkp_addr_begin = (\<lambda>_. 0), stkp_addr_end = (\<lambda>_. 0), stkp_trunk = (\<lambda>_. 0),
     stkp_frm_size = (\<lambda>_. 0), stkp_frm_cnt = (\<lambda>_. 0), stkp_pg_size = (\<lambda>_. 0), stkn_payload = (\<lambda>_. 0)\<rparr>"

lemma stk_ex_side:
  "sys_pagesize stk_ex_sys = 2 ^ 12" "MIN_STK_SIZE \<le> ucast (stk_frm_size stk_ex_cfg)"
  "stkp_frm_cnt stk_ex P = 0" "0x3000 = round_up (2 ^ 12 + ucast (stk_frm_size stk_ex_cfg)) (2 ^ 12)"
  "0x110000 = round_down (0x100000 + total_size stk_ex_cfg) 0x3000"
  by (simp_all add: stk_ex_sys_def stk_ex_cfg_def stk_ex_def MIN_STK_SIZE_def round_up_def round_down_def)

lemma stk_ex_mprotect: "0 \<le> fst (sys_mprotect stk_ex_sys p n PROT_READ w)"
  by (simp add: stk_ex_sys_def)

theorem stkp_create_pool_witness:
  "\<exists>s'. stkp_create stk_ex_sys 0x100000 stk_ex_cfg stk_ex = Some (0x100008, s') \<and> stk_ok s' 0x100000 [0..<5]"
proof -
  have "\<exists>s' n. stkp_create stk_ex_sys 0x100000 stk_ex_cfg stk_ex = Some (0x100000 + 8, s') \<and>
      stk_ok s' 0x100000 [0..<n] \<and> n = nat ((uint (0x110000 :: u64) - uint (0x100000 :: u64) - 88) div (24 + uint (0x3000 :: u64)))"
    using stkp_create_pool [OF stk_ex_mprotect stk_ex_side(1) _ _ _ _ stk_ex_side(2,3,4,5)] by auto
  then show ?thesis by simp
qed

text \<open>
  C9. A pool is a queue of free frames.  \<open>stkp_alloc\<close> hands out the first free frame and fails on an
  empty pool; \<open>stkp_free\<close> puts a frame that is in use to the front, and refuses one that is free.  Freeing
  a frame that was handed out leaves the same frames free.  The frames do not overlap each other or
  their guard pages.
\<close>

theorem stkp_alloc_free_spec:
  assumes "stk_ok s P is"
  shows "(is = [] \<longrightarrow> stkp_alloc (P + 8) s = Some (0, s)) \<and>
    (\<forall>i js. is = i # js \<longrightarrow> (\<exists>s1. stkp_alloc (P + 8) s = Some (stk_frame s P i, s1) \<and> stk_ok s1 P js \<and>
       (\<exists>s2. stkp_free (P + 8) (stk_frame s P i) s1 = Some (0, s2) \<and> stk_ok s2 P is \<and>
         stkp_free (P + 8) (stk_frame s P i) s2 = Some (-1, s2)))) \<and>
    (\<forall>i < unat (stkp_frm_cnt s P). i \<notin> set is \<longrightarrow>
       (\<exists>s1. stkp_free (P + 8) (stk_frame s P i) s = Some (0, s1) \<and> stk_ok s1 P (i # is))) \<and>
    (\<forall>i < unat (stkp_frm_cnt s P). \<forall>j < i.
       uint (stk_frame s P j) + uint (stkp_frm_size s P) \<le> uint (stk_frame s P i))"
proof (intro conjI allI impI)
  assume "is = []"
  then show "stkp_alloc (P + 8) s = Some (0, s)" using assms stkp_alloc_empty by blast
next
  fix i js assume "is": "is = i # js"
  obtain s1 where s1: "stkp_alloc (P + 8) s = Some (stk_frame s P i, s1)" "stk_ok s1 P js"
    "\<forall>j. stk_frame s1 P j = stk_frame s P j" "stkp_frm_cnt s1 = stkp_frm_cnt s"
    using stkp_alloc_ok assms unfolding "is" by blast
  have i: "i < unat (stkp_frm_cnt s1 P)" "i \<notin> set js"
    using assms stk_ok_distinct [OF assms] s1(4) by (simp_all add: "is" stk_ok_def)
  obtain s2 where s2: "stkp_free (P + 8) (stk_frame s P i) s1 = Some (0, s2)" "stk_ok s2 P (i # js)"
    "\<forall>j. stk_frame s2 P j = stk_frame s1 P j"
    using stkp_free_ok [OF s1(2) i] s1(3) by auto
  have "stkp_free (P + 8) (stk_frame s P i) s2 = Some (-1, s2)"
    using stkp_free_twice [OF s2(2), of i] s1(3) s2(3) by simp
  with s1 s2 show "\<exists>s1. stkp_alloc (P + 8) s = Some (stk_frame s P i, s1) \<and> stk_ok s1 P js \<and>
       (\<exists>s2. stkp_free (P + 8) (stk_frame s P i) s1 = Some (0, s2) \<and> stk_ok s2 P is \<and>
         stkp_free (P + 8) (stk_frame s P i) s2 = Some (-1, s2))" unfolding "is" by blast
next
  fix i assume "i < unat (stkp_frm_cnt s P)" "i \<notin> set is"
  then show "\<exists>s1. stkp_free (P + 8) (stk_frame s P i) s = Some (0, s1) \<and> stk_ok s1 P (i # is)"
    using stkp_free_ok [OF assms] by blast
next
  fix i j assume i: "i < unat (stkp_frm_cnt s P)" and j: "j < i"
  have g: "stk_geom s P" using assms by (simp add: stk_ok_def)
  have "(int j + 1) * uint (stkp_frm_size s P) \<le> int i * uint (stkp_frm_size s P)"
    using j by (intro mult_right_mono) simp_all
  then show "uint (stk_frame s P j) + uint (stkp_frm_size s P) \<le> uint (stk_frame s P i)"
    using uint_stk_frame(1) [OF g i] uint_stk_frame(1) [OF g, of j] i j by (simp add: algebra_simps)
qed

theorem stkp_alloc_free_spec_witness:
  "\<exists>(s :: unit stk_heap) s1. stk_ok s 0x100000 [0..<5] \<and> stkp_alloc (0x100000 + 8) s = Some (stk_frame s 0x100000 0, s1) \<and> stk_ok s1 0x100000 [1..<5]"
proof -
  have n: "nat ((uint (0x110000 :: u64) - uint (0x100000 :: u64) - 88) div (24 + uint (0x3000 :: u64))) = 5" by simp
  obtain s :: "unit stk_heap" where s: "stk_ok s 0x100000 [0..<5]"
    using stkp_create_ok [OF stk_ex_mprotect stk_ex_side(1) _ _ _ _ stk_ex_side(2,3), of "0x100000",
        folded stk_ex_side(4), folded stk_ex_side(5)] n by auto
  have l: "[0..<5] = 0 # [1..<5]" by (simp add: upt_rec)
  show ?thesis using stkp_alloc_free_spec [OF s] s l by blast
qed

end
