(* ===== verification/Mmspace.thy ===== *)
theory Mmspace
  imports Shmem Mmops
begin

text \<open>
  The memory space of \<open>src/src/mmspace.c\<close>: a group of shared memory blocks, the sections, each of
  which belongs to an area and is managed by a pool.  \<open>Mmcache\<close> has the object caches of the same file.

  A \<open>struct _mm_space_impl\<close> at \<open>mm\<close> (416 bytes) has its areas at offset 128 (40 bytes each, a list of
  sections first), the list of zones at 352 and the hash table of zones at 392.  The tree of sections is
  \<open>sec_tree\<close>.  A \<open>struct _mm_section_impl\<close> has 16 bytes, a \<open>struct _mm_shmm_save\<close> 16 bytes.

  The pools are reached through the table \<open>ops\<close> of their functions, by area; \<open>pools\<close> is the memory they
  work on.  The comparison of the tree, \<open>_shmm_comp_func\<close>, reads the blocks: a call installs the function
  over the current memory first.  \<open>uninit\<close> is what \<open>shmm_create\<close> reads unset.
\<close>

record mm_space_config =
  sys_begin_addr :: u64
  sys_shmm_key :: u32
  cfg_try_huge_page :: bool
  max_shmm_count :: int
  area_cfg :: "int \<Rightarrow> mm_config"

record ('o, 'p) mm_heap = "'o shm_heap" +
  pools :: 'p
  the_mmspace :: ptr
  mm_label :: "ptr \<Rightarrow> u64"
  mm_next_key :: "ptr \<Rightarrow> u32"
  mm_shmm_count :: "ptr \<Rightarrow> int"
  mm_this_shm :: "ptr \<Rightarrow> ptr"
  mm_cfg :: "ptr \<Rightarrow> mm_space_config"
  mm_save_list :: "ptr \<Rightarrow> ptr"
  mm_usr_globl :: "ptr \<Rightarrow> ptr"
  area_free_section :: "ptr \<Rightarrow> ptr"
  sec_area_type :: "ptr \<Rightarrow> int"
  sec_allocator :: "ptr \<Rightarrow> ptr"
  save_base_addr :: "ptr \<Rightarrow> ptr"
  save_key :: "ptr \<Rightarrow> u32"
  save_size :: "ptr \<Rightarrow> u32"
  zone_obj_size :: "ptr \<Rightarrow> u32"
  zone_cache_size :: "ptr \<Rightarrow> u64"
  zone_ctor :: "ptr \<Rightarrow> ptr"
  zone_dtor :: "ptr \<Rightarrow> ptr"
  mc_cache :: "ptr \<Rightarrow> ptr"
  mc_label :: "ptr \<Rightarrow> u32"
  mc_free_count :: "ptr \<Rightarrow> u16"
  mc_obj_count :: "ptr \<Rightarrow> u16"
  mc_alloc_bits :: "ptr \<Rightarrow> u64"
  mc_obj_ptr :: "ptr \<Rightarrow> ptr"

definition MM_LABEL :: u64 where "MM_LABEL = 0x6666666666666666"
definition ZONE_HASH_SIZE :: u64 where "ZONE_HASH_SIZE = 64"

text \<open>\<open>enum MM_AREA_TYPE\<close>.\<close>

definition MM_AREA_NUBBLE :: int where "MM_AREA_NUBBLE = 0"
definition MM_AREA_PAGE :: int where "MM_AREA_PAGE = 1"
definition MM_AREA_CACHE :: int where "MM_AREA_CACHE = 2"
definition MM_AREA_PERSIS :: int where "MM_AREA_PERSIS = 3"
definition MM_AREA_STACK :: int where "MM_AREA_STACK = 4"
definition MM_AREA_COUNT :: int where "MM_AREA_COUNT = 5"

definition mm_area :: "ptr \<Rightarrow> int \<Rightarrow> ptr" where
  "mm_area mm i = mm + 128 + 40 * of_int i"

abbreviation (input) section_list :: "ptr \<Rightarrow> ptr" where "section_list ar \<equiv> ar"
abbreviation zone_list :: "ptr \<Rightarrow> ptr" where "zone_list mm \<equiv> mm + 352"
abbreviation zone_hash :: "ptr \<Rightarrow> ptr" where "zone_hash mm \<equiv> mm + 392"
abbreviation (input) shmm_of_rbn :: "ptr \<Rightarrow> ptr" where "shmm_of_rbn rbn \<equiv> rbn - 16"
abbreviation (input) shmm_of_dln :: "ptr \<Rightarrow> ptr" where "shmm_of_dln dln \<equiv> dln - 48"

definition on_pools :: "('p \<Rightarrow> ('r \<times> 'p) option) \<Rightarrow> ('o, 'p, 'z) mm_heap_scheme \<Rightarrow> ('r \<times> ('o, 'p, 'z) mm_heap_scheme) option" where
  "on_pools f s = do { (r, p) \<leftarrow> f (pools s); Some (r, s\<lparr>pools := p\<rparr>) }"

definition make_shmm_key :: "('o, 'p, 'z) mm_heap_scheme \<Rightarrow> ptr \<Rightarrow> u32 \<Rightarrow> u32 \<Rightarrow> u32" where
  "make_shmm_key s mm ar_type area_idx = push_bit 16 (sys_shmm_key (mm_cfg s mm)) + push_bit 8 ar_type + area_idx"

definition get_section :: "('o, 'p, 'z) mm_heap_scheme \<Rightarrow> ptr \<Rightarrow> ptr" where
  "get_section s shm = shmm_begin_addr s shm"

definition shmm_comp_func :: "('o, 'p, 'z) mm_heap_scheme \<Rightarrow> u64 \<Rightarrow> ptr \<Rightarrow> int" where
  "shmm_comp_func s key rbn =
     (let shm = shmm_of_rbn rbn in
      if key < shmm_begin_addr s shm then -1
      else if key \<ge> shmm_end_addr s shm then 1 else 0)"

definition sections :: "('o, 'p, 'z) mm_heap_scheme \<Rightarrow> rbtree" where
  "sections s = (case rb_cfunc (sec_tree s) of None \<Rightarrow> sec_tree s
     | Some f \<Rightarrow> (sec_tree s)\<lparr>rb_cfunc := Some (shmm_comp_func s)\<rparr>)"

section \<open>Sections\<close>

definition mm_section_fail ::
  "'o shm_sys \<Rightarrow> ptr \<Rightarrow> ('o, 'p, 'z) mm_heap_scheme \<Rightarrow> (int \<times> ('o, 'p, 'z) mm_heap_scheme) option" where
  "mm_section_fail sys shm s =
     (if shm \<noteq> 0 then do { (r, s) \<leftarrow> shmm_destroy sys shm s; Some (-1, s) } else Some (-1, s))"

definition mm_create_section ::
  "(int \<Rightarrow> 'p mm_ops) \<Rightarrow> 'o shm_sys \<Rightarrow> ptr \<Rightarrow> ptr \<Rightarrow> int \<Rightarrow> ('o, 'p, 'z) mm_heap_scheme \<Rightarrow>
   (int \<times> ('o, 'p, 'z) mm_heap_scheme) option" where
  "mm_create_section ops sys uninit mm ar_type s =
     (if mm_shmm_count s mm \<ge> max_shmm_count (mm_cfg s mm) then mm_section_fail sys 0 s
      else do {
        let cfg = area_cfg (mm_cfg s mm) ar_type;
        let s = s\<lparr>mm_next_key := (mm_next_key s)(mm := mm_next_key s mm + 1)\<rparr>;
        let key = mm_create_shm_key (shm_type_num MM_SHM_MEMORY_SPACE) (sys_shmm_key (mm_cfg s mm))
                    (sub_key_area (ucast (mm_next_key s mm)) (of_int ar_type));
        (shm, s) \<leftarrow> shmm_create sys uninit key 0 (total_size cfg) (cfg_try_huge_page (mm_cfg s mm)) s;
        if shm = 0 then mm_section_fail sys 0 s
        else let ar = mm_area mm ar_type; addr_begin = shmm_begin_addr s shm in
          if addr_begin = 0 then mm_section_fail sys shm s
          else do {
            (r, s) \<leftarrow> on_links (lst_new (section_list ar)) s;
            t \<leftarrow> rb_fillnew (shm_rb_node shm) (sections s);
            (rslt, t) \<leftarrow> rb_insert (shm_rb_node shm) (t\<lparr>rb_key := (rb_key t)(shm_rb_node shm := addr_begin)\<rparr>);
            let s = s\<lparr>sec_tree := t\<rparr>;
            if rslt < 0 then mm_section_fail sys shm s
            else do {
              (r, s) \<leftarrow> on_links (lst_clr (shm_lst_node shm)) s;
              (rslt, s) \<leftarrow> on_links (lst_push_back (section_list ar) (shm_lst_node shm)) s;
              if rslt < 0 then mm_section_fail sys shm s
              else do {
                let sec = addr_begin;
                let s = s\<lparr>sec_area_type := (sec_area_type s)(sec := ar_type)\<rparr>;
                (alloc, s) \<leftarrow> on_pools (create_func (ops ar_type) (addr_begin + 16) cfg) s;
                let s = s\<lparr>sec_allocator := (sec_allocator s)(sec := alloc)\<rparr>;
                if alloc = 0 then mm_section_fail sys shm s
                else do {
                  let save = mm_save_list s mm + 16 * of_int (mm_shmm_count s mm);
                  Some (0, s\<lparr>area_free_section := (area_free_section s)(ar := sec),
                             save_base_addr := (save_base_addr s)(save := shm),
                             save_key := (save_key s)(save := key),
                             save_size := (save_size s)(save := ucast (total_size cfg)),
                             mm_shmm_count := (mm_shmm_count s)(mm := mm_shmm_count s mm + 1)\<rparr>) } } } } })"

partial_function (option) mm_open_saved ::
  "'o shm_sys \<Rightarrow> ptr \<Rightarrow> int \<Rightarrow> ('o, 'p, 'z) mm_heap_scheme \<Rightarrow> (int \<times> ('o, 'p, 'z) mm_heap_scheme) option" where
  "mm_open_saved sys mm i s =
     (if i < mm_shmm_count s mm
      then do {
        let save = mm_save_list s mm + 16 * of_int i;
        (shm, s) \<leftarrow> shmm_open sys (save_key s save) (save_base_addr s save) s;
        if shm = 0 then Some (-1, s) else mm_open_saved sys mm (i + 1) s }
      else Some (0, s))"

partial_function (option) mm_load_sections ::
  "'p mm_ops \<Rightarrow> ptr \<Rightarrow> ptr \<Rightarrow> ('o, 'p, 'z) mm_heap_scheme \<Rightarrow> (int \<times> ('o, 'p, 'z) mm_heap_scheme) option" where
  "mm_load_sections op ar dln s =
     (if dln = tail_of (section_list ar) then Some (0, s)
      else do {
        let sec = get_section s (shmm_of_dln dln);
        sec \<leftarrow> deref sec sec;
        (alloc, s) \<leftarrow> on_pools (load_func op (sec_allocator s sec)) s;
        let s = s\<lparr>sec_allocator := (sec_allocator s)(sec := alloc)\<rparr>;
        if alloc = 0 then Some (-1, s)
        else do { dln \<leftarrow> ld_next (links s) dln; mm_load_sections op ar dln s } })"

partial_function (option) mm_load_areas ::
  "(int \<Rightarrow> 'p mm_ops) \<Rightarrow> ptr \<Rightarrow> int \<Rightarrow> ('o, 'p, 'z) mm_heap_scheme \<Rightarrow> (int \<times> ('o, 'p, 'z) mm_heap_scheme) option" where
  "mm_load_areas ops mm i s =
     (if i < MM_AREA_COUNT
      then do {
        dln \<leftarrow> ld_next (links s) (head_of (section_list (mm_area mm i)));
        (rslt, s) \<leftarrow> mm_load_sections (ops i) (mm_area mm i) dln s;
        if rslt < 0 then Some (-1, s) else mm_load_areas ops mm (i + 1) s }
      else Some (0, s))"

definition mm_load_area ::
  "(int \<Rightarrow> 'p mm_ops) \<Rightarrow> 'o shm_sys \<Rightarrow> ptr \<Rightarrow> ('o, 'p, 'z) mm_heap_scheme \<Rightarrow> (int \<times> ('o, 'p, 'z) mm_heap_scheme) option" where
  "mm_load_area ops sys mm s = do {
     (rslt, s) \<leftarrow> mm_open_saved sys mm 0 s;
     if rslt < 0 then Some (-1, s) else mm_load_areas ops mm 0 s }"


section \<open>The space\<close>

partial_function (option) mm_destroy_saved ::
  "'o shm_sys \<Rightarrow> ptr \<Rightarrow> int \<Rightarrow> ('o, 'p, 'z) mm_heap_scheme \<Rightarrow> ('o, 'p, 'z) mm_heap_scheme option" where
  "mm_destroy_saved sys mm i s =
     (if i < mm_shmm_count s mm
      then let shm = save_base_addr s (mm_save_list s mm + 16 * of_int i) in
        if shm = 0 then mm_destroy_saved sys mm (i + 1) s
        else do { (r, s) \<leftarrow> shmm_destroy sys shm s; mm_destroy_saved sys mm (i + 1) s }
      else Some s)"

definition mm_uninitialize :: "'o shm_sys \<Rightarrow> ('o, 'p, 'z) mm_heap_scheme \<Rightarrow> (int \<times> ('o, 'p, 'z) mm_heap_scheme) option" where
  "mm_uninitialize sys s =
     (if the_mmspace s = 0 then Some (-1, s)
      else do {
        s \<leftarrow> mm_destroy_saved sys (the_mmspace s) 0 s;
        (r, s) \<leftarrow> shmm_destroy sys (mm_this_shm s (the_mmspace s)) s;
        Some (0, s\<lparr>the_mmspace := 0\<rparr>) })"

partial_function (option) mm_init_hash ::
  "ptr \<Rightarrow> u64 \<Rightarrow> ('o, 'p, 'z) mm_heap_scheme \<Rightarrow> ('o, 'p, 'z) mm_heap_scheme option" where
  "mm_init_hash mm i s =
     (if i < ZONE_HASH_SIZE
      then do {
        (r, s) \<leftarrow> on_links (lst_new (hash_bucket s (zone_hash mm) i)) s;
        mm_init_hash mm (i + 1) s }
      else Some s)"

partial_function (option) mm_create_areas ::
  "(int \<Rightarrow> 'p mm_ops) \<Rightarrow> 'o shm_sys \<Rightarrow> ptr \<Rightarrow> ptr \<Rightarrow> int \<Rightarrow> ('o, 'p, 'z) mm_heap_scheme \<Rightarrow>
   (int \<times> ('o, 'p, 'z) mm_heap_scheme) option" where
  "mm_create_areas ops sys uninit mm i s =
     (if i < MM_AREA_COUNT
      then do {
        (rslt, s) \<leftarrow> mm_create_section ops sys uninit mm i s;
        if rslt < 0 then Some (-1, s) else mm_create_areas ops sys uninit mm (i + 1) s }
      else Some (0, s))"

text \<open>
  A space that exists is opened and its pools are loaded; otherwise one is created with a section in
  every area.  The size of the descriptor, its hash lists and the saved blocks is rounded up by
  \<open>shmm_create\<close>.  The early error exits call \<open>mm_uninitialize\<close> too, which then tears down the space
  that is in use, if any.
\<close>

definition mm_open_space ::
  "(int \<Rightarrow> 'p mm_ops) \<Rightarrow> 'o shm_sys \<Rightarrow> ptr \<Rightarrow> ('o, 'p, 'z) mm_heap_scheme \<Rightarrow> (ptr \<times> ('o, 'p, 'z) mm_heap_scheme) option" where
  "mm_open_space ops sys shm s =
     (let mm = shmm_begin_addr s shm in
      if mm = 0 then Some (0, s)
      else if mm_label s mm \<noteq> MM_LABEL then Some (0, s)
      else do {
        (rslt, s) \<leftarrow> mm_load_area ops sys mm s;
        if rslt < 0 then Some (0, s)
        else Some (mm, s\<lparr>sec_tree := rb_reset_compare_function (Some (shmm_comp_func s)) (sec_tree s)\<rparr>) })"

definition mm_new_space ::
  "(int \<Rightarrow> 'p mm_ops) \<Rightarrow> 'o shm_sys \<Rightarrow> ptr \<Rightarrow> mm_space_config \<Rightarrow> ('o, 'p, 'z) mm_heap_scheme \<Rightarrow>
   (ptr \<times> ('o, 'p, 'z) mm_heap_scheme) option" where
  "mm_new_space ops sys uninit cfg s = do {
     let shm_size = 416 + 16 * of_int (max_shmm_count cfg) + 32 * ZONE_HASH_SIZE;
     (shm, s) \<leftarrow> shmm_create sys uninit (sys_shmm_key cfg) (sys_begin_addr cfg) shm_size (cfg_try_huge_page cfg) s;
     if shm = 0 then Some (0, s)
     else let mm = shmm_begin_addr s shm in
       if mm = 0 then Some (0, s)
       else do {
         let s = s\<lparr>mm_cfg := (mm_cfg s)(mm := cfg), mm_label := (mm_label s)(mm := MM_LABEL),
                   sec_tree := rb_init (Some (shmm_comp_func s)) (sec_tree s)\<rparr>;
         (r, s) \<leftarrow> on_links (lst_new (zone_list mm)) s;
         let s = s\<lparr>mm_this_shm := (mm_this_shm s)(mm := shm), mm_shmm_count := (mm_shmm_count s)(mm := 0),
                   mm_usr_globl := (mm_usr_globl s)(mm := 0),
                   ht_hash_list := (ht_hash_list s)(zone_hash mm := mm + 416),
                   ht_bucket_size := (ht_bucket_size s)(zone_hash mm := ZONE_HASH_SIZE)\<rparr>;
         s \<leftarrow> mm_init_hash mm 0 s;
         let s = s\<lparr>mm_save_list := (mm_save_list s)(mm := hash_bucket s (zone_hash mm) ZONE_HASH_SIZE)\<rparr>;
         (rslt, s) \<leftarrow> mm_create_areas ops sys uninit mm 0 s;
         Some (if rslt < 0 then 0 else mm, s) } }"

text \<open>\<open>cfg\<close> is \<open>None\<close> for a null pointer.\<close>

definition mm_initialize ::
  "(int \<Rightarrow> 'p mm_ops) \<Rightarrow> 'o shm_sys \<Rightarrow> ptr \<Rightarrow> mm_space_config option \<Rightarrow> ('o, 'p, 'z) mm_heap_scheme \<Rightarrow>
   (int \<times> ('o, 'p, 'z) mm_heap_scheme) option" where
  "mm_initialize ops sys uninit cfg s =
     (case cfg of
        None \<Rightarrow> do { (r, s) \<leftarrow> mm_uninitialize sys s; Some (-1, s) }
      | Some cfg \<Rightarrow>
        if the_mmspace s \<noteq> 0 \<or> max_shmm_count cfg \<le> 0
        then do { (r, s) \<leftarrow> mm_uninitialize sys s; Some (-1, s) }
        else do {
          (shm, s) \<leftarrow> shmm_open_raw sys (sys_shmm_key cfg) (sys_begin_addr cfg) s;
          (mm, s) \<leftarrow> (if shm \<noteq> 0 then mm_open_space ops sys shm s else mm_new_space ops sys uninit cfg s);
          if mm = 0 then do { (r, s) \<leftarrow> mm_uninitialize sys s; Some (-1, s) }
          else Some (0, s\<lparr>the_mmspace := mm\<rparr>) })"

definition mm_reinitialize ::
  "(int \<Rightarrow> 'p mm_ops) \<Rightarrow> 'o shm_sys \<Rightarrow> ptr \<Rightarrow> mm_space_config option \<Rightarrow> ('o, 'p, 'z) mm_heap_scheme \<Rightarrow>
   (int \<times> ('o, 'p, 'z) mm_heap_scheme) option" where
  "mm_reinitialize ops sys uninit cfg s = do {
     (rslt, s) \<leftarrow> mm_initialize ops sys uninit cfg s;
     if rslt < 0 then Some (-1, s)
     else do {
       (r, s) \<leftarrow> mm_uninitialize sys s;
       mm_initialize ops sys uninit cfg s } }"

definition mm_save_globl_data :: "ptr \<Rightarrow> ('o, 'p, 'z) mm_heap_scheme \<Rightarrow> ('o, 'p, 'z) mm_heap_scheme" where
  "mm_save_globl_data p s =
     (if the_mmspace s = 0 then s else s\<lparr>mm_usr_globl := (mm_usr_globl s)(the_mmspace s := p)\<rparr>)"

definition mm_load_globl_data :: "('o, 'p, 'z) mm_heap_scheme \<Rightarrow> ptr" where
  "mm_load_globl_data s = (if the_mmspace s = 0 then 0 else mm_usr_globl s (the_mmspace s))"

text \<open>A null space makes the address of the hash table an invalid small number, not null.\<close>

abbreviation (input) zone_of_hash_node :: "ptr \<Rightarrow> ptr" where "zone_of_hash_node hn \<equiv> hn - 152"

definition mm_search_zone :: "ptr \<Rightarrow> ('o, 'p, 'z) mm_heap_scheme \<Rightarrow> ptr option" where
  "mm_search_zone zone_name s = do {
     mm \<leftarrow> deref (the_mmspace s) (the_mmspace s);
     hn \<leftarrow> hash_search (zone_hash mm) zone_name s;
     Some (if hn = 0 then 0 else zone_of_hash_node hn) }"

section \<open>Allocation\<close>

text \<open>The sections of an area in order; the one that is tried becomes the free section.\<close>

partial_function (option) mm_try_sections ::
  "'p mm_ops \<Rightarrow> ptr \<Rightarrow> u64 \<Rightarrow> ptr \<Rightarrow> ('o, 'p, 'z) mm_heap_scheme \<Rightarrow> (ptr \<times> ('o, 'p, 'z) mm_heap_scheme) option" where
  "mm_try_sections op ar sz dln s =
     (if dln = tail_of (section_list ar) then Some (0, s)
      else do {
        let sec = get_section s (shmm_of_dln dln);
        let s = s\<lparr>area_free_section := (area_free_section s)(ar := sec)\<rparr>;
        sec \<leftarrow> deref sec sec;
        (p, s) \<leftarrow> on_pools (alloc_func op (sec_allocator s sec) sz) s;
        if p \<noteq> 0 then Some (p, s)
        else do { dln \<leftarrow> ld_next (links s) dln; mm_try_sections op ar sz dln s } })"

partial_function (option) mm_retry_alloc ::
  "(int \<Rightarrow> 'p mm_ops) \<Rightarrow> 'o shm_sys \<Rightarrow> ptr \<Rightarrow> ptr \<Rightarrow> u64 \<Rightarrow> int \<Rightarrow> ('o, 'p, 'z) mm_heap_scheme \<Rightarrow>
   (ptr \<times> ('o, 'p, 'z) mm_heap_scheme) option" where
  "mm_retry_alloc ops sys uninit mm sz ar_type s = do {
     let ar = mm_area mm ar_type;
     let sec = area_free_section s ar;
     sec \<leftarrow> deref sec sec;
     (p, s) \<leftarrow> on_pools (alloc_func (ops ar_type) (sec_allocator s sec) sz) s;
     if p \<noteq> 0 then Some (p, s)
     else do {
       dln \<leftarrow> ld_next (links s) (head_of (section_list ar));
       (p, s) \<leftarrow> mm_try_sections (ops ar_type) ar sz dln s;
       if p \<noteq> 0 then Some (p, s)
       else do {
         s \<leftarrow> (case counts_func (ops ar_type) of None \<Rightarrow> Some s
               | Some f \<Rightarrow> do {
                   sec \<leftarrow> deref (area_free_section s ar) (area_free_section s ar);
                   c \<leftarrow> f (sec_allocator s sec) (pools s);
                   Some s });
         (rslt, s) \<leftarrow> mm_create_section ops sys uninit mm ar_type s;
         if rslt < 0 then Some (0, s)
         else mm_retry_alloc ops sys uninit mm sz ar_type s } } }"

definition mm_area_alloc ::
  "(int \<Rightarrow> 'p mm_ops) \<Rightarrow> 'o shm_sys \<Rightarrow> ptr \<Rightarrow> u64 \<Rightarrow> int \<Rightarrow> ('o, 'p, 'z) mm_heap_scheme \<Rightarrow>
   (ptr \<times> ('o, 'p, 'z) mm_heap_scheme) option" where
  "mm_area_alloc ops sys uninit sz ar_type s =
     (if ar_type < 0 \<or> ar_type \<ge> MM_AREA_COUNT then Some (0, s)
      else do {
        mm \<leftarrow> deref (the_mmspace s) (the_mmspace s);
        if area_free_section s (mm_area mm ar_type) = 0 then Some (0, s)
        else mm_retry_alloc ops sys uninit mm sz ar_type s })"

definition mm_alloc ::
  "(int \<Rightarrow> 'p mm_ops) \<Rightarrow> 'o shm_sys \<Rightarrow> ptr \<Rightarrow> u64 \<Rightarrow> ('o, 'p, 'z) mm_heap_scheme \<Rightarrow>
   (ptr \<times> ('o, 'p, 'z) mm_heap_scheme) option" where
  "mm_alloc ops sys uninit sz s =
     (if sz = 0 then Some (0, s)
      else if the_mmspace s = 0 then Some (0, s)
      else
        let odr = log_2 0 sz + 1;
            ar_type = (if odr < ucast (max_order (area_cfg (mm_cfg s (the_mmspace s)) MM_AREA_NUBBLE))
                       then MM_AREA_NUBBLE else MM_AREA_PAGE)
        in mm_area_alloc ops sys uninit sz ar_type s)"

definition mm_free ::
  "(int \<Rightarrow> 'p mm_ops) \<Rightarrow> ptr \<Rightarrow> ('o, 'p, 'z) mm_heap_scheme \<Rightarrow> (int \<times> ('o, 'p, 'z) mm_heap_scheme) option" where
  "mm_free ops p s =
     (if the_mmspace s = 0 then Some (-1, s)
      else do {
        (rbn, hot) \<leftarrow> rb_search (sections s) p local_var;
        if rbn = 0 then Some (-1, s)
        else do {
          let sec = get_section s (shmm_of_rbn rbn);
          sec \<leftarrow> deref sec sec;
          (rslt, s) \<leftarrow> on_pools (free_func (ops (sec_area_type s sec)) (sec_allocator s sec) p) s;
          Some (if rslt < 0 then -1 else rslt, s) } })"

definition mm_get_cfg :: "('o, 'p, 'z) mm_heap_scheme \<Rightarrow> mm_space_config" where
  "mm_get_cfg s = mm_cfg s (the_mmspace s)"

end
