(* ===== verification/Mmspace_Spec.thy ===== *)
theory Mmspace_Spec
  imports Mmspace Rbtree_Map
begin

text \<open>
  What the memory space promises: how \<open>_mm_create_section\<close> leaves the list of an area and how \<open>mm_free\<close>
  finds the pool of a pointer.
\<close>

section \<open>A new section\<close>

lemma mm_section_fail_not_0 [simp]: "mm_section_fail sys shm s \<noteq> Some (0, s')"
  by (auto simp: mm_section_fail_def bind_eq_Some_conv)

lemma shmm_create_mm_frame:
  fixes s :: "('o, 'p, 'z) mm_heap_scheme"
  assumes "shmm_create sys uninit key at_addr sz huge s = Some (shm, s1)"
  shows "mm_save_list s1 = mm_save_list s" and "mm_shmm_count s1 = mm_shmm_count s" and "links s1 = links s"
  using assms
  by (auto simp: shmm_create_def Let_def on_os_def bind_eq_Some_conv deref_eq_Some split: prod.splits if_splits)

text \<open>What a successful run did to the lists: the new block is pushed to a list that was just made empty.\<close>

lemma mm_create_section_lists:
  assumes "mm_create_section ops sys uninit mm ar_type s = Some (0, s')"
  shows "\<exists>shm r h1 r' h2 r''. shm \<noteq> 0 \<and>
    lst_new (mm_area mm ar_type) (links s) = Some (r, h1) \<and> lst_clr (shm + 48) h1 = Some (r', h2) \<and>
    lst_push_back (mm_area mm ar_type) (shm + 48) h2 = Some (r'', links s') \<and> shmm_begin_addr s' shm \<noteq> 0 \<and>
    area_free_section s' (mm_area mm ar_type) = shmm_begin_addr s' shm \<and>
    save_base_addr s' (mm_save_list s mm + 16 * of_int (mm_shmm_count s mm)) = shm \<and>
    mm_shmm_count s' = (mm_shmm_count s)(mm := mm_shmm_count s mm + 1)"
proof -
  have beg: "shmm_begin_addr (b\<lparr>sec_tree := t, links := h, sec_area_type := a, pools := p, sec_allocator := al,
      area_free_section := af, save_base_addr := sb, save_key := sk, save_size := sz, mm_shmm_count := c\<rparr>) =
      shmm_begin_addr b" for b :: "('a, 'b, 'c) mm_heap_scheme" and t h a p al af sb sk sz c
    by (rule ext) (simp add: shmm_begin_addr_def)
  show ?thesis
    using assms unfolding mm_create_section_def on_links_def on_pools_def
    apply (clarsimp split: if_splits prod.splits simp: Let_def bind_eq_Some_conv not_less)
    apply (frule shmm_create_mm_frame(1), frule shmm_create_mm_frame(2), frule shmm_create_mm_frame(3))
    apply (simp add: beg)
    apply blast
    done
qed

text \<open>
  C38.  A section that is created is the only one on the list of its area: \<open>_mm_create_section\<close> makes the
  list new, so whatever blocks the area had before are no longer found through it.
\<close>

theorem mm_create_section_single:
  assumes "mm_create_section ops sys uninit mm ar_type s = Some (0, s')"
  defines "ar \<equiv> mm_area mm ar_type"
    and "shm \<equiv> save_base_addr s' (mm_save_list s mm + 16 * of_int (mm_shmm_count s mm))"
  assumes "ar \<noteq> 0" and "ar + 16 \<noteq> 0" and "shm + 48 \<notin> {0, ar, ar + 16}"
  shows "dl_list (links s') ar [shm + 48] \<and> area_free_section s' ar = shmm_begin_addr s' shm \<and>
    mm_shmm_count s' mm = mm_shmm_count s mm + 1"
proof -
  obtain r h1 r' h2 r'' where h: "lst_new ar (links s) = Some (r, h1)" "lst_clr (shm + 48) h1 = Some (r', h2)"
    "lst_push_back ar (shm + 48) h2 = Some (r'', links s')" "area_free_section s' ar = shmm_begin_addr s' shm"
    "mm_shmm_count s' = (mm_shmm_count s)(mm := mm_shmm_count s mm + 1)"
    using mm_create_section_lists [OF assms(1)] unfolding ar_def shm_def by blast
  have "dl_list h1 ar []" using lst_new_ok [of ar "links s"] assms(4,5) h(1) by auto
  moreover have "dl_same (set (dl_nodes ar [])) h1 h2"
    using h(2) assms(6) by (auto simp: lst_clr_def mem_defs dl_same_def dl_nodes_def split: if_splits)
  ultimately have "dl_list h2 ar []" using dl_list_same by blast
  moreover have "shm + 48 \<notin> set (dl_nodes ar [])" using assms(6) by (simp add: dl_nodes_def)
  ultimately have "dl_list (links s') ar ([] @ [shm + 48])"
    using lst_push_back_ok [of h2 ar "[]" "shm + 48"] h(3) assms(6) by auto
  then show ?thesis using h(4,5) by simp
qed

section \<open>Freeing\<close>

text \<open>The nodes \<open>ns\<close> of the sections, in the order of their address ranges, which are disjoint.\<close>

definition secs_ok :: "('o, 'p, 'z) mm_heap_scheme \<Rightarrow> ptr list \<Rightarrow> bool" where
  "secs_ok s ns \<longleftrightarrow> rb_ok (sec_tree s) ns \<and> rb_cfunc (sec_tree s) \<noteq> None \<and>
     (\<forall>n \<in> set ns. shmm_begin_addr s (n - 16) \<noteq> 0 \<and> shmm_begin_addr s (n - 16) < shmm_end_addr s (n - 16)) \<and>
     sorted_wrt (\<lambda>a b. shmm_end_addr s (a - 16) \<le> shmm_begin_addr s (b - 16)) ns"

definition in_section :: "('o, 'p, 'z) mm_heap_scheme \<Rightarrow> ptr \<Rightarrow> ptr \<Rightarrow> bool" where
  "in_section s p n \<longleftrightarrow> shmm_begin_addr s (n - 16) \<le> p \<and> p < shmm_end_addr s (n - 16)"

lemma rep_cfunc: "rep (t\<lparr>rb_cfunc := f\<rparr>) p u = rep t p u"
  by (induction u arbitrary: p) simp_all

lemma sections_search:
  assumes ok: "secs_ok s ns"
  shows "\<exists>n hot. rb_search (sections s) p local_var = Some (n, hot) \<and>
    (if n = 0 then \<forall>a \<in> set ns. \<not> in_section s p a else n \<in> set ns \<and> in_section s p n)"
proof -
  obtain f where f: "rb_cfunc (sec_tree s) = Some f" using ok by (auto simp: secs_ok_def)
  obtain u where u: "tree_at (sec_tree s) [] u" "addrs u = ns" using ok by (auto simp: secs_ok_def rb_ok_def)
  have t: "tree_at (sections s) [] u" using u(1) by (simp add: sections_def f tree_at_def rep_cfunc)
  have c: "compare_key (sections s) p = shmm_comp_func s p"
    by (rule ext) (simp add: compare_key_def sections_def f)
  have "sorted_wrt (\<lambda>a b. 0 < shmm_comp_func s p a \<or> shmm_comp_func s p b < 0) ns"
  proof (rule sorted_wrt_mono_rel)
    show "sorted_wrt (\<lambda>a b. shmm_end_addr s (a - 16) \<le> shmm_begin_addr s (b - 16)) ns"
      using ok by (simp add: secs_ok_def)
    fix a b assume "a \<in> set ns" "b \<in> set ns" "shmm_end_addr s (a - 16) \<le> shmm_begin_addr s (b - 16)"
    moreover from this have "shmm_begin_addr s (a - 16) < shmm_end_addr s (a - 16)" using ok by (simp add: secs_ok_def)
    ultimately show "0 < shmm_comp_func s p a \<or> shmm_comp_func s p b < 0"
      by (auto simp: shmm_comp_func_def Let_def)
  qed
  then have "ordered_for (compare_key (sections s) p) (addrs u)" by (simp add: ordered_for_def c u(2))
  from rb_search_ok [OF t this, of local_var] obtain c' u' where
    s: "rb_search (sections s) p local_var = Some (aroot u', if u' = Tip then cpar 0 c' else aroot u')"
      "tree_at (sections s) c' u'" "plug c' u' = u" "u' \<noteq> Tip \<longrightarrow> shmm_comp_func s p (aroot u') = 0"
      "u' = Tip \<longrightarrow> between (shmm_comp_func s p) (cl c') (cr c')"
    by (auto simp: c local_var_def)
  have z: "shmm_comp_func s p a = 0 \<longleftrightarrow> in_section s p a" for a
    by (auto simp: shmm_comp_func_def Let_def in_section_def)
  have ns: "ns = cl c' @ addrs u' @ cr c'" using s(3) u(2) addrs_plug by metis
  show ?thesis
  proof (cases u')
    case Tip
    then have "\<forall>a \<in> set ns. shmm_comp_func s p a \<noteq> 0" using s(5) ns by (auto simp: between_def)
    then show ?thesis using s(1) Tip z by auto
  next
    case (Nd b l a r)
    then have "a \<noteq> 0" using s(2) by (simp add: tree_at_def)
    then show ?thesis using s(1,4) Nd ns z by auto
  qed
qed

text \<open>
  C39.  \<open>mm_free\<close> hands a pointer to the pool of the one section whose range holds it, with the functions
  of the kind of that section, and refuses a pointer that lies in no section without changing anything.
\<close>

theorem mm_free_routes:
  assumes ok: "secs_ok s ns" and mm: "the_mmspace s \<noteq> 0"
  shows "(\<forall>n \<in> set ns. in_section s p n \<longrightarrow>
      (let sec = shmm_begin_addr s (n - 16) in
       mm_free ops p s = map_option (\<lambda>(r, q). (if r < 0 then -1 else r, s\<lparr>pools := q\<rparr>))
         (free_func (ops (sec_area_type s sec)) (sec_allocator s sec) p (pools s)))) \<and>
    ((\<forall>n \<in> set ns. \<not> in_section s p n) \<longrightarrow> mm_free ops p s = Some (-1, s))"
proof -
  obtain n hot where n: "rb_search (sections s) p local_var = Some (n, hot)"
    "if n = 0 then \<forall>a \<in> set ns. \<not> in_section s p a else n \<in> set ns \<and> in_section s p n"
    using sections_search [OF ok] by blast
  have one: "a = b" if "a \<in> set ns" "b \<in> set ns" "in_section s p a" "in_section s p b" for a b
  proof (rule ccontr)
    assume "a \<noteq> b"
    then have "shmm_end_addr s (a - 16) \<le> shmm_begin_addr s (b - 16) \<or> shmm_end_addr s (b - 16) \<le> shmm_begin_addr s (a - 16)"
      using ok that(1,2) by (auto simp: secs_ok_def sorted_wrt_iff_nth_less in_set_conv_nth) (metis linorder_neqE_nat)
    then show False using that(3,4) by (auto simp: in_section_def)
  qed
  show ?thesis
  proof (cases "n = 0")
    case True
    then show ?thesis using n mm by (simp add: mm_free_def)
  next
    case False
    then have i: "n \<in> set ns" "in_section s p n" using n(2) by simp_all
    have b: "shmm_begin_addr s (n - 16) \<noteq> 0" using ok i(1) by (simp add: secs_ok_def)
    have run: "mm_free ops p s = (let sec = shmm_begin_addr s (n - 16) in
       map_option (\<lambda>(r, q). (if r < 0 then -1 else r, s\<lparr>pools := q\<rparr>))
         (free_func (ops (sec_area_type s sec)) (sec_allocator s sec) p (pools s)))"
      using mm False n(1) b by (auto simp: mm_free_def get_section_def on_pools_def Let_def split: option.splits bind_splits)
    show ?thesis
    proof (intro conjI ballI impI)
      fix m assume "m \<in> set ns" "in_section s p m"
      then have "m = n" using one i by blast
      then show "let sec = shmm_begin_addr s (m - 16) in
        mm_free ops p s = map_option (\<lambda>(r, q). (if r < 0 then -1 else r, s\<lparr>pools := q\<rparr>))
          (free_func (ops (sec_area_type s sec)) (sec_allocator s sec) p (pools s))" using run by (simp add: Let_def)
    next
      assume "\<forall>m \<in> set ns. \<not> in_section s p m"
      then show "mm_free ops p s = Some (-1, s)" using i by blast
    qed
  qed
qed

section \<open>A small space\<close>

definition mm_ex_tree :: rbtree where
  "mm_ex_tree = \<lparr>rb_key = (\<lambda>_. 0x11008), rb_lc = (\<lambda>_. 0), rb_rc = (\<lambda>_. 0), rb_pw = (\<lambda>_. 1),
     rb_size = 1, rb_depth = 0, rb_root = 0x10018, rb_cfunc = Some (\<lambda>_ _. 0)\<rparr>"

definition mm_ex :: "(unit, unit) mm_heap" where
  "mm_ex = \<lparr>bytes = (\<lambda>_. 0), links = \<lparr>dl_prev = (\<lambda>_. 0), dl_next = (\<lambda>_. 0)\<rparr>,
     ht_bucket_size = (\<lambda>_. 0), ht_hash_list = (\<lambda>_. 0), shm_os = (), sec_tree = mm_ex_tree,
     shmm_tag = (\<lambda>_. 0), shmm_begin_off = (\<lambda>_. 4096), shmm_end_off = (\<lambda>_. 8192), shmm_key = (\<lambda>_. 0),
     shmm_fd = (\<lambda>_. 0), pools = (), the_mmspace = 0x1000, mm_label = (\<lambda>_. MM_LABEL), mm_next_key = (\<lambda>_. 0),
     mm_shmm_count = (\<lambda>_. 0), mm_this_shm = (\<lambda>_. 0x800),
     mm_cfg = (\<lambda>_. \<lparr>sys_begin_addr = 0, sys_shmm_key = 7, cfg_try_huge_page = False, max_shmm_count = 10,
       area_cfg = (\<lambda>_. \<lparr>total_size = 5000, cfg_word0 = 4096, cfg_word1 = 4\<rparr>)\<rparr>),
     mm_save_list = (\<lambda>_. 0x2000), mm_usr_globl = (\<lambda>_. 0), area_free_section = (\<lambda>_. 0),
     sec_area_type = (\<lambda>_. 1), sec_allocator = (\<lambda>_. 0x11100), save_base_addr = (\<lambda>_. 0), save_key = (\<lambda>_. 0),
     save_size = (\<lambda>_. 0), zone_obj_size = (\<lambda>_. 24), zone_cache_size = (\<lambda>_. 4096), zone_ctor = (\<lambda>_. 0),
     zone_dtor = (\<lambda>_. 0), mc_cache = (\<lambda>_. 0x5000), mc_label = (\<lambda>_. 0), mc_free_count = (\<lambda>_. 4),
     mc_obj_count = (\<lambda>_. 5), mc_alloc_bits = (\<lambda>_. 1), mc_obj_ptr = (\<lambda>_. 0x6040)\<rparr>"

definition ops_ex :: "int \<Rightarrow> unit mm_ops" where
  "ops_ex i = \<lparr>create_func = (\<lambda>p c s. Some (p, s)), load_func = (\<lambda>p s. Some (p, s)), destroy_func = (\<lambda>p s. Some s),
     alloc_func = (\<lambda>a sz s. Some (0, s)), free_func = (\<lambda>a p s. Some (if a = 0x11100 then 0 else -1, s)),
     counts_func = None\<rparr>"

lemma mm_ex_secs: "secs_ok mm_ex [0x10018]"
proof -
  have "rb_ok mm_ex_tree [0x10018]" unfolding rb_ok_def
    by (intro conjI exI [of _ "Nd True Tip 0x10018 Tip"])
      (simp_all add: tree_at_def mm_ex_tree_def pword_def cbit_def aligned_def rb_tree_def del: pword_fold, rule exI [of _ 1], simp)
  then show ?thesis
    by (simp add: secs_ok_def mm_ex_def shmm_begin_addr_def shmm_end_addr_def) (simp add: mm_ex_tree_def)
qed

theorem mm_free_routes_witness:
  "mm_free ops_ex 0x11200 mm_ex = Some (0, mm_ex) \<and> mm_free ops_ex 0x12008 mm_ex = Some (-1, mm_ex)"
proof -
  have "mm_free ops_ex 0x11200 mm_ex = Some (0, mm_ex)"
    using mm_free_routes [OF mm_ex_secs, of "0x11200" ops_ex]
    by (simp add: mm_ex_def in_section_def shmm_begin_addr_def shmm_end_addr_def ops_ex_def)
  moreover have "mm_free ops_ex 0x12008 mm_ex = Some (-1, mm_ex)"
    using mm_free_routes [OF mm_ex_secs, of "0x12008" ops_ex]
    by (simp add: mm_ex_def in_section_def shmm_begin_addr_def shmm_end_addr_def)
  ultimately show ?thesis by simp
qed

lemma mm_create_section_run:
  assumes "mm_shmm_count s mm < max_shmm_count (mm_cfg s mm)"
    and "shmm_create sys uninit (mm_create_shm_key 0 (sys_shmm_key (mm_cfg s mm))
        (sub_key_area (ucast (mm_next_key s mm + 1)) (of_int ar_type))) 0 (total_size (area_cfg (mm_cfg s mm) ar_type))
        (cfg_try_huge_page (mm_cfg s mm)) (s\<lparr>mm_next_key := (mm_next_key s)(mm := mm_next_key s mm + 1)\<rparr>) = Some (shm, s1)"
    and "shm \<noteq> 0" and "shmm_begin_addr s1 shm \<noteq> 0"
    and "lst_new (mm_area mm ar_type) (links s1) = Some (r, h1)"
    and "rb_fillnew (shm + 16) (sections (s1\<lparr>links := h1\<rparr>)) = Some t1"
    and "rb_insert (shm + 16) (t1\<lparr>rb_key := (rb_key t1)(shm + 16 := shmm_begin_addr s1 shm)\<rparr>) = Some (0, t2)"
    and "lst_clr (shm + 48) h1 = Some (r', h2)"
    and "lst_push_back (mm_area mm ar_type) (shm + 48) h2 = Some (0, h3)"
    and "create_func (ops ar_type) (shmm_begin_addr s1 shm + 16) (area_cfg (mm_cfg s mm) ar_type) (pools s1) = Some (al, p)"
    and "al \<noteq> 0"
  shows "\<exists>s'. mm_create_section ops sys uninit mm ar_type s = Some (0, s') \<and>
    save_base_addr s' (mm_save_list s mm + 16 * of_int (mm_shmm_count s mm)) = shm"
proof -
  note f = shmm_create_mm_frame [OF assms(2)]
  show ?thesis
    using assms(1,3-) f unfolding mm_create_section_def on_links_def on_pools_def
    by (simp add: Let_def assms(2))
qed

lemma mm_ex_create:
  "\<exists>s'. mm_create_section ops_ex shm_ex_sys 0 0x1000 1 (mm_ex\<lparr>sec_tree := rb_init (Some (\<lambda>_ _. 0)) mm_ex_tree\<rparr>) = Some (0, s')
     \<and> save_base_addr s' 0x2000 = 0x10008"
proof -
  let ?s = "mm_ex\<lparr>sec_tree := rb_init (Some (\<lambda>_ _. 0)) mm_ex_tree\<rparr>"
  have k: "mm_create_shm_key 0 7 (sub_key_area 1 1) = 0x70101"
    by (simp add: mm_create_shm_key_def sub_key_area_def SHM_TYPE_SHIFT_def SHM_SYSID_SHIFT_def)
  obtain s1 where s1: "shmm_create shm_ex_sys 0 0x70101 0 5000 False
      (?s\<lparr>mm_next_key := (mm_next_key ?s)(0x1000 := mm_next_key ?s 0x1000 + 1)\<rparr>) = Some (0x10008, s1)"
    "shmm_begin_addr s1 0x10008 = 0x11008" "links s1 = links mm_ex" "rb_root (sec_tree s1) = 0" 
    "rb_size (sec_tree s1) = 0" "rb_cfunc (sec_tree s1) \<noteq> None"
    by (simp add: shmm_create_def on_os_eq shm_ex_sys_def rb_fillnew_eq SHM_PAGE_SIZE_def
      move_ptr_roundup_def round_up_def mm_ex_def shmm_begin_addr_def rb_init_def)
  obtain h1 where h1: "lst_new 0x10A8 (links s1) = Some (0, h1)" "dl_list h1 0x10A8 []"
    using lst_new_ok [of "0x10A8" "links s1"] by auto
  obtain t1 where t1: "rb_fillnew (0x10008 + 16) (sections (s1\<lparr>links := h1\<rparr>)) = Some t1" "rb_root t1 = 0"
    using s1(4,6) by (auto simp: rb_fillnew_eq sections_def)
  let ?t = "t1\<lparr>rb_key := (rb_key t1)(0x10008 + 16 := shmm_begin_addr s1 0x10008)\<rparr>"
  have "tree_at ?t [] Tip" using t1(2) by (simp add: tree_at_def)
  then obtain t2 where t2: "rb_insert (0x10008 + 16) ?t = Some (0, t2)"
    using rb_insert_ok [of ?t Tip "0x10008 + 16"] by (auto simp: rb_tree_def aligned_def ordered_for_def)
  obtain h2 where h2: "lst_clr (0x10008 + 48) h1 = Some (0, h2)" "dl_list h2 0x10A8 []"
  proof -
    obtain h2 where h: "lst_clr (0x10008 + 48) h1 = Some (0, h2)" "dl_same (set (dl_nodes 0x10A8 [])) h1 h2"
      by (simp add: lst_clr_def mem_defs dl_same_def dl_nodes_def)
    then show thesis using that h1(2) dl_list_same by blast
  qed
  obtain h3 where h3: "lst_push_back 0x10A8 (0x10008 + 48) h2 = Some (0, h3)"
    using lst_push_back_ok [OF h2(2), of "0x10008 + 48"] by (auto simp: dl_nodes_def)
  have ar: "mm_area 0x1000 1 = 0x10A8" by (simp add: mm_area_def)
  show ?thesis
    using mm_create_section_run [of ?s "0x1000" shm_ex_sys 0 1 "0x10008" s1, unfolded ar, OF _ _ _ _ h1(1) t1(1) t2 h2(1) h3,
        of ops_ex "0x11008 + 16" "pools s1"] s1(1,2) k
    by (simp add: mm_ex_def ops_ex_def)
qed

theorem mm_create_section_single_witness:
  "\<exists>s'. mm_create_section ops_ex shm_ex_sys 0 0x1000 1 (mm_ex\<lparr>sec_tree := rb_init (Some (\<lambda>_ _. 0)) mm_ex_tree\<rparr>) = Some (0, s')
     \<and> dl_list (links s') 0x10A8 [0x10038]"
proof -
  obtain s' where s': "mm_create_section ops_ex shm_ex_sys 0 0x1000 1
      (mm_ex\<lparr>sec_tree := rb_init (Some (\<lambda>_ _. 0)) mm_ex_tree\<rparr>) = Some (0, s')"
    "save_base_addr s' 0x2000 = 0x10008" using mm_ex_create by blast
  have "mm_save_list mm_ex 0x1000 = 0x2000" "mm_shmm_count mm_ex 0x1000 = 0" by (simp_all add: mm_ex_def)
  then show ?thesis using mm_create_section_single [OF s'(1)] s' by (simp add: mm_area_def)
qed

end
