(* ===== verification/Mmcache.thy ===== *)
theory Mmcache
  imports Mmspace "HOL-Library.Signed_Division"
begin

text \<open>
  The object caches of \<open>src/src/mmspace.c\<close>.  A zone, \<open>struct _mmcache_impl\<close> (232 bytes, its handle at
  offset 0), hands out objects of one size from slabs.  It has the lists of its full, empty and partial
  slabs at offsets 40, 72 and 104, its node in the list of zones at 136 and its node in the hash table at
  152.  A slab, \<open>struct _mm_cache\<close> (48 bytes), lies at the start of its pages and has a list node at
  offset 8; the bits of \<open>_alloc_bits\<close> are the objects in use.

  Constructors and destructors are addresses, which \<open>call\<close> runs on an object.  \<open>uninit_mzi\<close> is the
  pointer an early error exit of \<open>mm_cache_create\<close> reads unset.
\<close>

definition SLAB_LABEL :: u32 where "SLAB_LABEL = 0x22222222"
definition CACHE_OBJ_COUNT :: u32 where "CACHE_OBJ_COUNT = 32"
definition CACHE_OBJ_COUNT_MAX :: u16 where "CACHE_OBJ_COUNT_MAX = 64"

abbreviation full_slab_list :: "ptr \<Rightarrow> ptr" where "full_slab_list mzi \<equiv> mzi + 40"
abbreviation empty_slab_list :: "ptr \<Rightarrow> ptr" where "empty_slab_list mzi \<equiv> mzi + 72"
abbreviation partial_slab_list :: "ptr \<Rightarrow> ptr" where "partial_slab_list mzi \<equiv> mzi + 104"
abbreviation zone_list_node :: "ptr \<Rightarrow> ptr" where "zone_list_node mzi \<equiv> mzi + 136"
abbreviation zone_hash_node :: "ptr \<Rightarrow> ptr" where "zone_hash_node mzi \<equiv> mzi + 152"
abbreviation mc_list_node :: "ptr \<Rightarrow> ptr" where "mc_list_node mc \<equiv> mc + 8"
abbreviation (input) conv_zone_lst_node :: "ptr \<Rightarrow> ptr" where "conv_zone_lst_node dln \<equiv> dln - 136"
abbreviation (input) conv_cache :: "ptr \<Rightarrow> ptr" where "conv_cache dln \<equiv> dln - 8"

abbreviation cache_cfg :: "('o, 'p, 'z) mm_heap_scheme \<Rightarrow> mm_config" where
  "cache_cfg s \<equiv> area_cfg (mm_cfg s (the_mmspace s)) MM_AREA_CACHE"

section \<open>A slab\<close>

text \<open>The product of index and page size is one of 32 bits.\<close>

partial_function (option) cache_of_obj_loop :: "ptr \<Rightarrow> u32 \<Rightarrow> ('o, 'p, 'z) mm_heap_scheme \<Rightarrow> ptr option" where
  "cache_of_obj_loop p i s =
     (if i < maxpg_count (cache_cfg s)
      then do {
        mmc \<leftarrow> deref (p - ucast (i * page_size (cache_cfg s))) (p - ucast (i * page_size (cache_cfg s)));
        if mc_label s mmc = SLAB_LABEL then Some mmc else cache_of_obj_loop p (i + 1) s }
      else Some 0)"

definition cache_of_obj :: "ptr \<Rightarrow> ('o, 'p, 'z) mm_heap_scheme \<Rightarrow> ptr option" where
  "cache_of_obj obj s = do {
     mm \<leftarrow> deref (the_mmspace s) (the_mmspace s);
     cache_of_obj_loop (round_down obj (ucast (page_size (cache_cfg s)))) 0 s }"

definition mm_zcache_full :: "('o, 'p, 'z) mm_heap_scheme \<Rightarrow> ptr \<Rightarrow> bool" where
  "mm_zcache_full s mc \<longleftrightarrow> mc_free_count s mc \<le> 0"

definition mm_zcache_empty :: "('o, 'p, 'z) mm_heap_scheme \<Rightarrow> ptr \<Rightarrow> bool" where
  "mm_zcache_empty s mc \<longleftrightarrow> mc_free_count s mc \<ge> mc_obj_count s mc"

definition mmc_next_free_obj :: "('o, 'p, 'z) mm_heap_scheme \<Rightarrow> ptr \<Rightarrow> int" where
  "mmc_next_free_obj s mc =
     (let idx = bsf (NOT (mc_alloc_bits s mc)) in if idx \<ge> uint (mc_obj_count s mc) then -1 else idx)"

fun count_bits :: "u64 \<Rightarrow> nat \<Rightarrow> nat \<Rightarrow> int" where
  "count_bits w 0 i = 0"
| "count_bits w (Suc n) i = (if w AND push_bit i 1 \<noteq> 0 then 1 else 0) + count_bits w n (Suc i)"

definition check_alloc_bits :: "('o, 'p, 'z) mm_heap_scheme \<Rightarrow> ptr \<Rightarrow> int" where
  "check_alloc_bits s mc =
     (if count_bits (mc_alloc_bits s mc) 64 0 \<noteq> uint (mc_obj_count s mc) - uint (mc_free_count s mc) then -1 else 0)"

definition mm_zfetch_obj :: "ptr \<Rightarrow> ('o, 'p, 'z) mm_heap_scheme \<Rightarrow> (ptr \<times> ('o, 'p, 'z) mm_heap_scheme) option" where
  "mm_zfetch_obj mc s = do {
     mc \<leftarrow> deref mc mc;
     let idx = mmc_next_free_obj s mc;
     if idx < 0 then Some (0, s)
     else do {
       sz \<leftarrow> deref (mc_cache s mc) (zone_obj_size s (mc_cache s mc));
       Some (mc_obj_ptr s mc + ucast (of_int idx * sz),
             s\<lparr>mc_alloc_bits := (mc_alloc_bits s)(mc := mc_alloc_bits s mc OR push_bit (nat idx) 1),
               mc_free_count := (mc_free_count s)(mc := mc_free_count s mc - 1)\<rparr>) } }"

definition mm_zreturn_obj :: "ptr \<Rightarrow> ptr \<Rightarrow> ('o, 'p, 'z) mm_heap_scheme \<Rightarrow> (int \<times> ('o, 'p, 'z) mm_heap_scheme) option" where
  "mm_zreturn_obj mc p s = do {
     mc \<leftarrow> deref mc mc;
     if p < mc_obj_ptr s mc then Some (-1, s)
     else do {
       sz \<leftarrow> deref (mc_cache s mc) (zone_obj_size s (mc_cache s mc));
       idx \<leftarrow> (if sz = 0 then None else Some (sint (p - mc_obj_ptr s mc) sdiv uint sz));
       if idx < 0 \<or> idx \<ge> uint (mc_obj_count s mc) then Some (-1, s)
       else if mc_alloc_bits s mc AND push_bit (nat idx) 1 = 0 then Some (-1, s)
       else Some (0, s\<lparr>mc_free_count := (mc_free_count s)(mc := mc_free_count s mc + 1),
                       mc_alloc_bits := (mc_alloc_bits s)(mc := mc_alloc_bits s mc AND NOT (push_bit (nat idx) 1))\<rparr>) } }"

section \<open>Lists of slabs\<close>

definition mm_zmove_cache ::
  "ptr \<Rightarrow> ptr \<Rightarrow> ptr \<Rightarrow> ('o, 'p, 'z) mm_heap_scheme \<Rightarrow> (int \<times> ('o, 'p, 'z) mm_heap_scheme) option" where
  "mm_zmove_cache mc from_list to_list s = do {
     (rslt, s) \<leftarrow> (if from_list \<noteq> 0 then on_links (lst_remove from_list (mc_list_node mc)) s else Some (0, s));
     if rslt < 0 then Some (-1, s) else on_links (lst_push_front to_list (mc_list_node mc)) s }"

definition mm_zfirst_cache_from_list :: "ptr \<Rightarrow> ('o, 'p, 'z) mm_heap_scheme \<Rightarrow> ptr option" where
  "mm_zfirst_cache_from_list from_list s = do {
     dln \<leftarrow> ld_next (links s) (head_of from_list);
     Some (if dln = tail_of from_list then 0 else conv_cache dln) }"

partial_function (option) recall_slabs ::
  "(int \<Rightarrow> 'p mm_ops) \<Rightarrow> ptr \<Rightarrow> ptr \<Rightarrow> ('o, 'p, 'z) mm_heap_scheme \<Rightarrow> ('o, 'p, 'z) mm_heap_scheme option" where
  "recall_slabs ops lst dln s =
     (if dln = tail_of lst then Some s
      else do {
        (r, s) \<leftarrow> mm_free ops (conv_cache dln) s;
        dln \<leftarrow> ld_next (links s) dln;
        recall_slabs ops lst dln s })"

definition mm_ztry_recall_empty_cache ::
  "(int \<Rightarrow> 'p mm_ops) \<Rightarrow> ptr \<Rightarrow> ('o, 'p, 'z) mm_heap_scheme \<Rightarrow> ('o, 'p, 'z) mm_heap_scheme option" where
  "mm_ztry_recall_empty_cache ops mzi s = do {
     dln \<leftarrow> ld_next (links s) (head_of (empty_slab_list mzi));
     s \<leftarrow> recall_slabs ops (empty_slab_list mzi) dln s;
     (r, s) \<leftarrow> on_links (lst_new (empty_slab_list mzi)) s;
     Some s }"

partial_function (option) recall_zones ::
  "(int \<Rightarrow> 'p mm_ops) \<Rightarrow> ptr \<Rightarrow> ptr \<Rightarrow> ('o, 'p, 'z) mm_heap_scheme \<Rightarrow> ('o, 'p, 'z) mm_heap_scheme option" where
  "recall_zones ops lst dln s =
     (if dln = tail_of lst then Some s
      else do {
        s \<leftarrow> mm_ztry_recall_empty_cache ops (conv_zone_lst_node dln) s;
        dln \<leftarrow> ld_next (links s) dln;
        recall_zones ops lst dln s })"

definition mm_ztry_recall :: "(int \<Rightarrow> 'p mm_ops) \<Rightarrow> ('o, 'p, 'z) mm_heap_scheme \<Rightarrow> ('o, 'p, 'z) mm_heap_scheme option" where
  "mm_ztry_recall ops s = do {
     mm \<leftarrow> deref (the_mmspace s) (the_mmspace s);
     dln \<leftarrow> ld_next (links s) (head_of (zone_list mm));
     recall_zones ops (zone_list mm) dln s }"

definition mm_zalloc_pg ::
  "(int \<Rightarrow> 'p mm_ops) \<Rightarrow> 'o shm_sys \<Rightarrow> ptr \<Rightarrow> ptr \<Rightarrow> ('o, 'p, 'z) mm_heap_scheme \<Rightarrow>
   (ptr \<times> ('o, 'p, 'z) mm_heap_scheme) option" where
  "mm_zalloc_pg ops sys uninit mzi s = do {
     mzi \<leftarrow> deref mzi mzi;
     let alloc_size = ucast (zone_obj_size s mzi * CACHE_OBJ_COUNT) + 48;
     (pg, s) \<leftarrow> mm_area_alloc ops sys uninit alloc_size MM_AREA_CACHE s;
     if pg \<noteq> 0 then Some (pg, s)
     else do {
       s \<leftarrow> mm_ztry_recall ops s;
       mm_area_alloc ops sys uninit alloc_size MM_AREA_CACHE s } }"

definition mm_zcache_new ::
  "(int \<Rightarrow> 'p mm_ops) \<Rightarrow> 'o shm_sys \<Rightarrow> ptr \<Rightarrow> ptr \<Rightarrow> ('o, 'p, 'z) mm_heap_scheme \<Rightarrow>
   (ptr \<times> ('o, 'p, 'z) mm_heap_scheme) option" where
  "mm_zcache_new ops sys uninit mzi s = do {
     (mc, s) \<leftarrow> mm_zalloc_pg ops sys uninit mzi s;
     if mc = 0 then Some (0, s)
     else do {
       let s = s\<lparr>mc_label := (mc_label s)(mc := SLAB_LABEL), mc_cache := (mc_cache s)(mc := mzi)\<rparr>;
       (r, s) \<leftarrow> on_links (lst_clr (mc_list_node mc)) s;
       n \<leftarrow> (if zone_obj_size s mzi = 0 then None
             else Some (ucast ((zone_cache_size s mzi - 48) div ucast (zone_obj_size s mzi)) :: u16));
       let n = (if n \<le> CACHE_OBJ_COUNT_MAX then n else CACHE_OBJ_COUNT_MAX);
       let s = s\<lparr>mc_obj_count := (mc_obj_count s)(mc := n),
                 mc_obj_ptr := (mc_obj_ptr s)(mc := mc + zone_cache_size s mzi - ucast (ucast n * zone_obj_size s mzi)),
                 mc_alloc_bits := (mc_alloc_bits s)(mc := 0),
                 mc_free_count := (mc_free_count s)(mc := n)\<rparr>;
       (r, s) \<leftarrow> mm_zmove_cache mc 0 (empty_slab_list mzi) s;
       Some (mc, s) } }"

section \<open>Zones\<close>

definition mm_cache_create ::
  "(int \<Rightarrow> 'p mm_ops) \<Rightarrow> 'o shm_sys \<Rightarrow> ptr \<Rightarrow> ptr \<Rightarrow> ptr \<Rightarrow> u32 \<Rightarrow> ptr \<Rightarrow> ptr \<Rightarrow> ('o, 'p, 'z) mm_heap_scheme \<Rightarrow>
   (ptr \<times> ('o, 'p, 'z) mm_heap_scheme) option" where
  "mm_cache_create ops sys uninit uninit_mzi name obj_size ctor dtor s =
     (let fail = (\<lambda>mzi s. if mzi \<noteq> 0 then do { (r, s) \<leftarrow> mm_free ops mzi s; Some (0, s) } else Some (0, s));
          mm = the_mmspace s
      in if mm = 0 then fail uninit_mzi s
      else do {
        hn \<leftarrow> hash_search (zone_hash mm) name s;
        if hn \<noteq> 0 then fail uninit_mzi s
        else do {
          let obj_size = (ucast (round_up (ucast obj_size) 8) :: u32);
          let cache_size = round_up (ucast (obj_size * CACHE_OBJ_COUNT) + 48) (ucast (page_size (cache_cfg s)));
          if cache_size \<ge> ucast (page_size (cache_cfg s) * maxpg_count (cache_cfg s)) then fail uninit_mzi s
          else do {
            (mzi, s) \<leftarrow> mm_area_alloc ops sys uninit 232 MM_AREA_PERSIS s;
            if mzi = 0 then fail mzi s
            else do {
              (r, s) \<leftarrow> on_links (lst_new (empty_slab_list mzi)) s;
              (r, s) \<leftarrow> on_links (lst_new (partial_slab_list mzi)) s;
              (r, s) \<leftarrow> on_links (lst_new (full_slab_list mzi)) s;
              (r, s) \<leftarrow> on_links (lst_clr (zone_list_node mzi)) s;
              let s = s\<lparr>zone_obj_size := (zone_obj_size s)(mzi := obj_size),
                        zone_cache_size := (zone_cache_size s)(mzi := cache_size),
                        zone_ctor := (zone_ctor s)(mzi := ctor), zone_dtor := (zone_dtor s)(mzi := dtor),
                        bytes := strncpy (hash_key (zone_hash_node mzi)) name 64 (bytes s)\<rparr>;
              (rslt, s) \<leftarrow> on_links (lst_push_back (zone_list mm) (zone_list_node mzi)) s;
              if rslt < 0 then fail mzi s
              else do {
                (rslt, s) \<leftarrow> hash_insert (zone_hash mm) (zone_hash_node mzi) s;
                if rslt < 0 then fail mzi s else Some (mzi, s) } } } } })"

definition mm_cache_destroy :: "ptr \<Rightarrow> ('o, 'p, 'z) mm_heap_scheme \<Rightarrow> int" where
  "mm_cache_destroy mmz s = -1"

definition mm_cache_alloc ::
  "(ptr \<Rightarrow> ptr \<Rightarrow> ('o, 'p, 'z) mm_heap_scheme \<Rightarrow> ('o, 'p, 'z) mm_heap_scheme option) \<Rightarrow>
   (int \<Rightarrow> 'p mm_ops) \<Rightarrow> 'o shm_sys \<Rightarrow> ptr \<Rightarrow> ptr \<Rightarrow> ('o, 'p, 'z) mm_heap_scheme \<Rightarrow>
   (ptr \<times> ('o, 'p, 'z) mm_heap_scheme) option" where
  "mm_cache_alloc call ops sys uninit mmz s = do {
     mzi \<leftarrow> deref mmz mmz;
     e \<leftarrow> lst_empty (partial_slab_list mzi) (links s);
     (p, s) \<leftarrow>
       (if \<not> e
        then do {
          mc \<leftarrow> mm_zfirst_cache_from_list (partial_slab_list mzi) s;
          if mc = 0 then Some (0, s)
          else do {
            (p, s) \<leftarrow> mm_zfetch_obj mc s;
            if p = 0 then Some (0, s)
            else if mm_zcache_full s mc
            then do { (r, s) \<leftarrow> mm_zmove_cache mc (partial_slab_list mzi) (full_slab_list mzi) s; Some (p, s) }
            else Some (p, s) } }
        else do {
          mc \<leftarrow> mm_zfirst_cache_from_list (empty_slab_list mzi) s;
          (mc, s) \<leftarrow> (if mc = 0 then mm_zcache_new ops sys uninit mzi s else Some (mc, s));
          if mc = 0 then Some (0, s)
          else do {
            (p, s) \<leftarrow> mm_zfetch_obj mc s;
            if p = 0 then Some (0, s)
            else do { (r, s) \<leftarrow> mm_zmove_cache mc (empty_slab_list mzi) (partial_slab_list mzi) s; Some (p, s) } } });
     if p = 0 then Some (0, s)
     else if zone_ctor s mzi \<noteq> 0 then do { s \<leftarrow> call (zone_ctor s mzi) p s; Some (p, s) }
     else Some (p, s) }"

definition mm_cache_free ::
  "(ptr \<Rightarrow> ptr \<Rightarrow> ('o, 'p, 'z) mm_heap_scheme \<Rightarrow> ('o, 'p, 'z) mm_heap_scheme option) \<Rightarrow>
   ptr \<Rightarrow> ptr \<Rightarrow> ('o, 'p, 'z) mm_heap_scheme \<Rightarrow> (int \<times> ('o, 'p, 'z) mm_heap_scheme) option" where
  "mm_cache_free call mmz p s =
     (if p = 0 then Some (-1, s)
      else do {
        mzi \<leftarrow> deref mmz mmz;
        s \<leftarrow> (if zone_dtor s mzi \<noteq> 0 then call (zone_dtor s mzi) p s else Some s);
        mc \<leftarrow> cache_of_obj p s;
        if mc = 0 \<or> mm_zcache_empty s mc then Some (-1, s)
        else do {
          let from_full = mm_zcache_full s mc;
          (rslt, s) \<leftarrow> mm_zreturn_obj mc p s;
          if rslt < 0 then Some (-1, s)
          else do {
            (r, s) \<leftarrow> (if mm_zcache_empty s mc
                        then mm_zmove_cache mc (partial_slab_list mzi) (empty_slab_list mzi) s else Some (0, s));
            (r, s) \<leftarrow> (if from_full
                        then mm_zmove_cache mc (full_slab_list mzi) (partial_slab_list mzi) s else Some (0, s));
            Some (0, s) } } })"


section \<open>What the users of the space pass on\<close>

record ('o, 'p, 's) mm_env =
  env_ops :: "int \<Rightarrow> 'p mm_ops"
  env_sys :: "'o shm_sys"
  env_uninit :: ptr
  env_uninit_mzi :: ptr
  env_call :: "ptr \<Rightarrow> ptr \<Rightarrow> 's \<Rightarrow> 's option"

definition cache_new ::
  "('o, 'p, ('o, 'p, 'z) mm_heap_scheme) mm_env \<Rightarrow> ptr \<Rightarrow> u32 \<Rightarrow> ('o, 'p, 'z) mm_heap_scheme \<Rightarrow>
   (ptr \<times> ('o, 'p, 'z) mm_heap_scheme) option" where
  "cache_new E name obj_size s =
     mm_cache_create (env_ops E) (env_sys E) (env_uninit E) (env_uninit_mzi E) name obj_size 0 0 s"

definition cache_get ::
  "('o, 'p, ('o, 'p, 'z) mm_heap_scheme) mm_env \<Rightarrow> ptr \<Rightarrow> ('o, 'p, 'z) mm_heap_scheme \<Rightarrow>
   (ptr \<times> ('o, 'p, 'z) mm_heap_scheme) option" where
  "cache_get E mmz s = mm_cache_alloc (env_call E) (env_ops E) (env_sys E) (env_uninit E) mmz s"

definition cache_put ::
  "('o, 'p, ('o, 'p, 'z) mm_heap_scheme) mm_env \<Rightarrow> ptr \<Rightarrow> ptr \<Rightarrow> ('o, 'p, 'z) mm_heap_scheme \<Rightarrow>
   (int \<times> ('o, 'p, 'z) mm_heap_scheme) option" where
  "cache_put E mmz p s = mm_cache_free (env_call E) mmz p s"

end
