(* ===== verification/Mmcache_Spec.thy ===== *)
theory Mmcache_Spec
  imports Mmcache Mmspace_Spec
begin

text \<open>
  A slab as what it promises: a set of objects in use, from which \<open>_mm_zfetch_obj\<close> takes the smallest
  free one and to which \<open>_mm_zreturn_obj\<close> gives one back.
\<close>

section \<open>The invariant\<close>

definition slab_used :: "('o, 'p, 'z) mm_heap_scheme \<Rightarrow> ptr \<Rightarrow> nat set" where
  "slab_used s mc = {i. bit (mc_alloc_bits s mc) i}"

definition slab_obj :: "('o, 'p, 'z) mm_heap_scheme \<Rightarrow> ptr \<Rightarrow> nat \<Rightarrow> ptr" where
  "slab_obj s mc i = mc_obj_ptr s mc + of_nat i * ucast (zone_obj_size s (mc_cache s mc))"

definition slab_ok :: "('o, 'p, 'z) mm_heap_scheme \<Rightarrow> ptr \<Rightarrow> bool" where
  "slab_ok s mc \<longleftrightarrow> mc \<noteq> 0 \<and> mc_cache s mc \<noteq> 0 \<and> zone_obj_size s (mc_cache s mc) \<noteq> 0 \<and>
     unat (mc_obj_count s mc) \<le> 64 \<and> slab_used s mc \<subseteq> {..< unat (mc_obj_count s mc)} \<and>
     unat (mc_free_count s mc) + card (slab_used s mc) = unat (mc_obj_count s mc) \<and>
     uint (mc_obj_count s mc) * uint (zone_obj_size s (mc_cache s mc)) < 2 ^ 32 \<and>
     uint (mc_obj_ptr s mc) + 2 ^ 32 < 2 ^ 64 \<and> mc_obj_ptr s mc \<noteq> 0"

section \<open>The lowest free bit\<close>

lemma bsf_NOT:
  assumes "NOT (w :: u64) \<noteq> 0"
  shows "\<exists>i < 64. bsf (NOT w) = int i \<and> \<not> bit w i \<and> (\<forall>j < i. bit w j)"
proof -
  let ?v = "NOT w" let ?i = "lsb_index (unat ?v)"
  have v: "unat ?v \<noteq> 0" using assms by (simp add: unat_eq_0)
  have b: "bit (unat ?v) ?i" "\<forall>j < ?i. \<not> bit (unat ?v) j" using lsb_index_bit v by blast+
  have "bit ?v ?i" using b(1) by (simp add: bit_unsigned_iff)
  then have "?i < 64" using bit_imp_le_length [of ?v ?i] by simp
  with b show ?thesis using assms by (auto simp: bsf_def bit_unsigned_iff bit_not_iff)
qed

lemma uint_pos: "0 < uint x \<longleftrightarrow> x \<noteq> 0" for x :: "'a::len word"
  using uint_ge_0 [of x] word_uint_eq_iff [of x 0] by (simp add: less_le)

lemma sint_of_int_u64: "0 \<le> k \<Longrightarrow> k < 2 ^ 63 \<Longrightarrow> sint (of_int k :: u64) = k"
  by (simp add: signed_of_int signed_take_bit_int_eq_self)

lemma sdiv_mult: "0 < z \<Longrightarrow> (int i * z) sdiv z = int i"
  by (cases "i = 0") (simp_all add: signed_divide_int_def abs_mult sgn_mult)

lemma bit_one_at: "i < 64 \<Longrightarrow> bit (push_bit i 1 :: u64) j \<longleftrightarrow> j = i"
  by (auto simp: bit_simps)

lemma and_one_at: "i < 64 \<Longrightarrow> w AND push_bit i 1 = 0 \<longleftrightarrow> \<not> bit w i" for w :: u64
proof -
  assume i: "i < 64"
  have "bit (w AND push_bit i 1) j \<longleftrightarrow> j = i \<and> bit w i" for j
    using bit_one_at [OF i] by (auto simp: bit_and_iff)
  then show ?thesis by (metis bit_0_eq bot_apply bot_bool_def bit_eq_iff)
qed

lemma bit_not_one_at: "bit w j \<Longrightarrow> bit (NOT (push_bit i 1) :: u64) j \<longleftrightarrow> j \<noteq> i" for w :: u64
  using bit_imp_le_length [of w j] by (auto simp: bit_simps)

section \<open>Fetching and returning an object\<close>

lemma slab_used_finite: "slab_ok s mc \<Longrightarrow> finite (slab_used s mc)"
  unfolding slab_ok_def using finite_subset by blast

lemma slab_next_free:
  assumes ok: "slab_ok s mc"
  shows "if mc_free_count s mc = 0 then mmc_next_free_obj s mc = -1
    else \<exists>i < unat (mc_obj_count s mc). mmc_next_free_obj s mc = int i \<and> i \<notin> slab_used s mc \<and> {..<i} \<subseteq> slab_used s mc"
proof -
  let ?w = "mc_alloc_bits s mc" let ?n = "unat (mc_obj_count s mc)" let ?U = "slab_used s mc"
  have n: "?n \<le> 64" and U: "?U \<subseteq> {..<?n}" and c: "unat (mc_free_count s mc) + card ?U = ?n"
    using ok by (simp_all add: slab_ok_def)
  have full: "mc_free_count s mc = 0 \<longleftrightarrow> ?U = {..<?n}"
  proof -
    have "?U = {..<?n} \<longleftrightarrow> card ?U = ?n" using card_subset_eq [of "{..<?n}" ?U] U by auto
    also have "\<dots> \<longleftrightarrow> unat (mc_free_count s mc) = 0" using c by linarith
    finally show ?thesis by (simp add: unat_eq_0)
  qed
  show ?thesis
  proof (cases "NOT ?w = 0")
    case True
    then have w: "?w = -1" by (metis bit.double_compl bit.compl_zero)
    have "?U = {i. i < 64}" unfolding slab_used_def w by (rule Collect_cong) (simp add: bit_minus_1_iff)
    then have "?U = {..<?n}" using U n by (simp only: set_eq_iff subset_iff mem_Collect_eq lessThan_iff) (meson less_le_trans)
    then show ?thesis using True full by (simp add: mmc_next_free_obj_def bsf_def)
  next
    case False
    obtain i where i: "bsf (NOT ?w) = int i" "\<not> bit ?w i" "\<forall>j < i. bit ?w j" using bsf_NOT [OF False] by blast
    have lo: "i \<notin> ?U" "{..<i} \<subseteq> ?U" using i by (auto simp: slab_used_def)
    show ?thesis
    proof (cases "i < ?n")
      case True
      then have "mc_free_count s mc \<noteq> 0" using full lo by auto
      moreover have "int i < uint (mc_obj_count s mc)" unfolding uint_nat using True by linarith
      then have "mmc_next_free_obj s mc = int i" by (simp add: mmc_next_free_obj_def Let_def i(1))
      ultimately show ?thesis using True lo by auto
    next
      case False
      then have "?U = {..<?n}" using lo U by auto
      then have "mc_free_count s mc = 0" using full by simp
      moreover have "uint (mc_obj_count s mc) \<le> int i" unfolding uint_nat using False by linarith
      then have "mmc_next_free_obj s mc = -1" by (simp add: mmc_next_free_obj_def Let_def i(1))
      ultimately show ?thesis by simp
    qed
  qed
qed

lemma uint_slab_off:
  assumes ok: "slab_ok s mc" and i: "i < unat (mc_obj_count s mc)"
  defines "z \<equiv> uint (zone_obj_size s (mc_cache s mc))"
  shows "uint (of_nat i * zone_obj_size s (mc_cache s mc) :: u32) = int i * z"
    and "uint (slab_obj s mc i) = uint (mc_obj_ptr s mc) + int i * z" and "int i * z < 2 ^ 32"
proof -
  have "int i \<le> uint (mc_obj_count s mc)" unfolding uint_nat using i by linarith
  then have "int i * z \<le> uint (mc_obj_count s mc) * z" by (rule mult_right_mono) (simp add: z_def)
  moreover have "uint (mc_obj_count s mc) * z < 2 ^ 32" using ok by (simp add: slab_ok_def z_def)
  ultimately show b: "int i * z < 2 ^ 32" by linarith
  have p: "0 \<le> int i * z" by (simp add: z_def)
  have "uint (of_int (int i * z) :: u32) = int i * z"
    using p b by (rule uint_of_int_u32)
  then show "uint (of_nat i * zone_obj_size s (mc_cache s mc) :: u32) = int i * z" by (simp add: z_def)
  have "slab_obj s mc i = of_int (uint (mc_obj_ptr s mc) + int i * z)" by (simp add: slab_obj_def z_def)
  moreover have "uint (mc_obj_ptr s mc) + int i * z < 2 ^ 64" using b ok by (simp add: slab_ok_def)
  ultimately show "uint (slab_obj s mc i) = uint (mc_obj_ptr s mc) + int i * z"
    using p by (simp only:) (rule uint_of_int_u64, simp_all)
qed

lemma slab_fetch_ok:
  assumes ok: "slab_ok s mc"
  shows "if mc_free_count s mc = 0 then mm_zfetch_obj mc s = Some (0, s)
    else \<exists>i s'. mm_zfetch_obj mc s = Some (slab_obj s mc i, s') \<and> i < unat (mc_obj_count s mc) \<and> i \<notin> slab_used s mc \<and>
      slab_ok s' mc \<and> slab_used s' mc = insert i (slab_used s mc) \<and> slab_obj s' mc = slab_obj s mc \<and>
      mc_obj_count s' mc = mc_obj_count s mc \<and> {..<i} \<subseteq> slab_used s mc \<and> slab_obj s mc i \<noteq> 0"
proof (cases "mc_free_count s mc = 0")
  case True
  then show ?thesis using slab_next_free [OF ok] ok by (simp add: mm_zfetch_obj_def slab_ok_def)
next
  case False
  then obtain i where i: "i < unat (mc_obj_count s mc)" "mmc_next_free_obj s mc = int i" "i \<notin> slab_used s mc"
      "{..<i} \<subseteq> slab_used s mc"
    using slab_next_free [OF ok] by auto
  let ?s = "s\<lparr>mc_alloc_bits := (mc_alloc_bits s)(mc := mc_alloc_bits s mc OR push_bit i 1),
               mc_free_count := (mc_free_count s)(mc := mc_free_count s mc - 1)\<rparr>"
  note off = uint_slab_off [OF ok i(1)]
  have i64: "i < 64" using i(1) ok by (simp add: slab_ok_def)
  have "ucast (of_nat i * zone_obj_size s (mc_cache s mc)) = (of_nat i * ucast (zone_obj_size s (mc_cache s mc)) :: u64)"
  proof -
    have "(ucast (of_nat i * zone_obj_size s (mc_cache s mc)) :: u64)
        = of_int (int i * uint (zone_obj_size s (mc_cache s mc)))" using off(1) by (simp add: unsigned_of_int flip: off(1))
    then show ?thesis by simp
  qed
  then have f: "mm_zfetch_obj mc s = Some (slab_obj s mc i, ?s)"
    using ok i(2) by (simp add: mm_zfetch_obj_def slab_ok_def slab_obj_def)
  have u: "slab_used ?s mc = insert i (slab_used s mc)"
    by (rule set_eqI) (auto simp: slab_used_def bit_or_iff bit_one_at [OF i64] simp del: push_bit_of_1)
  have c: "card (insert i (slab_used s mc)) = Suc (card (slab_used s mc))"
    using slab_used_finite [OF ok] i(3) by simp
  have "unat (mc_free_count s mc - 1) = unat (mc_free_count s mc) - 1" using False by (rule unat_minus_1)
  moreover have "unat (mc_free_count s mc) \<noteq> 0" using False by (simp add: unat_eq_0)
  ultimately have cnt: "unat (mc_free_count s mc - 1) + card (insert i (slab_used s mc)) =
      unat (mc_free_count s mc) + card (slab_used s mc)" using c by linarith
  have "slab_ok ?s mc" using ok i(1) cnt unfolding slab_ok_def u by simp
  moreover have "slab_obj s mc i \<noteq> 0"
  proof -
    have "0 < uint (mc_obj_ptr s mc)" using ok by (simp add: slab_ok_def uint_pos)
    then have "0 < uint (slab_obj s mc i)" unfolding off(2) by (intro add_pos_nonneg) simp_all
    then show ?thesis by (simp add: uint_pos)
  qed
  moreover have "slab_obj ?s mc = slab_obj s mc" by (rule ext) (simp add: slab_obj_def)
  ultimately show ?thesis using f u i(1,3,4) False by auto
qed

lemma slab_return_ok:
  assumes ok: "slab_ok s mc" and i: "i < unat (mc_obj_count s mc)"
  shows "if i \<in> slab_used s mc
    then \<exists>s'. mm_zreturn_obj mc (slab_obj s mc i) s = Some (0, s') \<and> slab_ok s' mc \<and>
      slab_used s' mc = slab_used s mc - {i} \<and> slab_obj s' mc = slab_obj s mc \<and>
      mc_obj_count s' mc = mc_obj_count s mc
    else mm_zreturn_obj mc (slab_obj s mc i) s = Some (-1, s)"
proof -
  let ?z = "uint (zone_obj_size s (mc_cache s mc))"
  note off = uint_slab_off [OF ok i]
  have z: "0 < ?z" using ok by (simp add: slab_ok_def uint_pos)
  have i64: "i < 64" using i ok by (simp add: slab_ok_def)
  have lt: "\<not> slab_obj s mc i < mc_obj_ptr s mc" using off(2) z by (simp add: word_less_def not_less)
  have "slab_obj s mc i - mc_obj_ptr s mc = of_int (int i * ?z)" by (simp add: slab_obj_def)
  moreover have "int i * ?z < 2 ^ 63" using off(3) by simp
  ultimately have "sint (slab_obj s mc i - mc_obj_ptr s mc) = int i * ?z"
    using z by (simp only:) (rule sint_of_int_u64, simp_all)
  then have idx: "sint (slab_obj s mc i - mc_obj_ptr s mc) sdiv ?z = int i"
    using z by (simp only: sdiv_mult)
  have n: "int i < uint (mc_obj_count s mc)" unfolding uint_nat using i by linarith
  have b: "mc_alloc_bits s mc AND push_bit i 1 = 0 \<longleftrightarrow> i \<notin> slab_used s mc"
    unfolding slab_used_def mem_Collect_eq and_one_at [OF i64] ..
  have nz: "mc \<noteq> 0" "mc_cache s mc \<noteq> 0" "zone_obj_size s (mc_cache s mc) \<noteq> 0" using ok by (simp_all add: slab_ok_def)
  show ?thesis
  proof (cases "i \<in> slab_used s mc")
    case False
    then show ?thesis using nz lt idx n b by (simp add: mm_zreturn_obj_def)
  next
    case True
    let ?s = "s\<lparr>mc_free_count := (mc_free_count s)(mc := mc_free_count s mc + 1),
                 mc_alloc_bits := (mc_alloc_bits s)(mc := mc_alloc_bits s mc AND NOT (push_bit i 1))\<rparr>"
    have f: "mm_zreturn_obj mc (slab_obj s mc i) s = Some (0, ?s)"
      using True nz lt idx n b by (simp add: mm_zreturn_obj_def)
    have u: "slab_used ?s mc = slab_used s mc - {i}"
      by (rule set_eqI) (auto simp: slab_used_def bit_and_iff bit_not_one_at simp del: push_bit_of_1)
    have c: "Suc (card (slab_used s mc - {i})) = card (slab_used s mc)"
      using slab_used_finite [OF ok] True by (rule card_Suc_Diff1)
    have "unat (mc_free_count s mc) + card (slab_used s mc) \<le> 64" using ok by (simp add: slab_ok_def)
    then have "unat (mc_free_count s mc + 1) = Suc (unat (mc_free_count s mc))" by (simp add: unat_word_ariths)
    then have "unat (mc_free_count s mc + 1) + card (slab_used s mc - {i}) =
      unat (mc_free_count s mc) + card (slab_used s mc)" using c by linarith
    moreover have "slab_used s mc - {i} \<subseteq> slab_used s mc" by blast
    ultimately have "slab_ok ?s mc" using ok unfolding slab_ok_def u by auto
    moreover have "slab_obj ?s mc = slab_obj s mc" by (rule ext) (simp add: slab_obj_def)
    ultimately show ?thesis using f u True by auto
  qed
qed

section \<open>What a slab promises\<close>

lemma slab_full_empty:
  assumes ok: "slab_ok s mc"
  shows "mm_zcache_full s mc \<longleftrightarrow> slab_used s mc = {..<unat (mc_obj_count s mc)}"
    and "mm_zcache_empty s mc \<longleftrightarrow> slab_used s mc = {}"
    and "mc_free_count s mc = 0 \<longleftrightarrow> slab_used s mc = {..<unat (mc_obj_count s mc)}"
proof -
  let ?n = "unat (mc_obj_count s mc)" let ?f = "unat (mc_free_count s mc)" let ?U = "slab_used s mc"
  have U: "?U \<subseteq> {..<?n}" and c: "?f + card ?U = ?n" using ok by (simp_all add: slab_ok_def)
  have "?U = {..<?n} \<longleftrightarrow> card ?U = ?n" using card_subset_eq [of "{..<?n}" ?U] U by auto
  then have "?f = 0 \<longleftrightarrow> ?U = {..<?n}" using c by linarith
  then show "mc_free_count s mc = 0 \<longleftrightarrow> ?U = {..<?n}" by (simp add: unat_eq_0)
  then show "mm_zcache_full s mc \<longleftrightarrow> ?U = {..<?n}" by (simp add: mm_zcache_full_def)
  have "?U = {} \<longleftrightarrow> card ?U = 0" using slab_used_finite [OF ok] by simp
  also have "\<dots> \<longleftrightarrow> ?n \<le> ?f" using c by linarith
  finally show "mm_zcache_empty s mc \<longleftrightarrow> ?U = {}" by (simp add: mm_zcache_empty_def word_le_nat_alt)
qed

lemma count_bits_card: "i + n \<le> 64 \<Longrightarrow> count_bits w n i = int (card {j. i \<le> j \<and> j < i + n \<and> bit w j})"
proof (induction w n i rule: count_bits.induct)
  case (1 w i)
  then show ?case by simp
next
  case (2 w n i)
  let ?A = "{j. Suc i \<le> j \<and> j < Suc i + n \<and> bit w j}"
  have "{j. i \<le> j \<and> j < i + Suc n \<and> bit w j} = (if bit w i then insert i ?A else ?A)"
    by (auto simp: less_Suc_eq_le Suc_le_eq le_less)
  moreover have "finite ?A" by (rule finite_subset [of _ "{..<Suc i + n}"]) auto
  moreover have "(w AND push_bit i 1 = 0) = (\<not> bit w i)" using 2(2) by (intro and_one_at) simp
  ultimately show ?case using 2 by (simp del: push_bit_of_1)
qed

lemma slab_check_ok: "slab_ok s mc \<Longrightarrow> check_alloc_bits s mc = 0"
proof -
  assume ok: "slab_ok s mc"
  have n: "unat (mc_obj_count s mc) \<le> 64" and U: "slab_used s mc \<subseteq> {..<unat (mc_obj_count s mc)}"
    and c: "unat (mc_free_count s mc) + card (slab_used s mc) = unat (mc_obj_count s mc)"
    using ok by (simp_all add: slab_ok_def)
  have "slab_used s mc = {j. 0 \<le> j \<and> j < 0 + 64 \<and> bit (mc_alloc_bits s mc) j}"
    using U n by (auto simp: slab_used_def)
  then have "count_bits (mc_alloc_bits s mc) 64 0 = int (card (slab_used s mc))"
    using count_bits_card [of 0 64 "mc_alloc_bits s mc"] by simp
  moreover have "int (card (slab_used s mc)) = uint (mc_obj_count s mc) - uint (mc_free_count s mc)"
    unfolding uint_nat using c by linarith
  ultimately show ?thesis by (simp add: check_alloc_bits_def)
qed

text \<open>
  C12.  A slab hands out the smallest free object and nothing when it is full; the objects have disjoint
  places; returning one gives it back, and returning it twice is refused and changes nothing.  The
  counter that the full and the empty test read stays equal to the number of clear bits, so the
  diagnostic \<open>_check_alloc_bits\<close> never fires.
\<close>

theorem slab_fetch_return:
  assumes ok: "slab_ok s mc"
  defines "n \<equiv> unat (mc_obj_count s mc)"
  shows "(mm_zcache_full s mc \<longleftrightarrow> slab_used s mc = {..<n}) \<and> (mm_zcache_empty s mc \<longleftrightarrow> slab_used s mc = {}) \<and>
    check_alloc_bits s mc = 0 \<and>
    (if slab_used s mc = {..<n} then mm_zfetch_obj mc s = Some (0, s)
     else \<exists>i s'. mm_zfetch_obj mc s = Some (slab_obj s mc i, s') \<and> slab_obj s mc i \<noteq> 0 \<and> i < n \<and>
       i \<notin> slab_used s mc \<and> {..<i} \<subseteq> slab_used s mc \<and> slab_ok s' mc \<and> slab_used s' mc = insert i (slab_used s mc) \<and>
       slab_obj s' mc = slab_obj s mc) \<and>
    (\<forall>i < n. if i \<notin> slab_used s mc then mm_zreturn_obj mc (slab_obj s mc i) s = Some (-1, s)
      else \<exists>s'. mm_zreturn_obj mc (slab_obj s mc i) s = Some (0, s') \<and> slab_ok s' mc \<and>
        slab_used s' mc = slab_used s mc - {i} \<and> slab_obj s' mc = slab_obj s mc \<and>
        mm_zreturn_obj mc (slab_obj s mc i) s' = Some (-1, s')) \<and>
    (\<forall>i j. i < j \<and> j < n \<longrightarrow>
      uint (slab_obj s mc i) + uint (zone_obj_size s (mc_cache s mc)) \<le> uint (slab_obj s mc j))"
proof (intro conjI allI impI)
  show "mm_zcache_full s mc \<longleftrightarrow> slab_used s mc = {..<n}" "mm_zcache_empty s mc \<longleftrightarrow> slab_used s mc = {}"
    unfolding n_def by (rule slab_full_empty [OF ok])+
  show "check_alloc_bits s mc = 0" by (rule slab_check_ok [OF ok])
  show "if slab_used s mc = {..<n} then mm_zfetch_obj mc s = Some (0, s)
     else \<exists>i s'. mm_zfetch_obj mc s = Some (slab_obj s mc i, s') \<and> slab_obj s mc i \<noteq> 0 \<and> i < n \<and>
       i \<notin> slab_used s mc \<and> {..<i} \<subseteq> slab_used s mc \<and> slab_ok s' mc \<and> slab_used s' mc = insert i (slab_used s mc) \<and>
       slab_obj s' mc = slab_obj s mc"
    using slab_fetch_ok [OF ok] unfolding slab_full_empty(3) [OF ok] n_def by (auto split: if_splits)
next
  fix i
  assume i: "i < n"
  have twice: "mm_zreturn_obj mc (slab_obj s mc i) s' = Some (-1, s')"
    if "slab_ok s' mc" "slab_used s' mc = slab_used s mc - {i}" "slab_obj s' mc = slab_obj s mc"
       "mc_obj_count s' mc = mc_obj_count s mc" for s' :: "('a, 'b, 'c) mm_heap_scheme"
    using slab_return_ok [of s' mc i] that i by (simp add: n_def)
  show "if i \<notin> slab_used s mc then mm_zreturn_obj mc (slab_obj s mc i) s = Some (-1, s)
      else \<exists>s'. mm_zreturn_obj mc (slab_obj s mc i) s = Some (0, s') \<and> slab_ok s' mc \<and>
        slab_used s' mc = slab_used s mc - {i} \<and> slab_obj s' mc = slab_obj s mc \<and>
        mm_zreturn_obj mc (slab_obj s mc i) s' = Some (-1, s')"
    using slab_return_ok [OF ok i [unfolded n_def]] twice by (auto split: if_splits)
next
  fix i j
  let ?z = "uint (zone_obj_size s (mc_cache s mc))"
  assume ij: "i < j \<and> j < n"
  have "int (Suc i) * ?z \<le> int j * ?z" using ij by (intro mult_right_mono) simp_all
  then have "int i * ?z + ?z \<le> int j * ?z" by (simp add: algebra_simps)
  then show "uint (slab_obj s mc i) + ?z \<le> uint (slab_obj s mc j)"
    using uint_slab_off(2) [OF ok, of i] uint_slab_off(2) [OF ok, of j] ij by (simp add: n_def)
qed

lemma slab_ex: "slab_ok mm_ex 0x6000" "slab_used mm_ex 0x6000 = {0}" "slab_obj mm_ex 0x6000 1 = 0x6058"
proof -
  show u: "slab_used mm_ex 0x6000 = {0}" by (auto simp: slab_used_def mm_ex_def bit_1_iff)
  show "slab_ok mm_ex 0x6000" unfolding slab_ok_def u by (simp add: mm_ex_def)
  show "slab_obj mm_ex 0x6000 1 = 0x6058" by (simp add: slab_obj_def mm_ex_def)
qed

theorem slab_fetch_return_witness:
  "\<exists>s'. mm_zfetch_obj 0x6000 mm_ex = Some (0x6058, s') \<and> slab_ok s' 0x6000 \<and> slab_used s' 0x6000 = {0, 1}"
proof -
  have n: "unat (mc_obj_count mm_ex 0x6000) = 5" by (simp add: mm_ex_def)
  have "(1 :: nat) \<in> {..<5}" and "(1 :: nat) \<notin> {0}" by simp_all
  then have ne: "{0 :: nat} \<noteq> {..<5}" by metis
  obtain i s' where i: "mm_zfetch_obj 0x6000 mm_ex = Some (slab_obj mm_ex 0x6000 i, s')" "i \<notin> {0}" "{..<i} \<subseteq> {0}"
    "slab_ok s' 0x6000" "slab_used s' 0x6000 = insert i {0}"
    using slab_fetch_return [OF slab_ex(1), THEN conjunct2, THEN conjunct2, THEN conjunct2, THEN conjunct1]
    unfolding slab_ex(2) n if_not_P [OF ne] by (elim exE conjE) (rule that)
  have one: "i = 1"
  proof (rule ccontr)
    assume "i \<noteq> 1"
    then have "1 \<in> {..<i}" using i(2) by simp
    with i(3) have "1 \<in> {0 :: nat}" by (rule subsetD)
    then show False by simp
  qed
  have "mm_zfetch_obj 0x6000 mm_ex = Some (0x6058, s')" using i(1) unfolding one slab_ex(3) .
  moreover have "slab_used s' 0x6000 = {0, 1}" using i(5) unfolding one by (simp only: insert_commute)
  ultimately show ?thesis using i(4) by blast
qed

end
