(* ===== verification/Mmcache_Pool.thy ===== *)
theory Mmcache_Pool
  imports Mmcache_Spec Dlist_Family
begin

text \<open>
  A zone as what it promises: a set of objects in use.  \<open>zone_ok s z A\<close> says that the lists of full, empty and
  partial slabs of the zone at \<open>z\<close> are lists of the family \<open>A\<close>, that their slabs lie apart in memory, and that
  each slab is on the list its objects in use call for.  \<open>mm_cache_alloc\<close> and \<open>mm_cache_free\<close> keep it.
\<close>

section \<open>The place of a slab\<close>

abbreviation page_bytes :: "('o, 'p, 'z) mm_heap_scheme \<Rightarrow> int" where "page_bytes s \<equiv> uint (page_size (cache_cfg s))"
abbreviation slab_bytes :: "('o, 'p, 'z) mm_heap_scheme \<Rightarrow> ptr \<Rightarrow> int" where "slab_bytes s z \<equiv> uint (zone_cache_size s z)"
abbreviation obj_bytes :: "('o, 'p, 'z) mm_heap_scheme \<Rightarrow> ptr \<Rightarrow> int" where "obj_bytes s z \<equiv> uint (zone_obj_size s z)"

text \<open>
  Slabs are made of whole pages of a power of two bytes, not more than \<open>_cache_of_obj\<close> looks at, and hold their
  descriptor and two objects at least.
\<close>

definition zone_layout :: "('o, 'p, 'z) mm_heap_scheme \<Rightarrow> ptr \<Rightarrow> bool" where
  "zone_layout s z \<longleftrightarrow> (\<exists>k. page_bytes s = 2 ^ k) \<and> page_bytes s dvd slab_bytes s z \<and> slab_bytes s z < 2 ^ 32 \<and>
     slab_bytes s z \<le> page_bytes s * uint (maxpg_count (cache_cfg s)) \<and> 0 < obj_bytes s z \<and>
     48 + 2 * obj_bytes s z \<le> slab_bytes s z \<and> (slab_bytes s z - 48) div obj_bytes s z < 2 ^ 16"

definition slab_count :: "('o, 'p, 'z) mm_heap_scheme \<Rightarrow> ptr \<Rightarrow> nat" where
  "slab_count s z = nat (min 64 ((slab_bytes s z - 48) div obj_bytes s z))"

definition slab_region :: "('o, 'p, 'z) mm_heap_scheme \<Rightarrow> ptr \<Rightarrow> ptr \<Rightarrow> int set" where
  "slab_region s z mc = {uint mc ..< uint mc + slab_bytes s z}"

text \<open>No page of a slab but the first begins with the label: \<open>_cache_of_obj\<close> looks for the nearest one.\<close>

definition slab_placed :: "('o, 'p, 'z) mm_heap_scheme \<Rightarrow> ptr \<Rightarrow> ptr \<Rightarrow> bool" where
  "slab_placed s z mc \<longleftrightarrow> mc \<noteq> 0 \<and> page_bytes s dvd uint mc \<and> uint mc + 2 ^ 33 \<le> 2 ^ 64 \<and>
     (\<forall>j > 0. j * page_bytes s < slab_bytes s z \<longrightarrow> mc_label s (mc + of_int (j * page_bytes s)) \<noteq> SLAB_LABEL)"

definition zone_slab :: "('o, 'p, 'z) mm_heap_scheme \<Rightarrow> ptr \<Rightarrow> ptr \<Rightarrow> bool" where
  "zone_slab s z mc \<longleftrightarrow> slab_ok s mc \<and> slab_placed s z mc \<and> mc_cache s mc = z \<and> mc_label s mc = SLAB_LABEL \<and>
     unat (mc_obj_count s mc) = slab_count s z \<and>
     uint (mc_obj_ptr s mc) = uint mc + slab_bytes s z - int (slab_count s z) * obj_bytes s z"

lemma slab_count_bounds:
  assumes "zone_layout s z"
  shows "1 < slab_count s z" and "slab_count s z \<le> 64" and "int (slab_count s z) * obj_bytes s z + 48 \<le> slab_bytes s z"
proof -
  have z: "0 < obj_bytes s z" "2 * obj_bytes s z \<le> slab_bytes s z - 48" using assms by (auto simp: zone_layout_def)
  have two: "2 \<le> (slab_bytes s z - 48) div obj_bytes s z" using zdiv_mono1 [OF z(2) z(1)] z(1) by simp
  then show "1 < slab_count s z" "slab_count s z \<le> 64" by (simp_all add: slab_count_def)
  have "int (slab_count s z) \<le> (slab_bytes s z - 48) div obj_bytes s z" using two by (simp add: slab_count_def)
  then have "int (slab_count s z) * obj_bytes s z \<le> (slab_bytes s z - 48) div obj_bytes s z * obj_bytes s z"
    using z(1) by (intro mult_right_mono) simp_all
  also have "\<dots> \<le> slab_bytes s z - 48" using z(1) by (simp add: div_mult_mod_eq [symmetric] minus_mod_eq_div_mult [symmetric])
  finally show "int (slab_count s z) * obj_bytes s z + 48 \<le> slab_bytes s z" by simp
qed

text \<open>The objects fill the end of the slab.\<close>

lemma slab_obj_place:
  assumes "zone_layout s z" and "zone_slab s z mc" and "i < slab_count s z"
  shows "uint mc + 48 + int i * obj_bytes s z \<le> uint (slab_obj s mc i)"
    and "uint (slab_obj s mc i) + obj_bytes s z \<le> uint mc + slab_bytes s z"
    and "uint (slab_obj s mc i) = uint (mc_obj_ptr s mc) + int i * obj_bytes s z"
proof -
  have c: "mc_cache s mc = z" "uint (mc_obj_ptr s mc) = uint mc + slab_bytes s z - int (slab_count s z) * obj_bytes s z"
    and ok: "slab_ok s mc" "i < unat (mc_obj_count s mc)" using assms(2,3) by (simp_all add: zone_slab_def)
  show u: "uint (slab_obj s mc i) = uint (mc_obj_ptr s mc) + int i * obj_bytes s z"
    using uint_slab_off(2) [OF ok] by (simp only: c(1))
  show "uint mc + 48 + int i * obj_bytes s z \<le> uint (slab_obj s mc i)"
    unfolding u c(2) using slab_count_bounds(3) [OF assms(1)] by linarith
  have "int (Suc i) * obj_bytes s z \<le> int (slab_count s z) * obj_bytes s z"
    using assms(3) by (intro mult_right_mono) simp_all
  then show "uint (slab_obj s mc i) + obj_bytes s z \<le> uint mc + slab_bytes s z"
    unfolding u c(2) by (simp add: algebra_simps)
qed

text \<open>The sizes \<open>mm_cache_create\<close> computes are of this kind, for pages up to 256 kilobytes and objects up to 64 megabytes.\<close>

lemma cache_create_layout:
  assumes pg: "page_bytes s = 2 ^ k" "k \<le> 18" and max: "page_bytes s * uint (maxpg_count (cache_cfg s)) < 2 ^ 32"
    and n: "0 < uint (n :: u32)" "uint n \<le> 2 ^ 26" and sz: "zone_obj_size s z = ucast (round_up (ucast n) 8)"
    and C: "zone_cache_size s z = round_up (ucast (zone_obj_size s z * CACHE_OBJ_COUNT) + 48) (ucast (page_size (cache_cfg s)))"
    and guard: "\<not> zone_cache_size s z \<ge> ucast (page_size (cache_cfg s) * maxpg_count (cache_cfg s))"
  shows "zone_layout s z"
proof -
  let ?R = "uint (round_up (ucast n) (2 ^ 3))" and ?v = "ucast (zone_obj_size s z * CACHE_OBJ_COUNT) + 48 :: u64"
  have "uint (ucast n :: u64) + 2 ^ 3 \<le> 2 ^ 64" using n(2) by (simp add: uint_ucast_32)
  from round_up_uint [OF _ this] have R: "2 ^ 3 dvd ?R" "uint n \<le> ?R" "?R < uint n + 8" by (simp_all add: uint_ucast_32)
  then have R8: "8 \<le> ?R" using n(1) by (auto elim: dvdE)
  have Rb: "?R < 2 ^ 26 + 8" using R(3) n(2) by linarith
  have "zone_obj_size s z = of_int ?R" using sz unfolding ucast_eq by simp
  then have o: "obj_bytes s z = ?R" using uint_of_int_u32 [of ?R] R8 Rb by simp
  have "zone_obj_size s z * CACHE_OBJ_COUNT = of_int (?R * 32)" using o word_of_int_uint [of "zone_obj_size s z"] by (simp add: CACHE_OBJ_COUNT_def)
  then have "uint (zone_obj_size s z * CACHE_OBJ_COUNT) = ?R * 32" using uint_of_int_u32 [of "?R * 32"] R8 Rb by simp
  then have "?v = of_int (?R * 32 + 48)" unfolding ucast_eq by (simp only: of_int_add of_int_numeral)
  then have v: "uint ?v = ?R * 32 + 48" using uint_of_int_u64 [of "?R * 32 + 48"] R8 Rb by simp
  have page: "(ucast (page_size (cache_cfg s)) :: u64) = 2 ^ k" unfolding ucast_eq pg(1) by simp
  have k: "(2 :: int) ^ k \<le> 2 ^ 18" using pg(2) by (rule power_increasing) simp
  then have "uint ?v + 2 ^ k \<le> 2 ^ 64" using v Rb by simp
  from round_up_uint [OF _ this] pg(2) have c: "2 ^ k dvd slab_bytes s z" "uint ?v \<le> slab_bytes s z" "slab_bytes s z < uint ?v + 2 ^ k"
    unfolding C page by simp_all
  have "uint (page_size (cache_cfg s) * maxpg_count (cache_cfg s)) = page_bytes s * uint (maxpg_count (cache_cfg s))"
    using max by (simp add: uint_mult_lem [symmetric])
  then have g: "slab_bytes s z < page_bytes s * uint (maxpg_count (cache_cfg s))" using guard by (simp add: word_le_def uint_ucast_32 not_le)
  let ?d = "(slab_bytes s z - 48) div ?R"
  have d: "?d * ?R \<le> slab_bytes s z - 48" using R8 by (simp add: minus_mod_eq_div_mult [symmetric])
  have "?d < 2 ^ 16"
  proof (rule ccontr)
    assume "\<not> ?d < 2 ^ 16"
    then have "65536 * ?R \<le> ?d * ?R" using R8 by (intro mult_right_mono) simp_all
    moreover have "(2 :: int) ^ k \<le> 262144" using k by simp
    ultimately show False using d c(3) v R8 by linarith
  qed
  then show ?thesis using pg(1) c v g max R8 unfolding zone_layout_def o by auto
qed

section \<open>From an object to its slab\<close>

lemma page_at:
  assumes l: "zone_layout s z" and p: "slab_placed s z mc" and q: "0 \<le> q" "q * page_bytes s < slab_bytes s z"
  shows "uint (of_int q * page_size (cache_cfg s) :: u32) = q * page_bytes s"
    and "uint (mc + of_int (q * page_bytes s)) = uint mc + q * page_bytes s" and "0 \<le> q * page_bytes s"
    and "mc + of_int (q * page_bytes s) \<noteq> 0"
proof -
  have b: "slab_bytes s z < 2 ^ 32" using l by (simp add: zone_layout_def)
  show nn: "0 \<le> q * page_bytes s" using q(1) by simp
  have "uint (of_int (q * page_bytes s) :: u32) = q * page_bytes s" by (rule uint_of_int_u32) (use nn q(2) b in linarith)+
  then show "uint (of_int q * page_size (cache_cfg s) :: u32) = q * page_bytes s" by simp
  have "uint (of_int (uint mc + q * page_bytes s) :: u64) = uint mc + q * page_bytes s"
    by (rule uint_of_int_u64) (use nn q(2) b p in \<open>simp_all add: slab_placed_def\<close>)
  then show u: "uint (mc + of_int (q * page_bytes s)) = uint mc + q * page_bytes s" by simp
  have "0 < uint mc" using p by (simp add: slab_placed_def uint_pos)
  then show "mc + of_int (q * page_bytes s) \<noteq> 0" using u nn uint_pos [of "mc + of_int (q * page_bytes s)"] by linarith
qed

lemma page_index:
  assumes l: "zone_layout s z" and i: "int i * page_bytes s < slab_bytes s z"
  shows "uint (of_nat i :: u32) = int i" and "(of_nat i :: u32) < maxpg_count (cache_cfg s)"
proof -
  have p: "0 < page_bytes s" using l by (auto simp: zone_layout_def)
  have "int i * 1 \<le> int i * page_bytes s" using p by (intro mult_left_mono) simp_all
  then have "int i < 2 ^ 32" using i l unfolding zone_layout_def by linarith
  then show u: "uint (of_nat i :: u32) = int i" using uint_of_int_u32 [of "int i"] by simp
  have "int i * page_bytes s < uint (maxpg_count (cache_cfg s)) * page_bytes s"
    using i l by (simp add: zone_layout_def mult.commute)
  then have "int i < uint (maxpg_count (cache_cfg s))" using p by (simp add: mult_less_cancel_right)
  then show "(of_nat i :: u32) < maxpg_count (cache_cfg s)" unfolding word_less_def u .
qed

lemma page_back:
  assumes l: "zone_layout s z" and p: "slab_placed s z mc" and b: "int (q + i) * page_bytes s < slab_bytes s z"
  shows "mc + of_int (int (q + i) * page_bytes s) - ucast (of_nat i * page_size (cache_cfg s)) = mc + of_int (int q * page_bytes s)"
    and "int q * page_bytes s < slab_bytes s z" and "int i * page_bytes s < slab_bytes s z"
proof -
  have "int q * page_bytes s \<le> int (q + i) * page_bytes s" "int i * page_bytes s \<le> int (q + i) * page_bytes s"
    by (intro mult_right_mono; simp)+
  then show "int q * page_bytes s < slab_bytes s z" and i: "int i * page_bytes s < slab_bytes s z" using b by linarith+
  have "uint (of_nat i * page_size (cache_cfg s) :: u32) = int i * page_bytes s" using page_at(1) [OF l p _ i] by simp
  then have "(ucast (of_nat i * page_size (cache_cfg s)) :: u64) = of_int (int i * page_bytes s)" unfolding ucast_eq by (simp only:)
  then show "mc + of_int (int (q + i) * page_bytes s) - ucast (of_nat i * page_size (cache_cfg s)) = mc + of_int (int q * page_bytes s)"
    by (simp add: algebra_simps)
qed

lemma cache_of_obj_walk:
  assumes l: "zone_layout s z" and c: "zone_slab s z mc"
  shows "int (q + i) * page_bytes s < slab_bytes s z \<Longrightarrow>
    cache_of_obj_loop (mc + of_int (int (q + i) * page_bytes s)) (of_nat i) s = Some mc"
proof (induction q arbitrary: i)
  case (Suc q)
  have p: "slab_placed s z mc" using c by (simp add: zone_slab_def)
  note pb = page_back [OF l p Suc.prems]
  have n: "\<forall>j > 0. j * page_bytes s < slab_bytes s z \<longrightarrow> mc_label s (mc + of_int (j * page_bytes s)) \<noteq> SLAB_LABEL"
    using p by (simp add: slab_placed_def)
  define x where "x = mc + of_int (int (Suc q) * page_bytes s)"
  have x: "mc_label s x \<noteq> SLAB_LABEL" "x \<noteq> 0"
    using n [rule_format, OF _ pb(2)] page_at(4) [OF l p _ pb(2)] unfolding x_def by simp_all
  have "cache_of_obj_loop (mc + of_int (int (Suc q + i) * page_bytes s)) (of_nat i + 1) s = Some mc"
    using Suc.IH [of "Suc i"] Suc.prems by (simp add: add.commute)
  then show ?case using page_index(2) [OF l pb(3)] x
    by (subst cache_of_obj_loop.simps) (simp only: pb(1) x_def [symmetric] if_True, simp)
next
  case 0
  have p: "slab_placed s z mc" and lab: "mc_label s mc = SLAB_LABEL" "mc \<noteq> 0" using c by (simp_all add: zone_slab_def slab_placed_def)
  note pb = page_back [OF l p 0]
  have b: "mc + of_int (int (0 + i) * page_bytes s) - ucast (of_nat i * page_size (cache_cfg s)) = mc" using pb(1) by simp
  show ?case using page_index(2) [OF l pb(3)] lab
    by (subst cache_of_obj_loop.simps) (simp only: b if_True, simp)
qed

text \<open>Every object of a slab is traced back to it.\<close>

lemma cache_of_obj_ok:
  assumes l: "zone_layout s z" and c: "zone_slab s z mc" and i: "i < slab_count s z" and m: "the_mmspace s \<noteq> 0"
  shows "cache_of_obj (slab_obj s mc i) s = Some mc"
proof -
  obtain k where k: "page_bytes s = 2 ^ k" using l by (auto simp: zone_layout_def)
  have k32: "k < 32" using k uint_lt2p [of "page_size (cache_cfg s)"] power_less_imp_less_exp [of "2 :: int" k 32] by simp
  have p: "slab_placed s z mc" using c by (simp add: zone_slab_def)
  define d where "d = uint (slab_obj s mc i) - uint mc"
  have nn: "0 \<le> int i * obj_bytes s z" "0 < obj_bytes s z" using l by (simp_all add: zone_layout_def)
  have d: "0 \<le> d" "d < slab_bytes s z" using slab_obj_place(1,2) [OF l c i] nn unfolding d_def by linarith+
  define q where "q = nat (d div page_bytes s)"
  have q: "int q = d div page_bytes s" using d(1) by (simp add: q_def pos_imp_zdiv_nonneg_iff k)
  have "int q * page_bytes s \<le> d" unfolding q using d(1) k by (simp add: minus_mod_eq_div_mult [symmetric])
  then have b: "int q * page_bytes s < slab_bytes s z" using d(2) by linarith
  have "uint (slab_obj s mc i) = uint mc + d" by (simp add: d_def)
  moreover have "uint mc mod 2 ^ k = 0" using p k by (simp add: slab_placed_def)
  ultimately have "uint (slab_obj s mc i) - uint (slab_obj s mc i) mod 2 ^ k = uint mc + int q * page_bytes s"
    unfolding q k by (simp add: minus_mod_eq_div_mult mod_add_eq [symmetric])
  moreover have "int (unat (slab_obj s mc i) - unat (slab_obj s mc i) mod 2 ^ k) = uint (slab_obj s mc i) - uint (slab_obj s mc i) mod 2 ^ k"
    by (simp only: uint_nat of_nat_diff mod_less_eq_dividend of_nat_mod of_nat_power of_nat_numeral)
  moreover have pg: "(ucast (page_size (cache_cfg s)) :: u64) = 2 ^ k" unfolding ucast_eq k by simp
  ultimately have "uint (round_down (slab_obj s mc i) (ucast (page_size (cache_cfg s)))) = uint (mc + of_int (int q * page_bytes s))"
    using page_at(2) [OF l p _ b] by (simp only: uint_nat unat_round_down)
  then have "round_down (slab_obj s mc i) (ucast (page_size (cache_cfg s))) = mc + of_int (int (q + 0) * page_bytes s)"
    by (simp add: word_uint_eq_iff)
  then show ?thesis using cache_of_obj_walk [OF l c, of q 0] b m by (simp add: cache_of_obj_def)
qed

section \<open>The slabs of a zone\<close>

definition zone_lists :: "ptr \<Rightarrow> ptr set" where
  "zone_lists z = {full_slab_list z, empty_slab_list z, partial_slab_list z}"

definition slabs_on :: "(ptr \<Rightarrow> ptr list option) \<Rightarrow> ptr \<Rightarrow> ptr set" where
  "slabs_on A l = conv_cache ` set (the (A l))"

definition zone_slabs :: "(ptr \<Rightarrow> ptr list option) \<Rightarrow> ptr \<Rightarrow> ptr set" where
  "zone_slabs A z = (\<Union>l \<in> zone_lists z. slabs_on A l)"

text \<open>The list a slab belongs to, by the objects \<open>U\<close> of it that are in use, out of \<open>n\<close>.\<close>

definition slab_class :: "ptr \<Rightarrow> ptr \<Rightarrow> nat set \<Rightarrow> nat \<Rightarrow> bool" where
  "slab_class z l U n \<longleftrightarrow> (if l = full_slab_list z then U = {..<n} else if l = empty_slab_list z then U = {} else U \<noteq> {} \<and> U \<noteq> {..<n})"

text \<open>The invariant; the slabs in \<open>M\<close> may be on another list, between two steps of an operation.\<close>

definition zone_inv :: "ptr set \<Rightarrow> ('o, 'p, 'z) mm_heap_scheme \<Rightarrow> ptr \<Rightarrow> (ptr \<Rightarrow> ptr list option) \<Rightarrow> bool" where
  "zone_inv M s z A \<longleftrightarrow> z \<noteq> 0 \<and> the_mmspace s \<noteq> 0 \<and> zone_layout s z \<and> dl.family (links s) A \<and> zone_lists z \<subseteq> dom A \<and>
     (\<forall>mc \<in> zone_slabs A z. zone_slab s z mc) \<and>
     (\<forall>l \<in> zone_lists z. \<forall>mc \<in> slabs_on A l - M. slab_class z l (slab_used s mc) (slab_count s z)) \<and>
     (\<forall>mc \<in> zone_slabs A z. \<forall>mc' \<in> zone_slabs A z. mc \<noteq> mc' \<longrightarrow> slab_region s z mc \<inter> slab_region s z mc' = {})"

abbreviation zone_ok :: "('o, 'p, 'z) mm_heap_scheme \<Rightarrow> ptr \<Rightarrow> (ptr \<Rightarrow> ptr list option) \<Rightarrow> bool" where "zone_ok \<equiv> zone_inv {}"

definition objs_in_use :: "('o, 'p, 'z) mm_heap_scheme \<Rightarrow> ptr \<Rightarrow> (ptr \<Rightarrow> ptr list option) \<Rightarrow> ptr set" where
  "objs_in_use s z A = (\<Union>mc \<in> zone_slabs A z. slab_obj s mc ` slab_used s mc)"

lemma zone_invD:
  assumes "zone_inv M s z A"
  shows "z \<noteq> 0" and "the_mmspace s \<noteq> 0" and "zone_layout s z" and "dl.family (links s) A" and "zone_lists z \<subseteq> dom A"
    and "mc \<in> zone_slabs A z \<Longrightarrow> zone_slab s z mc"
    and "l \<in> zone_lists z \<Longrightarrow> mc \<in> slabs_on A l \<Longrightarrow> mc \<notin> M \<Longrightarrow> slab_class z l (slab_used s mc) (slab_count s z)"
    and "mc \<in> zone_slabs A z \<Longrightarrow> mc' \<in> zone_slabs A z \<Longrightarrow> mc \<noteq> mc' \<Longrightarrow> slab_region s z mc \<inter> slab_region s z mc' = {}"
  using assms by (simp_all add: zone_inv_def)

lemma slabs_on_mem: "mc \<in> slabs_on A l \<longleftrightarrow> mc_list_node mc \<in> set (the (A l))"
  by (force simp: slabs_on_def image_iff)

lemma zone_slabsI: "l \<in> zone_lists z \<Longrightarrow> mc \<in> slabs_on A l \<Longrightarrow> mc \<in> zone_slabs A z"
  by (auto simp: zone_slabs_def)

lemma zone_lists_simps [simp]:
  "full_slab_list z \<in> zone_lists z" "empty_slab_list z \<in> zone_lists z" "partial_slab_list z \<in> zone_lists z"
  by (simp_all add: zone_lists_def)

text \<open>A slab is on one list only.\<close>

lemma slab_one_list:
  assumes "zone_inv M s z A" and "l \<in> zone_lists z" "l' \<in> zone_lists z" and "mc \<in> slabs_on A l" "mc \<in> slabs_on A l'"
  shows "l = l'"
proof -
  obtain xs ys where "A l = Some xs" "A l' = Some ys" using zone_invD(5) [OF assms(1)] assms(2,3) by blast
  then show ?thesis using dl.family_unique [OF zone_invD(4) [OF assms(1)], of l xs l' ys "mc_list_node mc"] assms(4,5)
    by (simp add: slabs_on_mem)
qed

text \<open>Objects of a zone lie apart.\<close>

lemma zone_objs_apart:
  assumes inv: "zone_inv M s z A" and mc: "mc \<in> zone_slabs A z" "i < slab_count s z"
    and mc': "mc' \<in> zone_slabs A z" "i' < slab_count s z" and ne: "(mc, i) \<noteq> (mc', i')"
  shows "uint (slab_obj s mc i) + obj_bytes s z \<le> uint (slab_obj s mc' i') \<or> uint (slab_obj s mc' i') + obj_bytes s z \<le> uint (slab_obj s mc i)"
proof -
  note l = zone_invD(3) [OF inv]
  note a = slab_obj_place [OF l zone_invD(6) [OF inv mc(1)] mc(2)] and b = slab_obj_place [OF l zone_invD(6) [OF inv mc'(1)] mc'(2)]
  have z: "0 < obj_bytes s z" using l by (simp add: zone_layout_def)
  have nn: "0 \<le> int i * obj_bytes s z" "0 \<le> int i' * obj_bytes s z" by simp_all
  show ?thesis
  proof (cases "mc = mc'")
    case True
    have "int (Suc i) * obj_bytes s z \<le> int i' * obj_bytes s z \<or> int (Suc i') * obj_bytes s z \<le> int i * obj_bytes s z"
      using ne True z by (auto simp: mult_le_cancel_right neq_iff)
    then show ?thesis using a(3) b(3) True by (auto simp: algebra_simps)
  next
    case False
    then have d: "slab_region s z mc \<inter> slab_region s z mc' = {}" using zone_invD(8) [OF inv] mc mc' by blast
    have sz: "0 < slab_bytes s z" using l z unfolding zone_layout_def by linarith
    have "uint mc \<notin> slab_region s z mc'" "uint mc' \<notin> slab_region s z mc" using d sz by (auto simp: slab_region_def)
    then have "uint mc + slab_bytes s z \<le> uint mc' \<or> uint mc' + slab_bytes s z \<le> uint mc" by (auto simp: slab_region_def)
    then show ?thesis using a(1,2) b(1,2) nn by linarith
  qed
qed

section \<open>Moving a slab to another list\<close>

lemma slabs_on_upd: "slabs_on (A(l := Some xs)) l' = (if l' = l then conv_cache ` set xs else slabs_on A l')"
  by (simp add: slabs_on_def)

lemma zone_links [simp]:
  "zone_layout (links_update f s) z = zone_layout s z" "zone_slab (links_update f s) z mc = zone_slab s z mc"
  "slab_used (links_update f s) mc = slab_used s mc" "slab_count (links_update f s) z = slab_count s z"
  "slab_region (links_update f s) z mc = slab_region s z mc" "slab_obj (links_update f s) mc i = slab_obj s mc i"
  by (simp_all add: zone_layout_def zone_slab_def slab_ok_def slab_placed_def slab_used_def slab_count_def slab_region_def slab_obj_def)

lemma zone_inv_links:
  assumes inv: "zone_inv M s z A" and f: "dl.family h A'" and d: "zone_lists z \<subseteq> dom A'" and sl: "zone_slabs A' z = zone_slabs A z"
    and c: "\<And>l mc. l \<in> zone_lists z \<Longrightarrow> mc \<in> slabs_on A' l \<Longrightarrow> slab_class z l (slab_used s mc) (slab_count s z)"
  shows "zone_ok (s\<lparr>links := h\<rparr>) z A'" and "objs_in_use (s\<lparr>links := h\<rparr>) z A' = objs_in_use s z A"
  using assms by (simp_all add: zone_inv_def objs_in_use_def)

lemma move_ok:
  assumes inv: "zone_inv {mc} s z A" and l: "l \<in> zone_lists z" "l' \<in> zone_lists z" "l \<noteq> l'" and mc: "mc \<in> slabs_on A l"
    and c: "slab_class z l' (slab_used s mc) (slab_count s z)"
  shows "\<exists>A' s'. mm_zmove_cache mc l l' s = Some (0, s') \<and> zone_ok s' z A' \<and> objs_in_use s' z A' = objs_in_use s z A \<and>
    zone_slabs A' z = zone_slabs A z \<and> (\<exists>h. s' = s\<lparr>links := h\<rparr>)"
proof -
  note d = zone_invD [OF inv]
  obtain xs ys where xs: "A l = Some xs" "A l' = Some ys" using d(5) l by blast
  have n: "mc_list_node mc \<in> set xs" using mc xs by (simp add: slabs_on_mem)
  have dx: "distinct xs" using dl.rep_nodes [OF dl.family_rep [OF d(4) xs(1)]] by blast
  obtain h1 where h1: "lst_remove l (mc_list_node mc) (links s) = Some (0, h1)"
    "dl.family h1 (A(l := Some (remove1 (mc_list_node mc) xs)))"
    "dl.members (A(l := Some (remove1 (mc_list_node mc) xs))) = dl.members A - {mc_list_node mc}"
    using dl.family_remove [OF d(4) xs(1) n] by blast
  have n0: "mc_list_node mc \<noteq> 0" using dl.rep_nodes [OF dl.family_rep [OF d(4) xs(1)]] n by (auto simp: dl_nodes_def)
  let ?A = "A(l := Some (remove1 (mc_list_node mc) xs), l' := Some (mc_list_node mc # ys))"
  obtain h2 where h2: "lst_push_front l' (mc_list_node mc) h1 = Some (0, h2)" "dl.family h2 ?A"
    using dl.family_push_front [OF h1(2), of l' ys "mc_list_node mc"] xs(2) l(3) n0 h1(3) by auto
  have l0: "l \<noteq> 0" using dl.rep_nodes [OF dl.family_rep [OF d(4) xs(1)]] by (auto simp: dl_nodes_def)
  have run: "mm_zmove_cache mc l l' s = Some (0, s\<lparr>links := h2\<rparr>)"
    using h1(1) h2(1) l0 by (simp add: mm_zmove_cache_def)
  have on: "slabs_on ?A k = (if k = l' then insert mc (slabs_on A l') else slabs_on A k - {mc})" if k: "k \<in> zone_lists z" for k
  proof -
    have "mc \<notin> slabs_on A k" if "k \<noteq> l" using slab_one_list [OF inv k l(1) _ mc] that by blast
    then show ?thesis using xs dx l(3) by (cases "k = l") (auto simp: slabs_on_mem)
  qed
  have sl: "zone_slabs ?A z = zone_slabs A z" using on l mc by (auto simp: zone_slabs_def split: if_splits)
  have cl: "slab_class z k (slab_used s m) (slab_count s z)" if "k \<in> zone_lists z" "m \<in> slabs_on ?A k" for k m
    using that on [OF that(1)] c d(7) by (cases "m = mc") (auto split: if_splits)
  have dom: "zone_lists z \<subseteq> dom ?A" using d(5) by auto
  show ?thesis using zone_inv_links [OF inv h2(2) dom sl cl] run sl
    by (intro exI [of _ ?A] exI [of _ "s\<lparr>links := h2\<rparr>"]) blast
qed

text \<open>A slab that changed and is on the right list all the same.\<close>

lemma zone_inv_home:
  assumes inv: "zone_inv {mc} s z A" and c: "slab_class z l (slab_used s mc) (slab_count s z)" and mc: "mc \<in> slabs_on A l"
    and l: "l \<in> zone_lists z"
  shows "zone_ok s z A"
proof -
  have "slab_class z k (slab_used s m) (slab_count s z)" if "k \<in> zone_lists z" "m \<in> slabs_on A k" for k m
  proof (cases "m = mc")
    case True
    then show ?thesis using slab_one_list [OF inv that(1) l _ mc] that(2) c by simp
  next
    case False
    then show ?thesis using zone_invD(7) [OF inv that] by simp
  qed
  then show ?thesis using inv by (simp add: zone_inv_def)
qed

section \<open>Objects come and go\<close>

definition set_slab :: "ptr \<Rightarrow> u64 \<Rightarrow> u16 \<Rightarrow> ('o, 'p, 'z) mm_heap_scheme \<Rightarrow> ('o, 'p, 'z) mm_heap_scheme" where
  "set_slab mc b c s = s\<lparr>mc_alloc_bits := (mc_alloc_bits s)(mc := b), mc_free_count := (mc_free_count s)(mc := c)\<rparr>"

lemma set_slab_simps [simp]:
  "links (set_slab mc b c s) = links s" "the_mmspace (set_slab mc b c s) = the_mmspace s"
  "zone_layout (set_slab mc b c s) z = zone_layout s z" "slab_count (set_slab mc b c s) z = slab_count s z"
  "slab_region (set_slab mc b c s) z m = slab_region s z m" "slab_obj (set_slab mc b c s) m = slab_obj s m"
  "slab_placed (set_slab mc b c s) z m = slab_placed s z m"
  "zone_obj_size (set_slab mc b c s) = zone_obj_size s" "zone_ctor (set_slab mc b c s) = zone_ctor s"
  "m \<noteq> mc \<Longrightarrow> slab_used (set_slab mc b c s) m = slab_used s m" "m \<noteq> mc \<Longrightarrow> slab_ok (set_slab mc b c s) m = slab_ok s m" "mc_cache (set_slab mc b c s) = mc_cache s" "mc_label (set_slab mc b c s) = mc_label s"
  "mc_obj_count (set_slab mc b c s) = mc_obj_count s" "mc_obj_ptr (set_slab mc b c s) = mc_obj_ptr s" "zone_cache_size (set_slab mc b c s) = zone_cache_size s"
  by (simp_all add: set_slab_def zone_layout_def zone_slab_def slab_ok_def slab_placed_def slab_used_def slab_count_def slab_region_def
      slab_obj_def fun_eq_iff)

lemma fetch_sets: "mm_zfetch_obj mc s = Some (p, s') \<Longrightarrow> p \<noteq> 0 \<Longrightarrow> \<exists>b c. s' = set_slab mc b c s"
  by (cases "mc = 0"; cases "mc_cache s mc = 0") (auto simp: mm_zfetch_obj_def set_slab_def Let_def split: if_splits)

lemma set_slab_swap:
  "s\<lparr>mc_free_count := (mc_free_count s)(mc := c), mc_alloc_bits := (mc_alloc_bits s)(mc := b)\<rparr> = set_slab mc b c s"
  by (simp add: set_slab_def)

lemma return_sets: "mm_zreturn_obj mc p s = Some (0, s') \<Longrightarrow> \<exists>b c. s' = set_slab mc b c s"
  by (cases "mc = 0"; cases "mc_cache s mc = 0"; cases "zone_obj_size s (mc_cache s mc) = 0")
    (auto simp: mm_zreturn_obj_def set_slab_swap Let_def split: if_splits)

lemma obj_mem: "p \<in> objs_in_use s z A \<longleftrightarrow> (\<exists>mc \<in> zone_slabs A z. \<exists>i \<in> slab_used s mc. p = slab_obj s mc i)"
  by (auto simp: objs_in_use_def)

lemma zone_set_slab:
  assumes inv: "zone_inv M s z A" and mc: "mc \<in> zone_slabs A z" and ok: "slab_ok (set_slab mc b c s) mc"
  shows "zone_inv (insert mc M) (set_slab mc b c s) z A"
proof -
  note d = zone_invD [OF inv]
  have "zone_slab (set_slab mc b c s) z m" if "m \<in> zone_slabs A z" for m
    using d(6) [OF that] ok by (cases "m = mc") (simp_all add: zone_slab_def)
  moreover have "slab_class z l (slab_used (set_slab mc b c s) m) (slab_count s z)"
    if "l \<in> zone_lists z" "m \<in> slabs_on A l - insert mc M" for l m
    using d(7) that by auto
  ultimately show ?thesis using inv by (simp add: zone_inv_def)
qed

lemma objs_insert:
  assumes mc: "mc \<in> zone_slabs A z" and u: "slab_used (set_slab mc b c s) mc = insert i (slab_used s mc)"
  shows "objs_in_use (set_slab mc b c s) z A = insert (slab_obj s mc i) (objs_in_use s z A)"
proof (intro set_eqI iffI)
  fix p assume "p \<in> objs_in_use (set_slab mc b c s) z A"
  then obtain m j where m: "m \<in> zone_slabs A z" "j \<in> slab_used (set_slab mc b c s) m" "p = slab_obj s m j" by (auto simp: obj_mem)
  then show "p \<in> insert (slab_obj s mc i) (objs_in_use s z A)" using u by (cases "m = mc") (auto simp: obj_mem)
next
  fix p assume "p \<in> insert (slab_obj s mc i) (objs_in_use s z A)"
  then consider "p = slab_obj s mc i" | m j where "m \<in> zone_slabs A z" "j \<in> slab_used s m" "p = slab_obj s m j" by (auto simp: obj_mem)
  then show "p \<in> objs_in_use (set_slab mc b c s) z A"
  proof cases
    case 1
    then show ?thesis using mc u by (auto simp: obj_mem)
  next
    case 2
    then have "j \<in> slab_used (set_slab mc b c s) m" using u by (cases "m = mc") auto
    then show ?thesis using 2 by (auto simp: obj_mem)
  qed
qed

lemma zone_obj_inj:
  assumes inv: "zone_inv M s z A" and "mc \<in> zone_slabs A z" "i < slab_count s z" "mc' \<in> zone_slabs A z" "i' < slab_count s z"
    and "slab_obj s mc i = slab_obj s mc' i'"
  shows "mc = mc' \<and> i = i'"
  using zone_objs_apart [OF assms(1-5)] assms(6) zone_invD(3) [OF inv] by (auto simp: zone_layout_def)

lemma zone_used:
  assumes "zone_inv M s z A" and "mc \<in> zone_slabs A z" shows "slab_ok s mc" and "slab_used s mc \<subseteq> {..<slab_count s z}"
    and "unat (mc_obj_count s mc) = slab_count s z"
  using zone_invD(6) [OF assms] by (auto simp: zone_slab_def slab_ok_def)

lemma objs_delete:
  assumes inv: "zone_inv M s z A" and mc: "mc \<in> zone_slabs A z" and i: "i \<in> slab_used s mc"
    and u: "slab_used (set_slab mc b c s) mc = slab_used s mc - {i}"
  shows "objs_in_use (set_slab mc b c s) z A = objs_in_use s z A - {slab_obj s mc i}"
proof -
  have "set_slab mc (mc_alloc_bits s mc) (mc_free_count s mc) (set_slab mc b c s) = s" by (simp add: set_slab_def)
  moreover have "slab_used s mc = insert i (slab_used (set_slab mc b c s) mc)" using i u by auto
  ultimately have "objs_in_use s z A = insert (slab_obj s mc i) (objs_in_use (set_slab mc b c s) z A)"
    using objs_insert [OF mc, of "mc_alloc_bits s mc" "mc_free_count s mc" "set_slab mc b c s" i] by simp
  moreover have "slab_obj s mc i \<notin> objs_in_use (set_slab mc b c s) z A"
  proof
    assume "slab_obj s mc i \<in> objs_in_use (set_slab mc b c s) z A"
    then obtain m j where m: "m \<in> zone_slabs A z" "j \<in> slab_used (set_slab mc b c s) m" "slab_obj s mc i = slab_obj s m j" by (auto simp: obj_mem)
    then have j: "j \<in> slab_used s m" using u by (cases "m = mc") auto
    then have "mc = m \<and> i = j" using zone_obj_inj [OF inv mc _ m(1) _ m(3)] zone_used(2) [OF inv] mc i m(1) by blast
    then show False using m(2) u by auto
  qed
  ultimately show ?thesis by auto
qed

text \<open>An object is in use exactly when its slab says so.\<close>

lemma obj_in_use_iff:
  assumes inv: "zone_inv M s z A" and mc: "mc \<in> zone_slabs A z" and i: "i < slab_count s z"
  shows "slab_obj s mc i \<in> objs_in_use s z A \<longleftrightarrow> i \<in> slab_used s mc"
  using zone_obj_inj [OF inv mc i] zone_used(2) [OF inv] mc unfolding objs_in_use_def by blast

section \<open>Allocation\<close>

text \<open>The object at \<open>p\<close> is free: it is not in use and overlaps no other that is.\<close>

definition obj_free :: "('o, 'p, 'z) mm_heap_scheme \<Rightarrow> ptr \<Rightarrow> (ptr \<Rightarrow> ptr list option) \<Rightarrow> ptr \<Rightarrow> bool" where
  "obj_free s z A p \<longleftrightarrow> p \<noteq> 0 \<and> p \<notin> objs_in_use s z A \<and>
     (\<forall>q \<in> objs_in_use s z A. uint p + obj_bytes s z \<le> uint q \<or> uint q + obj_bytes s z \<le> uint p)"

lemma zone_fetch:
  assumes inv: "zone_ok s z A" and l: "l \<in> zone_lists z" "l \<noteq> full_slab_list z" and mc: "mc \<in> slabs_on A l"
  shows "\<exists>i b c. mm_zfetch_obj mc s = Some (slab_obj s mc i, set_slab mc b c s) \<and> obj_free s z A (slab_obj s mc i) \<and>
    slab_used (set_slab mc b c s) mc = insert i (slab_used s mc) \<and> zone_inv {mc} (set_slab mc b c s) z A \<and>
    objs_in_use (set_slab mc b c s) z A = insert (slab_obj s mc i) (objs_in_use s z A)"
proof -
  have sl: "mc \<in> zone_slabs A z" using zone_slabsI l(1) mc .
  note u = zone_used [OF inv sl]
  have cl: "slab_class z l (slab_used s mc) (slab_count s z)" using zone_invD(7) [OF inv l(1) mc] by simp
  have "slab_used s mc \<noteq> {..<slab_count s z}"
    using cl l(2) slab_count_bounds(1) [OF zone_invD(3) [OF inv]] by (auto simp: slab_class_def split: if_splits)
  then have "mc_free_count s mc \<noteq> 0" using slab_full_empty(3) [OF u(1)] u(3) by simp
  then obtain i s1 where i: "mm_zfetch_obj mc s = Some (slab_obj s mc i, s1)" "i < slab_count s z" "i \<notin> slab_used s mc"
    "slab_ok s1 mc" "slab_used s1 mc = insert i (slab_used s mc)" "slab_obj s mc i \<noteq> 0"
    using slab_fetch_ok [OF u(1)] u(3) by auto
  obtain b c where s1: "s1 = set_slab mc b c s" using fetch_sets [OF i(1) i(6)] by blast
  have inv1: "zone_inv {mc} s1 z A" using zone_set_slab [OF inv sl] i(4) unfolding s1 by simp
  have objs: "objs_in_use s1 z A = insert (slab_obj s mc i) (objs_in_use s z A)" using objs_insert [OF sl] i(5) unfolding s1 .
  have fresh: "slab_obj s mc i \<notin> objs_in_use s z A" using obj_in_use_iff [OF inv sl i(2)] i(3) by simp
  have "uint (slab_obj s mc i) + obj_bytes s z \<le> uint q \<or> uint q + obj_bytes s z \<le> uint (slab_obj s mc i)" if q: "q \<in> objs_in_use s z A" for q
  proof -
    obtain m j where m: "m \<in> zone_slabs A z" "j \<in> slab_used s m" "q = slab_obj s m j" using q by (auto simp: obj_mem)
    then have "j < slab_count s z" "(mc, i) \<noteq> (m, j)" using zone_used(2) [OF inv m(1)] i(3) by auto
    then show ?thesis using zone_objs_apart [OF inv sl i(2) m(1)] m(3) by blast
  qed
  then have "obj_free s z A (slab_obj s mc i)" using fresh i(6) by (auto simp: obj_free_def)
  then show ?thesis using i inv1 objs unfolding s1 by blast
qed

text \<open>What an allocation does that succeeds.\<close>

definition obj_taken ::
  "('o, 'p, 'z) mm_heap_scheme \<Rightarrow> ptr \<Rightarrow> (ptr \<Rightarrow> ptr list option) \<Rightarrow> ptr \<Rightarrow> ('o, 'p, 'z) mm_heap_scheme \<Rightarrow> (ptr \<Rightarrow> ptr list option) \<Rightarrow> bool"
where
  "obj_taken s z A p s' A' \<longleftrightarrow> obj_free s z A p \<and> zone_ok s' z A' \<and> objs_in_use s' z A' = insert p (objs_in_use s z A) \<and>
     zone_ctor s' z = zone_ctor s z"

lemma take_empty:
  assumes inv: "zone_ok s z A" and mc: "mc \<in> slabs_on A (empty_slab_list z)"
  shows "\<exists>p s1 A' s'. mm_zfetch_obj mc s = Some (p, s1) \<and> mm_zmove_cache mc (empty_slab_list z) (partial_slab_list z) s1 = Some (0, s') \<and>
    p \<noteq> 0 \<and> obj_taken s z A p s' A'"
proof -
  obtain i b c where f: "mm_zfetch_obj mc s = Some (slab_obj s mc i, set_slab mc b c s)" "obj_free s z A (slab_obj s mc i)"
    "slab_used (set_slab mc b c s) mc = insert i (slab_used s mc)" "zone_inv {mc} (set_slab mc b c s) z A"
    "objs_in_use (set_slab mc b c s) z A = insert (slab_obj s mc i) (objs_in_use s z A)"
    using zone_fetch [OF inv _ _ mc] by auto
  have "slab_used s mc = {}" using zone_invD(7) [OF inv _ mc] by (simp add: slab_class_def)
  moreover have "{i} \<noteq> {..<slab_count s z}"
    using slab_count_bounds(1) [OF zone_invD(3) [OF inv]] by (metis card_lessThan is_singletonI is_singleton_altdef less_irrefl)
  ultimately have cl: "slab_class z (partial_slab_list z) (slab_used (set_slab mc b c s) mc) (slab_count (set_slab mc b c s) z)"
    using f(3) by (simp add: slab_class_def)
  obtain A' h where m: "mm_zmove_cache mc (empty_slab_list z) (partial_slab_list z) (set_slab mc b c s) = Some (0, (set_slab mc b c s)\<lparr>links := h\<rparr>)"
    "zone_ok ((set_slab mc b c s)\<lparr>links := h\<rparr>) z A'" "objs_in_use ((set_slab mc b c s)\<lparr>links := h\<rparr>) z A' = objs_in_use (set_slab mc b c s) z A"
    using move_ok [OF f(4) _ _ _ mc cl] by auto
  have "obj_taken s z A (slab_obj s mc i) ((set_slab mc b c s)\<lparr>links := h\<rparr>) A'" using m(2,3) f(2,5) by (simp add: obj_taken_def)
  moreover have "slab_obj s mc i \<noteq> 0" using f(2) by (simp add: obj_free_def)
  ultimately show ?thesis using f(1) m(1) by blast
qed

lemma take_partial:
  assumes inv: "zone_ok s z A" and mc: "mc \<in> slabs_on A (partial_slab_list z)"
  shows "\<exists>p s1 A' s'. mm_zfetch_obj mc s = Some (p, s1) \<and> p \<noteq> 0 \<and> obj_taken s z A p s' A' \<and>
    (if mm_zcache_full s1 mc then \<exists>r. mm_zmove_cache mc (partial_slab_list z) (full_slab_list z) s1 = Some (r, s') else s' = s1)"
proof -
  obtain i b c where f: "mm_zfetch_obj mc s = Some (slab_obj s mc i, set_slab mc b c s)" "obj_free s z A (slab_obj s mc i)"
    "slab_used (set_slab mc b c s) mc = insert i (slab_used s mc)" "zone_inv {mc} (set_slab mc b c s) z A"
    "objs_in_use (set_slab mc b c s) z A = insert (slab_obj s mc i) (objs_in_use s z A)"
    using zone_fetch [OF inv _ _ mc] by auto
  let ?s = "set_slab mc b c s"
  have p: "slab_obj s mc i \<noteq> 0" using f(2) by (simp add: obj_free_def)
  have sl: "mc \<in> zone_slabs A z" using zone_slabsI [OF _ mc] by simp
  have full: "mm_zcache_full ?s mc \<longleftrightarrow> slab_used ?s mc = {..<slab_count s z}"
    using slab_full_empty(1) [OF zone_used(1) [OF f(4) sl]] zone_used(3) [OF f(4) sl] by simp
  show ?thesis
  proof (cases "mm_zcache_full ?s mc")
    case True
    then have cl: "slab_class z (full_slab_list z) (slab_used ?s mc) (slab_count ?s z)" using full by (simp add: slab_class_def)
    obtain A' h where m: "mm_zmove_cache mc (partial_slab_list z) (full_slab_list z) ?s = Some (0, ?s\<lparr>links := h\<rparr>)"
      "zone_ok (?s\<lparr>links := h\<rparr>) z A'" "objs_in_use (?s\<lparr>links := h\<rparr>) z A' = objs_in_use ?s z A"
      using move_ok [OF f(4) _ _ _ mc cl] by auto
    have "obj_taken s z A (slab_obj s mc i) (?s\<lparr>links := h\<rparr>) A'" using m(2,3) f(2,5) by (simp add: obj_taken_def)
    then show ?thesis using f(1) m(1) p True by (intro exI [of _ "slab_obj s mc i"] exI [of _ ?s]) auto
  next
    case False
    have "slab_class z (partial_slab_list z) (slab_used ?s mc) (slab_count ?s z)" using False full f(3) by (simp add: slab_class_def)
    then have "zone_ok ?s z A" by (rule zone_inv_home [OF f(4) _ mc]) simp
    then have "obj_taken s z A (slab_obj s mc i) ?s A" using f(2,5) by (simp add: obj_taken_def)
    then show ?thesis using f(1) p False by (intro exI [of _ "slab_obj s mc i"] exI [of _ ?s]) auto
  qed
qed

section \<open>A new slab\<close>

text \<open>The pages at \<open>mc\<close> can become a slab of the zone.\<close>

definition slab_fresh :: "('o, 'p, 'z) mm_heap_scheme \<Rightarrow> ptr \<Rightarrow> (ptr \<Rightarrow> ptr list option) \<Rightarrow> ptr \<Rightarrow> bool" where
  "slab_fresh s z A mc \<longleftrightarrow> slab_placed s z mc \<and> mc_list_node mc \<notin> dl.members A \<and>
     (\<forall>m \<in> zone_slabs A z. slab_region s z mc \<inter> slab_region s z m = {})"

lemma new_slab_count:
  assumes l: "zone_layout s z"
  defines "n \<equiv> (ucast ((zone_cache_size s z - 48) div ucast (zone_obj_size s z)) :: u16)"
  shows "unat (if n \<le> CACHE_OBJ_COUNT_MAX then n else CACHE_OBJ_COUNT_MAX) = slab_count s z"
proof -
  have z: "0 < obj_bytes s z" "48 + 2 * obj_bytes s z \<le> slab_bytes s z" "(slab_bytes s z - 48) div obj_bytes s z < 2 ^ 16"
    using l by (simp_all add: zone_layout_def)
  let ?d = "(slab_bytes s z - 48) div obj_bytes s z"
  have "uint (of_int (slab_bytes s z - 48) :: u64) = slab_bytes s z - 48"
    by (rule uint_of_int_u64) (use z uint_lt2p [of "zone_cache_size s z"] in simp_all)
  then have "uint (zone_cache_size s z - 48) = slab_bytes s z - 48" by simp
  moreover have "uint (ucast (zone_obj_size s z) :: u64) = obj_bytes s z" by (rule uint_ucast_32)
  ultimately have w: "uint ((zone_cache_size s z - 48) div ucast (zone_obj_size s z)) = ?d" by (simp add: uint_div)
  have d0: "0 \<le> ?d" using z by (intro pos_imp_zdiv_nonneg_iff [THEN iffD2]) simp_all
  have "n = of_int (uint ((zone_cache_size s z - 48) div ucast (zone_obj_size s z)))" unfolding n_def by (rule ucast_eq)
  then have "n = of_int ?d" unfolding w .
  then have un: "uint n = ?d" using d0 z(3) by (simp add: unsigned_of_int take_bit_int_eq_self)
  have le: "n \<le> CACHE_OBJ_COUNT_MAX \<longleftrightarrow> ?d \<le> 64" unfolding word_le_def un CACHE_OBJ_COUNT_MAX_def by simp
  have "int (unat n) = ?d" using un by (simp only: uint_nat)
  then show ?thesis using d0 by (cases "?d \<le> 64") (simp_all only: le slab_count_def if_True if_False, simp_all add: CACHE_OBJ_COUNT_MAX_def)
qed

lemma new_slab_objs:
  assumes l: "zone_layout s z" and p: "slab_placed s z mc" and n: "unat (n :: u16) = slab_count s z"
  shows "uint (mc + zone_cache_size s z - ucast (ucast n * zone_obj_size s z)) = uint mc + slab_bytes s z - int (slab_count s z) * obj_bytes s z"
proof -
  note b = slab_count_bounds(3) [OF l]
  have C: "slab_bytes s z < 2 ^ 32" using l by (simp add: zone_layout_def)
  have m: "uint mc + 2 ^ 33 \<le> 2 ^ 64" "0 \<le> uint mc" "(2 :: int) ^ 32 \<le> 2 ^ 33" using p by (simp_all add: slab_placed_def)
  let ?x = "int (slab_count s z) * obj_bytes s z"
  have x: "0 \<le> ?x" by simp
  have "(ucast n :: u32) = of_nat (slab_count s z)" by (simp add: n [symmetric])
  then have "ucast n * zone_obj_size s z = of_int ?x" by simp
  then have "uint (ucast n * zone_obj_size s z) = ?x" using uint_of_int_u32 [of ?x] x b C by simp
  then have "(ucast (ucast n * zone_obj_size s z) :: u64) = of_int ?x" unfolding ucast_eq [of "ucast n * zone_obj_size s z"] by (simp only:)
  then have "mc + zone_cache_size s z - ucast (ucast n * zone_obj_size s z) = of_int (uint mc + slab_bytes s z - ?x)"
    by (simp only: of_int_add of_int_diff word_of_int_uint)
  moreover have "uint (of_int (uint mc + slab_bytes s z - ?x) :: u64) = uint mc + slab_bytes s z - ?x"
    by (rule uint_of_int_u64) (use b C x m in linarith)+
  ultimately show ?thesis by simp
qed

definition init_slab :: "ptr \<Rightarrow> ptr \<Rightarrow> dl_heap \<Rightarrow> u16 \<Rightarrow> ptr \<Rightarrow> ('o, 'p, 'z) mm_heap_scheme \<Rightarrow> ('o, 'p, 'z) mm_heap_scheme" where
  "init_slab z mc h n q s = s\<lparr>mc_label := (mc_label s)(mc := SLAB_LABEL), mc_cache := (mc_cache s)(mc := z), links := h,
     mc_obj_count := (mc_obj_count s)(mc := n), mc_obj_ptr := (mc_obj_ptr s)(mc := q), mc_alloc_bits := (mc_alloc_bits s)(mc := 0),
     mc_free_count := (mc_free_count s)(mc := n)\<rparr>"

lemma init_slab_simps [simp]:
  "the_mmspace (init_slab z' mc h n q s) = the_mmspace s" "links (init_slab z' mc h n q s) = h"
  "zone_layout (init_slab z' mc h n q s) z = zone_layout s z" "slab_count (init_slab z' mc h n q s) z = slab_count s z"
  "slab_region (init_slab z' mc h n q s) z m = slab_region s z m" "zone_ctor (init_slab z' mc h n q s) = zone_ctor s"
  "zone_obj_size (init_slab z' mc h n q s) = zone_obj_size s" "zone_cache_size (init_slab z' mc h n q s) = zone_cache_size s"
  "slab_used (init_slab z' mc h n q s) mc = {}"
  "m \<noteq> mc \<Longrightarrow> slab_used (init_slab z' mc h n q s) m = slab_used s m" "m \<noteq> mc \<Longrightarrow> slab_obj (init_slab z' mc h n q s) m = slab_obj s m"
  "m \<noteq> mc \<Longrightarrow> slab_ok (init_slab z' mc h n q s) m = slab_ok s m"
  by (simp_all add: init_slab_def zone_layout_def slab_ok_def slab_used_def slab_count_def slab_region_def slab_obj_def fun_eq_iff)

lemma init_slab_placed:
  assumes inv: "zone_inv M s z A" and fr: "slab_fresh s z A mc" and m: "m = mc \<or> m \<in> zone_slabs A z"
  shows "slab_placed (init_slab z mc h n q s) z m"
proof -
  have p: "slab_placed s z m" using m fr zone_invD(6) [OF inv] by (auto simp: slab_fresh_def zone_slab_def)
  have "mc_label (init_slab z mc h n q s) (m + of_int (j * page_bytes s)) \<noteq> SLAB_LABEL"
    if j: "j > 0" "j * page_bytes s < slab_bytes s z" for j
  proof -
    note at = page_at [OF zone_invD(3) [OF inv] p less_imp_le [OF j(1)] j(2)]
    have pg: "0 < page_bytes s" using zone_invD(3) [OF inv] by (auto simp: zone_layout_def)
    then have pos: "0 < j * page_bytes s" using j(1) by simp
    have "m + of_int (j * page_bytes s) \<noteq> mc"
    proof
      assume e: "m + of_int (j * page_bytes s) = mc"
      then have u: "uint mc = uint m + j * page_bytes s" using at(2) by simp
      then have "m \<noteq> mc" using pos by auto
      then have "slab_region s z mc \<inter> slab_region s z m = {}" using m fr by (simp add: slab_fresh_def)
      moreover have "uint mc \<in> slab_region s z mc \<inter> slab_region s z m" using u pos j(2) by (simp add: slab_region_def)
      ultimately show False by blast
    qed
    then show ?thesis using p j by (simp add: init_slab_def slab_placed_def)
  qed
  then show ?thesis using p by (simp add: slab_placed_def init_slab_def)
qed

lemma init_slab_new:
  assumes l: "zone_layout s z" and p: "slab_placed (init_slab z mc h n q s) z mc" "slab_placed s z mc" and z: "z \<noteq> 0"
    and n: "unat n = slab_count s z" and q: "q = mc + zone_cache_size s z - ucast (ucast n * zone_obj_size s z)"
  shows "zone_slab (init_slab z mc h n q s) z mc"
proof -
  note b = slab_count_bounds [OF l]
  have C: "slab_bytes s z < 2 ^ 32" "0 < obj_bytes s z" using l by (simp_all add: zone_layout_def)
  have m: "uint mc + 2 ^ 33 \<le> 2 ^ 64" "0 \<le> uint mc" "(2 :: int) ^ 33 = 2 * 2 ^ 32" "mc \<noteq> 0" using p(2) by (simp_all add: slab_placed_def)
  have uq: "uint q = uint mc + slab_bytes s z - int (slab_count s z) * obj_bytes s z"
    unfolding q by (rule new_slab_objs [OF l p(2) n])
  have nn: "0 \<le> int (slab_count s z) * obj_bytes s z" by simp
  have q32: "uint q + 2 ^ 32 < 2 ^ 64" using uq C(1) m(1,3) nn b(3) by linarith
  have "0 < uint q" using uq m(2) b(3) by linarith
  then have q0: "q \<noteq> 0" by auto
  have un: "uint n = int (slab_count s z)" using n by (simp only: uint_nat)
  have "slab_ok (init_slab z mc h n q s) mc"
    using z m(4) C b(2) n q32 q0 b(3) by (simp add: slab_ok_def) (simp add: init_slab_def un uint_pos)
  then show ?thesis using p(1) n uq by (simp add: zone_slab_def) (simp add: init_slab_def)
qed

lemma fresh_new: "dl.family (links s) A \<Longrightarrow> zone_lists z \<subseteq> dom A \<Longrightarrow> slab_fresh s z A mc \<Longrightarrow> mc \<notin> zone_slabs A z"
proof
  assume d: "zone_lists z \<subseteq> dom A" and fr: "slab_fresh s z A mc" and "mc \<in> zone_slabs A z"
  then obtain k xs where "A k = Some xs" "mc_list_node mc \<in> set xs" by (fastforce simp: zone_slabs_def slabs_on_mem)
  then show False using fr dl.membersI [of A k xs "mc_list_node mc"] by (auto simp: slab_fresh_def dl_nodes_def)
qed

lemma init_slab_zone:
  assumes inv: "zone_ok s z A" and fr: "slab_fresh s z A mc" and E: "A (empty_slab_list z) = Some E"
    and h: "dl.family h (A(empty_slab_list z := Some (mc_list_node mc # E)))"
    and n: "unat n = slab_count s z" and q: "q = mc + zone_cache_size s z - ucast (ucast n * zone_obj_size s z)"
  defines "A' \<equiv> A(empty_slab_list z := Some (mc_list_node mc # E))" and "s' \<equiv> init_slab z mc h n q s"
  shows "zone_ok s' z A'" and "objs_in_use s' z A' = objs_in_use s z A" and "mc \<in> slabs_on A' (empty_slab_list z)"
proof -
  note d = zone_invD [OF inv]
  have p: "slab_placed s z mc" using fr by (simp add: slab_fresh_def)
  have on: "slabs_on A' k = (if k = empty_slab_list z then insert mc (slabs_on A k) else slabs_on A k)" for k
    using E by (simp add: slabs_on_def A'_def)
  show "mc \<in> slabs_on A' (empty_slab_list z)" unfolding on by simp
  have all: "zone_slabs A' z = insert mc (zone_slabs A z)" unfolding zone_slabs_def on by (auto simp: zone_lists_def)
  have new: "mc \<notin> zone_slabs A z" by (rule fresh_new [OF d(4,5) fr])
  have "slab_obj s' m ` slab_used s' m = slab_obj s m ` slab_used s m" if "m \<in> zone_slabs A z" for m
    using that new by (cases "m = mc") (auto simp: s'_def)
  moreover have "slab_used s' mc = {}" by (simp add: s'_def)
  ultimately show "objs_in_use s' z A' = objs_in_use s z A" by (simp add: objs_in_use_def all)
  have slab: "zone_slab s' z m" if "m = mc \<or> m \<in> zone_slabs A z" for m
  proof (cases "m = mc")
    case True
    then show ?thesis using init_slab_new [OF d(3) _ p d(1) n q] init_slab_placed [OF inv fr that] by (simp add: s'_def)
  next
    case False
    then have "zone_slab s z m" using that d(6) by blast
    then show ?thesis using False init_slab_placed [OF inv fr that] unfolding s'_def zone_slab_def by simp (simp add: init_slab_def)
  qed
  have cl: "slab_class z k (slab_used s' m) (slab_count s' z)" if "k \<in> zone_lists z" "m \<in> slabs_on A' k" for k m
  proof (cases "m = mc")
    case True
    then have "k = empty_slab_list z" using that new zone_slabsI [OF that(1)] on [of k] by (auto split: if_splits)
    then show ?thesis using True by (simp add: slab_class_def s'_def)
  next
    case False
    then show ?thesis using that on [of k] d(7) [OF that(1), of m] by (auto simp: s'_def split: if_splits)
  qed
  have "\<forall>m \<in> zone_slabs A z. slab_region s z mc \<inter> slab_region s z m = {}" using fr by (simp add: slab_fresh_def)
  then have reg: "slab_region s' z m \<inter> slab_region s' z m' = {}"
    if "m = mc \<or> m \<in> zone_slabs A z" "m' = mc \<or> m' \<in> zone_slabs A z" "m \<noteq> m'" for m m'
    using that d(8) unfolding s'_def init_slab_simps by (metis Int_commute)
  have "zone_lists z \<subseteq> dom A'" using d(5) by (auto simp: A'_def)
  then show "zone_ok s' z A'"
    using d(1-3) h slab cl reg unfolding zone_inv_def all by (simp add: s'_def A'_def)
qed

lemma zcache_new_ok:
  assumes run: "mm_zalloc_pg ops sys uninit z s = Some (mc, s1)" and inv: "zone_ok s1 z A" and fr: "slab_fresh s1 z A mc"
  shows "\<exists>A' s'. mm_zcache_new ops sys uninit z s = Some (mc, s') \<and> zone_ok s' z A' \<and> objs_in_use s' z A' = objs_in_use s1 z A \<and>
    mc \<in> slabs_on A' (empty_slab_list z) \<and> zone_ctor s' = zone_ctor s1 \<and> obj_bytes s' z = obj_bytes s1 z"
proof -
  note d = zone_invD [OF inv]
  have node: "mc_list_node mc \<notin> dl.members A" and m0: "mc \<noteq> 0" and mb: "uint mc + 2 ^ 33 \<le> 2 ^ 64"
    using fr by (simp_all add: slab_fresh_def slab_placed_def)
  have n0: "mc_list_node mc \<noteq> 0"
  proof
    assume "mc_list_node mc = 0"
    then have "mc = -8" by (simp add: eq_neg_iff_add_eq_0)
    then show False using mb by simp
  qed
  obtain h1 where h1: "lst_clr (mc_list_node mc) (links s1) = Some (0, h1)" "dl.family h1 A"
    using family_clr [OF d(4) node n0] by blast
  obtain E where E: "A (empty_slab_list z) = Some E" using d(5) by (auto simp: zone_lists_def)
  let ?A = "A(empty_slab_list z := Some (mc_list_node mc # E))"
  obtain h2 where h2: "lst_push_front (empty_slab_list z) (mc_list_node mc) h1 = Some (0, h2)" "dl.family h2 ?A"
    using dl.family_push_front [OF h1(2) E node n0] by blast
  define n where "n = (let n = (ucast ((zone_cache_size s1 z - 48) div ucast (zone_obj_size s1 z)) :: u16) in if n \<le> CACHE_OBJ_COUNT_MAX then n else CACHE_OBJ_COUNT_MAX)"
  have n: "unat n = slab_count s1 z" unfolding n_def Let_def by (rule new_slab_count [OF d(3)])
  define q where "q = mc + zone_cache_size s1 z - ucast (ucast n * zone_obj_size s1 z)"
  have z: "zone_obj_size s1 z \<noteq> 0" using d(3) by (auto simp: zone_layout_def)
  have "mm_zcache_new ops sys uninit z s = Some (mc, init_slab z mc h2 n q s1)"
    using run m0 h1(1) h2(1) z
    by (simp add: mm_zcache_new_def mm_zmove_cache_def init_slab_def n_def [unfolded Let_def, symmetric] q_def Let_def)
  then show ?thesis using init_slab_zone [OF inv fr E h2(2) n q_def]
    by (intro exI [of _ ?A] exI [of _ "init_slab z mc h2 n q s1"]) simp
qed

section \<open>\<open>mm_cache_alloc\<close>\<close>

text \<open>The functions of the users write to the memory of their objects only.\<close>

definition own_memory :: "(ptr \<Rightarrow> ptr \<Rightarrow> ('o, 'p, 'z) mm_heap_scheme \<Rightarrow> ('o, 'p, 'z) mm_heap_scheme option) \<Rightarrow> bool" where
  "own_memory call \<longleftrightarrow> (\<forall>f p s. \<exists>b x. call f p s = Some (s\<lparr>bytes := b, mm_heap.more := x\<rparr>))"

lemma zone_more [simp]:
  "zone_inv M (mm_heap.more_update f s) z A = zone_inv M s z A" "objs_in_use (mm_heap.more_update f s) z A = objs_in_use s z A"
  "zone_inv M (bytes_update g s) z A = zone_inv M s z A" "objs_in_use (bytes_update g s) z A = objs_in_use s z A"
  "slab_obj (mm_heap.more_update f s) mc i = slab_obj s mc i" "slab_obj (bytes_update g s) mc i = slab_obj s mc i"
  "slab_used (mm_heap.more_update f s) mc = slab_used s mc" "slab_used (bytes_update g s) mc = slab_used s mc"
  "slab_count (mm_heap.more_update f s) z = slab_count s z" "slab_count (bytes_update g s) z = slab_count s z"
  by (simp_all add: zone_inv_def objs_in_use_def zone_layout_def zone_slab_def slab_ok_def slab_placed_def slab_used_def slab_count_def
      slab_region_def slab_obj_def)

lemma zone_list_first:
  assumes inv: "zone_ok s z A" and l: "l \<in> zone_lists z"
  shows "if slabs_on A l = {} then lst_empty l (links s) = Some True \<and> mm_zfirst_cache_from_list l s = Some 0
    else \<exists>mc \<in> slabs_on A l. mc \<noteq> 0 \<and> lst_empty l (links s) = Some False \<and> mm_zfirst_cache_from_list l s = Some mc"
proof -
  obtain xs where xs: "A l = Some xs" using zone_invD(5) [OF inv] l by blast
  note r = dl.family_rep [OF zone_invD(4) [OF inv] xs]
  have f: "ld_next (links s) l = Some (case xs of [] \<Rightarrow> tail_of l | x # _ \<Rightarrow> x)" using lst_first_rep [OF r] by (simp add: lst_first_def)
  show ?thesis
  proof (cases xs)
    case Nil
    then show ?thesis using f xs lst_empty_ok [OF r] by (simp add: slabs_on_def mm_zfirst_cache_from_list_def)
  next
    case (Cons x ys)
    have on: "conv_cache x \<in> slabs_on A l" using xs Cons by (simp add: slabs_on_def)
    then have "conv_cache x \<noteq> 0" using zone_used(1) [OF inv zone_slabsI [OF l on]] by (simp add: slab_ok_def)
    moreover have "x \<noteq> tail_of l" using dl_listD(5) [OF r] Cons by auto
    ultimately show ?thesis using f on Cons lst_empty_ok [OF r] by (auto simp: mm_zfirst_cache_from_list_def)
  qed
qed

lemma run_ctor:
  assumes "own_memory call" and "obj_taken s z A p s' A'"
  shows "\<exists>s2. (if p = 0 then Some (0, s') else if zone_ctor s' z \<noteq> 0 then do { s \<leftarrow> call (zone_ctor s' z) p s'; Some (p, s) } else Some (p, s'))
    = Some (p, s2) \<and> obj_free s z A p \<and> zone_ok s2 z A' \<and> objs_in_use s2 z A' = insert p (objs_in_use s z A)"
proof -
  obtain b x where "call (zone_ctor s' z) p s' = Some (s'\<lparr>bytes := b, mm_heap.more := x\<rparr>)"
    using assms(1) unfolding own_memory_def by blast
  then show ?thesis using assms(2) by (auto simp: obj_taken_def obj_free_def)
qed

lemma cache_alloc_partial:
  assumes inv: "zone_ok s z A" and own: "own_memory call" and room: "slabs_on A (partial_slab_list z) \<noteq> {}"
  shows "\<exists>p A' s'. mm_cache_alloc call ops sys uninit z s = Some (p, s') \<and> obj_free s z A p \<and> zone_ok s' z A' \<and>
    objs_in_use s' z A' = insert p (objs_in_use s z A)"
proof -
  obtain mc where mc: "mc \<in> slabs_on A (partial_slab_list z)" "mc \<noteq> 0" "lst_empty (partial_slab_list z) (links s) = Some False"
    "mm_zfirst_cache_from_list (partial_slab_list z) s = Some mc" using zone_list_first [OF inv, of "partial_slab_list z"] room by auto
  obtain p s1 A' s' where t: "mm_zfetch_obj mc s = Some (p, s1)" "p \<noteq> 0" "obj_taken s z A p s' A'"
    "if mm_zcache_full s1 mc then \<exists>r. mm_zmove_cache mc (partial_slab_list z) (full_slab_list z) s1 = Some (r, s') else s' = s1"
    using take_partial [OF inv mc(1)] by blast
  have z: "z \<noteq> 0" by (rule zone_invD(1) [OF inv])
  have "mm_cache_alloc call ops sys uninit z s =
    (if p = 0 then Some (0, s') else if zone_ctor s' z \<noteq> 0 then do { s \<leftarrow> call (zone_ctor s' z) p s'; Some (p, s) } else Some (p, s'))"
    using mc(2-4) t(1,2,4) z by (auto simp: mm_cache_alloc_def split: if_splits)
  then show ?thesis using run_ctor [OF own t(3)] by auto
qed

text \<open>With no partial slab, the object comes from an empty one, which may have been created for it.\<close>

lemma cache_alloc_empty:
  assumes z: "z \<noteq> 0" and part: "lst_empty (partial_slab_list z) (links s) = Some True" and own: "own_memory call"
    and get: "do { mc \<leftarrow> mm_zfirst_cache_from_list (empty_slab_list z) s;
        if mc = 0 then mm_zcache_new ops sys uninit z s else Some (mc, s) } = Some (mc, s1)"
    and inv: "zone_ok s1 z A" and mc: "mc \<in> slabs_on A (empty_slab_list z)"
  shows "\<exists>p A' s'. mm_cache_alloc call ops sys uninit z s = Some (p, s') \<and> obj_free s1 z A p \<and> zone_ok s' z A' \<and>
    objs_in_use s' z A' = insert p (objs_in_use s1 z A)"
proof -
  obtain p s2 A' s' where t: "mm_zfetch_obj mc s1 = Some (p, s2)"
    "mm_zmove_cache mc (empty_slab_list z) (partial_slab_list z) s2 = Some (0, s')" "p \<noteq> 0" "obj_taken s1 z A p s' A'"
    using take_empty [OF inv mc] by blast
  have m0: "mc \<noteq> 0" using zone_used(1) [OF inv zone_slabsI [OF _ mc]] by (simp add: slab_ok_def)
  obtain m where m: "mm_zfirst_cache_from_list (empty_slab_list z) s = Some m"
    "(if m = 0 then mm_zcache_new ops sys uninit z s else Some (m, s)) = Some (mc, s1)" using get by (auto simp: bind_eq_Some_conv)
  have "mm_cache_alloc call ops sys uninit z s =
    (if p = 0 then Some (0, s') else if zone_ctor s' z \<noteq> 0 then do { s \<leftarrow> call (zone_ctor s' z) p s'; Some (p, s) } else Some (p, s'))"
    using part m(1) m0 t(1-3) z by (simp add: mm_cache_alloc_def m(2) cong del: if_weak_cong)
  then show ?thesis using run_ctor [OF own t(4)] by auto
qed

lemma cache_alloc_room:
  assumes inv: "zone_ok s z A" and own: "own_memory call" and room: "slabs_on A (partial_slab_list z) \<union> slabs_on A (empty_slab_list z) \<noteq> {}"
  shows "\<exists>p A' s'. mm_cache_alloc call ops sys uninit z s = Some (p, s') \<and> obj_free s z A p \<and> zone_ok s' z A' \<and>
    objs_in_use s' z A' = insert p (objs_in_use s z A)"
proof (cases "slabs_on A (partial_slab_list z) = {}")
  case False
  then show ?thesis by (rule cache_alloc_partial [OF inv own])
next
  case True
  then have part: "lst_empty (partial_slab_list z) (links s) = Some True" using zone_list_first [OF inv, of "partial_slab_list z"] by simp
  obtain mc where mc: "mc \<in> slabs_on A (empty_slab_list z)" "mc \<noteq> 0" "mm_zfirst_cache_from_list (empty_slab_list z) s = Some mc"
    using zone_list_first [OF inv, of "empty_slab_list z"] room True by auto
  show ?thesis by (rule cache_alloc_empty [OF zone_invD(1) [OF inv] part own _ inv mc(1)]) (simp add: mc(2,3))
qed

lemma cache_alloc_new:
  assumes inv: "zone_ok s z A" and own: "own_memory call" and room: "slabs_on A (partial_slab_list z) \<union> slabs_on A (empty_slab_list z) = {}"
    and run: "mm_zalloc_pg ops sys uninit z s = Some (pg, s1)" and inv1: "zone_ok s1 z A" and fr: "pg = 0 \<or> slab_fresh s1 z A pg"
  shows "if pg = 0 then mm_cache_alloc call ops sys uninit z s = Some (0, s1)
    else \<exists>p A' s'. mm_cache_alloc call ops sys uninit z s = Some (p, s') \<and> obj_free s1 z A p \<and> zone_ok s' z A' \<and>
      objs_in_use s' z A' = insert p (objs_in_use s1 z A)"
proof -
  have z: "z \<noteq> 0" by (rule zone_invD(1) [OF inv])
  have part: "lst_empty (partial_slab_list z) (links s) = Some True" and em: "mm_zfirst_cache_from_list (empty_slab_list z) s = Some 0"
    using zone_list_first [OF inv, of "partial_slab_list z"] zone_list_first [OF inv, of "empty_slab_list z"] room by simp_all
  show ?thesis
  proof (cases "pg = 0")
    case True
    then show ?thesis using part em run z by (simp add: mm_cache_alloc_def mm_zcache_new_def)
  next
    case False
    obtain A' s' where n: "mm_zcache_new ops sys uninit z s = Some (pg, s')" "zone_ok s' z A'" "objs_in_use s' z A' = objs_in_use s1 z A"
      "pg \<in> slabs_on A' (empty_slab_list z)" "obj_bytes s' z = obj_bytes s1 z" using zcache_new_ok [OF run inv1] fr False by auto
    obtain p A2 s2 where "mm_cache_alloc call ops sys uninit z s = Some (p, s2)" "obj_free s' z A' p" "zone_ok s2 z A2"
      "objs_in_use s2 z A2 = insert p (objs_in_use s' z A')"
      using cache_alloc_empty [OF z part own _ n(2,4), of ops sys uninit] em n(1) by auto
    then show ?thesis using n(3,5) False by (auto simp: obj_free_def)
  qed
qed

section \<open>\<open>mm_cache_free\<close>\<close>

lemma zone_return:
  assumes inv: "zone_ok s z A" and mc: "mc \<in> zone_slabs A z" and i: "i \<in> slab_used s mc"
  shows "\<exists>b c. mm_zreturn_obj mc (slab_obj s mc i) s = Some (0, set_slab mc b c s) \<and> zone_inv {mc} (set_slab mc b c s) z A \<and>
    slab_used (set_slab mc b c s) mc = slab_used s mc - {i} \<and>
    objs_in_use (set_slab mc b c s) z A = objs_in_use s z A - {slab_obj s mc i}"
proof -
  note u = zone_used [OF inv mc]
  have "i < unat (mc_obj_count s mc)" using u i by auto
  then obtain s1 where r: "mm_zreturn_obj mc (slab_obj s mc i) s = Some (0, s1)" "slab_ok s1 mc" "slab_used s1 mc = slab_used s mc - {i}"
    using slab_return_ok [OF u(1), of i] unfolding if_P [OF i] by blast
  obtain b c where s1: "s1 = set_slab mc b c s" using return_sets [OF r(1)] by blast
  have "zone_inv {mc} (set_slab mc b c s) z A" using zone_set_slab [OF inv mc] r(2) unfolding s1 by simp
  then show ?thesis using r objs_delete [OF inv mc i] unfolding s1 by blast
qed

text \<open>After the release, the slab moves to the list it now belongs to.\<close>

lemma rehome:
  assumes inv: "zone_ok s z A" and mc: "mc \<in> zone_slabs A z" and i: "i \<in> slab_used s mc"
    and inv1: "zone_inv {mc} s1 z A" and u: "slab_used s1 mc = slab_used s mc - {i}" and n: "slab_count s1 z = slab_count s z"
  shows "\<exists>A' s2 r2 r3 s3. (if mm_zcache_empty s1 mc then mm_zmove_cache mc (partial_slab_list z) (empty_slab_list z) s1 else Some (0, s1)) = Some (r2, s2) \<and>
    (if mm_zcache_full s mc then mm_zmove_cache mc (full_slab_list z) (partial_slab_list z) s2 else Some (0, s2)) = Some (r3, s3) \<and>
    zone_ok s3 z A' \<and> objs_in_use s3 z A' = objs_in_use s1 z A \<and> zone_slabs A' z = zone_slabs A z"
proof -
  let ?n = "slab_count s z"
  obtain l where l: "l \<in> zone_lists z" "mc \<in> slabs_on A l" using mc by (auto simp: zone_slabs_def)
  have cl: "slab_class z l (slab_used s mc) ?n" using zone_invD(7) [OF inv l] by simp
  have two: "1 < ?n" using slab_count_bounds(1) [OF zone_invD(3) [OF inv]] .
  have ilt: "i < ?n" using zone_used(2) [OF inv mc] i by blast
  have full: "mm_zcache_full s mc \<longleftrightarrow> slab_used s mc = {..<?n}"
    using slab_full_empty(1) [OF zone_used(1) [OF inv mc]] zone_used(3) [OF inv mc] by simp
  have empty: "mm_zcache_empty s1 mc \<longleftrightarrow> slab_used s mc - {i} = {}" using slab_full_empty(2) [OF zone_used(1) [OF inv1 mc]] u by simp
  define j where "j = (if i = 0 then 1 else 0 :: nat)"
  have "j \<in> {..<?n} - {i}" using two by (auto simp: j_def)
  moreover have "i \<in> {..<?n}" "i \<notin> {..<?n} - {i}" using ilt by simp_all
  ultimately have some: "{..<?n} - {i} \<noteq> {}" "{..<?n} - {i} \<noteq> {..<?n}" by blast+
  have le: "l \<noteq> empty_slab_list z" using cl i by (auto simp: slab_class_def split: if_splits)
  show ?thesis
  proof (cases "l = full_slab_list z")
    case True
    have U: "slab_used s mc = {..<?n}" using cl True by (simp add: slab_class_def)
    have "slab_class z (partial_slab_list z) (slab_used s1 mc) (slab_count s1 z)" using some by (simp add: slab_class_def u U n)
    then obtain A' s' where "mm_zmove_cache mc l (partial_slab_list z) s1 = Some (0, s')" "zone_ok s' z A'"
      "objs_in_use s' z A' = objs_in_use s1 z A" "zone_slabs A' z = zone_slabs A z"
      using move_ok [OF inv1 l(1) _ _ l(2), of "partial_slab_list z"] True by auto
    then show ?thesis using full empty U some True by auto
  next
    case False
    then have lp: "l = partial_slab_list z" and U: "slab_used s mc \<noteq> {..<?n}"
      using l(1) le cl by (auto simp: zone_lists_def slab_class_def split: if_splits)
    show ?thesis
    proof (cases "slab_used s mc - {i} = {}")
      case True
      have "slab_class z (empty_slab_list z) (slab_used s1 mc) (slab_count s1 z)" using True by (simp add: slab_class_def u)
      then obtain A' s' where "mm_zmove_cache mc l (empty_slab_list z) s1 = Some (0, s')" "zone_ok s' z A'"
        "objs_in_use s' z A' = objs_in_use s1 z A" "zone_slabs A' z = zone_slabs A z"
        using move_ok [OF inv1 l(1) _ le l(2)] by auto
      then show ?thesis using full empty U True lp by auto
    next
      case no: False
      have "slab_class z l (slab_used s1 mc) (slab_count s1 z)" using no ilt lp by (auto simp: slab_class_def u n)
      then have "zone_ok s1 z A" by (rule zone_inv_home [OF inv1 _ l(2,1)])
      then show ?thesis using full empty U no by auto
    qed
  qed
qed

lemma zone_obj_nonzero:
  assumes inv: "zone_ok s z A" and mc: "mc \<in> zone_slabs A z" and i: "i < slab_count s z"
  shows "slab_obj s mc i \<noteq> 0"
proof -
  have "0 \<le> int i * obj_bytes s z" "0 \<le> uint mc" by simp_all
  then have "0 < uint (slab_obj s mc i)" using slab_obj_place(1) [OF zone_invD(3) [OF inv] zone_invD(6) [OF inv mc] i] by linarith
  then show ?thesis by auto
qed

lemma cache_free_ok:
  assumes inv: "zone_ok s z A" and mc: "mc \<in> zone_slabs A z" and i: "i < slab_count s z" and p: "p = slab_obj s mc i"
  shows "if i \<in> slab_used s mc
    then \<exists>A' s'. mm_cache_free (\<lambda>_ _ s. Some s) z p s = Some (0, s') \<and> zone_ok s' z A' \<and> objs_in_use s' z A' = objs_in_use s z A - {p}
    else mm_cache_free (\<lambda>_ _ s. Some s) z p s = Some (-1, s)"
proof -
  note u = zone_used [OF inv mc]
  have at: "cache_of_obj p s = Some mc"
    unfolding p by (rule cache_of_obj_ok [OF zone_invD(3) [OF inv] zone_invD(6) [OF inv mc] i zone_invD(2) [OF inv]])
  have z: "z \<noteq> 0" by (rule zone_invD(1) [OF inv])
  have p0: "p \<noteq> 0" unfolding p by (rule zone_obj_nonzero [OF inv mc i])
  have m0: "mc \<noteq> 0" using u(1) by (simp add: slab_ok_def)
  have em: "mm_zcache_empty s mc \<longleftrightarrow> slab_used s mc = {}" by (rule slab_full_empty(2) [OF u(1)])
  show ?thesis
  proof (cases "i \<in> slab_used s mc")
    case False
    then have "mm_zreturn_obj mc p s = Some (-1, s)" using slab_return_ok [OF u(1), of i] i u(3) by (simp add: p)
    then show ?thesis using False at z p0 m0 by (simp add: mm_cache_free_def Let_def)
  next
    case True
    obtain b c where r: "mm_zreturn_obj mc p s = Some (0, set_slab mc b c s)" "zone_inv {mc} (set_slab mc b c s) z A"
      "slab_used (set_slab mc b c s) mc = slab_used s mc - {i}" "objs_in_use (set_slab mc b c s) z A = objs_in_use s z A - {p}"
      using zone_return [OF inv mc True] unfolding p by blast
    obtain A' s2 r2 r3 s3 where h:
      "(if mm_zcache_empty (set_slab mc b c s) mc then mm_zmove_cache mc (partial_slab_list z) (empty_slab_list z) (set_slab mc b c s)
        else Some (0, set_slab mc b c s)) = Some (r2, s2)"
      "(if mm_zcache_full s mc then mm_zmove_cache mc (full_slab_list z) (partial_slab_list z) s2 else Some (0, s2)) = Some (r3, s3)"
      "zone_ok s3 z A'" "objs_in_use s3 z A' = objs_in_use (set_slab mc b c s) z A"
      using rehome [OF inv mc True r(2,3)] by auto
    have "mm_cache_free (\<lambda>_ _ s. Some s) z p s = Some (0, s3)"
      using at z p0 m0  r(1) True em h(1,2) by (auto simp: mm_cache_free_def Let_def)
    then show ?thesis using True h(3,4) r(4) by auto
  qed
qed

text \<open>The destructor runs before anything is checked.\<close>

lemma cache_free_dtor:
  assumes "z \<noteq> 0" "p \<noteq> 0"
  shows "mm_cache_free call z p s = do {
    s \<leftarrow> (if zone_dtor s z \<noteq> 0 then call (zone_dtor s z) p s else Some s);
    mm_cache_free (\<lambda>_ _ s. Some s) z p s }"
  using assms by (simp add: mm_cache_free_def)

definition zone_objs :: "('o, 'p, 'z) mm_heap_scheme \<Rightarrow> ptr \<Rightarrow> (ptr \<Rightarrow> ptr list option) \<Rightarrow> ptr set" where
  "zone_objs s z A = (\<Union>mc \<in> zone_slabs A z. slab_obj s mc ` {..<slab_count s z})"

section \<open>What a zone promises\<close>

text \<open>
  C10.  A zone is a set of objects in use.  \<open>mm_cache_alloc\<close>, when a slab has room, hands out an object that was
  not in use, overlaps none that is, and is in use from then on; the lists of full, empty and partial
  slabs stay right.  When no slab has room it fails if the pool has no pages, and with the pages it gets it
  does the same.
\<close>

theorem mm_cache_alloc_zone:
  assumes inv: "zone_ok s z A" and own: "own_memory call"
  shows "if slabs_on A (partial_slab_list z) \<union> slabs_on A (empty_slab_list z) \<noteq> {}
    then \<exists>p A' s'. mm_cache_alloc call ops sys uninit z s = Some (p, s') \<and> obj_free s z A p \<and> zone_ok s' z A' \<and>
      objs_in_use s' z A' = insert p (objs_in_use s z A)
    else \<forall>pg s1. mm_zalloc_pg ops sys uninit z s = Some (pg, s1) \<and> zone_ok s1 z A \<and> (pg = 0 \<or> slab_fresh s1 z A pg) \<longrightarrow>
      (if pg = 0 then mm_cache_alloc call ops sys uninit z s = Some (0, s1)
       else \<exists>p A' s'. mm_cache_alloc call ops sys uninit z s = Some (p, s') \<and> obj_free s1 z A p \<and> zone_ok s' z A' \<and>
         objs_in_use s' z A' = insert p (objs_in_use s1 z A))"
proof (cases "slabs_on A (partial_slab_list z) \<union> slabs_on A (empty_slab_list z) \<noteq> {}")
  case True
  show ?thesis unfolding if_P [OF True] by (rule cache_alloc_room [OF inv own True])
next
  case False
  then show ?thesis unfolding if_not_P [OF False] using cache_alloc_new [OF inv own] by blast
qed

text \<open>
  C11.  \<open>mm_cache_free\<close> of an object of the zone takes just this object out of use; one that is not in use, so
  a second release, is refused, and the objects in use stay as they are.
\<close>

theorem mm_cache_free_zone:
  assumes inv: "zone_ok s z A" and own: "own_memory call" and p: "p \<in> zone_objs s z A"
  shows "if p \<in> objs_in_use s z A
    then \<exists>A' s'. mm_cache_free call z p s = Some (0, s') \<and> zone_ok s' z A' \<and> objs_in_use s' z A' = objs_in_use s z A - {p}
    else \<exists>s'. mm_cache_free call z p s = Some (-1, s') \<and> zone_ok s' z A \<and> objs_in_use s' z A = objs_in_use s z A"
proof -
  obtain mc i where mc: "mc \<in> zone_slabs A z" "i < slab_count s z" "p = slab_obj s mc i" using p by (auto simp: zone_objs_def)
  obtain b x where d: "call (zone_dtor s z) p s = Some (s\<lparr>bytes := b, mm_heap.more := x\<rparr>)" using own unfolding own_memory_def by blast
  define s1 where "s1 = (if zone_dtor s z \<noteq> 0 then s\<lparr>bytes := b, mm_heap.more := x\<rparr> else s)"
  have same: "zone_ok s1 z A" "objs_in_use s1 z A = objs_in_use s z A" "slab_count s1 z = slab_count s z"
    "slab_obj s1 mc i = slab_obj s mc i" "slab_used s1 mc = slab_used s mc" using inv by (simp_all add: s1_def)
  have i: "i < slab_count s1 z" and q: "p = slab_obj s1 mc i" using mc same by simp_all
  note f = cache_free_ok [OF same(1) mc(1) i q]
  have p0: "p \<noteq> 0" unfolding mc(3) by (rule zone_obj_nonzero [OF inv mc(1,2)])
  have "mm_cache_free call z p s = mm_cache_free (\<lambda>_ _ s. Some s) z p s1"
    by (subst cache_free_dtor [OF zone_invD(1) [OF inv] p0]) (simp add: s1_def d)
  then show ?thesis using f same obj_in_use_iff [OF inv mc(1,2)] unfolding mc(3) by (auto split: if_splits)
qed

section \<open>A small zone\<close>

text \<open>One slab of 64 objects, the first of which is in use, on the list of partial slabs.\<close>

definition zone_ex_lists :: "ptr \<Rightarrow> ptr list option" where
  "zone_ex_lists = [0x5028 \<mapsto> [], 0x5048 \<mapsto> [], 0x5068 \<mapsto> [0x6008]]"

definition zone_ex :: "(unit, unit) mm_heap" where
  "zone_ex = mm_ex\<lparr>
     links := \<lparr>dl_prev = (\<lambda>_. 0)(0x5038 := 0x5028, 0x5058 := 0x5048, 0x5078 := 0x6008, 0x6008 := 0x5068),
       dl_next = (\<lambda>_. 0)(0x5028 := 0x5038, 0x5048 := 0x5058, 0x5068 := 0x6008, 0x6008 := 0x5078)\<rparr>,
     mc_label := (\<lambda>_. SLAB_LABEL), mc_obj_count := (\<lambda>_. 64), mc_free_count := (\<lambda>_. 63), mc_obj_ptr := (\<lambda>_. 0x6A00)\<rparr>"

lemma zone_ex_slabs:
  "slabs_on zone_ex_lists 0x5028 = {}" "slabs_on zone_ex_lists 0x5048 = {}" "slabs_on zone_ex_lists 0x5068 = {0x6000}"
  "zone_slabs zone_ex_lists 0x5000 = {0x6000}" "slab_used zone_ex 0x6000 = {0}" "slab_count zone_ex 0x5000 = 64"
  "slab_obj zone_ex 0x6000 0 = 0x6A00"
  by (simp_all add: zone_slabs_def zone_lists_def slabs_on_def zone_ex_lists_def slab_used_def zone_ex_def mm_ex_def bit_1_iff
      slab_count_def slab_obj_def)

lemma zone_ex_family: "dl.family (links zone_ex) zone_ex_lists"
  by (auto simp: dl.family_def dl.disjoint_def dl_list_def dl_nodes_def zone_ex_lists_def zone_ex_def split: if_splits)

lemma zone_ex_ok: "zone_ok zone_ex 0x5000 zone_ex_lists"
proof -
  have layout: "zone_layout zone_ex 0x5000" by (simp add: zone_layout_def zone_ex_def mm_ex_def) (rule exI [of _ 12], simp)
  have used: "slab_used zone_ex 0x6000 = {0}" by (rule zone_ex_slabs)
  have "slab_ok zone_ex 0x6000" unfolding slab_ok_def used by (simp add: zone_ex_def mm_ex_def)
  moreover have "slab_placed zone_ex 0x5000 0x6000" by (simp add: slab_placed_def zone_ex_def mm_ex_def)
  ultimately have slab: "zone_slab zone_ex 0x5000 0x6000"
    unfolding zone_slab_def zone_ex_slabs by (simp add: zone_ex_def mm_ex_def)
  have "{0 :: nat} \<noteq> {..<64}"
  proof
    assume "{0 :: nat} = {..<64}"
    then have "(1 :: nat) \<in> {0}" by simp
    then show False by simp
  qed
  then have cl: "\<forall>l \<in> zone_lists 0x5000. \<forall>mc \<in> slabs_on zone_ex_lists l. slab_class 0x5000 l (slab_used zone_ex mc) (slab_count zone_ex 0x5000)"
    by (simp add: zone_lists_def zone_ex_slabs slab_class_def)
  have "zone_lists 0x5000 \<subseteq> dom zone_ex_lists" by (simp add: zone_lists_def zone_ex_lists_def)
  moreover have "the_mmspace zone_ex \<noteq> 0" by (simp add: zone_ex_def mm_ex_def)
  ultimately show ?thesis using layout zone_ex_family slab cl by (simp add: zone_inv_def zone_ex_slabs)
qed

lemma zone_ex_in_use: "objs_in_use zone_ex 0x5000 zone_ex_lists = {0x6A00}"
  by (simp add: objs_in_use_def zone_ex_slabs)

lemma no_functions: "own_memory (\<lambda>_ _ s. Some s)"
  unfolding own_memory_def by (intro allI) (rule_tac x = "bytes s" in exI, rule_tac x = "mm_heap.more s" in exI, simp)

theorem mm_cache_alloc_zone_witness:
  "\<forall>sys uninit. \<exists>p A s'. mm_cache_alloc (\<lambda>_ _ s. Some s) ops_ex sys uninit 0x5000 zone_ex = Some (p, s') \<and> p \<noteq> 0x6A00 \<and>
     zone_ok s' 0x5000 A \<and> objs_in_use s' 0x5000 A = {p, 0x6A00}"
proof (intro allI)
  fix sys :: "unit shm_sys" and uninit
  have room: "slabs_on zone_ex_lists (partial_slab_list 0x5000) \<union> slabs_on zone_ex_lists (empty_slab_list 0x5000) \<noteq> {}"
    by (simp add: zone_ex_slabs)
  obtain p A s' where "mm_cache_alloc (\<lambda>_ _ s. Some s) ops_ex sys uninit 0x5000 zone_ex = Some (p, s')"
    "obj_free zone_ex 0x5000 zone_ex_lists p" "zone_ok s' 0x5000 A" "objs_in_use s' 0x5000 A = insert p {0x6A00}"
    using mm_cache_alloc_zone [OF zone_ex_ok no_functions, of ops_ex sys uninit] unfolding if_P [OF room] zone_ex_in_use by blast
  then show "\<exists>p A s'. mm_cache_alloc (\<lambda>_ _ s. Some s) ops_ex sys uninit 0x5000 zone_ex = Some (p, s') \<and> p \<noteq> 0x6A00 \<and>
     zone_ok s' 0x5000 A \<and> objs_in_use s' 0x5000 A = {p, 0x6A00}" by (auto simp: obj_free_def zone_ex_in_use)
qed

theorem mm_cache_free_zone_witness:
  "\<exists>A s'. mm_cache_free (\<lambda>_ _ s. Some s) 0x5000 0x6A00 zone_ex = Some (0, s') \<and> zone_ok s' 0x5000 A \<and> objs_in_use s' 0x5000 A = {}"
proof -
  have "slab_obj zone_ex 0x6000 0 \<in> slab_obj zone_ex 0x6000 ` {..<64}" by (rule imageI) simp
  then have p: "0x6A00 \<in> zone_objs zone_ex 0x5000 zone_ex_lists" unfolding zone_objs_def zone_ex_slabs by simp
  have u: "(0x6A00 :: ptr) \<in> objs_in_use zone_ex 0x5000 zone_ex_lists" by (simp add: zone_ex_in_use)
  show ?thesis using mm_cache_free_zone [OF zone_ex_ok no_functions p] unfolding if_P [OF u] zone_ex_in_use by auto
qed

end
