(* ===== verification/Timer.thy ===== *)
theory Timer
  imports Mmcache
begin

text \<open>
  The hierarchical timer wheel of \<open>src/src/timer.c\<close>.

  The wheel, a static variable, lies at \<open>wheel\<close>: its tick, then 256 lists for the next 256 ticks
  (\<open>_tv_set0\<close>) and four sets of 64 lists.  A \<open>struct timer_node\<close> (56 bytes) has its list node at
  offset 40.  A timer's function is an address, which \<open>run\<close> calls with the handle and the parameter.
\<close>

record ('o, 'p) timer_heap = "('o, 'p) mm_heap" +
  wheel :: ptr
  current_tick :: u64
  timer_zone :: ptr
  tn_magic :: "ptr \<Rightarrow> u32"
  tn_run_once :: "ptr \<Rightarrow> u32"
  tn_run_tick :: "ptr \<Rightarrow> u64"
  tn_delay :: "ptr \<Rightarrow> u64"
  tn_func :: "ptr \<Rightarrow> ptr"
  tn_param :: "ptr \<Rightarrow> ptr"

definition TIMER_NODE_TYPE_MAGIC :: u32 where "TIMER_NODE_TYPE_MAGIC = 0x12341234"
definition TV_SET0_SIZE :: u64 where "TV_SET0_SIZE = push_bit 8 1"
definition TV_SET_SIZE :: u64 where "TV_SET_SIZE = push_bit 6 1"
definition TV_SET0_MASK :: u64 where "TV_SET0_MASK = push_bit 8 1 - 1"
definition TV_SETN_MASK :: u64 where "TV_SETN_MASK = push_bit 6 1 - 1"
definition TV_SET_SHIFT_BITS :: "nat \<Rightarrow> nat" where "TV_SET_SHIFT_BITS n = 8 + n * 6"
definition TV_SET_MASK :: "nat \<Rightarrow> u64" where "TV_SET_MASK n = push_bit (8 + (n + 1) * 6) 1 - 1"
definition TV_SET_MASK_IDX :: "nat \<Rightarrow> u64" where "TV_SET_MASK_IDX n = push_bit (8 + n * 6) (push_bit 6 1 - 1)"
definition TV_SET_CNT :: nat where "TV_SET_CNT = 4"

abbreviation tn_lln :: "ptr \<Rightarrow> ptr" where "tn_lln tn \<equiv> tn + 40"
abbreviation (input) tn_of_lln :: "ptr \<Rightarrow> ptr" where "tn_of_lln dln \<equiv> dln - 40"

definition tv_set0 :: "('o, 'p, 'z) timer_heap_scheme \<Rightarrow> u64 \<Rightarrow> ptr" where
  "tv_set0 s i = wheel s + 8 + 32 * i"

definition tv_set :: "('o, 'p, 'z) timer_heap_scheme \<Rightarrow> nat \<Rightarrow> u64 \<Rightarrow> ptr" where
  "tv_set s n j = wheel s + 8 + 32 * 256 + 32 * (of_nat n * 64 + j)"

text \<open>The slot of a tick count in set \<open>n\<close>.\<close>

definition tv_idx :: "nat \<Rightarrow> u64 \<Rightarrow> u64" where
  "tv_idx n t = drop_bit (TV_SET_SHIFT_BITS n) (t AND TV_SET_MASK_IDX n)"

section \<open>Setting up\<close>

definition timer_try_restore_zone ::
  "('o, 'p, ('o, 'p, 'z) timer_heap_scheme) mm_env \<Rightarrow> ptr \<Rightarrow> ('o, 'p, 'z) timer_heap_scheme \<Rightarrow>
   (int \<times> ('o, 'p, 'z) timer_heap_scheme) option" where
  "timer_try_restore_zone E zone_name s =
     (if timer_zone s \<noteq> 0 then Some (0, s)
      else do {
        z \<leftarrow> mm_search_zone zone_name s;
        let s = s\<lparr>timer_zone := z\<rparr>;
        if z = 0
        then do {
          (z, s) \<leftarrow> cache_new E zone_name 56 s;
          Some (if z = 0 then -1 else 0, s\<lparr>timer_zone := z\<rparr>) }
        else Some (if zone_obj_size s z \<noteq> 56 then -1 else 0, s) })"

partial_function (option) init_set0 :: "u64 \<Rightarrow> ('o, 'p, 'z) timer_heap_scheme \<Rightarrow> ('o, 'p, 'z) timer_heap_scheme option" where
  "init_set0 i s =
     (if i < TV_SET0_SIZE
      then do { (r, s) \<leftarrow> on_links (lst_new (tv_set0 s i)) s; init_set0 (i + 1) s }
      else Some s)"

partial_function (option) init_set :: "nat \<Rightarrow> u64 \<Rightarrow> ('o, 'p, 'z) timer_heap_scheme \<Rightarrow> ('o, 'p, 'z) timer_heap_scheme option" where
  "init_set n j s =
     (if j < TV_SET_SIZE
      then do { (r, s) \<leftarrow> on_links (lst_new (tv_set s n j)) s; init_set n (j + 1) s }
      else Some s)"

partial_function (option) init_sets :: "nat \<Rightarrow> ('o, 'p, 'z) timer_heap_scheme \<Rightarrow> ('o, 'p, 'z) timer_heap_scheme option" where
  "init_sets n s =
     (if n < TV_SET_CNT
      then do { s \<leftarrow> init_set n 0 s; init_sets (n + 1) s }
      else Some s)"

definition init_timer ::
  "('o, 'p, ('o, 'p, 'z) timer_heap_scheme) mm_env \<Rightarrow> ptr \<Rightarrow> ('o, 'p, 'z) timer_heap_scheme \<Rightarrow>
   (int \<times> ('o, 'p, 'z) timer_heap_scheme) option" where
  "init_timer E zone_name s = do {
     (rslt, s) \<leftarrow> timer_try_restore_zone E zone_name s;
     if rslt < 0 then Some (-1, s)
     else do {
       s \<leftarrow> init_set0 0 (s\<lparr>current_tick := 0\<rparr>);
       s \<leftarrow> init_sets 0 s;
       Some (0, s) } }"

section \<open>Adding and deleting\<close>

text \<open>
  The highest set in which the distance has a slot that is not 0, from set \<open>n - 1\<close> down.  The slot is
  taken relative to the current one.  A distance with none is not linked at all.
\<close>

fun link_far :: "nat \<Rightarrow> ptr \<Rightarrow> u64 \<Rightarrow> ('o, 'p, 'z) timer_heap_scheme \<Rightarrow> ('o, 'p, 'z) timer_heap_scheme option" where
  "link_far 0 tn diff s = Some s"
| "link_far (Suc n) tn diff s =
     (if tv_idx n diff > 0
      then do {
        (r, s) \<leftarrow> on_links (lst_push_back (tv_set s n ((tv_idx n diff + tv_idx n (current_tick s)) AND TV_SETN_MASK)) (tn_lln tn)) s;
        Some s }
      else link_far n tn diff s)"

definition link_timer :: "ptr \<Rightarrow> ('o, 'p, 'z) timer_heap_scheme \<Rightarrow> ('o, 'p, 'z) timer_heap_scheme option" where
  "link_timer tn s =
     (let diff = tn_run_tick s tn - current_tick s in
      if diff < TV_SET0_SIZE
      then do { (r, s) \<leftarrow> on_links (lst_push_back (tv_set0 s (diff AND TV_SET0_MASK)) (tn_lln tn)) s; Some s }
      else link_far TV_SET_CNT tn diff s)"

definition add_timer ::
  "('o, 'p, ('o, 'p, 'z) timer_heap_scheme) mm_env \<Rightarrow> u32 \<Rightarrow> ptr \<Rightarrow> u32 \<Rightarrow> ptr \<Rightarrow> ('o, 'p, 'z) timer_heap_scheme \<Rightarrow>
   (ptr \<times> ('o, 'p, 'z) timer_heap_scheme) option" where
  "add_timer E delay_tick func run_once param s =
     (if func = 0 then Some (0, s)
      else do {
        (tn, s) \<leftarrow> cache_get E (timer_zone s) s;
        if tn = 0 then Some (0, s)
        else do {
          let s = s\<lparr>tn_magic := (tn_magic s)(tn := TIMER_NODE_TYPE_MAGIC),
                    tn_delay := (tn_delay s)(tn := ucast delay_tick),
                    tn_run_tick := (tn_run_tick s)(tn := current_tick s + ucast delay_tick),
                    tn_func := (tn_func s)(tn := func), tn_param := (tn_param s)(tn := param),
                    tn_run_once := (tn_run_once s)(tn := run_once)\<rparr>;
          (r, s) \<leftarrow> on_links (lst_clr (tn_lln tn)) s;
          s \<leftarrow> link_timer tn s;
          Some (tn, s) } })"

definition unlink_timer ::
  "('o, 'p, ('o, 'p, 'z) timer_heap_scheme) mm_env \<Rightarrow> ptr \<Rightarrow> ('o, 'p, 'z) timer_heap_scheme \<Rightarrow>
   ('o, 'p, 'z) timer_heap_scheme option" where
  "unlink_timer E tn s = do {
     (r, s) \<leftarrow> on_links (lst_remove_node (tn_lln tn)) s;
     (r, s) \<leftarrow> cache_put E (timer_zone s) tn s;
     Some s }"

definition del_timer ::
  "('o, 'p, ('o, 'p, 'z) timer_heap_scheme) mm_env \<Rightarrow> ptr \<Rightarrow> ('o, 'p, 'z) timer_heap_scheme \<Rightarrow>
   ('o, 'p, 'z) timer_heap_scheme option" where
  "del_timer E tn s =
     (if tn = 0 then Some s
      else if tn_magic s tn \<noteq> TIMER_NODE_TYPE_MAGIC then Some s
      else unlink_timer E tn s)"

section \<open>A tick\<close>

text \<open>The timers of a list of a higher set are linked again, by their distance from now.\<close>

partial_function (option) cascade_list :: "ptr \<Rightarrow> ptr \<Rightarrow> ('o, 'p, 'z) timer_heap_scheme \<Rightarrow> ('o, 'p, 'z) timer_heap_scheme option" where
  "cascade_list lst node s =
     (if node = lst_last lst then Some s
      else do {
        nxt \<leftarrow> ld_next (links s) node;
        (r, s) \<leftarrow> on_links (lst_remove_node node) s;
        s \<leftarrow> link_timer (tn_of_lln node) s;
        cascade_list lst nxt s })"

definition casade0 :: "('o, 'p, 'z) timer_heap_scheme \<Rightarrow> ('o, 'p, 'z) timer_heap_scheme option" where
  "casade0 s = do {
     let lst = tv_set s 0 (drop_bit 8 (current_tick s AND TV_SET_MASK_IDX 0));
     node \<leftarrow> lst_first lst (links s);
     cascade_list lst node s }"

definition casade :: "nat \<Rightarrow> ('o, 'p, 'z) timer_heap_scheme \<Rightarrow> ('o, 'p, 'z) timer_heap_scheme option" where
  "casade i s = do {
     let lst = tv_set s (i + 1) (tv_idx (i + 1) (current_tick s));
     node \<leftarrow> lst_first lst (links s);
     cascade_list lst node s }"

partial_function (option) run_timers ::
  "(ptr \<Rightarrow> ptr \<Rightarrow> ptr \<Rightarrow> ('o, 'p, 'z) timer_heap_scheme \<Rightarrow> ('o, 'p, 'z) timer_heap_scheme option) \<Rightarrow>
   ('o, 'p, ('o, 'p, 'z) timer_heap_scheme) mm_env \<Rightarrow> ptr \<Rightarrow> ('o, 'p, 'z) timer_heap_scheme \<Rightarrow>
   ('o, 'p, 'z) timer_heap_scheme option" where
  "run_timers run E node s =
     (if node = lst_last (tv_set0 s (current_tick s AND TV_SET0_MASK)) then Some s
      else do {
        nxt \<leftarrow> ld_next (links s) node;
        let tn = tn_of_lln node;
        s \<leftarrow> run (tn_func s tn) tn (tn_param s tn) s;
        s \<leftarrow> (if tn_run_once s tn \<noteq> 0 then unlink_timer E tn s
              else do {
                (r, s) \<leftarrow> on_links (lst_remove_node node) s;
                link_timer tn (s\<lparr>tn_run_tick := (tn_run_tick s)(tn := current_tick s + tn_delay s tn)\<rparr>) });
        run_timers run E nxt s })"

definition on_tick ::
  "(ptr \<Rightarrow> ptr \<Rightarrow> ptr \<Rightarrow> ('o, 'p, 'z) timer_heap_scheme \<Rightarrow> ('o, 'p, 'z) timer_heap_scheme option) \<Rightarrow>
   ('o, 'p, ('o, 'p, 'z) timer_heap_scheme) mm_env \<Rightarrow> ('o, 'p, 'z) timer_heap_scheme \<Rightarrow>
   ('o, 'p, 'z) timer_heap_scheme option" where
  "on_tick run E s = do {
     s \<leftarrow> (if current_tick s > 0 \<and> current_tick s AND TV_SET0_MASK = 0 then casade0 s else Some s);
     s \<leftarrow> (if current_tick s AND TV_SET_MASK 1 \<noteq> 0 \<and> current_tick s AND TV_SET_MASK 0 = 0 then casade 0 s else Some s);
     s \<leftarrow> (if current_tick s AND TV_SET_MASK 2 \<noteq> 0 \<and> current_tick s AND TV_SET_MASK 1 = 0 then casade 1 s else Some s);
     s \<leftarrow> (if current_tick s AND TV_SET_MASK 3 \<noteq> 0 \<and> current_tick s AND TV_SET_MASK 2 = 0 then casade 2 s else Some s);
     node \<leftarrow> lst_first (tv_set0 s (current_tick s AND TV_SET0_MASK)) (links s);
     s \<leftarrow> run_timers run E node s;
     Some (s\<lparr>current_tick := current_tick s + 1\<rparr>) }"

definition dbg_current_tick :: "('o, 'p, 'z) timer_heap_scheme \<Rightarrow> u64" where
  "dbg_current_tick s = current_tick s"

end
