(* ===== verification/Timer_Spec.thy ===== *)
theory Timer_Spec
  imports Timer Dlist_Family Mmspace_Spec
begin

text \<open>
  When a timer of the wheel runs.  The lists of the wheel are a family of lists; \<open>wheel_at s A\<close> says that
  \<open>A\<close> holds the 256 near lists and that the four far sets are empty.
\<close>

definition wheel_at :: "('o, 'p, 'z) timer_heap_scheme \<Rightarrow> (ptr \<Rightarrow> ptr list option) \<Rightarrow> bool" where
  "wheel_at s A \<longleftrightarrow> dl.family (links s) A \<and> (\<forall>i < 256. A (tv_set0 s i) \<noteq> None) \<and>
     (\<forall>n < 4. \<forall>j < 64. A (tv_set s n j) = Some [])"

fun on_ticks ::
  "(ptr \<Rightarrow> ptr \<Rightarrow> ptr \<Rightarrow> ('o, 'p, 'z) timer_heap_scheme \<Rightarrow> ('o, 'p, 'z) timer_heap_scheme option) \<Rightarrow>
   ('o, 'p, ('o, 'p, 'z) timer_heap_scheme) mm_env \<Rightarrow> nat \<Rightarrow> ('o, 'p, 'z) timer_heap_scheme \<Rightarrow>
   ('o, 'p, 'z) timer_heap_scheme option" where
  "on_ticks run E 0 s = Some s"
| "on_ticks run E (Suc n) s = do { s \<leftarrow> on_ticks run E n s; on_tick run E s }"

section \<open>The slots\<close>

lemma drop_and_shift: "drop_bit n (a AND push_bit n 63) = drop_bit n a AND 63" for a :: u64
  by (rule bit_word_eqI) (auto simp: bit_simps dest: bit_imp_le_length)

lemma tv_idx_less: "tv_idx n t < 64"
proof -
  have "tv_idx n t = drop_bit (8 + n * 6) t AND 63"
    using drop_and_shift [of "8 + n * 6" t] by (simp add: tv_idx_def TV_SET_SHIFT_BITS_def TV_SET_MASK_IDX_def)
  also have "\<dots> \<le> 63" by (rule word_and_le1)
  finally show ?thesis by (rule le_less_trans) simp
qed

lemma unat_times_32: "unat (k :: u64) < 1024 \<Longrightarrow> unat (32 * k) = 32 * unat k"
  by (simp add: unat_word_ariths)

lemma tv_set0_inj: "i < 256 \<Longrightarrow> k < 256 \<Longrightarrow> tv_set0 s i = tv_set0 s k \<longleftrightarrow> i = k"
proof (rule iffI)
  assume i: "i < 256" and k: "k < 256" and "tv_set0 s i = tv_set0 s k"
  then have "unat (32 * i) = unat (32 * k)" by (simp add: tv_set0_def)
  then have "unat i = unat k" using unat_times_32 [of i] unat_times_32 [of k] i k by (simp add: word_less_nat_alt)
  then show "i = k" by (simp add: word_unat_eq_iff)
qed simp

lemma tv_set_apart:
  assumes n: "n < 4" and j: "j < 64" and i: "i < 256" shows "tv_set s n j \<noteq> tv_set0 s i"
proof
  assume e: "tv_set s n j = tv_set0 s i"
  have u: "unat (256 + of_nat n * 64 + j) = 256 + n * 64 + unat j"
    using n j by (simp add: unat_word_ariths unat_of_nat word_less_nat_alt)
  have "32 * i = 32 * (256 + of_nat n * 64 + j)" using e by (simp add: tv_set0_def tv_set_def algebra_simps)
  then have "32 * unat i = 32 * (256 + n * 64 + unat j)"
    using unat_times_32 [of i] unat_times_32 [of "256 + of_nat n * 64 + j"] u n j i
    by (simp add: word_less_nat_alt)
  then show False using i by (simp add: word_less_nat_alt)
qed

section \<open>A tick with no work\<close>

lemma cascade_empty: "dl_list (links s) l [] \<Longrightarrow> lst_first l (links s) = Some (lst_last l) \<and> cascade_list l (lst_last l) s = Some s"
  using lst_first_rep [of "links s" l "[]"] by (simp add: lst_last_def cascade_list.simps)

lemma casades_empty:
  assumes w: "wheel_at s A"
  shows "casade0 s = Some s" and "n < 3 \<Longrightarrow> casade n s = Some s"
proof -
  have e: "dl_list (links s) (tv_set s n (tv_idx n t)) []" if "n < 4" for n t
    by (rule dl.family_rep [of _ A]) (use w that tv_idx_less in \<open>simp_all add: wheel_at_def\<close>)
  have i0: "drop_bit 8 (current_tick s AND TV_SET_MASK_IDX 0) = tv_idx 0 (current_tick s)"
    by (simp add: tv_idx_def TV_SET_SHIFT_BITS_def)
  show "casade0 s = Some s" unfolding casade0_def Let_def i0 using cascade_empty [OF e [of 0]] by simp
  show "casade n s = Some s" if "n < 3" using cascade_empty [OF e [of "n + 1"]] that by (simp add: casade_def Let_def)
qed

lemma on_tick_walk:
  assumes w: "wheel_at s A" and l: "A (tv_set0 s (current_tick s AND 255)) = Some xs"
  shows "on_tick run E s = do {
    s \<leftarrow> run_timers run E (case xs of [] \<Rightarrow> lst_last (tv_set0 s (current_tick s AND 255)) | x # _ \<Rightarrow> x) s;
    Some (s\<lparr>current_tick := current_tick s + 1\<rparr>) }"
proof -
  have "dl_list (links s) (tv_set0 s (current_tick s AND 255)) xs"
    by (rule dl.family_rep [of _ A]) (use w l in \<open>simp_all add: wheel_at_def\<close>)
  then have f: "lst_first (tv_set0 s (current_tick s AND 255)) (links s) =
      Some (case xs of [] \<Rightarrow> lst_last (tv_set0 s (current_tick s AND 255)) | x # _ \<Rightarrow> x)"
    unfolding lst_last_def by (rule lst_first_rep)
  have m: "TV_SET0_MASK = 255" by (simp add: TV_SET0_MASK_def)
  have c: "casade0 s = Some s" "casade 0 s = Some s" "casade 1 s = Some s" "casade 2 s = Some s"
    using casades_empty [OF w] by simp_all
  show ?thesis unfolding on_tick_def m c if_cancel Option.bind.bind_lunit f ..
qed

lemma on_tick_idle:
  assumes "wheel_at s A" and "A (tv_set0 s (current_tick s AND 255)) = Some []"
  shows "on_tick run E s = Some (s\<lparr>current_tick := current_tick s + 1\<rparr>)"
  using on_tick_walk [OF assms] by (simp add: run_timers.simps TV_SET0_MASK_def)

lemma wheel_at_tick: "wheel_at (s\<lparr>current_tick := t\<rparr>) A = wheel_at s A"
  by (simp add: wheel_at_def tv_set0_def tv_set_def)

lemma on_ticks_idle:
  assumes w: "wheel_at s A" and "\<And>k. k < n \<Longrightarrow> A (tv_set0 s ((current_tick s + of_nat k) AND 255)) = Some []"
  shows "on_ticks run E n s = Some (s\<lparr>current_tick := current_tick s + of_nat n\<rparr>)"
  using assms(2)
proof (induction n)
  case (Suc n)
  let ?s = "s\<lparr>current_tick := current_tick s + of_nat n\<rparr>"
  have "A (tv_set0 ?s (current_tick ?s AND 255)) = Some []" using Suc.prems [of n] by (simp add: tv_set0_def)
  then have "on_tick run E ?s = Some (?s\<lparr>current_tick := current_tick ?s + 1\<rparr>)"
    using on_tick_idle [of ?s A] w by (simp add: wheel_at_tick)
  moreover have "on_ticks run E n s = Some ?s" using Suc by simp
  ultimately show ?case by (simp add: add.assoc)
qed simp

section \<open>When a timer runs\<close>

text \<open>The walk of a list calls the function of its first timer, puts the timer away and goes on with the next.\<close>

lemma run_timers_step:
  assumes l: "dl_list (links s) (tv_set0 s d) (tn_lln tn # nodes)" and d: "current_tick s AND TV_SET0_MASK = d"
    and s0: "wheel s0 = wheel s"
  shows "run_timers run E (tn_lln tn) s = do {
    s \<leftarrow> run (tn_func s tn) tn (tn_param s tn) s;
    s \<leftarrow> (if tn_run_once s tn \<noteq> 0 then unlink_timer E tn s
          else do {
            (r, s) \<leftarrow> on_links (lst_remove_node (tn_lln tn)) s;
            link_timer tn (s\<lparr>tn_run_tick := (tn_run_tick s)(tn := current_tick s + tn_delay s tn)\<rparr>) });
    run_timers run E (case nodes of [] \<Rightarrow> lst_last (tv_set0 s0 d) | x # _ \<Rightarrow> x) s }"
proof -
  have w: "tv_set0 s0 = tv_set0 s" using s0 by (simp add: fun_eq_iff tv_set0_def)
  have n: "tn_lln tn \<noteq> lst_last (tv_set0 s d)" "ld_next (links s) (tn_lln tn) = Some (case nodes of [] \<Rightarrow> lst_last (tv_set0 s d) | x # _ \<Rightarrow> x)"
    using l by (auto simp: dl_list_def dl_nodes_def lst_last_def ld_next_def deref_def split: list.splits)
  have tn: "tn_lln tn - 40 = tn" by simp
  show ?thesis unfolding w by (subst run_timers.simps) (simp only: d n Let_def if_False Option.bind.bind_lunit tn)
qed

text \<open>
  C19.  A timer that \<open>_add_timer\<close> links with a distance \<open>d\<close> below 256 into an idle wheel runs at the
  first tick whose low byte is \<open>d\<close>.  Until then the ticks only count, whatever the tick it was due at.  At
  that one the function of the timer is called, once, on the timer and its parameter; then the timer is
  released if it runs once, and linked again by its delay otherwise, and the walk goes on behind it, which is
  the end of the list.  So it runs when it is due only if the low byte of the tick it was added at is 0.
\<close>

theorem timer_runs_at_slot:
  assumes w: "wheel_at s A" and idle: "\<And>i. i < 256 \<Longrightarrow> A (tv_set0 s i) = Some []"
    and fresh: "tn_lln tn \<notin> dl.members A" "tn_lln tn \<noteq> 0"
    and d: "tn_run_tick s tn = current_tick s + d" "d < 256"
  shows "\<exists>s1. link_timer tn s = Some s1 \<and> dl_list (links s1) (tv_set0 s d) [tn_lln tn] \<and>
    (\<forall>n. (\<forall>k < n. (current_tick s + of_nat k) AND 255 \<noteq> d) \<longrightarrow>
      (let s2 = s1\<lparr>current_tick := current_tick s + of_nat n\<rparr> in
       on_ticks run E n s1 = Some s2 \<and>
       ((current_tick s + of_nat n) AND 255 = d \<longrightarrow>
        on_tick run E s2 = do {
          s \<leftarrow> run (tn_func s tn) tn (tn_param s tn) s2;
          s \<leftarrow> (if tn_run_once s tn \<noteq> 0 then unlink_timer E tn s
                else do {
                  (r, s) \<leftarrow> on_links (lst_remove_node (tn_lln tn)) s;
                  link_timer tn (s\<lparr>tn_run_tick := (tn_run_tick s)(tn := current_tick s + tn_delay s tn)\<rparr>) });
          s \<leftarrow> run_timers run E (lst_last (tv_set0 s1 d)) s;
          Some (s\<lparr>current_tick := current_tick s + 1\<rparr>) })))"
proof -
  have f: "dl.family (links s) A" using w by (simp add: wheel_at_def)
  let ?B = "A(tv_set0 s d := Some [tn_lln tn])"
  obtain h where h: "lst_push_back (tv_set0 s d) (tn_lln tn) (links s) = Some (0, h)" "dl.family h ?B"
    using dl.family_push_back [OF f idle [OF d(2)] fresh] by auto
  let ?s = "s\<lparr>links := h\<rparr>"
  have m: "d AND 255 = d"
  proof -
    have "unat d < 2 ^ 8" using d(2) by (simp add: word_less_nat_alt)
    then have "take_bit 8 d = d" by (simp add: word_unat_eq_iff unsigned_take_bit_eq take_bit_nat_eq_self)
    then show ?thesis by (simp add: take_bit_eq_mask mask_eq_exp_minus_1)
  qed
  have lk: "link_timer tn s = Some ?s"
    using h(1) d m by (simp add: link_timer_def Let_def TV_SET0_SIZE_def TV_SET0_MASK_def)
  have w': "wheel_at ?s ?B"
    using w h(2) tv_set_apart [OF _ _ d(2), of _ _ s] by (simp add: wheel_at_def tv_set0_def tv_set_def)
  have byte: "x AND 255 < (256 :: u64)" for x :: u64
    by (rule le_less_trans [OF word_and_le1]) simp
  have t: "tv_set0 ?s = tv_set0 s" by (rule ext) (simp add: tv_set0_def)
  have off: "?B (tv_set0 s (x AND 255)) = Some []" if "x AND 255 \<noteq> d" for x
  proof -
    have "tv_set0 s (x AND 255) \<noteq> tv_set0 s d" using that unfolding tv_set0_inj [OF byte d(2)] .
    then show ?thesis using idle [OF byte] by simp
  qed
  have ticks: "on_ticks run E n ?s = Some (?s\<lparr>current_tick := current_tick s + of_nat n\<rparr>)"
    if "\<forall>k < n. (current_tick s + of_nat k) AND 255 \<noteq> d" for n
    using on_ticks_idle [OF w', of n] that off by (simp add: t)
  have l: "dl_list h (tv_set0 s d) [tn_lln tn]" using dl.family_rep [OF h(2)] by simp
  have walk: "on_tick run E (?s\<lparr>current_tick := c\<rparr>) = do {
      s \<leftarrow> run_timers run E (tn_lln tn) (?s\<lparr>current_tick := c\<rparr>); Some (s\<lparr>current_tick := current_tick s + 1\<rparr>) }"
    if "c AND 255 = d" for c
    using on_tick_walk [of "?s\<lparr>current_tick := c\<rparr>" ?B "[tn_lln tn]"] w' that
    by (simp add: wheel_at_tick tv_set0_def)
  have step: "run_timers run E (tn_lln tn) (?s\<lparr>current_tick := c\<rparr>) = do {
      s \<leftarrow> run (tn_func s tn) tn (tn_param s tn) (?s\<lparr>current_tick := c\<rparr>);
      s \<leftarrow> (if tn_run_once s tn \<noteq> 0 then unlink_timer E tn s
            else do {
              (r, s) \<leftarrow> on_links (lst_remove_node (tn_lln tn)) s;
              link_timer tn (s\<lparr>tn_run_tick := (tn_run_tick s)(tn := current_tick s + tn_delay s tn)\<rparr>) });
      run_timers run E (lst_last (tv_set0 ?s d)) s }" if "c AND 255 = d" for c
    using run_timers_step [of "?s\<lparr>current_tick := c\<rparr>" d tn "[]" ?s run E] l that
    by (simp add: TV_SET0_MASK_def tv_set0_def cong del: if_weak_cong)
  show ?thesis using lk ticks walk step l
    by (intro exI [of _ ?s]) (simp add: Let_def)
qed

section \<open>An empty wheel\<close>

definition timer_ex :: "(unit, unit) timer_heap" where
  "timer_ex = mm_heap.extend mm_ex
     \<lparr>wheel = 0x100000, current_tick = 100, timer_zone = 0x5000, tn_magic = (\<lambda>_. 0), tn_run_once = (\<lambda>_. 1),
      tn_run_tick = (\<lambda>_. 150), tn_delay = (\<lambda>_. 50), tn_func = (\<lambda>_. 0x400000), tn_param = (\<lambda>_. 0)\<rparr>
     \<lparr>links := \<lparr>dl_prev = (\<lambda>a. if a AND 31 = 8 then 0 else a - 16),
       dl_next = (\<lambda>a. if a AND 31 = 24 then 0 else a + 16)\<rparr>\<rparr>"

lemma timer_ex_sel:
  "wheel timer_ex = 0x100000" "current_tick timer_ex = 100" "tn_run_tick timer_ex a = 150"
  "tn_func timer_ex a = 0x400000" "tn_param timer_ex a = 0"
  "links timer_ex = \<lparr>dl_prev = (\<lambda>a. if a AND 31 = 8 then 0 else a - 16), dl_next = (\<lambda>a. if a AND 31 = 24 then 0 else a + 16)\<rparr>"
  by (simp_all add: timer_ex_def mm_heap.defs mm_ex_def)

definition wheel_ex :: "ptr \<Rightarrow> ptr list option" where
  "wheel_ex l = (if l AND 31 = 8 then Some [] else None)"

lemma and_31_mod: "x AND 31 = (x :: u64) mod 32"
  using take_bit_eq_mask [of 5 x] take_bit_eq_mod [of 5 x] by (simp add: mask_eq_exp_minus_1)

lemma and_31_eq: "uint (x AND 31) = uint (x :: u64) mod 32"
  by (simp add: and_31_mod uint_mod)

lemma and_31: "(a + 32 * i) AND 31 = a AND (31 :: u64)"
proof -
  have d: "(32 :: int) dvd 2 ^ 64" by simp
  have "uint (a + 32 * i) mod 32 = ((uint a + 32 * uint i) mod 2 ^ 64) mod 32"
    by (simp add: uint_word_ariths mod_simps)
  also have "\<dots> = uint a mod 32" unfolding mod_mod_cancel [OF d] by simp
  finally show ?thesis by (simp add: word_uint_eq_iff and_31_eq)
qed

lemma timer_ex_wheel: "wheel_at timer_ex wheel_ex" "i < 256 \<Longrightarrow> wheel_ex (tv_set0 timer_ex i) = Some []"
  "0x20030 \<notin> dl.members wheel_ex"
proof -
  have b: "l \<noteq> 0" "l + 16 \<noteq> 0" "(l + 16) AND 31 = 24" if "l AND 31 = 8" for l :: ptr
  proof -
    show "l \<noteq> 0" using that by auto
    have "l mod 32 = 8" using that unfolding and_31_mod .
    then obtain q where l: "l = 32 * q + 8" using mult_div_mod_eq [of 32 l] by metis
    have "l + 16 = 24 + 32 * q" unfolding l by simp
    then show "(l + 16) AND 31 = 24" using and_31 [of 24 q] by simp
    then show "l + 16 \<noteq> 0" by auto
  qed
  have s0: "wheel_ex (tv_set0 timer_ex i) = Some []" for i
    using and_31 [of "0x100008" i] by (simp add: wheel_ex_def tv_set0_def timer_ex_sel)
  have sn: "wheel_ex (tv_set timer_ex n j) = Some []" for n j
    using and_31 [of "0x100008" "256 + (of_nat n * 64 + j)"]
    by (simp add: wheel_ex_def tv_set_def timer_ex_sel algebra_simps)
  have "dl.family (links timer_ex) wheel_ex"
    unfolding dl.family_def using b
    by (auto simp: wheel_ex_def dl_list_def dl_nodes_def dl.disjoint_def timer_ex_sel split: if_splits)
  then show "wheel_at timer_ex wheel_ex" using s0 sn by (simp add: wheel_at_def)
  show "i < 256 \<Longrightarrow> wheel_ex (tv_set0 timer_ex i) = Some []" by (rule s0)
  show "0x20030 \<notin> dl.members wheel_ex"
  proof
    assume "0x20030 \<in> dl.members wheel_ex"
    then obtain l where "l AND 31 = 8" "(0x20030 :: ptr) = l \<or> (0x20030 :: ptr) = l + 16"
      by (auto elim!: dl.membersE simp: wheel_ex_def dl_nodes_def split: if_splits)
    then show False using b(3) [of l] by auto
  qed
qed

text \<open>A timer of 50 ticks that is added at tick 100 has not run 206 ticks later, and runs at tick 306.\<close>

lemma timer_ex_byte: "k < 206 \<Longrightarrow> ((100 :: u64) + of_nat k) AND 255 \<noteq> 50"
proof -
  assume k: "k < 206"
  define x where "x = (100 :: u64) + of_nat k"
  have "x = of_nat (100 + k)" by (simp add: x_def)
  then have "unat x = (100 + k) mod 2 ^ 64" by (simp only: unat_of_nat) simp
  moreover have "\<dots> = 100 + k" by (rule mod_less) (use k in simp)
  moreover have "x AND 255 = x mod 256"
    using take_bit_eq_mask [of 8 x] take_bit_eq_mod [of 8 x] by (simp add: mask_eq_exp_minus_1)
  ultimately have u: "unat (x AND 255) = (100 + k) mod 256" by (simp add: unat_mod)
  have n: "(100 + k) mod 256 \<noteq> 50"
  proof (cases "k < 156")
    case True
    then have "(100 + k) mod 256 = 100 + k" by simp
    then show ?thesis by simp
  next
    case False
    then have "100 + k = 256 + (k - 156)" by simp
    then have "(100 + k) mod 256 = k - 156" using k by (simp only: mod_add_self1) simp
    then show ?thesis using k by simp
  qed
  show ?thesis unfolding x_def [symmetric]
  proof
    assume "x AND 255 = 50"
    then have "unat (x AND 255) = 50" by simp
    with u n show False by (simp only:)
  qed
qed

theorem timer_runs_at_slot_witness:
  "\<forall>run E. \<exists>s1. link_timer 0x20008 timer_ex = Some s1 \<and> dl_list (links s1) (tv_set0 timer_ex 50) [0x20030] \<and>
    on_ticks run E 206 s1 = Some (s1\<lparr>current_tick := 306\<rparr>) \<and>
    on_tick run E (s1\<lparr>current_tick := 306\<rparr>) = do {
      s \<leftarrow> run 0x400000 0x20008 0 (s1\<lparr>current_tick := 306\<rparr>);
      s \<leftarrow> (if tn_run_once s 0x20008 \<noteq> 0 then unlink_timer E 0x20008 s
            else do {
              (r, s) \<leftarrow> on_links (lst_remove_node 0x20030) s;
              link_timer 0x20008 (s\<lparr>tn_run_tick := (tn_run_tick s)(0x20008 := current_tick s + tn_delay s 0x20008)\<rparr>) });
      s \<leftarrow> run_timers run E (lst_last (tv_set0 s1 50)) s;
      Some (s\<lparr>current_tick := current_tick s + 1\<rparr>) }"
proof (intro allI)
  fix run and E :: "(unit, unit, (unit, unit) timer_heap) mm_env"
  have f: "(0x20008 :: ptr) + 40 = 0x20030" "tn_func timer_ex 0x20008 = 0x400000" "tn_param timer_ex 0x20008 = 0" by (simp_all add: timer_ex_sel)
  have fr: "(0x20008 :: ptr) + 40 \<notin> dl.members wheel_ex" "(0x20008 :: ptr) + 40 \<noteq> 0" using timer_ex_wheel(3) by simp_all
  have t: "tn_run_tick timer_ex 0x20008 = current_tick timer_ex + 50" "(50 :: u64) < 256" by (simp_all add: timer_ex_sel)
  have c: "current_tick timer_ex + of_nat 206 = 306" "(306 :: u64) AND 255 = 50" by (simp_all add: timer_ex_sel)
  have k: "\<forall>k < 206. (current_tick timer_ex + of_nat k) AND 255 \<noteq> 50" using timer_ex_byte by (simp add: timer_ex_sel)
  note r = timer_runs_at_slot [OF timer_ex_wheel(1,2) fr t, of run E, unfolded Let_def f]
  show "\<exists>s1. link_timer 0x20008 timer_ex = Some s1 \<and> dl_list (links s1) (tv_set0 timer_ex 50) [0x20030] \<and>
    on_ticks run E 206 s1 = Some (s1\<lparr>current_tick := 306\<rparr>) \<and>
    on_tick run E (s1\<lparr>current_tick := 306\<rparr>) = do {
      s \<leftarrow> run 0x400000 0x20008 0 (s1\<lparr>current_tick := 306\<rparr>);
      s \<leftarrow> (if tn_run_once s 0x20008 \<noteq> 0 then unlink_timer E 0x20008 s
            else do {
              (r, s) \<leftarrow> on_links (lst_remove_node 0x20030) s;
              link_timer 0x20008 (s\<lparr>tn_run_tick := (tn_run_tick s)(0x20008 := current_tick s + tn_delay s 0x20008)\<rparr>) });
      s \<leftarrow> run_timers run E (lst_last (tv_set0 s1 50)) s;
      Some (s\<lparr>current_tick := current_tick s + 1\<rparr>) }"
    by (rule exE [OF r], assumption, elim conjE, drule spec [of _ 206], drule mp [OF _ k], unfold c(1), elim conjE, drule mp [OF _ c(2)],
        intro exI conjI, assumption+)
qed

end
