(* ===== verification/Ipc.thy ===== *)
theory Ipc
  imports Mmcache Ringbuf
begin

text \<open>
  Message channels, \<open>src/src/ipc.c\<close>, and the creation of the ring buffers they write to,
  \<open>src/src/ringbuf.c\<close> (reading and writing are in \<open>Ringbuf\<close>).

  A \<open>struct _ring_buf_impl\<close> (32 bytes) and a \<open>struct _ipc_peer_impl\<close> (32 bytes) come from zones, whose
  names are at \<open>rbuf_name\<close> and \<open>ipc_name\<close>; both have their handle at offset 0.  The ring buffers work on
  the bytes of the memory.
\<close>

record ('o, 'p) ipc_heap = "('o, 'p) mm_heap" +
  ring_zone :: ptr
  ring_impls :: "ptr \<Rightarrow> ring_buf_impl"
  ipc_zone :: ptr
  peer_channel :: "ptr \<Rightarrow> int"
  peer_buffer_size :: "ptr \<Rightarrow> u64"
  peer_shb :: "ptr \<Rightarrow> ptr"
  peer_rb :: "ptr \<Rightarrow> ptr"

definition on_rings :: "(rb_state \<Rightarrow> ('r \<times> rb_state) option) \<Rightarrow> ('o, 'p, 'z) ipc_heap_scheme \<Rightarrow> ('r \<times> ('o, 'p, 'z) ipc_heap_scheme) option" where
  "on_rings f s = do {
     (r, q) \<leftarrow> f \<lparr>rings = ring_impls s, rb_mem = bytes s\<rparr>;
     Some (r, s\<lparr>ring_impls := rings q, bytes := rb_mem q\<rparr>) }"

section \<open>Ring buffers\<close>

definition rbuf_try_restore_zone ::
  "('o, 'p, ('o, 'p, 'z) ipc_heap_scheme) mm_env \<Rightarrow> ptr \<Rightarrow> ('o, 'p, 'z) ipc_heap_scheme \<Rightarrow>
   (int \<times> ('o, 'p, 'z) ipc_heap_scheme) option" where
  "rbuf_try_restore_zone E rbuf_name s =
     (if ring_zone s \<noteq> 0 then Some (0, s)
      else do {
        z \<leftarrow> mm_search_zone rbuf_name s;
        let s = s\<lparr>ring_zone := z\<rparr>;
        if z = 0
        then do {
          (z, s) \<leftarrow> cache_new E rbuf_name 32 s;
          Some (if z = 0 then -1 else 0, s\<lparr>ring_zone := z\<rparr>) }
        else Some (if zone_obj_size s z \<noteq> 32 then -1 else 0, s) })"

text \<open>The comparison of the size with that of the descriptor is the unsigned one.\<close>

definition rbuf_create ::
  "('o, 'p, ('o, 'p, 'z) ipc_heap_scheme) mm_env \<Rightarrow> ptr \<Rightarrow> ptr \<Rightarrow> u64 \<Rightarrow> ('o, 'p, 'z) ipc_heap_scheme \<Rightarrow>
   (ptr \<times> ('o, 'p, 'z) ipc_heap_scheme) option" where
  "rbuf_create E rbuf_name addr sz s =
     (if addr = 0 \<or> sz \<le> 32 then Some (0, s)
      else if addr AND 7 \<noteq> 0 then Some (0, s)
      else if sz AND 7 \<noteq> 0 then Some (0, s)
      else do {
        (rslt, s) \<leftarrow> rbuf_try_restore_zone E rbuf_name s;
        if rslt < 0 then Some (0, s)
        else do {
          (rbi, s) \<leftarrow> cache_get E (ring_zone s) s;
          if rbi = 0 then Some (0, s)
          else Some (rbi, s\<lparr>ring_impls := (ring_impls s)(rbi :=
                 \<lparr>rb_addr_begin = addr, ring_size = sz, r_offset = 0, w_offset = 0\<rparr>)\<rparr>) } })"

definition rbuf_destroy ::
  "('o, 'p, ('o, 'p, 'z) ipc_heap_scheme) mm_env \<Rightarrow> ptr \<Rightarrow> ('o, 'p, 'z) ipc_heap_scheme \<Rightarrow>
   (int \<times> ('o, 'p, 'z) ipc_heap_scheme) option" where
  "rbuf_destroy E rbuf s = (if rbuf = 0 then Some (-1, s) else cache_put E (ring_zone s) rbuf s)"

section \<open>Channels\<close>

definition ipc_try_restore_zone ::
  "('o, 'p, ('o, 'p, 'z) ipc_heap_scheme) mm_env \<Rightarrow> ptr \<Rightarrow> ('o, 'p, 'z) ipc_heap_scheme \<Rightarrow>
   (int \<times> ('o, 'p, 'z) ipc_heap_scheme) option" where
  "ipc_try_restore_zone E ipc_name s =
     (if ipc_zone s \<noteq> 0 then Some (0, s)
      else do {
        z \<leftarrow> mm_search_zone ipc_name s;
        let s = s\<lparr>ipc_zone := z\<rparr>;
        if z = 0
        then do {
          (z, s) \<leftarrow> cache_new E ipc_name 32 s;
          Some (if z = 0 then -1 else 0, s\<lparr>ipc_zone := z\<rparr>) }
        else Some (if zone_obj_size s z \<noteq> 32 then -1 else 0, s) })"

text \<open>
  The error exit of both ways to get a channel: the fields of the descriptor are read whether or not
  they were assigned; \<open>drop\<close> destroys or closes the block.
\<close>

definition ipc_fail ::
  "(ptr \<Rightarrow> ('o, 'p, 'z) ipc_heap_scheme \<Rightarrow> (int \<times> ('o, 'p, 'z) ipc_heap_scheme) option) \<Rightarrow>
   ('o, 'p, ('o, 'p, 'z) ipc_heap_scheme) mm_env \<Rightarrow> ptr \<Rightarrow> ('o, 'p, 'z) ipc_heap_scheme \<Rightarrow>
   (ptr \<times> ('o, 'p, 'z) ipc_heap_scheme) option" where
  "ipc_fail drp E ipi s =
     (if ipi = 0 then Some (0, s)
      else do {
        (r, s) \<leftarrow> (if peer_rb s ipi \<noteq> 0 then rbuf_destroy E (peer_rb s ipi) s else Some (0, s));
        (r, s) \<leftarrow> (if peer_shb s ipi \<noteq> 0 then drp (peer_shb s ipi) s else Some (0, s));
        (r, s) \<leftarrow> cache_put E (ipc_zone s) ipi s;
        Some (0, s) })"

text \<open>The ring buffer over the region of the block.\<close>

definition ipc_attach ::
  "(ptr \<Rightarrow> ('o, 'p, 'z) ipc_heap_scheme \<Rightarrow> (int \<times> ('o, 'p, 'z) ipc_heap_scheme) option) \<Rightarrow>
   ('o, 'p, ('o, 'p, 'z) ipc_heap_scheme) mm_env \<Rightarrow> ptr \<Rightarrow> u32 \<Rightarrow> ptr \<Rightarrow> ptr \<Rightarrow> ('o, 'p, 'z) ipc_heap_scheme \<Rightarrow>
   (ptr \<times> ('o, 'p, 'z) ipc_heap_scheme) option" where
  "ipc_attach drp E rbuf_name channel_id ipi shb s = do {
     let s = s\<lparr>peer_shb := (peer_shb s)(ipi := shb)\<rparr>;
     if shb = 0 then ipc_fail drp E ipi s
     else do {
       let addr_begin = shmm_begin_addr s shb;
       let addr_end = shmm_end_addr s shb;
       (rb, s) \<leftarrow> rbuf_create E rbuf_name addr_begin (addr_end - addr_begin) s;
       let s = s\<lparr>peer_rb := (peer_rb s)(ipi := rb)\<rparr>;
       if rb = 0 then ipc_fail drp E ipi s
       else Some (ipi, s\<lparr>peer_channel := (peer_channel s)(ipi := sint channel_id),
                        peer_buffer_size := (peer_buffer_size s)(ipi := addr_end - addr_begin)\<rparr>) } }"

definition ipc_create ::
  "('o, 'p, ('o, 'p, 'z) ipc_heap_scheme) mm_env \<Rightarrow> ptr \<Rightarrow> ptr \<Rightarrow> u32 \<Rightarrow> u64 \<Rightarrow> bool \<Rightarrow> ('o, 'p, 'z) ipc_heap_scheme \<Rightarrow>
   (ptr \<times> ('o, 'p, 'z) ipc_heap_scheme) option" where
  "ipc_create E rbuf_name ipc_name channel_id buffer_size use_huge_tlb s =
     (let drp = shmm_destroy (env_sys E) in
      if sint channel_id < 0 \<or> buffer_size = 0 then ipc_fail drp E 0 s
      else do {
        (rslt, s) \<leftarrow> ipc_try_restore_zone E ipc_name s;
        if rslt < 0 then ipc_fail drp E 0 s
        else do {
          (ipi, s) \<leftarrow> cache_get E (ipc_zone s) s;
          if ipi = 0 then ipc_fail drp E 0 s
          else
            let key = mm_create_shm_key (shm_type_num MM_SHM_IPC) 0 (sub_key_ipc channel_id) in
            if sint key < 0 then ipc_fail drp E ipi s
            else do {
              (shb, s) \<leftarrow> shmm_create (env_sys E) (env_uninit E) key 0 buffer_size use_huge_tlb s;
              ipc_attach drp E rbuf_name channel_id ipi shb s } } })"

definition ipc_link ::
  "('o, 'p, ('o, 'p, 'z) ipc_heap_scheme) mm_env \<Rightarrow> ptr \<Rightarrow> ptr \<Rightarrow> u32 \<Rightarrow> ('o, 'p, 'z) ipc_heap_scheme \<Rightarrow>
   (ptr \<times> ('o, 'p, 'z) ipc_heap_scheme) option" where
  "ipc_link E rbuf_name ipc_name channel_id s =
     (let drp = shmm_close (env_sys E) in
      if sint channel_id < 0 then ipc_fail drp E 0 s
      else do {
        (rslt, s) \<leftarrow> ipc_try_restore_zone E ipc_name s;
        if rslt < 0 then ipc_fail drp E 0 s
        else do {
          (ipi, s) \<leftarrow> cache_get E (ipc_zone s) s;
          if ipi = 0 then ipc_fail drp E 0 s
          else
            let key = mm_create_shm_key (shm_type_num MM_SHM_IPC) 0 (sub_key_ipc channel_id) in
            if sint key < 0 then ipc_fail drp E ipi s
            else do {
              (shb, s) \<leftarrow> shmm_open (env_sys E) key 0 s;
              ipc_attach drp E rbuf_name channel_id ipi shb s } } })"

definition ipc_unlink :: "ptr \<Rightarrow> int" where
  "ipc_unlink pr = 0"

definition ipc_destroy :: "ptr \<Rightarrow> int" where
  "ipc_destroy pr = (if pr = 0 then -1 else 0)"

definition ipc_write :: "ptr \<Rightarrow> ptr \<Rightarrow> int \<Rightarrow> ('o, 'p, 'z) ipc_heap_scheme \<Rightarrow> (int \<times> ('o, 'p, 'z) ipc_heap_scheme) option" where
  "ipc_write pr buff sz s =
     (if pr = 0 \<or> peer_rb s pr = 0 \<or> peer_shb s pr = 0 then Some (-1, s)
      else on_rings (rbuf_write_block (peer_rb s pr) buff sz) s)"

definition ipc_read :: "ptr \<Rightarrow> ptr \<Rightarrow> int \<Rightarrow> ('o, 'p, 'z) ipc_heap_scheme \<Rightarrow> (int \<times> ('o, 'p, 'z) ipc_heap_scheme) option" where
  "ipc_read pr buff sz s =
     (if pr = 0 \<or> peer_rb s pr = 0 \<or> peer_shb s pr = 0 then Some (-1, s)
      else on_rings (rbuf_read_block (peer_rb s pr) buff sz) s)"

end
