(* ===== verification/Utask.thy ===== *)
theory Utask
  imports Mmcache
begin

text \<open>
  User tasks, \<open>src/src/utask.c\<close>: tasks with a stack of their own that a caller runs and resumes and
  that yield to it.

  A \<open>struct _utask_impl\<close> has 216 bytes.  The switches between stacks, \<open>asm_run_task\<close>, \<open>asm_yield_task\<close>
  and \<open>asm_resume_task\<close>, run other code before they return; they are the arguments \<open>run\<close>, \<open>yield\<close> and
  \<open>resume\<close>.  \<open>uninit_tsk\<close> is the pointer \<open>utsk_create\<close> tests before it assigns it.
\<close>

datatype utask_state = uts_invalid | uts_inited | uts_waiting | uts_running | uts_finished | uts_total

record ('o, 'p) utask_heap = "('o, 'p) mm_heap" +
  utsk_zone :: ptr
  tsk_stk :: "ptr \<Rightarrow> ptr"
  tsk_stk_size :: "ptr \<Rightarrow> u64"
  tsk_func :: "ptr \<Rightarrow> ptr"
  tsk_state :: "ptr \<Rightarrow> utask_state"
  tsk_magic :: "ptr \<Rightarrow> u64"

definition UTASK_MAGIC_NUM :: u64 where "UTASK_MAGIC_NUM = 0x1234567887654321"

definition conv_task :: "('o, 'p, 'z) utask_heap_scheme \<Rightarrow> ptr \<Rightarrow> ptr" where
  "conv_task s tsk = (if tsk = 0 \<or> tsk_magic s tsk \<noteq> UTASK_MAGIC_NUM then 0 else tsk)"

definition utask_try_restore_zone ::
  "('o, 'p, ('o, 'p, 'z) utask_heap_scheme) mm_env \<Rightarrow> ptr \<Rightarrow> ('o, 'p, 'z) utask_heap_scheme \<Rightarrow>
   (int \<times> ('o, 'p, 'z) utask_heap_scheme) option" where
  "utask_try_restore_zone E utsk_name s =
     (if utsk_zone s \<noteq> 0 then Some (0, s)
      else do {
        z \<leftarrow> mm_search_zone utsk_name s;
        let s = s\<lparr>utsk_zone := z\<rparr>;
        if z = 0
        then do {
          (z, s) \<leftarrow> cache_new E utsk_name 216 s;
          Some (if z = 0 then -1 else 0, s\<lparr>utsk_zone := z\<rparr>) }
        else Some (if zone_obj_size s z \<noteq> 216 then -1 else 0, s) })"

definition utsk_create ::
  "('o, 'p, ('o, 'p, 'z) utask_heap_scheme) mm_env \<Rightarrow> ptr \<Rightarrow> ptr \<Rightarrow> ptr \<Rightarrow> ('o, 'p, 'z) utask_heap_scheme \<Rightarrow>
   (ptr \<times> ('o, 'p, 'z) utask_heap_scheme) option" where
  "utsk_create E utsk_name uninit_tsk tfunc s =
     (let fail = (\<lambda>tsk s. if tsk = 0 then Some (0, s)
                    else do { (r, s) \<leftarrow> cache_put E (utsk_zone s) tsk s; Some (0, s) })
      in if uninit_tsk = 0 then fail uninit_tsk s
      else if tfunc = 0 then fail uninit_tsk s
      else do {
        (rslt, s) \<leftarrow> utask_try_restore_zone E utsk_name s;
        if rslt < 0 then fail uninit_tsk s
        else do {
          (tsk, s) \<leftarrow> cache_get E (utsk_zone s) s;
          if tsk = 0 then fail tsk s
          else do {
            let sz = round_down (ucast (stk_frm_size (area_cfg (mm_get_cfg s) MM_AREA_STACK) - 16)) 16;
            let s = s\<lparr>tsk_stk_size := (tsk_stk_size s)(tsk := sz), tsk_func := (tsk_func s)(tsk := tfunc),
                      tsk_magic := (tsk_magic s)(tsk := UTASK_MAGIC_NUM),
                      tsk_state := (tsk_state s)(tsk := uts_inited)\<rparr>;
            (stk, s) \<leftarrow> mm_area_alloc (env_ops E) (env_sys E) (env_uninit E) sz MM_AREA_STACK s;
            let s = s\<lparr>tsk_stk := (tsk_stk s)(tsk := stk)\<rparr>;
            if stk = 0 then fail tsk s else Some (tsk, s) } } })"

definition utsk_destroy ::
  "('o, 'p, ('o, 'p, 'z) utask_heap_scheme) mm_env \<Rightarrow> ptr \<Rightarrow> ('o, 'p, 'z) utask_heap_scheme \<Rightarrow>
   ('o, 'p, 'z) utask_heap_scheme option" where
  "utsk_destroy E tsk s =
     (let t = conv_task s tsk in
      if t = 0 then Some s
      else do {
        (r, s) \<leftarrow> (if tsk_stk s t \<noteq> 0 then mm_free (env_ops E) (tsk_stk s t) s else Some (0, s));
        (r, s) \<leftarrow> cache_put E (utsk_zone s) t s;
        Some s })"

text \<open>What the three switches share: the state they need and the one they set before the switch.\<close>

definition utsk_switch ::
  "utask_state \<Rightarrow> utask_state \<Rightarrow> (ptr \<Rightarrow> ('o, 'p, 'z) utask_heap_scheme \<Rightarrow> ('o, 'p, 'z) utask_heap_scheme option) \<Rightarrow>
   ptr \<Rightarrow> ('o, 'p, 'z) utask_heap_scheme \<Rightarrow> (int \<times> ('o, 'p, 'z) utask_heap_scheme) option" where
  "utsk_switch need nxt switch tsk s =
     (let t = conv_task s tsk in
      if t = 0 then Some (-1, s)
      else if tsk_state s t \<noteq> need then Some (-1, s)
      else do {
        s \<leftarrow> switch t (s\<lparr>tsk_state := (tsk_state s)(t := nxt)\<rparr>);
        Some (0, s) })"

definition utsk_run ::
  "(ptr \<Rightarrow> ptr \<Rightarrow> ('o, 'p, 'z) utask_heap_scheme \<Rightarrow> ('o, 'p, 'z) utask_heap_scheme option) \<Rightarrow>
   ptr \<Rightarrow> ptr \<Rightarrow> ('o, 'p, 'z) utask_heap_scheme \<Rightarrow> (int \<times> ('o, 'p, 'z) utask_heap_scheme) option" where
  "utsk_run run tsk udata s = utsk_switch uts_inited uts_running (\<lambda>t. run t udata) tsk s"

definition utsk_yield ::
  "(ptr \<Rightarrow> ('o, 'p, 'z) utask_heap_scheme \<Rightarrow> ('o, 'p, 'z) utask_heap_scheme option) \<Rightarrow>
   ptr \<Rightarrow> ('o, 'p, 'z) utask_heap_scheme \<Rightarrow> (int \<times> ('o, 'p, 'z) utask_heap_scheme) option" where
  "utsk_yield yield tsk s = utsk_switch uts_running uts_waiting yield tsk s"

definition utsk_resume ::
  "(ptr \<Rightarrow> ('o, 'p, 'z) utask_heap_scheme \<Rightarrow> ('o, 'p, 'z) utask_heap_scheme option) \<Rightarrow>
   ptr \<Rightarrow> ('o, 'p, 'z) utask_heap_scheme \<Rightarrow> (int \<times> ('o, 'p, 'z) utask_heap_scheme) option" where
  "utsk_resume resume tsk s = utsk_switch uts_waiting uts_running resume tsk s"

end
