(* ===== verification/Net.thy ===== *)
theory Net
  imports Mmcache Ringbuf
begin

text \<open>
  The network of \<open>src/src/net.c\<close>: acceptors and sessions over sockets, watched with \<open>epoll\<close>
  (\<open>NT_INTERNET\<close>) or with \<open>poll\<close> (\<open>NT_INTRANET\<close>).

  A \<open>struct _inet_impl\<close> (152 bytes, its handle at offset 0) has the list of its acceptors at offset 48 and
  that of its sessions at 80.  A \<open>struct _acc_impl\<close> (48 bytes) has its handle at offset 16 and its list node
  at 24, a \<open>struct _ses_impl\<close> (128 bytes) at 16 and 32; both begin with the type, the socket and the network,
  which are the same maps here.  A \<open>struct _poll_obj\<close> (40 bytes) begins with its tree node.  The nodes of all
  trees are \<open>po_nodes\<close>, the fields of the tree of a network are \<open>po_size\<close>, \<open>po_depth\<close> and \<open>po_root\<close>.

  The system calls work on \<open>kernel\<close>, and \<open>sys_errno\<close> reads the error number.  The functions of the users are
  addresses, which \<open>cb_acc\<close>, \<open>cb_ses\<close> and \<open>cb_recv\<close> call; they may run any operation of the network.
\<close>

datatype net_type = NT_INTERNET | NT_INTRANET
datatype ses_state = SES_INVALID | SES_ESTABLISHING | SES_NORMAL | SES_CLOSING | SES_CLOSED
datatype sock_opt = SO_REUSEADDR | SO_KEEPALIVE | SO_RCVBUF | SO_SNDBUF | SO_RCVTIMEO | SO_SNDTIMEO

record net_config =
  send_buff_len :: u32
  recv_buff_len :: u32
  max_fd_count :: u32

record net_ops =
  func_acc :: ptr
  func_conn :: ptr
  func_recv :: ptr
  func_disconn :: ptr

record session_ops =
  ses_func_conn :: ptr
  ses_func_recv :: ptr
  ses_func_disconn :: ptr

record ('o, 'p, 'n) net_heap = "('o, 'p) mm_heap" +
  kernel :: 'n
  acc_zone :: ptr
  ses_zone :: ptr
  poll_obj_zone :: ptr
  inet_cfg :: "ptr \<Rightarrow> net_config"
  inet_ops :: "ptr \<Rightarrow> net_ops"
  inet_handler :: "ptr \<Rightarrow> net_type"
  inet_ep_ev :: "ptr \<Rightarrow> ptr"
  inet_epoll_fd :: "ptr \<Rightarrow> int"
  inet_po_cnt :: "ptr \<Rightarrow> int"
  po_size :: "ptr \<Rightarrow> int"
  po_depth :: "ptr \<Rightarrow> int"
  po_root :: "ptr \<Rightarrow> ptr"
  po_nodes :: rbtree
  po_obj :: "ptr \<Rightarrow> ptr"
  ep_events :: "ptr \<Rightarrow> (u32 \<times> ptr) list"
  nt_type_info :: "ptr \<Rightarrow> u32"
  nt_sock_fd :: "ptr \<Rightarrow> int"
  nt_inet :: "ptr \<Rightarrow> ptr"
  nt_obj :: "ptr \<Rightarrow> ptr"
  ses_remote_ip :: "ptr \<Rightarrow> u32"
  ses_remote_port :: "ptr \<Rightarrow> u32"
  ses_usr_ptr :: "ptr \<Rightarrow> ptr"
  ses_ops :: "ptr \<Rightarrow> session_ops"
  ses_recv_buf :: "ptr \<Rightarrow> ptr"
  ses_send_buf :: "ptr \<Rightarrow> ptr"
  ses_bytes_recv :: "ptr \<Rightarrow> u32"
  ses_recv_buf_len :: "ptr \<Rightarrow> u32"
  ses_send_buf_len :: "ptr \<Rightarrow> u32"
  ses_r_offset :: "ptr \<Rightarrow> int"
  ses_w_offset :: "ptr \<Rightarrow> int"
  ses_po_idx :: "ptr \<Rightarrow> int"
  ses_state_of :: "ptr \<Rightarrow> ses_state"
  ses_debug_type :: "ptr \<Rightarrow> int"

text \<open>
  What the network is given.  \<open>accept\<close> yields no address, as it is passed a length of 0; the address the code
  reads then is \<open>uninit_addr\<close>.  \<open>uninit_po\<close> is the pointer the error exits of two functions read unset.
  \<open>sys_epoll_wait\<close> yields a count and the events it stores, \<open>sys_poll\<close> a count and an event mask for each entry.
\<close>

record ('o, 'p, 'n, 's) net_env =
  nt_mm :: "('o, 'p, 's) mm_env"
  acc_zone_name :: ptr
  ses_zone_name :: ptr
  po_zone_name :: ptr
  addr_sei_ctor :: ptr
  addr_sei_dtor :: ptr
  addr_po_ctor :: ptr
  uninit_po :: ptr
  uninit_addr :: "u32 \<times> u16"
  cb_acc :: "ptr \<Rightarrow> ptr \<Rightarrow> ptr \<Rightarrow> 's \<Rightarrow> 's option"
  cb_ses :: "ptr \<Rightarrow> ptr \<Rightarrow> 's \<Rightarrow> 's option"
  cb_recv :: "ptr \<Rightarrow> ptr \<Rightarrow> ptr \<Rightarrow> int \<Rightarrow> 's \<Rightarrow> 's option"
  sys_errno :: "'n \<Rightarrow> int"
  sys_socket :: "'n \<Rightarrow> int \<times> 'n"
  sys_setsockopt :: "int \<Rightarrow> sock_opt \<Rightarrow> u32 \<Rightarrow> 'n \<Rightarrow> int \<times> 'n"
  sys_bind :: "int \<Rightarrow> u32 \<Rightarrow> u16 \<Rightarrow> 'n \<Rightarrow> int \<times> 'n"
  sys_listen :: "int \<Rightarrow> int \<Rightarrow> 'n \<Rightarrow> int \<times> 'n"
  sys_accept :: "int \<Rightarrow> 'n \<Rightarrow> int \<times> 'n"
  sys_connect :: "int \<Rightarrow> u32 \<Rightarrow> u16 \<Rightarrow> 'n \<Rightarrow> int \<times> 'n"
  sys_recv :: "int \<Rightarrow> nat \<Rightarrow> 'n \<Rightarrow> (int \<times> byte list) \<times> 'n"
  sys_send :: "int \<Rightarrow> byte list \<Rightarrow> 'n \<Rightarrow> int \<times> 'n"
  sys_shutdown :: "int \<Rightarrow> 'n \<Rightarrow> int \<times> 'n"
  sys_close :: "int \<Rightarrow> 'n \<Rightarrow> int \<times> 'n"
  sys_epoll_create :: "u32 \<Rightarrow> 'n \<Rightarrow> int \<times> 'n"
  sys_epoll_add :: "int \<Rightarrow> int \<Rightarrow> u32 \<Rightarrow> ptr \<Rightarrow> 'n \<Rightarrow> int \<times> 'n"
  sys_epoll_del :: "int \<Rightarrow> int \<Rightarrow> 'n \<Rightarrow> int \<times> 'n"
  sys_epoll_wait :: "int \<Rightarrow> u32 \<Rightarrow> int \<Rightarrow> 'n \<Rightarrow> (int \<times> (u32 \<times> ptr) list) \<times> 'n"
  sys_poll :: "(int \<times> u32) list \<Rightarrow> int \<Rightarrow> 'n \<Rightarrow> (int \<times> u32 list) \<times> 'n"

type_synonym ('o, 'p, 'n, 'z) ns = "('o, 'p, 'n, 'z) net_heap_scheme"
type_synonym ('o, 'p, 'n, 'z) ne = "('o, 'p, 'n, ('o, 'p, 'n, 'z) net_heap_scheme) net_env"

definition NET_BACKLOG_COUNT :: int where "NET_BACKLOG_COUNT = 1024"
definition ACC_TYPE_INFO :: u32 where "ACC_TYPE_INFO = 0x11335577"
definition SES_TYPE_INFO :: u32 where "SES_TYPE_INFO = 0x22446688"

text \<open>Constants of the system: error numbers and event bits.\<close>

definition EAGAIN :: int where "EAGAIN = 11"
definition EINPROGRESS :: int where "EINPROGRESS = 115"
definition EV_IN :: u32 where "EV_IN = 1"
definition EV_OUT :: u32 where "EV_OUT = 4"
definition EV_ERR :: u32 where "EV_ERR = 8"
definition EV_RDHUP :: u32 where "EV_RDHUP = 0x2000"
definition EV_ET :: u32 where "EV_ET = 0x80000000"

abbreviation acc_list :: "ptr \<Rightarrow> ptr" where "acc_list inet \<equiv> inet + 48"
abbreviation ses_list :: "ptr \<Rightarrow> ptr" where "ses_list inet \<equiv> inet + 80"
abbreviation (input) the_acc :: "ptr \<Rightarrow> ptr" where "the_acc aci \<equiv> aci + 16"
abbreviation (input) the_ses :: "ptr \<Rightarrow> ptr" where "the_ses sei \<equiv> sei + 16"
abbreviation acc_lst_node :: "ptr \<Rightarrow> ptr" where "acc_lst_node aci \<equiv> aci + 24"
abbreviation ses_lst_node :: "ptr \<Rightarrow> ptr" where "ses_lst_node sei \<equiv> sei + 32"

definition conv_acc_impl :: "ptr \<Rightarrow> ptr" where "conv_acc_impl acc = acc - 16"
definition conv_ses_impl :: "ptr \<Rightarrow> ptr" where "conv_ses_impl ses = ses - 16"
definition conv_acc_dln :: "ptr \<Rightarrow> ptr" where "conv_acc_dln dln = dln - 24"
definition conv_ses_dln :: "ptr \<Rightarrow> ptr" where "conv_ses_dln dln = dln - 32"

text \<open>\<open>htonl\<close> and \<open>htons\<close> on a processor that stores the low byte first, and their inverses.\<close>

definition htonl :: "u32 \<Rightarrow> u32" where
  "htonl w = push_bit 24 (w AND 0xFF) OR push_bit 8 (w AND 0xFF00) OR drop_bit 8 (w AND 0xFF0000) OR drop_bit 24 w"

definition htons :: "u16 \<Rightarrow> u16" where
  "htons w = push_bit 8 (w AND 0xFF) OR drop_bit 8 w"

section \<open>Calls on the parts of the state\<close>

definition on_kernel :: "('n \<Rightarrow> 'r \<times> 'n) \<Rightarrow> ('o, 'p, 'n, 'z) ns \<Rightarrow> ('r \<times> ('o, 'p, 'n, 'z) ns) option" where
  "on_kernel f s = (let (r, k) = f (kernel s) in Some (r, s\<lparr>kernel := k\<rparr>))"

definition po_tree :: "('o, 'p, 'n, 'z) ns \<Rightarrow> ptr \<Rightarrow> rbtree" where
  "po_tree s inet = (po_nodes s)\<lparr>rb_size := po_size s inet, rb_depth := po_depth s inet, rb_root := po_root s inet, rb_cfunc := None\<rparr>"

definition set_po_tree :: "ptr \<Rightarrow> rbtree \<Rightarrow> ('o, 'p, 'n, 'z) ns \<Rightarrow> ('o, 'p, 'n, 'z) ns" where
  "set_po_tree inet t s = s\<lparr>po_nodes := t, po_size := (po_size s)(inet := rb_size t),
     po_depth := (po_depth s)(inet := rb_depth t), po_root := (po_root s)(inet := rb_root t)\<rparr>"

definition on_po_tree :: "ptr \<Rightarrow> (rbtree \<Rightarrow> ('r \<times> rbtree) option) \<Rightarrow> ('o, 'p, 'n, 'z) ns \<Rightarrow> ('r \<times> ('o, 'p, 'n, 'z) ns) option" where
  "on_po_tree inet f s = do { (r, t) \<leftarrow> f (po_tree s inet); Some (r, set_po_tree inet t s) }"

text \<open>Optional functions of the users: a null pointer is not called.\<close>

definition call_ses :: "('o, 'p, 'n, 'z) ne \<Rightarrow> ptr \<Rightarrow> ptr \<Rightarrow> ('o, 'p, 'n, 'z) ns \<Rightarrow> ('o, 'p, 'n, 'z) ns option" where
  "call_ses E f sei s = (if f \<noteq> 0 then cb_ses E f (the_ses sei) s else Some s)"

definition call_recv :: "('o, 'p, 'n, 'z) ne \<Rightarrow> ptr \<Rightarrow> ptr \<Rightarrow> ('o, 'p, 'n, 'z) ns \<Rightarrow> ('o, 'p, 'n, 'z) ns option" where
  "call_recv E f sei s = (if f \<noteq> 0 then cb_recv E f (the_ses sei) (ses_recv_buf s sei) (uint (ses_bytes_recv s sei)) s else Some s)"

definition nt_free :: "('o, 'p, 'n, 'z) ne \<Rightarrow> ptr \<Rightarrow> ('o, 'p, 'n, 'z) ns \<Rightarrow> (int \<times> ('o, 'p, 'n, 'z) ns) option" where
  "nt_free E p s = mm_free (env_ops (nt_mm E)) p s"

definition nt_alloc :: "('o, 'p, 'n, 'z) ne \<Rightarrow> u64 \<Rightarrow> ('o, 'p, 'n, 'z) ns \<Rightarrow> (ptr \<times> ('o, 'p, 'n, 'z) ns) option" where
  "nt_alloc E sz s = mm_alloc (env_ops (nt_mm E)) (env_sys (nt_mm E)) (env_uninit (nt_mm E)) sz s"

definition nt_area_alloc :: "('o, 'p, 'n, 'z) ne \<Rightarrow> u64 \<Rightarrow> ('o, 'p, 'n, 'z) ns \<Rightarrow> (ptr \<times> ('o, 'p, 'n, 'z) ns) option" where
  "nt_area_alloc E sz s = mm_area_alloc (env_ops (nt_mm E)) (env_sys (nt_mm E)) (env_uninit (nt_mm E)) sz MM_AREA_PERSIS s"

section \<open>Objects\<close>

definition sei_free_buf :: "('o, 'p, 'n, 'z) ne \<Rightarrow> ptr \<Rightarrow> ('o, 'p, 'n, 'z) ns \<Rightarrow> ('o, 'p, 'n, 'z) ns option" where
  "sei_free_buf E sei s = do {
     (r, s) \<leftarrow> (if ses_recv_buf s sei \<noteq> 0 then nt_free E (ses_recv_buf s sei) s else Some (0, s));
     (r, s) \<leftarrow> (if ses_send_buf s sei \<noteq> 0 then nt_free E (ses_send_buf s sei) s else Some (0, s));
     Some (s\<lparr>ses_recv_buf := (ses_recv_buf s)(sei := 0), ses_send_buf := (ses_send_buf s)(sei := 0)\<rparr>) }"

definition sei_ctor :: "ptr \<Rightarrow> ('o, 'p, 'n, 'z) ns \<Rightarrow> ('o, 'p, 'n, 'z) ns option" where
  "sei_ctor sei s = do {
     let s = s\<lparr>nt_sock_fd := (nt_sock_fd s)(sei := 0), nt_inet := (nt_inet s)(sei := 0),
               ses_remote_ip := (ses_remote_ip s)(sei := 0), ses_remote_port := (ses_remote_port s)(sei := 0),
               ses_usr_ptr := (ses_usr_ptr s)(sei := 0)\<rparr>;
     (r, s) \<leftarrow> on_links (lst_clr (ses_lst_node sei)) s;
     Some (s\<lparr>ses_ops := (ses_ops s)(sei := \<lparr>ses_func_conn = 0, ses_func_recv = 0, ses_func_disconn = 0\<rparr>),
             ses_recv_buf_len := (ses_recv_buf_len s)(sei := 0), ses_bytes_recv := (ses_bytes_recv s)(sei := 0),
             ses_send_buf_len := (ses_send_buf_len s)(sei := 0), ses_po_idx := (ses_po_idx s)(sei := 0),
             ses_state_of := (ses_state_of s)(sei := SES_INVALID), nt_type_info := (nt_type_info s)(sei := SES_TYPE_INFO),
             ses_r_offset := (ses_r_offset s)(sei := 0), ses_w_offset := (ses_w_offset s)(sei := 0)\<rparr>) }"

definition sei_dtor :: "('o, 'p, 'n, 'z) ne \<Rightarrow> ptr \<Rightarrow> ('o, 'p, 'n, 'z) ns \<Rightarrow> ('o, 'p, 'n, 'z) ns option" where
  "sei_dtor E sei s = sei_free_buf E sei s"

definition poll_obj_ctor :: "ptr \<Rightarrow> ('o, 'p, 'n, 'z) ns \<Rightarrow> ('o, 'p, 'n, 'z) ns option" where
  "poll_obj_ctor obj s = do {
     t \<leftarrow> rb_fillnew obj (po_nodes s);
     Some (s\<lparr>po_obj := (po_obj s)(obj := 0), po_nodes := t\<rparr>) }"

text \<open>The caches run the constructors and the destructor of this file through their addresses.\<close>

definition nt_call :: "('o, 'p, 'n, 'z) ne \<Rightarrow> ptr \<Rightarrow> ptr \<Rightarrow> ('o, 'p, 'n, 'z) ns \<Rightarrow> ('o, 'p, 'n, 'z) ns option" where
  "nt_call E f p s =
     (if f = addr_sei_ctor E then sei_ctor p s
      else if f = addr_sei_dtor E then sei_dtor E p s
      else if f = addr_po_ctor E then poll_obj_ctor p s
      else env_call (nt_mm E) f p s)"

definition nt_cache_get :: "('o, 'p, 'n, 'z) ne \<Rightarrow> ptr \<Rightarrow> ('o, 'p, 'n, 'z) ns \<Rightarrow> (ptr \<times> ('o, 'p, 'n, 'z) ns) option" where
  "nt_cache_get E z s = cache_get ((nt_mm E)\<lparr>env_call := nt_call E\<rparr>) z s"

definition nt_cache_put :: "('o, 'p, 'n, 'z) ne \<Rightarrow> ptr \<Rightarrow> ptr \<Rightarrow> ('o, 'p, 'n, 'z) ns \<Rightarrow> (int \<times> ('o, 'p, 'n, 'z) ns) option" where
  "nt_cache_put E z p s = cache_put ((nt_mm E)\<lparr>env_call := nt_call E\<rparr>) z p s"

text \<open>One of the three caches: found by its name or created; a found one must have objects of the size.\<close>

definition net_restore_zone ::
  "('o, 'p, 'n, 'z) ne \<Rightarrow> ptr \<Rightarrow> u32 \<Rightarrow> ptr \<Rightarrow> ptr \<Rightarrow> ptr \<Rightarrow> ('o, 'p, 'n, 'z) ns \<Rightarrow> ((int \<times> ptr) \<times> ('o, 'p, 'n, 'z) ns) option" where
  "net_restore_zone E name sz ctor dtor z s =
     (if z \<noteq> 0 then Some ((0, z), s)
      else do {
        z \<leftarrow> mm_search_zone name s;
        if z = 0
        then do {
          (z, s) \<leftarrow> mm_cache_create (env_ops (nt_mm E)) (env_sys (nt_mm E)) (env_uninit (nt_mm E)) (env_uninit_mzi (nt_mm E))
                      name sz ctor dtor s;
          Some ((if z = 0 then -1 else 0, z), s) }
        else Some ((if zone_obj_size s z \<noteq> sz then -1 else 0, z), s) })"

definition net_try_restore_zones :: "('o, 'p, 'n, 'z) ne \<Rightarrow> ('o, 'p, 'n, 'z) ns \<Rightarrow> (int \<times> ('o, 'p, 'n, 'z) ns) option" where
  "net_try_restore_zones E s = do {
     ((rslt, z), s) \<leftarrow> net_restore_zone E (acc_zone_name E) 48 0 0 (acc_zone s) s;
     let s = s\<lparr>acc_zone := z\<rparr>;
     if rslt < 0 then Some (-1, s)
     else do {
       ((rslt, z), s) \<leftarrow> net_restore_zone E (ses_zone_name E) 128 (addr_sei_ctor E) (addr_sei_dtor E) (ses_zone s) s;
       let s = s\<lparr>ses_zone := z\<rparr>;
       if rslt < 0 then Some (-1, s)
       else do {
         ((rslt, z), s) \<leftarrow> net_restore_zone E (po_zone_name E) 40 (addr_po_ctor E) 0 (poll_obj_zone s) s;
         Some (if rslt < 0 then -1 else 0, s\<lparr>poll_obj_zone := z\<rparr>) } } }"

section \<open>The send buffer\<close>

text \<open>As in \<open>rbuf_write_block\<close>, with offsets and lengths of 32 bits.\<close>

definition write_send_buf :: "ptr \<Rightarrow> ptr \<Rightarrow> int \<Rightarrow> ('o, 'p, 'n, 'z) ns \<Rightarrow> (int \<times> ('o, 'p, 'n, 'z) ns) option" where
  "write_send_buf sei data datalen s =
     (let r = ses_r_offset s sei; w = ses_w_offset s sei; base = ses_send_buf s sei; len = ses_send_buf_len s sei;
          done = (\<lambda>w' m. Some (0, s\<lparr>ses_w_offset := (ses_w_offset s)(sei := w'), bytes := m\<rparr>))
      in if w < r
         then if r - w < datalen then Some (-1, s)
              else do { m \<leftarrow> memcpy_long (base + word_of_int w) data datalen (bytes s); done (w + datalen) m }
         else if (word_of_int (w + datalen) :: u32) < word_of_int r + len
         then let remain = sint (len - word_of_int w)
              in if datalen \<le> remain
                 then do { m \<leftarrow> memcpy_long (base + word_of_int w) data datalen (bytes s); done (w + datalen) m }
                 else let remain2 = datalen - remain
                      in do { m \<leftarrow> memcpy_long (base + word_of_int w) data remain (bytes s);
                              m \<leftarrow> memcpy_long base (data + word_of_int remain) remain2 m;
                              done remain2 m }
         else Some (-1, s))"

section \<open>Closing a session\<close>

definition internet_disconn :: "('o, 'p, 'n, 'z) ne \<Rightarrow> ptr \<Rightarrow> ('o, 'p, 'n, 'z) ns \<Rightarrow> (int \<times> ('o, 'p, 'n, 'z) ns) option" where
  "internet_disconn E sei s = do {
     inet \<leftarrow> deref (nt_inet s sei) (nt_inet s sei);
     (rslt, s) \<leftarrow> on_kernel (sys_epoll_del E (inet_epoll_fd s inet) (nt_sock_fd s sei)) s;
     Some (if rslt < 0 then -1 else 0, s) }"

definition intranet_disconn :: "('o, 'p, 'n, 'z) ne \<Rightarrow> ptr \<Rightarrow> ('o, 'p, 'n, 'z) ns \<Rightarrow> (int \<times> ('o, 'p, 'n, 'z) ns) option" where
  "intranet_disconn E sei s = do {
     inet \<leftarrow> deref (nt_inet s sei) (nt_inet s sei);
     obj \<leftarrow> deref (nt_obj s sei) (nt_obj s sei);
     (rbn, s) \<leftarrow> on_po_tree inet (rb_remove (rb_key (po_nodes s) obj)) s;
     if rbn = 0 then Some (-1, s)
     else do {
       (r, s) \<leftarrow> nt_cache_put E (poll_obj_zone s) (nt_obj s sei) s;
       Some (0, s\<lparr>nt_obj := (nt_obj s)(sei := 0)\<rparr>) } }"

definition nt_disconn_func :: "net_type \<Rightarrow> ('o, 'p, 'n, 'z) ne \<Rightarrow> ptr \<Rightarrow> ('o, 'p, 'n, 'z) ns \<Rightarrow> (int \<times> ('o, 'p, 'n, 'z) ns) option" where
  "nt_disconn_func h = (case h of NT_INTERNET \<Rightarrow> internet_disconn | NT_INTRANET \<Rightarrow> intranet_disconn)"

definition net_close :: "('o, 'p, 'n, 'z) ne \<Rightarrow> ptr \<Rightarrow> ('o, 'p, 'n, 'z) ns \<Rightarrow> (int \<times> ('o, 'p, 'n, 'z) ns) option" where
  "net_close E sei s = do {
     sei \<leftarrow> deref sei sei;
     let inet = nt_inet s sei;
     s \<leftarrow> sei_free_buf E sei s;
     s \<leftarrow> (if ses_state_of s sei \<noteq> SES_INVALID \<and> ses_state_of s sei \<noteq> SES_CLOSED
            then do {
              df \<leftarrow> (if ses_func_disconn (ses_ops s sei) \<noteq> 0 then Some (ses_func_disconn (ses_ops s sei))
                      else deref inet (func_disconn (inet_ops s inet)));
              call_ses E df sei s }
            else Some s);
     owner \<leftarrow> deref (nt_inet s sei) (nt_inet s sei);
     (rslt, s) \<leftarrow> on_links (lst_remove (ses_list owner) (ses_lst_node sei)) s;
     if rslt < 0 then Some (-1, s)
     else do {
       s \<leftarrow> (if nt_sock_fd s sei \<noteq> 0
              then do {
                h \<leftarrow> deref inet (inet_handler s inet);
                (r, s) \<leftarrow> nt_disconn_func h E sei s;
                (r, s) \<leftarrow> on_kernel (sys_close E (nt_sock_fd s sei)) s;
                Some (s\<lparr>nt_sock_fd := (nt_sock_fd s)(sei := 0)\<rparr>) }
              else Some s);
       nt_cache_put E (ses_zone s) sei (s\<lparr>ses_state_of := (ses_state_of s)(sei := SES_CLOSED)\<rparr>) } }"

section \<open>Sending\<close>

text \<open>The end of \<open>_net_try_send_all\<close>: an error other than a full socket closes the session.\<close>

definition send_finish :: "('o, 'p, 'n, 'z) ne \<Rightarrow> ptr \<Rightarrow> int \<Rightarrow> ('o, 'p, 'n, 'z) ns \<Rightarrow> (int \<times> ('o, 'p, 'n, 'z) ns) option" where
  "send_finish E sei cnt s =
     (if cnt < 0 \<and> sys_errno E (kernel s) \<noteq> EAGAIN
      then do { (r, s) \<leftarrow> net_close E sei s; Some (-1, s) }
      else Some (0, s))"

text \<open>One \<open>send\<close> of \<open>remain\<close> bytes at the read offset, which moves on.\<close>

definition send_piece :: "('o, 'p, 'n, 'z) ne \<Rightarrow> ptr \<Rightarrow> int \<Rightarrow> ('o, 'p, 'n, 'z) ns \<Rightarrow> (int \<times> ('o, 'p, 'n, 'z) ns) option" where
  "send_piece E sei remain s = do {
     (cnt, s) \<leftarrow> on_kernel (sys_send E (nt_sock_fd s sei)
                  (bytes_at (bytes s) (ses_send_buf s sei + word_of_int (ses_r_offset s sei)) (nat remain))) s;
     Some (cnt, if cnt \<le> 0 then s else s\<lparr>ses_r_offset := (ses_r_offset s)(sei := ses_r_offset s sei + cnt)\<rparr>) }"

definition send_from_start :: "('o, 'p, 'n, 'z) ne \<Rightarrow> ptr \<Rightarrow> ('o, 'p, 'n, 'z) ns \<Rightarrow> (int \<times> ('o, 'p, 'n, 'z) ns) option" where
  "send_from_start E sei s = do {
     let remain = ses_w_offset s sei - ses_r_offset s sei;
     (cnt, s) \<leftarrow> (if remain > 0 then send_piece E sei remain s else Some (1, s));
     if cnt \<le> 0 then send_finish E sei cnt s
     else if ses_state_of s sei = SES_CLOSING
     then if ses_r_offset s sei \<ge> ses_w_offset s sei
          then do { (r, s) \<leftarrow> net_close E sei s; Some (0, s) }
          else Some (0, s)
     else send_finish E sei cnt s }"

text \<open>The bytes up to the end of the buffer; a \<open>send\<close> that takes none ends the loop.\<close>

partial_function (option) send_to_end :: "('o, 'p, 'n, 'z) ne \<Rightarrow> ptr \<Rightarrow> ('o, 'p, 'n, 'z) ns \<Rightarrow> (int \<times> ('o, 'p, 'n, 'z) ns) option" where
  "send_to_end E sei s =
     (let remain = sint (ses_send_buf_len s sei - word_of_int (ses_r_offset s sei)) in
      if remain > 0
      then do {
        (cnt, s) \<leftarrow> send_piece E sei remain s;
        if cnt \<le> 0 then Some (cnt, s) else send_to_end E sei s }
      else Some (1, s))"

definition net_try_send_all :: "('o, 'p, 'n, 'z) ne \<Rightarrow> ptr \<Rightarrow> ('o, 'p, 'n, 'z) ns \<Rightarrow> (int \<times> ('o, 'p, 'n, 'z) ns) option" where
  "net_try_send_all E sei s =
     (if ses_r_offset s sei \<le> ses_w_offset s sei then send_from_start E sei s
      else do {
        (cnt, s) \<leftarrow> send_to_end E sei s;
        if cnt \<le> 0 then send_finish E sei cnt s
        else send_from_start E sei (s\<lparr>ses_r_offset := (ses_r_offset s)(sei := 0)\<rparr>) })"

definition net_send :: "('o, 'p, 'n, 'z) ne \<Rightarrow> ptr \<Rightarrow> ptr \<Rightarrow> int \<Rightarrow> ('o, 'p, 'n, 'z) ns \<Rightarrow> (int \<times> ('o, 'p, 'n, 'z) ns) option" where
  "net_send E ses data data_len s =
     (if ses = 0 \<or> data = 0 \<or> data_len \<le> 0 then Some (-1, s)
      else do {
        sei \<leftarrow> deref (conv_ses_impl ses) (conv_ses_impl ses);
        if ses_state_of s sei \<noteq> SES_NORMAL then Some (-1, s)
        else do {
          (rslt, s) \<leftarrow> write_send_buf sei data data_len s;
          if rslt < 0 then Some (-1, s) else net_try_send_all E sei s } })"

definition net_on_send :: "('o, 'p, 'n, 'z) ne \<Rightarrow> ptr \<Rightarrow> ('o, 'p, 'n, 'z) ns \<Rightarrow> ('o, 'p, 'n, 'z) ns option" where
  "net_on_send E sei s = do {
     let inet = nt_inet s sei;
     s \<leftarrow> (if ses_state_of s sei = SES_ESTABLISHING
            then do {
              cf \<leftarrow> (if ses_func_conn (ses_ops s sei) \<noteq> 0 then Some (ses_func_conn (ses_ops s sei))
                      else deref inet (func_conn (inet_ops s inet)));
              call_ses E cf sei (s\<lparr>ses_state_of := (ses_state_of s)(sei := SES_NORMAL)\<rparr>) }
            else Some s);
     (r, s) \<leftarrow> net_try_send_all E sei s;
     Some s }"

definition net_disconn :: "('o, 'p, 'n, 'z) ne \<Rightarrow> ptr \<Rightarrow> ('o, 'p, 'n, 'z) ns \<Rightarrow> (int \<times> ('o, 'p, 'n, 'z) ns) option" where
  "net_disconn E sei s =
     (if ses_state_of s sei \<noteq> SES_NORMAL \<and> ses_state_of s sei \<noteq> SES_ESTABLISHING then Some (-1, s)
      else do {
        (r, s) \<leftarrow> on_kernel (sys_shutdown E (nt_sock_fd s sei)) s;
        net_try_send_all E sei (s\<lparr>ses_state_of := (ses_state_of s)(sei := SES_CLOSING)\<rparr>) })"

definition net_disconnect :: "('o, 'p, 'n, 'z) ne \<Rightarrow> ptr \<Rightarrow> ('o, 'p, 'n, 'z) ns \<Rightarrow> (int \<times> ('o, 'p, 'n, 'z) ns) option" where
  "net_disconnect E ses s = (if ses = 0 then Some (-1, s) else do { sei \<leftarrow> deref (conv_ses_impl ses) (conv_ses_impl ses); net_disconn E sei s })"

section \<open>Receiving\<close>

definition put_bytes :: "ptr \<Rightarrow> byte list \<Rightarrow> bytes \<Rightarrow> bytes" where
  "put_bytes p xs m = (\<lambda>a. if unat (a - p) < length xs then xs ! unat (a - p) else m a)"

text \<open>The last result of \<open>recv\<close>; the user gets the bytes whenever the buffer is full.\<close>

partial_function (option) recv_loop ::
  "('o, 'p, 'n, 'z) ne \<Rightarrow> ptr \<Rightarrow> ptr \<Rightarrow> ptr \<Rightarrow> ('o, 'p, 'n, 'z) ns \<Rightarrow> (int \<times> ('o, 'p, 'n, 'z) ns) option" where
  "recv_loop E rf sei p s = do {
     ((n, xs), s) \<leftarrow> on_kernel (sys_recv E (nt_sock_fd s sei) (unat (ses_recv_buf_len s sei - ses_bytes_recv s sei))) s;
     if n \<le> 0 then Some (n, s)
     else do {
       let s = s\<lparr>bytes := put_bytes p (take (nat n) xs) (bytes s),
                 ses_bytes_recv := (ses_bytes_recv s)(sei := ses_bytes_recv s sei + of_int n)\<rparr>;
       if ses_bytes_recv s sei \<ge> ses_recv_buf_len s sei
       then do {
         s \<leftarrow> call_recv E rf sei s;
         recv_loop E rf sei (ses_recv_buf s sei) (s\<lparr>ses_bytes_recv := (ses_bytes_recv s)(sei := 0)\<rparr>) }
       else recv_loop E rf sei (p + of_int n) s } }"

definition net_on_recv :: "('o, 'p, 'n, 'z) ne \<Rightarrow> ptr \<Rightarrow> ('o, 'p, 'n, 'z) ns \<Rightarrow> ('o, 'p, 'n, 'z) ns option" where
  "net_on_recv E sei s = do {
     let p = ses_recv_buf s sei;
     let inet = nt_inet s sei;
     let s = s\<lparr>ses_bytes_recv := (ses_bytes_recv s)(sei := 0)\<rparr>;
     if ses_recv_buf s sei = 0 \<or> ses_recv_buf_len s sei \<le> 0
     then do { (r, s) \<leftarrow> net_close E sei s; Some s }
     else do {
       rf \<leftarrow> (if ses_func_recv (ses_ops s sei) \<noteq> 0 then Some (ses_func_recv (ses_ops s sei))
               else deref inet (func_recv (inet_ops s inet)));
       (n, s) \<leftarrow> recv_loop E rf sei p s;
       if sys_errno E (kernel s) \<noteq> EAGAIN
       then do { (r, s) \<leftarrow> net_close E sei s; Some s }
       else if ses_bytes_recv s sei > 0 then call_recv E rf sei s else Some s } }"

definition net_on_error :: "('o, 'p, 'n, 'z) ne \<Rightarrow> ptr \<Rightarrow> ('o, 'p, 'n, 'z) ns \<Rightarrow> ('o, 'p, 'n, 'z) ns option" where
  "net_on_error E sei s =
     (if nt_sock_fd s sei = 0 then Some s else do { (r, s) \<leftarrow> net_close E sei s; Some s })"

section \<open>Acceptors\<close>

definition net_destroy_acc :: "('o, 'p, 'n, 'z) ne \<Rightarrow> ptr \<Rightarrow> ('o, 'p, 'n, 'z) ns \<Rightarrow> (int \<times> ('o, 'p, 'n, 'z) ns) option" where
  "net_destroy_acc E aci s = do {
     aci \<leftarrow> deref aci aci;
     (r, s) \<leftarrow> on_kernel (sys_close E (nt_sock_fd s aci)) s;
     nt_cache_put E (acc_zone s) aci (s\<lparr>nt_type_info := (nt_type_info s)(aci := 0)\<rparr>) }"

definition net_create_acc :: "('o, 'p, 'n, 'z) ne \<Rightarrow> ptr \<Rightarrow> u32 \<Rightarrow> u16 \<Rightarrow> ('o, 'p, 'n, 'z) ns \<Rightarrow> (ptr \<times> ('o, 'p, 'n, 'z) ns) option" where
  "net_create_acc E inet ip port s =
     (let fail = (\<lambda>aci s. do { (r, s) \<leftarrow> net_destroy_acc E aci s; Some (0, s) }) in do {
        (aci, s) \<leftarrow> nt_cache_get E (acc_zone s) s;
        if aci = 0 then Some (0, s)
        else do {
          (fd, s) \<leftarrow> on_kernel (sys_socket E) s;
          let s = s\<lparr>nt_sock_fd := (nt_sock_fd s)(aci := fd)\<rparr>;
          if fd < 0 then fail aci s
          else do {
            (r, s) \<leftarrow> on_kernel (sys_setsockopt E fd SO_REUSEADDR 1) s;
            inet \<leftarrow> deref inet inet;
            (r, s) \<leftarrow> on_kernel (sys_setsockopt E fd SO_RCVBUF (recv_buff_len (inet_cfg s inet))) s;
            (r, s) \<leftarrow> on_kernel (sys_setsockopt E fd SO_SNDBUF (send_buff_len (inet_cfg s inet))) s;
            (rslt, s) \<leftarrow> on_kernel (sys_bind E fd (htonl ip) (htons port)) s;
            if rslt < 0 then fail aci s
            else do {
              (rslt, s) \<leftarrow> on_kernel (sys_listen E fd NET_BACKLOG_COUNT) s;
              if rslt < 0 then fail aci s
              else do {
                let s = s\<lparr>nt_type_info := (nt_type_info s)(aci := ACC_TYPE_INFO), nt_inet := (nt_inet s)(aci := inet)\<rparr>;
                (r, s) \<leftarrow> on_links (lst_clr (acc_lst_node aci)) s;
                (r, s) \<leftarrow> on_links (lst_push_back (acc_list inet) (acc_lst_node aci)) s;
                Some (aci, s) } } } } })"

definition internet_destroy_acceptor :: "('o, 'p, 'n, 'z) ne \<Rightarrow> ptr \<Rightarrow> ('o, 'p, 'n, 'z) ns \<Rightarrow> (int \<times> ('o, 'p, 'n, 'z) ns) option" where
  "internet_destroy_acceptor E aci s = do {
     aci \<leftarrow> deref aci aci;
     inet \<leftarrow> deref (nt_inet s aci) (nt_inet s aci);
     (rslt, s) \<leftarrow> on_kernel (sys_epoll_del E (inet_epoll_fd s inet) (nt_sock_fd s aci)) s;
     if rslt < 0 then Some (-1, s) else net_destroy_acc E aci s }"

text \<open>The key passed on is the address of the node, not its key.\<close>

definition intranet_destroy_acceptor :: "('o, 'p, 'n, 'z) ne \<Rightarrow> ptr \<Rightarrow> ('o, 'p, 'n, 'z) ns \<Rightarrow> (int \<times> ('o, 'p, 'n, 'z) ns) option" where
  "intranet_destroy_acceptor E aci s = do {
     aci \<leftarrow> deref aci aci;
     inet \<leftarrow> deref (nt_inet s aci) (nt_inet s aci);
     (rbn, s) \<leftarrow> on_po_tree inet (rb_remove (nt_obj s aci)) s;
     if rbn = 0 then Some (-1, s)
     else do {
       (r, s) \<leftarrow> nt_cache_put E (poll_obj_zone s) (nt_obj s aci) s;
       net_destroy_acc E aci (s\<lparr>nt_obj := (nt_obj s)(aci := 0)\<rparr>) } }"

definition internet_create_acceptor :: "('o, 'p, 'n, 'z) ne \<Rightarrow> ptr \<Rightarrow> u32 \<Rightarrow> u16 \<Rightarrow> ('o, 'p, 'n, 'z) ns \<Rightarrow> (ptr \<times> ('o, 'p, 'n, 'z) ns) option" where
  "internet_create_acceptor E inet ip port s =
     (let fail = (\<lambda>aci s. do { (r, s) \<leftarrow> internet_destroy_acceptor E aci s; Some (0, s) }) in do {
        (aci, s) \<leftarrow> net_create_acc E inet ip port s;
        if aci = 0 then fail aci s
        else do {
          (rslt, s) \<leftarrow> on_kernel (sys_epoll_add E (inet_epoll_fd s inet) (nt_sock_fd s aci) EV_IN aci) s;
          if rslt < 0 then fail aci s else Some (aci, s) } })"

text \<open>A poll object for an acceptor or a session, and its place in the tree of the network.\<close>

definition po_link :: "ptr \<Rightarrow> ptr \<Rightarrow> ptr \<Rightarrow> ('o, 'p, 'n, 'z) ns \<Rightarrow> (int \<times> ('o, 'p, 'n, 'z) ns) option" where
  "po_link inet obj owner s = do {
     let s = s\<lparr>nt_obj := (nt_obj s)(owner := obj), po_obj := (po_obj s)(obj := owner),
               po_nodes := (po_nodes s)\<lparr>rb_key := (rb_key (po_nodes s))(obj := of_int (nt_sock_fd s owner))\<rparr>\<rparr>;
     (rslt, s) \<leftarrow> on_po_tree inet (rb_insert obj) s;
     if rslt < 0 then Some (-1, s)
     else Some (0, s\<lparr>inet_po_cnt := (inet_po_cnt s)(inet := inet_po_cnt s inet + 1)\<rparr>) }"

definition intranet_create_acceptor :: "('o, 'p, 'n, 'z) ne \<Rightarrow> ptr \<Rightarrow> u32 \<Rightarrow> u16 \<Rightarrow> ('o, 'p, 'n, 'z) ns \<Rightarrow> (ptr \<times> ('o, 'p, 'n, 'z) ns) option" where
  "intranet_create_acceptor E inet ip port s =
     (let fail = (\<lambda>aci obj s. do {
            (r, s) \<leftarrow> (if obj \<noteq> 0 then nt_cache_put E (poll_obj_zone s) obj s else Some (0, s));
            (r, s) \<leftarrow> intranet_destroy_acceptor E aci s;
            Some (0, s) }) in do {
        (aci, s) \<leftarrow> net_create_acc E inet ip port s;
        if aci = 0 then fail aci (uninit_po E) s
        else do {
          (obj, s) \<leftarrow> nt_cache_get E (poll_obj_zone s) s;
          if obj = 0 then fail aci obj s
          else do {
            (rslt, s) \<leftarrow> po_link inet obj aci s;
            if rslt < 0 then fail aci obj s else Some (aci, s) } } })"

section \<open>Sessions\<close>

definition net_create_session :: "('o, 'p, 'n, 'z) ne \<Rightarrow> ptr \<Rightarrow> int \<Rightarrow> ('o, 'p, 'n, 'z) ns \<Rightarrow> (ptr \<times> ('o, 'p, 'n, 'z) ns) option" where
  "net_create_session E inet socket_fd s =
     (let fail = (\<lambda>sei s. do { (r, s) \<leftarrow> net_close E sei s; Some (0, s) }) in do {
        (sei, s) \<leftarrow> nt_cache_get E (ses_zone s) s;
        if sei = 0 then Some (0, s)
        else do {
          let s = s\<lparr>nt_sock_fd := (nt_sock_fd s)(sei := socket_fd), nt_inet := (nt_inet s)(sei := inet)\<rparr>;
          (r, s) \<leftarrow> on_kernel (sys_setsockopt E socket_fd SO_KEEPALIVE 1) s;
          inet \<leftarrow> deref inet inet;
          (r, s) \<leftarrow> on_kernel (sys_setsockopt E socket_fd SO_RCVBUF (recv_buff_len (inet_cfg s inet))) s;
          (r, s) \<leftarrow> on_kernel (sys_setsockopt E socket_fd SO_SNDBUF (send_buff_len (inet_cfg s inet))) s;
          (r, s) \<leftarrow> on_kernel (sys_setsockopt E socket_fd SO_RCVTIMEO 8) s;
          (r, s) \<leftarrow> on_kernel (sys_setsockopt E socket_fd SO_SNDTIMEO 8) s;
          let s = s\<lparr>ses_recv_buf_len := (ses_recv_buf_len s)(sei := recv_buff_len (inet_cfg s inet)),
                    ses_send_buf_len := (ses_send_buf_len s)(sei := send_buff_len (inet_cfg s inet))\<rparr>;
          (p, s) \<leftarrow> nt_alloc E (ucast (ses_recv_buf_len s sei)) s;
          let s = s\<lparr>ses_recv_buf := (ses_recv_buf s)(sei := p)\<rparr>;
          if p = 0 then fail sei s
          else do {
            (p, s) \<leftarrow> nt_alloc E (ucast (ses_send_buf_len s sei)) s;
            let s = s\<lparr>ses_send_buf := (ses_send_buf s)(sei := p)\<rparr>;
            if p = 0 then fail sei s
            else do {
              let s = s\<lparr>ses_state_of := (ses_state_of s)(sei := SES_ESTABLISHING)\<rparr>;
              (r, s) \<leftarrow> on_links (lst_push_back (ses_list inet) (ses_lst_node sei)) s;
              Some (sei, s) } } } })"

definition internet_create_session :: "('o, 'p, 'n, 'z) ne \<Rightarrow> ptr \<Rightarrow> int \<Rightarrow> ('o, 'p, 'n, 'z) ns \<Rightarrow> (ptr \<times> ('o, 'p, 'n, 'z) ns) option" where
  "internet_create_session E inet socket_fd s = do {
     (sei, s) \<leftarrow> net_create_session E inet socket_fd s;
     if sei = 0 then Some (0, s)
     else do {
       (rslt, s) \<leftarrow> on_kernel (sys_epoll_add E (inet_epoll_fd s inet) (nt_sock_fd s sei) (EV_IN OR EV_OUT OR EV_ET OR EV_RDHUP) sei) s;
       if rslt < 0 then do { (r, s) \<leftarrow> net_close E sei s; Some (0, s) } else Some (sei, s) } }"

text \<open>The error exit reads the state of the session that the poll object of the socket belongs to, to print it.\<close>

definition intranet_session_fail :: "('o, 'p, 'n, 'z) ne \<Rightarrow> ptr \<Rightarrow> int \<Rightarrow> ptr \<Rightarrow> ptr \<Rightarrow> ('o, 'p, 'n, 'z) ns \<Rightarrow> (ptr \<times> ('o, 'p, 'n, 'z) ns) option" where
  "intranet_session_fail E inet socket_fd sei obj s = do {
     (r, s) \<leftarrow> (if obj \<noteq> 0
                 then do {
                   inet \<leftarrow> deref inet inet;
                   (rbn, hot) \<leftarrow> rb_search (po_tree s inet) (of_int socket_fd) local_var;
                   rbn \<leftarrow> deref rbn rbn;
                   si \<leftarrow> deref (po_obj s rbn) (po_obj s rbn);
                   nt_cache_put E (poll_obj_zone s) obj s }
                 else Some (0, s));
     (r, s) \<leftarrow> (if sei \<noteq> 0 then net_close E sei s else Some (0, s));
     Some (0, s) }"

definition intranet_create_session :: "('o, 'p, 'n, 'z) ne \<Rightarrow> ptr \<Rightarrow> int \<Rightarrow> ('o, 'p, 'n, 'z) ns \<Rightarrow> (ptr \<times> ('o, 'p, 'n, 'z) ns) option" where
  "intranet_create_session E inet socket_fd s = do {
     (sei, s) \<leftarrow> net_create_session E inet socket_fd s;
     if sei = 0 then intranet_session_fail E inet socket_fd 0 (uninit_po E) s
     else do {
       (obj, s) \<leftarrow> nt_cache_get E (poll_obj_zone s) s;
       if obj = 0 then intranet_session_fail E inet socket_fd sei obj s
       else do {
         (rslt, s) \<leftarrow> po_link inet obj sei s;
         if rslt < 0 then intranet_session_fail E inet socket_fd sei obj s else Some (sei, s) } } }"

section \<open>The table of functions\<close>

definition nt_create_acc_func :: "net_type \<Rightarrow> ('o, 'p, 'n, 'z) ne \<Rightarrow> ptr \<Rightarrow> u32 \<Rightarrow> u16 \<Rightarrow> ('o, 'p, 'n, 'z) ns \<Rightarrow> (ptr \<times> ('o, 'p, 'n, 'z) ns) option" where
  "nt_create_acc_func h = (case h of NT_INTERNET \<Rightarrow> internet_create_acceptor | NT_INTRANET \<Rightarrow> intranet_create_acceptor)"

definition nt_destroy_acc_func :: "net_type \<Rightarrow> ('o, 'p, 'n, 'z) ne \<Rightarrow> ptr \<Rightarrow> ('o, 'p, 'n, 'z) ns \<Rightarrow> (int \<times> ('o, 'p, 'n, 'z) ns) option" where
  "nt_destroy_acc_func h = (case h of NT_INTERNET \<Rightarrow> internet_destroy_acceptor | NT_INTRANET \<Rightarrow> intranet_destroy_acceptor)"

definition nt_create_session_func :: "net_type \<Rightarrow> ('o, 'p, 'n, 'z) ne \<Rightarrow> ptr \<Rightarrow> int \<Rightarrow> ('o, 'p, 'n, 'z) ns \<Rightarrow> (ptr \<times> ('o, 'p, 'n, 'z) ns) option" where
  "nt_create_session_func h = (case h of NT_INTERNET \<Rightarrow> internet_create_session | NT_INTRANET \<Rightarrow> intranet_create_session)"

section \<open>Setting up and tearing down\<close>

definition net_create_impl :: "('o, 'p, 'n, 'z) ne \<Rightarrow> net_config \<Rightarrow> net_ops \<Rightarrow> net_type \<Rightarrow> ('o, 'p, 'n, 'z) ns \<Rightarrow> (ptr \<times> ('o, 'p, 'n, 'z) ns) option" where
  "net_create_impl E cfg fs h s = do {
     (rslt, s) \<leftarrow> net_try_restore_zones E s;
     if rslt < 0 then Some (0, s)
     else do {
       (inet, s) \<leftarrow> nt_area_alloc E 152 s;
       if inet = 0 then Some (0, s)
       else do {
         (r, s) \<leftarrow> on_links (lst_new (acc_list inet)) s;
         (r, s) \<leftarrow> on_links (lst_new (ses_list inet)) s;
         Some (inet, s\<lparr>inet_cfg := (inet_cfg s)(inet := cfg), inet_ops := (inet_ops s)(inet := fs),
                       inet_handler := (inet_handler s)(inet := h)\<rparr>) } } }"

text \<open>Both error exits test the descriptor, which the first one has not set.\<close>

definition internet_init :: "('o, 'p, 'n, 'z) ne \<Rightarrow> ptr \<Rightarrow> ('o, 'p, 'n, 'z) ns \<Rightarrow> (int \<times> ('o, 'p, 'n, 'z) ns) option" where
  "internet_init E inet s =
     (let fail = (\<lambda>s. do {
            (r, s) \<leftarrow> (if inet_epoll_fd s inet > 0 then on_kernel (sys_close E (inet_epoll_fd s inet)) s else Some (0, s));
            (r, s) \<leftarrow> (if inet_ep_ev s inet \<noteq> 0 then nt_free E (inet_ep_ev s inet) s else Some (0, s));
            Some (-1, s) }) in do {
        (p, s) \<leftarrow> nt_area_alloc E (ucast (max_fd_count (inet_cfg s inet)) * 12) s;
        let s = s\<lparr>inet_ep_ev := (inet_ep_ev s)(inet := p)\<rparr>;
        if p = 0 then fail s
        else do {
          (fd, s) \<leftarrow> on_kernel (sys_epoll_create E (max_fd_count (inet_cfg s inet))) s;
          let s = s\<lparr>inet_epoll_fd := (inet_epoll_fd s)(inet := fd)\<rparr>;
          if fd < 0 then fail s else Some (0, s) } })"

definition intranet_init :: "ptr \<Rightarrow> ('o, 'p, 'n, 'z) ns \<Rightarrow> (int \<times> ('o, 'p, 'n, 'z) ns) option" where
  "intranet_init inet s = Some (0, (set_po_tree inet (rb_init None (po_tree s inet)) s)\<lparr>inet_po_cnt := (inet_po_cnt s)(inet := 0)\<rparr>)"

definition nt_init_func :: "net_type \<Rightarrow> ('o, 'p, 'n, 'z) ne \<Rightarrow> ptr \<Rightarrow> ('o, 'p, 'n, 'z) ns \<Rightarrow> (int \<times> ('o, 'p, 'n, 'z) ns) option" where
  "nt_init_func h E = (case h of NT_INTERNET \<Rightarrow> internet_init E | NT_INTRANET \<Rightarrow> intranet_init)"

definition nt_type_of :: "int \<Rightarrow> net_type option" where
  "nt_type_of i = (if i = 0 then Some NT_INTERNET else if i = 1 then Some NT_INTRANET else None)"

text \<open>\<open>None\<close> stands for a null pointer.\<close>

definition net_create :: "('o, 'p, 'n, 'z) ne \<Rightarrow> net_config option \<Rightarrow> net_ops option \<Rightarrow> int \<Rightarrow> ('o, 'p, 'n, 'z) ns \<Rightarrow> (ptr \<times> ('o, 'p, 'n, 'z) ns) option" where
  "net_create E cfg fs net_type s =
     (case (cfg, fs, nt_type_of net_type) of
        (Some cfg, Some fs, Some h) \<Rightarrow> do {
          (inet, s) \<leftarrow> net_create_impl E cfg fs h s;
          if inet = 0 then Some (0, s)
          else do {
            (rslt, s) \<leftarrow> nt_init_func h E inet s;
            Some (if rslt < 0 then 0 else inet, s) } }
      | _ \<Rightarrow> Some (0, s))"

text \<open>Every acceptor is destroyed, then taken off the list; the status of neither is looked at.\<close>

partial_function (option) destroy_accs :: "('o, 'p, 'n, 'z) ne \<Rightarrow> ptr \<Rightarrow> ptr \<Rightarrow> ('o, 'p, 'n, 'z) ns \<Rightarrow> ('o, 'p, 'n, 'z) ns option" where
  "destroy_accs E inet dln s =
     (if dln = tail_of (acc_list inet) then Some s
      else do {
        nxt \<leftarrow> ld_next (links s) dln;
        (r, s) \<leftarrow> nt_destroy_acc_func (inet_handler s inet) E (conv_acc_dln dln) s;
        (r, s) \<leftarrow> on_links (lst_remove (acc_list inet) dln) s;
        destroy_accs E inet nxt s })"

text \<open>The second list is walked in the same way; its nodes are removed from the list of the acceptors.\<close>

partial_function (option) close_sessions :: "('o, 'p, 'n, 'z) ne \<Rightarrow> ptr \<Rightarrow> ptr \<Rightarrow> ('o, 'p, 'n, 'z) ns \<Rightarrow> ('o, 'p, 'n, 'z) ns option" where
  "close_sessions E inet dln s =
     (if dln = tail_of (ses_list inet) then Some s
      else do {
        nxt \<leftarrow> ld_next (links s) dln;
        (r, s) \<leftarrow> net_close E (conv_ses_dln dln) s;
        (r, s) \<leftarrow> on_links (lst_remove (acc_list inet) dln) s;
        close_sessions E inet nxt s })"

definition net_destroy_impl :: "('o, 'p, 'n, 'z) ne \<Rightarrow> ptr \<Rightarrow> ('o, 'p, 'n, 'z) ns \<Rightarrow> (int \<times> ('o, 'p, 'n, 'z) ns) option" where
  "net_destroy_impl E inet s =
     (if inet = 0 then Some (-1, s)
      else do {
        dln \<leftarrow> ld_next (links s) (head_of (acc_list inet));
        s \<leftarrow> destroy_accs E inet dln s;
        dln \<leftarrow> ld_next (links s) (head_of (ses_list inet));
        s \<leftarrow> close_sessions E inet dln s;
        (r, s) \<leftarrow> nt_free E inet s;
        Some (0, s) })"

definition internet_destroy :: "('o, 'p, 'n, 'z) ne \<Rightarrow> ptr \<Rightarrow> ('o, 'p, 'n, 'z) ns \<Rightarrow> (int \<times> ('o, 'p, 'n, 'z) ns) option" where
  "internet_destroy E inet s = do {
     inet \<leftarrow> deref inet inet;
     (r, s) \<leftarrow> on_kernel (sys_close E (inet_epoll_fd s inet)) s;
     (r, s) \<leftarrow> nt_free E (inet_ep_ev s inet) s;
     (rslt, s) \<leftarrow> net_destroy_impl E inet s;
     Some (if rslt < 0 then -1 else 0, s) }"

definition intranet_destroy :: "('o, 'p, 'n, 'z) ne \<Rightarrow> ptr \<Rightarrow> ('o, 'p, 'n, 'z) ns \<Rightarrow> (int \<times> ('o, 'p, 'n, 'z) ns) option" where
  "intranet_destroy E inet s = do {
     (rslt, s) \<leftarrow> net_destroy_impl E inet s;
     Some (if rslt < 0 then -1 else 0, s) }"

definition nt_destroy_func :: "net_type \<Rightarrow> ('o, 'p, 'n, 'z) ne \<Rightarrow> ptr \<Rightarrow> ('o, 'p, 'n, 'z) ns \<Rightarrow> (int \<times> ('o, 'p, 'n, 'z) ns) option" where
  "nt_destroy_func h = (case h of NT_INTERNET \<Rightarrow> internet_destroy | NT_INTRANET \<Rightarrow> intranet_destroy)"

definition net_destroy :: "('o, 'p, 'n, 'z) ne \<Rightarrow> ptr \<Rightarrow> ('o, 'p, 'n, 'z) ns \<Rightarrow> (int \<times> ('o, 'p, 'n, 'z) ns) option" where
  "net_destroy E net s = (if net = 0 then Some (-1, s) else nt_destroy_func (inet_handler s net) E net s)"

definition net_create_acceptor :: "('o, 'p, 'n, 'z) ne \<Rightarrow> ptr \<Rightarrow> u32 \<Rightarrow> u16 \<Rightarrow> ('o, 'p, 'n, 'z) ns \<Rightarrow> (ptr \<times> ('o, 'p, 'n, 'z) ns) option" where
  "net_create_acceptor E net ip port s =
     (if net = 0 then Some (0, s)
      else do {
        (aci, s) \<leftarrow> nt_create_acc_func (inet_handler s net) E net ip port s;
        Some (if aci = 0 then 0 else the_acc aci, s) })"

definition net_destroy_acceptor :: "('o, 'p, 'n, 'z) ne \<Rightarrow> ptr \<Rightarrow> ('o, 'p, 'n, 'z) ns \<Rightarrow> (int \<times> ('o, 'p, 'n, 'z) ns) option" where
  "net_destroy_acceptor E acc s =
     (if acc = 0 then Some (-1, s)
      else do {
        aci \<leftarrow> deref (conv_acc_impl acc) (conv_acc_impl acc);
        inet \<leftarrow> deref (nt_inet s aci) (nt_inet s aci);
        nt_destroy_acc_func (inet_handler s inet) E aci s })"

section \<open>Events\<close>

definition net_on_acc :: "('o, 'p, 'n, 'z) ne \<Rightarrow> ptr \<Rightarrow> ('o, 'p, 'n, 'z) ns \<Rightarrow> (int \<times> ('o, 'p, 'n, 'z) ns) option" where
  "net_on_acc E aci s =
     (let fail = (\<lambda>fd s. do {
            (r, s) \<leftarrow> (if fd > 0 then on_kernel (sys_close E fd) s else Some (0, s));
            Some (-1, s) });
          inet = nt_inet s aci
      in do {
        (fd, s) \<leftarrow> on_kernel (sys_accept E (nt_sock_fd s aci)) s;
        if fd < 0 then fail fd s
        else do {
          h \<leftarrow> deref inet (inet_handler s inet);
          (sei, s) \<leftarrow> nt_create_session_func h E inet fd s;
          if sei = 0 then fail fd s
          else do {
            let s = s\<lparr>ses_debug_type := (ses_debug_type s)(sei := 1),
                      ses_remote_ip := (ses_remote_ip s)(sei := htonl (fst (uninit_addr E))),
                      ses_remote_port := (ses_remote_port s)(sei := ucast (htons (snd (uninit_addr E))))\<rparr>;
            s \<leftarrow> (if func_acc (inet_ops s inet) \<noteq> 0
                   then cb_acc E (func_acc (inet_ops s inet)) (the_acc aci) (the_ses sei) s else Some s);
            Some (0, s) } } })"

text \<open>One ready object: an acceptor accepts, a session sends, receives and closes as its event bits say.\<close>

definition net_dispatch :: "('o, 'p, 'n, 'z) ne \<Rightarrow> ptr \<Rightarrow> (('o, 'p, 'n, 'z) ns \<Rightarrow> u32 option) \<Rightarrow> ('o, 'p, 'n, 'z) ns \<Rightarrow> ('o, 'p, 'n, 'z) ns option" where
  "net_dispatch E obj events s = do {
     obj \<leftarrow> deref obj obj;
     if nt_type_info s obj = ACC_TYPE_INFO
     then do { (r, s) \<leftarrow> net_on_acc E obj s; Some s }
     else if nt_type_info s obj = SES_TYPE_INFO
     then do {
       ev \<leftarrow> events s;
       s \<leftarrow> (if ev AND EV_OUT \<noteq> 0 then net_on_send E obj s else Some s);
       ev \<leftarrow> events s;
       s \<leftarrow> (if ev AND EV_IN \<noteq> 0 then net_on_recv E obj s else Some s);
       ev \<leftarrow> events s;
       if ev AND EV_ERR \<noteq> 0 then net_on_error E obj s else Some s }
     else Some s }"

definition nth_opt :: "'a list \<Rightarrow> nat \<Rightarrow> 'a option" where
  "nth_opt xs i = (if i < length xs then Some (xs ! i) else None)"

partial_function (option) internet_events :: "('o, 'p, 'n, 'z) ne \<Rightarrow> ptr \<Rightarrow> int \<Rightarrow> nat \<Rightarrow> ('o, 'p, 'n, 'z) ns \<Rightarrow> ('o, 'p, 'n, 'z) ns option" where
  "internet_events E inet cnt i s =
     (if int i < cnt
      then do {
        (ev, obj) \<leftarrow> nth_opt (ep_events s (inet_ep_ev s inet)) i;
        s \<leftarrow> net_dispatch E obj (\<lambda>s. map_option fst (nth_opt (ep_events s (inet_ep_ev s inet)) i)) s;
        internet_events E inet cnt (i + 1) s }
      else Some s)"

definition internet_run :: "('o, 'p, 'n, 'z) ne \<Rightarrow> ptr \<Rightarrow> int \<Rightarrow> ('o, 'p, 'n, 'z) ns \<Rightarrow> (int \<times> ('o, 'p, 'n, 'z) ns) option" where
  "internet_run E inet timeout s = do {
     ((cnt, evs), s) \<leftarrow> on_kernel (sys_epoll_wait E (inet_epoll_fd s inet) (max_fd_count (inet_cfg s inet)) timeout) s;
     if cnt < 0 then Some (-1, s)
     else do {
       s \<leftarrow> internet_events E inet cnt 0 (s\<lparr>ep_events := (ep_events s)(inet_ep_ev s inet := evs)\<rparr>);
       Some (0, s) } }"

text \<open>
  The entries for \<open>poll\<close>, in an array of \<open>_po_cnt\<close> elements: a list that has more of them is written out of
  bounds before the check of the count.
\<close>

partial_function (option) poll_entries ::
  "(ptr \<Rightarrow> ptr) \<Rightarrow> u32 \<Rightarrow> ptr \<Rightarrow> ptr \<Rightarrow> int \<Rightarrow> (int \<times> u32) list \<Rightarrow> ('o, 'p, 'n, 'z) ns \<Rightarrow> (int \<times> u32) list option" where
  "poll_entries conv evs lst dln limit fds s =
     (if dln = tail_of lst then Some fds
      else if int (length fds) \<ge> limit then None
      else do {
        nxt \<leftarrow> ld_next (links s) dln;
        poll_entries conv evs lst nxt limit (fds @ [(nt_sock_fd s (conv dln), evs)]) s })"

text \<open>The first \<open>cnt\<close> entries, where \<open>cnt\<close> is the number of ready ones.\<close>

partial_function (option) intranet_events ::
  "('o, 'p, 'n, 'z) ne \<Rightarrow> ptr \<Rightarrow> (int \<times> u32) list \<Rightarrow> u32 list \<Rightarrow> int \<Rightarrow> nat \<Rightarrow> ('o, 'p, 'n, 'z) ns \<Rightarrow> (int \<times> ('o, 'p, 'n, 'z) ns) option" where
  "intranet_events E inet fds revs cnt i s =
     (if int i < cnt
      then do {
        (fd, ev) \<leftarrow> nth_opt fds i;
        rev \<leftarrow> nth_opt revs i;
        (rbn, hot) \<leftarrow> rb_search (po_tree s inet) (of_int fd) local_var;
        if rbn = 0 then Some (-1, s)
        else do {
          s \<leftarrow> net_dispatch E (po_obj s rbn) (\<lambda>s. Some rev) s;
          intranet_events E inet fds revs cnt (i + 1) s } }
      else Some (0, s))"

definition intranet_run :: "('o, 'p, 'n, 'z) ne \<Rightarrow> ptr \<Rightarrow> int \<Rightarrow> ('o, 'p, 'n, 'z) ns \<Rightarrow> (int \<times> ('o, 'p, 'n, 'z) ns) option" where
  "intranet_run E inet timeout s = do {
     dln \<leftarrow> ld_next (links s) (head_of (acc_list inet));
     fds \<leftarrow> poll_entries conv_acc_dln EV_IN (acc_list inet) dln (inet_po_cnt s inet) [] s;
     dln \<leftarrow> ld_next (links s) (head_of (ses_list inet));
     fds \<leftarrow> poll_entries conv_ses_dln (EV_IN OR EV_OUT OR EV_RDHUP OR EV_ERR) (ses_list inet) dln (inet_po_cnt s inet) fds s;
     if int (length fds) > inet_po_cnt s inet then Some (-1, s)
     else do {
       ((cnt, revs), s) \<leftarrow> on_kernel (sys_poll E fds timeout) s;
       if cnt < 0 then Some (-1, s) else intranet_events E inet fds revs cnt 0 s } }"

definition nt_run_func :: "net_type \<Rightarrow> ('o, 'p, 'n, 'z) ne \<Rightarrow> ptr \<Rightarrow> int \<Rightarrow> ('o, 'p, 'n, 'z) ns \<Rightarrow> (int \<times> ('o, 'p, 'n, 'z) ns) option" where
  "nt_run_func h = (case h of NT_INTERNET \<Rightarrow> internet_run | NT_INTRANET \<Rightarrow> intranet_run)"

definition net_run :: "('o, 'p, 'n, 'z) ne \<Rightarrow> ptr \<Rightarrow> int \<Rightarrow> ('o, 'p, 'n, 'z) ns \<Rightarrow> (int \<times> ('o, 'p, 'n, 'z) ns) option" where
  "net_run E net timeout s = (if net = 0 then Some (-1, s) else nt_run_func (inet_handler s net) E net timeout s)"

section \<open>Connecting\<close>

text \<open>The address is passed on as it is; only the port is put into network order.\<close>

definition net_connect :: "('o, 'p, 'n, 'z) ne \<Rightarrow> ptr \<Rightarrow> u32 \<Rightarrow> u16 \<Rightarrow> ('o, 'p, 'n, 'z) ns \<Rightarrow> (ptr \<times> ('o, 'p, 'n, 'z) ns) option" where
  "net_connect E net ip port s =
     (if net = 0 then Some (0, s)
      else do {
        (fd, s) \<leftarrow> on_kernel (sys_socket E) s;
        if fd < 0 then Some (0, s)
        else do {
          (sei, s) \<leftarrow> nt_create_session_func (inet_handler s net) E net fd s;
          if sei = 0 then Some (0, s)
          else do {
            let s = s\<lparr>ses_debug_type := (ses_debug_type s)(sei := 2)\<rparr>;
            (r, s) \<leftarrow> on_kernel (sys_setsockopt E (nt_sock_fd s sei) SO_REUSEADDR 1) s;
            (rslt, s) \<leftarrow> on_kernel (sys_connect E (nt_sock_fd s sei) ip (htons port)) s;
            if rslt < 0 \<and> sys_errno E (kernel s) \<noteq> EINPROGRESS
            then do { (r, s) \<leftarrow> net_close E sei s; Some (0, s) }
            else Some (the_ses sei, s) } } })"

definition net_bind_session_ops :: "ptr \<Rightarrow> session_ops option \<Rightarrow> ('o, 'p, 'n, 'z) ns \<Rightarrow> (int \<times> ('o, 'p, 'n, 'z) ns) option" where
  "net_bind_session_ops ses ops s =
     (if ses = 0 then Some (-1, s)
      else do {
        sei \<leftarrow> deref (conv_ses_impl ses) (conv_ses_impl ses);
        let v = (case ops of Some o' \<Rightarrow> o' | None \<Rightarrow> \<lparr>ses_func_conn = 0, ses_func_recv = 0, ses_func_disconn = 0\<rparr>);
        Some (0, s\<lparr>ses_ops := (ses_ops s)(sei := v)\<rparr>) })"

definition net_session_count :: "ptr \<Rightarrow> int" where
  "net_session_count net = (if net = 0 then -1 else 0)"

end
