(* ===== verification/Net_Spec.thy ===== *)
theory Net_Spec
  imports Net Mmspace_Spec
begin

text \<open>
  What a session sends and receives, and what the event loops miss.  The send buffer is the ring buffer of
  \<open>Ringbuf\<close> with offsets of 32 bits, so its lemmas carry over.
\<close>

section \<open>The send buffer is a ring buffer\<close>

definition send_ring :: "('o, 'p, 'n, 'z) ns \<Rightarrow> ptr \<Rightarrow> ring_buf_impl" where
  "send_ring s sei = \<lparr>rb_addr_begin = ses_send_buf s sei, ring_size = ucast (ses_send_buf_len s sei),
     r_offset = ses_r_offset s sei, w_offset = ses_w_offset s sei\<rparr>"

lemma send_ring_sel [simp]:
  "rb_addr_begin (send_ring s sei) = ses_send_buf s sei" "ring_size (send_ring s sei) = ucast (ses_send_buf_len s sei)"
  "r_offset (send_ring s sei) = ses_r_offset s sei" "w_offset (send_ring s sei) = ses_w_offset s sei"
  by (simp_all add: send_ring_def)

lemma sint_small:
  fixes w :: "'a::len word" assumes "uint w < 2 ^ (LENGTH('a) - 1)" shows "sint w = uint w"
proof -
  have "0 \<le> (2 :: int) ^ (LENGTH('a) - 1)" by simp
  then have "- (2 ^ (LENGTH('a) - 1)) \<le> uint w" using uint_ge_0 [of w] by linarith
  then have "signed_take_bit (LENGTH('a) - 1) (uint w) = uint w" using assms by (rule signed_take_bit_int_eq_self)
  then show ?thesis by (simp add: sint_uint)
qed

text \<open>The comparison and the room behind the write offset, in 32 and in 64 bits.\<close>

lemma send_compare:
  fixes len :: u32
  assumes "0 \<le> x" "x < 2 ^ 32" "0 \<le> r" "r \<le> uint len" "uint len < 2 ^ 30"
  shows "word_of_int x < word_of_int r + len \<longleftrightarrow> (word_of_int x :: u64) < word_of_int r + ucast len"
proof -
  have "word_of_int r + len = word_of_int (r + uint len)" by simp
  then have a: "uint (word_of_int r + len) = r + uint len" using assms uint_of_int_u32 [of "r + uint len"] by simp
  have "word_of_int r + ucast len = (word_of_int (r + uint len) :: u64)" unfolding ucast_eq by (simp only: of_int_add)
  then have b: "uint (word_of_int r + ucast len :: u64) = r + uint len"
    using assms uint_of_int_u64 [of "r + uint len"] by simp
  show ?thesis unfolding word_less_def a b using assms uint_of_int_u32 [of x] uint_of_int_u64 [of x] by simp
qed

lemma send_remain:
  fixes len :: u32
  assumes "0 \<le> w" "w \<le> uint len" "uint len < 2 ^ 30"
  shows "sint (len - word_of_int w) = uint len - w" and "sint (ucast len - word_of_int w :: u64) = uint len - w"
proof -
  have "len - word_of_int w = word_of_int (uint len - w)" by simp
  then have a: "uint (len - word_of_int w) = uint len - w" using assms uint_of_int_u32 [of "uint len - w"] by simp
  then show "sint (len - word_of_int w) = uint len - w" using assms sint_small [of "len - word_of_int w"] by simp
  have "ucast len - word_of_int w = (word_of_int (uint len - w) :: u64)" unfolding ucast_eq by (simp only: of_int_diff)
  then have b: "uint (ucast len - word_of_int w :: u64) = uint len - w" using assms uint_of_int_u64 [of "uint len - w"] by simp
  then show "sint (ucast len - word_of_int w :: u64) = uint len - w"
    using assms sint_small [of "ucast len - word_of_int w :: u64"] by simp
qed

lemma write_send_buf_eq:
  assumes inv: "ring_inv (send_ring s sei)" and len: "uint (ses_send_buf_len s sei) < 2 ^ 30" and n: "0 \<le> n" "n < 2 ^ 31"
  shows "write_send_buf sei data n s = do {
     (rslt, q) \<leftarrow> rbuf_write_block 1 data n \<lparr>rings = (\<lambda>_. send_ring s sei), rb_mem = bytes s\<rparr>;
     Some (rslt, s\<lparr>ses_w_offset := (ses_w_offset s)(sei := w_offset (rings q 1)), bytes := rb_mem q\<rparr>) }"
proof -
  have base: "ses_send_buf s sei \<noteq> 0" and r: "0 \<le> ses_r_offset s sei" "ses_r_offset s sei \<le> uint (ses_send_buf_len s sei)"
    and w: "0 \<le> ses_w_offset s sei" "ses_w_offset s sei \<le> uint (ses_send_buf_len s sei)"
    using inv by (auto simp: ring_inv_def uint_ucast_32)
  have x: "0 \<le> ses_w_offset s sei + n" "ses_w_offset s sei + n < 2 ^ 32" using w n len by simp_all
  note cmp = send_compare [OF x r len] and rem = send_remain [OF w len]
  show ?thesis
    unfolding write_send_buf_def rbuf_write_block_def Let_def rb_state.select_convs send_ring_sel cmp rem
    using base by (simp add: memcpy_long_def)
qed

text \<open>
  C15.  \<open>_write_send_buf\<close>, which copies the code of \<open>rbuf_write_block\<close> with offsets of 32 bits, does the same as
  that routine on a descriptor of the send buffer: the same status, the same bytes, the same write offset, for
  buffers below a gigabyte and any length an \<open>int\<close> can hold.
\<close>

theorem write_send_buf_ring:
  assumes inv: "ring_inv (send_ring s sei)" and len: "uint (ses_send_buf_len s sei) < 2 ^ 30" and n: "0 \<le> n" "n < 2 ^ 31"
  shows "write_send_buf sei data n s = do {
     (rslt, q) \<leftarrow> rbuf_write_block 1 data n \<lparr>rings = (\<lambda>_. send_ring s sei), rb_mem = bytes s\<rparr>;
     Some (rslt, s\<lparr>ses_w_offset := (ses_w_offset s)(sei := w_offset (rings q 1)), bytes := rb_mem q\<rparr>) }"
  by (rule write_send_buf_eq [OF assms])

section \<open>Sending\<close>

text \<open>
  What \<open>send\<close> is documented to do on the socket \<open>fd\<close>: it accepts a first part of the bytes, which \<open>out\<close> is the
  record of; when it accepts none, the socket is full.
\<close>

definition sends :: "('o, 'p, 'n, 'z) ne \<Rightarrow> ('n \<Rightarrow> byte list) \<Rightarrow> int \<Rightarrow> bool" where
  "sends E out fd \<longleftrightarrow> (\<forall>xs k cnt k'. sys_send E fd xs k = (cnt, k') \<longrightarrow>
     cnt \<le> int (length xs) \<and> out k' = out k @ take (nat cnt) xs \<and> (cnt < 0 \<longrightarrow> sys_errno E k' = EAGAIN))"

text \<open>The state after sending: the socket, and the read offset.\<close>

definition sent :: "ptr \<Rightarrow> 'n \<Rightarrow> nat \<Rightarrow> ('o, 'p, 'n, 'z) ns \<Rightarrow> ('o, 'p, 'n, 'z) ns" where
  "sent sei k r s = s\<lparr>kernel := k, ses_r_offset := (ses_r_offset s)(sei := int r)\<rparr>"

lemma sent_sel [simp]:
  "kernel (sent sei k r s) = k" "ses_r_offset (sent sei k r s) sei = int r" "ses_w_offset (sent sei k r s) = ses_w_offset s"
  "bytes (sent sei k r s) = bytes s" "ses_send_buf (sent sei k r s) = ses_send_buf s"
  "ses_send_buf_len (sent sei k r s) = ses_send_buf_len s" "nt_sock_fd (sent sei k r s) = nt_sock_fd s"
  "ses_state_of (sent sei k r s) = ses_state_of s" "sent sei k' r' (sent sei k r s) = sent sei k' r' s"
  "(sent sei k r s)\<lparr>ses_r_offset := (ses_r_offset (sent sei k r s))(sei := int r')\<rparr> = sent sei k r' s"
  by (simp_all add: sent_def)

lemma sent_id: "ses_r_offset s sei = int r \<Longrightarrow> sent sei (kernel s) r s = s"
  by (simp add: sent_def fun_upd_idem)

lemma send_piece_ok:
  assumes snd: "sends E out (nt_sock_fd s sei)"
  shows "\<exists>cnt k' r'. send_piece E sei (int n) (sent sei k r s) = Some (cnt, sent sei k' r' s) \<and> r \<le> r' \<and> r' \<le> r + n \<and>
    out k' = out k @ bytes_at (bytes s) (ses_send_buf s sei + of_nat r) (r' - r) \<and>
    (cnt \<le> 0 \<longrightarrow> r' = r) \<and> (cnt < 0 \<longrightarrow> sys_errno E k' = EAGAIN) \<and> (0 < cnt \<longrightarrow> r < r')"
proof -
  let ?p = "ses_send_buf s sei + of_nat r" let ?xs = "bytes_at (bytes s) ?p n"
  obtain cnt k' where c: "sys_send E (nt_sock_fd s sei) ?xs k = (cnt, k')" by fastforce
  have h: "cnt \<le> int n" "out k' = out k @ take (nat cnt) ?xs" "cnt < 0 \<longrightarrow> sys_errno E k' = EAGAIN"
    using snd c unfolding sends_def by (metis length_bytes_at)+
  define r' where "r' = r + nat cnt"
  have t: "take (nat cnt) ?xs = bytes_at (bytes s) ?p (r' - r)"
  proof -
    have "nat cnt \<le> n" using h(1) by simp
    then show ?thesis using bytes_at_drop [of "nat cnt" n "bytes s" ?p] by (simp add: r'_def)
  qed
  have "send_piece E sei (int n) (sent sei k r s) = Some (cnt, sent sei k' r' s)"
    using c by (simp add: send_piece_def on_kernel_def Let_def r'_def) (simp add: sent_def)
  then show ?thesis using h t by (intro exI [of _ cnt] exI [of _ k'] exI [of _ r']) (auto simp: r'_def)
qed

lemma send_to_end_ok:
  assumes snd: "sends E out (nt_sock_fd s sei)" and z: "uint (ses_send_buf_len s sei) = int Z" "Z < 2 ^ 30" and r: "r \<le> Z"
  shows "\<exists>cnt k' r'. send_to_end E sei (sent sei k r s) = Some (cnt, sent sei k' r' s) \<and> r \<le> r' \<and> r' \<le> Z \<and>
    out k' = out k @ bytes_at (bytes s) (ses_send_buf s sei + of_nat r) (r' - r) \<and>
    (cnt < 0 \<longrightarrow> sys_errno E k' = EAGAIN) \<and> (0 < cnt \<longrightarrow> r' = Z)"
  using r
proof (induction "Z - r" arbitrary: r k rule: less_induct)
  case less
  have rem: "sint (ses_send_buf_len s sei - word_of_int (int r)) = int (Z - r)"
    using send_remain(1) [of "int r" "ses_send_buf_len s sei"] z less.prems by simp
  show ?case
  proof (cases "r = Z")
    case True
    then have "send_to_end E sei (sent sei k r s) = Some (1, sent sei k r s)"
      using rem by (subst send_to_end.simps) (simp add: Let_def)
    then show ?thesis using True by (intro exI [of _ 1] exI [of _ k] exI [of _ r]) simp
  next
    case False
    then have pos: "0 < int (Z - r)" using less.prems by simp
    obtain cnt k1 r1 where p: "send_piece E sei (int (Z - r)) (sent sei k r s) = Some (cnt, sent sei k1 r1 s)" "r \<le> r1"
      "r1 \<le> r + (Z - r)" "out k1 = out k @ bytes_at (bytes s) (ses_send_buf s sei + of_nat r) (r1 - r)" "cnt \<le> 0 \<longrightarrow> r1 = r"
      "cnt < 0 \<longrightarrow> sys_errno E k1 = EAGAIN" "0 < cnt \<longrightarrow> r < r1"
      using send_piece_ok [OF snd, of "Z - r" k r] by blast
    have step: "send_to_end E sei (sent sei k r s) =
        (if cnt \<le> 0 then Some (cnt, sent sei k1 r1 s) else send_to_end E sei (sent sei k1 r1 s))"
      using pos p(1) rem by (subst send_to_end.simps) (simp add: Let_def del: of_nat_diff)
    show ?thesis
    proof (cases "cnt \<le> 0")
      case True
      then show ?thesis using step p less.prems by (intro exI [of _ cnt] exI [of _ k1] exI [of _ r1]) auto
    next
      case False
      have l: "Z - r1 < Z - r" "r1 \<le> Z" using False p(3,7) less.prems by auto
      obtain cnt' k2 r2 where q: "send_to_end E sei (sent sei k1 r1 s) = Some (cnt', sent sei k2 r2 s)" "r1 \<le> r2" "r2 \<le> Z"
        "out k2 = out k1 @ bytes_at (bytes s) (ses_send_buf s sei + of_nat r1) (r2 - r1)"
        "cnt' < 0 \<longrightarrow> sys_errno E k2 = EAGAIN" "0 < cnt' \<longrightarrow> r2 = Z"
        using less.hyps [OF l, of k1] by blast
      have "bytes_at (bytes s) (ses_send_buf s sei + of_nat r) (r2 - r) =
        bytes_at (bytes s) (ses_send_buf s sei + of_nat r) (r1 - r) @ bytes_at (bytes s) (ses_send_buf s sei + of_nat r1) (r2 - r1)"
        using bytes_at_drop [of "r1 - r" "r2 - r" "bytes s" "ses_send_buf s sei + of_nat r"] p(2) q(2) by (simp add: of_nat_diff)
      then show ?thesis using step False p(2,4) q by (intro exI [of _ cnt'] exI [of _ k2] exI [of _ r2]) simp
    qed
  qed
qed

lemma send_finish_ok: "(cnt < 0 \<Longrightarrow> sys_errno E (kernel s) = EAGAIN) \<Longrightarrow> send_finish E sei cnt s = Some (0, s)"
  by (auto simp: send_finish_def)

lemma send_from_start_ok:
  assumes snd: "sends E out (nt_sock_fd s sei)" and st: "ses_state_of s sei = SES_NORMAL"
    and w: "ses_w_offset s sei = int W" and r: "r \<le> W"
  shows "\<exists>k' r'. send_from_start E sei (sent sei k r s) = Some (0, sent sei k' r' s) \<and> r \<le> r' \<and> r' \<le> W \<and>
    out k' = out k @ bytes_at (bytes s) (ses_send_buf s sei + of_nat r) (r' - r)"
proof (cases "r = W")
  case True
  then have "send_from_start E sei (sent sei k r s) = Some (0, sent sei k r s)"
    using w st by (simp add: send_from_start_def send_finish_def)
  then show ?thesis using r by (intro exI [of _ k] exI [of _ r]) simp
next
  case False
  then have pos: "0 < int W - int r" "int W - int r = int (W - r)" using r by simp_all
  obtain cnt k' r' where p: "send_piece E sei (int (W - r)) (sent sei k r s) = Some (cnt, sent sei k' r' s)" "r \<le> r'"
    "r' \<le> r + (W - r)" "out k' = out k @ bytes_at (bytes s) (ses_send_buf s sei + of_nat r) (r' - r)"
    "cnt < 0 \<longrightarrow> sys_errno E k' = EAGAIN"
    using send_piece_ok [OF snd, of "W - r" k r] by blast
  have "send_from_start E sei (sent sei k r s) = send_finish E sei cnt (sent sei k' r' s)"
    using pos p(1) w st by (simp add: send_from_start_def Let_def del: of_nat_diff)
  also have "\<dots> = Some (0, sent sei k' r' s)" using p(5) by (intro send_finish_ok) simp
  finally show ?thesis using p r by (intro exI [of _ k'] exI [of _ r']) auto
qed

text \<open>The bytes the session has accepted and not yet sent.\<close>

definition unsent :: "('o, 'p, 'n, 'z) ns \<Rightarrow> ptr \<Rightarrow> byte list" where
  "unsent s sei = ring_content (send_ring s sei) (bytes s)"

lemma unsent_sent:
  assumes z: "uint (ses_send_buf_len s sei) = int Z" and w: "ses_w_offset s sei = int W"
  shows "unsent (sent sei k r s) sei = (if r \<le> W then bytes_at (bytes s) (ses_send_buf s sei + of_nat r) (W - r)
     else bytes_at (bytes s) (ses_send_buf s sei + of_nat r) (Z - r) @ bytes_at (bytes s) (ses_send_buf s sei) W)"
proof -
  have "uint (ucast (ses_send_buf_len s sei) :: u64) = int Z" unfolding uint_ucast_32 by (rule z)
  then have "unat (ucast (ses_send_buf_len s sei) :: u64) = Z" by (simp only: unat_eq_nat_uint nat_int)
  then show ?thesis using w by (simp add: unsent_def ring_content_def Let_def)
qed

lemma bytes_at_split:
  assumes "a \<le> b" and "b \<le> c"
  shows "bytes_at m (p + of_nat a) (c - a) = bytes_at m (p + of_nat a) (b - a) @ bytes_at m (p + of_nat b) (c - b)"
  using bytes_at_drop [of "b - a" "c - a" m "p + of_nat a"] assms by (simp add: of_nat_diff)

lemma try_send_all_ok:
  assumes snd: "sends E out (nt_sock_fd s sei)" and st: "ses_state_of s sei = SES_NORMAL"
    and z: "uint (ses_send_buf_len s sei) = int Z" "Z < 2 ^ 30" and w: "ses_w_offset s sei = int W" "W \<le> Z"
    and r: "ses_r_offset s sei = int R" "R \<le> Z"
  shows "\<exists>k' R'. net_try_send_all E sei s = Some (0, sent sei k' R' s) \<and> R' \<le> Z \<and>
    out k' @ unsent (sent sei k' R' s) sei = out (kernel s) @ unsent s sei"
proof -
  let ?b = "ses_send_buf s sei"
  have s0: "sent sei (kernel s) R s = s" by (rule sent_id [OF r(1)])
  note U = unsent_sent [OF z(1) w(1)]
  have U0: "unsent s sei = (if R \<le> W then bytes_at (bytes s) (?b + of_nat R) (W - R)
     else bytes_at (bytes s) (?b + of_nat R) (Z - R) @ bytes_at (bytes s) ?b W)"
    using U [of "kernel s" R] unfolding s0 .
  show ?thesis
  proof (cases "R \<le> W")
    case True
    obtain k' r' where p: "send_from_start E sei (sent sei (kernel s) R s) = Some (0, sent sei k' r' s)" "R \<le> r'" "r' \<le> W"
      "out k' = out (kernel s) @ bytes_at (bytes s) (?b + of_nat R) (r' - R)"
      using send_from_start_ok [OF snd st w(1) True] by blast
    have "net_try_send_all E sei s = Some (0, sent sei k' r' s)" using p(1) True r(1) w(1) unfolding s0 by (simp add: net_try_send_all_def)
    then show ?thesis using p U U0 True w(2) bytes_at_split [OF p(2,3)] by (intro exI [of _ k'] exI [of _ r']) simp
  next
    case False
    obtain cnt k1 r1 where p: "send_to_end E sei (sent sei (kernel s) R s) = Some (cnt, sent sei k1 r1 s)" "R \<le> r1" "r1 \<le> Z"
      "out k1 = out (kernel s) @ bytes_at (bytes s) (?b + of_nat R) (r1 - R)" "cnt < 0 \<longrightarrow> sys_errno E k1 = EAGAIN"
      "0 < cnt \<longrightarrow> r1 = Z"
      using send_to_end_ok [OF snd z r(2)] by blast
    show ?thesis
    proof (cases "cnt \<le> 0")
      case True
      have "send_finish E sei cnt (sent sei k1 r1 s) = Some (0, sent sei k1 r1 s)" using p(5) by (intro send_finish_ok) simp
      then have "net_try_send_all E sei s = Some (0, sent sei k1 r1 s)"
        using p(1) False True r(1) w(1) unfolding s0 by (simp add: net_try_send_all_def)
      moreover have "\<not> r1 \<le> W" using p(2) False by simp
      ultimately show ?thesis using p U U0 False bytes_at_split [OF p(2,3)] by (intro exI [of _ k1] exI [of _ r1]) simp
    next
      case go: False
      then have r1: "r1 = Z" using p(6) by simp
      obtain k' r' where q: "send_from_start E sei (sent sei k1 0 s) = Some (0, sent sei k' r' s)" "r' \<le> W"
        "out k' = out k1 @ bytes_at (bytes s) (?b + of_nat 0) (r' - 0)"
        using send_from_start_ok [OF snd st w(1), of 0 k1] by blast
      have "(sent sei k1 r1 s)\<lparr>ses_r_offset := (ses_r_offset (sent sei k1 r1 s))(sei := 0)\<rparr> = sent sei k1 0 s"
        by (simp add: sent_def)
      then have "net_try_send_all E sei s = Some (0, sent sei k' r' s)"
        using p(1) False go r(1) w(1) q(1) unfolding s0 by (simp add: net_try_send_all_def)
      moreover have "bytes_at (bytes s) ?b W = bytes_at (bytes s) ?b r' @ bytes_at (bytes s) (?b + of_nat r') (W - r')"
        using bytes_at_drop [OF q(2)] .
      ultimately show ?thesis using p(4) q(2,3) U U0 False r1 w(2) by (intro exI [of _ k'] exI [of _ r']) simp
    qed
  qed
qed

lemma send_ring_at:
  assumes inv: "ring_inv (send_ring s sei)" and len: "uint (ses_send_buf_len s sei) < 2 ^ 30"
  obtains R W Z where "ring_at 1 \<lparr>rings = (\<lambda>_. send_ring s sei), rb_mem = bytes s\<rparr> (ses_send_buf s sei) R W Z"
    and "uint (ses_send_buf_len s sei) = int Z" and "Z < 2 ^ 30" and "unat (ring_size (send_ring s sei)) = Z"
proof -
  let ?q = "\<lparr>rings = (\<lambda>_. send_ring s sei), rb_mem = bytes s\<rparr>"
  obtain R W Z where at: "ring_at 1 ?q (rb_addr_begin (rings ?q 1)) R W Z" and Z: "unat (ring_size (rings ?q 1)) = Z"
    using ring_inv_at [of ?q 1] inv by auto
  have z: "unat (ring_size (send_ring s sei)) = Z" using Z by simp
  have "uint (ring_size (send_ring s sei)) = int Z" unfolding z [symmetric] uint_nat ..
  then have u: "uint (ses_send_buf_len s sei) = int Z" by (simp only: send_ring_sel uint_ucast_32)
  then show thesis using that [of R W Z] at z len by simp
qed

lemma net_send_write:
  assumes n: "0 < n" and sei: "sei \<noteq> 0" "sei + 16 \<noteq> 0" "data \<noteq> 0" and st: "ses_state_of s sei = SES_NORMAL"
    and w: "write_send_buf sei data n s = Some (rslt, s1)"
  shows "net_send E (sei + 16) data n s = (if rslt < 0 then Some (-1, s1) else net_try_send_all E sei s1)"
  using assms by (simp add: net_send_def conv_ses_impl_def)

text \<open>An accepted block; one that fills the gap of a wrapped buffer exactly makes it look empty.\<close>

lemma net_send_accepted:
  assumes inv: "ring_inv (send_ring s sei)" and len: "uint (ses_send_buf_len s sei) < 2 ^ 30" and n: "0 < n" "n < 2 ^ 31"
    and sei: "sei \<noteq> 0" "sei + 16 \<noteq> 0" "data \<noteq> 0" and st: "ses_state_of s sei = SES_NORMAL"
    and ap: "apart (ses_send_buf s sei) (unat (ring_size (send_ring s sei))) data (nat n)"
    and snd: "sends E out (nt_sock_fd s sei)" and acc: "ring_accepts (send_ring s sei) n"
  shows "\<exists>s'. net_send E (sei + 16) data n s = Some (0, s') \<and> ring_inv (send_ring s' sei) \<and>
    out (kernel s') @ unsent s' sei = out (kernel s) @
      (if ses_w_offset s sei < ses_r_offset s sei \<and> n = ring_room (send_ring s sei) then []
       else unsent s sei @ bytes_at (bytes s) data (nat n))"
proof -
  let ?q = "\<lparr>rings = (\<lambda>_. send_ring s sei), rb_mem = bytes s\<rparr>"
  obtain R W Z where at: "ring_at 1 ?q (ses_send_buf s sei) R W Z" and z: "uint (ses_send_buf_len s sei) = int Z" "Z < 2 ^ 30"
    and Z: "unat (ring_size (send_ring s sei)) = Z" by (rule send_ring_at [OF inv len])
  obtain N where N: "n = int N" using n(1) nonneg_int_cases [of n] by auto
  have N': "N < 2 ^ 62" using n(2) N by simp
  have rw: "ses_r_offset s sei = int R" "ses_w_offset s sei = int W" "R \<le> Z" using at by (auto simp: ring_at_def)
  have a: "if W < R then N \<le> R - W else W + N < R + Z" using acc ring_accepts_at [OF at, of N] unfolding N by simp
  have ex: "(ses_w_offset s sei < ses_r_offset s sei \<and> n = ring_room (send_ring s sei)) \<longleftrightarrow> W < R \<and> N = R - W"
    using rw N by (auto simp: ring_room_def)
  obtain W' m' where w: "rbuf_write_block 1 data n ?q = Some (0, ring_put 1 (int W') m' ?q)" "W' \<le> Z"
    "ring_content ((rings ?q 1)\<lparr>w_offset := int W'\<rparr>) m' = (if W < R \<and> N = R - W then []
       else ring_content (rings ?q 1) (rb_mem ?q) @ bytes_at (rb_mem ?q) data N)"
    using write_accepted [OF at N' ap [unfolded Z N nat_int] a] unfolding N by blast
  define s1 where "s1 = s\<lparr>ses_w_offset := (ses_w_offset s)(sei := int W'), bytes := m'\<rparr>"
  have wr: "write_send_buf sei data n s = Some (0, s1)"
    using write_send_buf_eq [OF inv len, of n data] n w(1) by (simp add: s1_def)
  have r1: "send_ring s1 sei = (send_ring s sei)\<lparr>w_offset := int W'\<rparr>" by (simp add: send_ring_def s1_def)
  have u1: "unsent s1 sei = (if W < R \<and> N = R - W then [] else unsent s sei @ bytes_at (bytes s) data (nat n))"
    using w(3) unfolding unsent_def r1 N by (simp add: s1_def)
  have pre: "sends E out (nt_sock_fd s1 sei)" "ses_state_of s1 sei = SES_NORMAL" "uint (ses_send_buf_len s1 sei) = int Z"
    "ses_w_offset s1 sei = int W'" "ses_r_offset s1 sei = int R" using snd st z(1) rw(1) by (simp_all add: s1_def)
  obtain k' R' where t: "net_try_send_all E sei s1 = Some (0, sent sei k' R' s1)" "R' \<le> Z"
    "out k' @ unsent (sent sei k' R' s1) sei = out (kernel s1) @ unsent s1 sei"
    using try_send_all_ok [OF pre(1,2,3) z(2) pre(4) w(2) pre(5) rw(3)] by blast
  have "net_send E (sei + 16) data n s = Some (0, sent sei k' R' s1)"
    using net_send_write [OF n(1) sei st wr] t(1) by simp
  moreover have "send_ring (sent sei k' R' s1) sei = (send_ring s sei)\<lparr>w_offset := int W', r_offset := int R'\<rparr>"
    by (simp add: send_ring_def s1_def sent_def)
  then have "ring_inv (send_ring (sent sei k' R' s1) sei)" using inv w(2) t(2) z(1) by (simp add: ring_inv_def uint_ucast_32)
  ultimately show ?thesis using t(3) u1 unfolding ex by (intro exI [of _ "sent sei k' R' s1"]) (simp add: s1_def)
qed

lemma net_send_refused:
  assumes inv: "ring_inv (send_ring s sei)" and len: "uint (ses_send_buf_len s sei) < 2 ^ 30" and n: "0 < n" "n < 2 ^ 31"
    and sei: "sei \<noteq> 0" "sei + 16 \<noteq> 0" "data \<noteq> 0" and st: "ses_state_of s sei = SES_NORMAL"
    and no: "\<not> ring_accepts (send_ring s sei) n"
  shows "net_send E (sei + 16) data n s = Some (-1, s)"
proof -
  let ?q = "\<lparr>rings = (\<lambda>_. send_ring s sei), rb_mem = bytes s\<rparr>"
  obtain R W Z where at: "ring_at 1 ?q (ses_send_buf s sei) R W Z" by (rule send_ring_at [OF inv len])
  obtain N where N: "n = int N" using n(1) nonneg_int_cases [of n] by auto
  have "if W < R then R - W < N else R + Z \<le> W + N"
    using no ring_accepts_at [OF at, of N] unfolding N by (auto split: if_splits)
  then have "rbuf_write_block 1 data n ?q = Some (-1, ?q)" unfolding N using n(2) N by (intro write_refused [OF at]) simp_all
  then have "write_send_buf sei data n s = Some (-1, s)"
    using write_send_buf_eq [OF inv len, of n data] n by (simp add: fun_upd_idem)
  then show ?thesis using net_send_write [OF n(1) sei st] by simp
qed

text \<open>
  C7.  A session in its normal state is a queue of bytes on a socket that takes any part of what it is given:
  \<open>net_send\<close> accepts a block exactly when the buffer has room for it, and then what the socket has got,
  followed by what is still in the buffer, grows by the block at its end; nothing is lost, repeated or
  reordered.  The one exception is a block that fills the gap of a wrapped buffer exactly: it is accepted
  too, but it and all that waited in the buffer never get to the socket.  A block without room is refused
  and changes nothing.
\<close>

theorem net_send_stream:
  assumes inv: "ring_inv (send_ring s sei)" and len: "uint (ses_send_buf_len s sei) < 2 ^ 30" and n: "0 < n" "n < 2 ^ 31"
    and sei: "sei \<noteq> 0" "sei + 16 \<noteq> 0" "data \<noteq> 0" and st: "ses_state_of s sei = SES_NORMAL"
    and ap: "apart (ses_send_buf s sei) (unat (ring_size (send_ring s sei))) data (nat n)"
    and snd: "sends E out (nt_sock_fd s sei)"
  shows "if ring_accepts (send_ring s sei) n
    then \<exists>s'. net_send E (sei + 16) data n s = Some (0, s') \<and> ring_inv (send_ring s' sei) \<and>
      out (kernel s') @ unsent s' sei = out (kernel s) @
        (if ses_w_offset s sei < ses_r_offset s sei \<and> n = ring_room (send_ring s sei) then []
         else unsent s sei @ bytes_at (bytes s) data (nat n))
    else net_send E (sei + 16) data n s = Some (-1, s)"
proof (cases "ring_accepts (send_ring s sei) n")
  case True
  show ?thesis using net_send_accepted [OF inv len n sei st ap snd True] unfolding if_P [OF True] .
next
  case False
  then show ?thesis using net_send_refused [OF inv len n sei st False] by simp
qed

text \<open>The block that fills the gap exactly: the call succeeds and all that waited is lost with it.\<close>

lemma net_send_exact_fill:
  assumes "ring_inv (send_ring s sei)" and "uint (ses_send_buf_len s sei) < 2 ^ 30" and "0 < n" "n < 2 ^ 31"
    and "sei \<noteq> 0" "sei + 16 \<noteq> 0" "data \<noteq> 0" and "ses_state_of s sei = SES_NORMAL"
    and "apart (ses_send_buf s sei) (unat (ring_size (send_ring s sei))) data (nat n)"
    and "sends E out (nt_sock_fd s sei)" and ex: "ses_w_offset s sei < ses_r_offset s sei" "n = ring_room (send_ring s sei)"
  shows "\<exists>s'. net_send E (sei + 16) data n s = Some (0, s') \<and> out (kernel s') @ unsent s' sei = out (kernel s)"
proof -
  have "ring_accepts (send_ring s sei) n" using ex by (simp add: ring_accepts_def)
  from net_send_accepted [OF assms(1-10) this] show ?thesis using ex by auto
qed

section \<open>Receiving\<close>

text \<open>
  What \<open>recv\<close> is documented to do on the socket \<open>fd\<close> while the connection stands: it hands out a first part of
  the bytes that have come, \<open>inp\<close>, and fails with \<open>EAGAIN\<close> when there are none.
\<close>

definition receives :: "('o, 'p, 'n, 'z) ne \<Rightarrow> ('n \<Rightarrow> byte list) \<Rightarrow> int \<Rightarrow> bool" where
  "receives E inp fd \<longleftrightarrow> (\<forall>n k c xs k'. 0 < n \<longrightarrow> sys_recv E fd n k = ((c, xs), k') \<longrightarrow>
     (if inp k = [] then c < 0 \<and> inp k' = [] \<and> sys_errno E k' = EAGAIN
      else 0 < c \<and> c \<le> int n \<and> c \<le> int (length (inp k)) \<and> xs = take (nat c) (inp k) \<and> inp k' = drop (nat c) (inp k)))"

text \<open>A user that records what it is given, in the rest of the state.\<close>

definition records :: "('o, 'p, 'n, byte list) ne \<Rightarrow> ptr \<Rightarrow> ptr \<Rightarrow> bool" where
  "records E rf sei \<longleftrightarrow> rf \<noteq> 0 \<and> (\<forall>buf n s. cb_recv E rf (sei + 16) buf n s =
     Some (net_heap.more_update (\<lambda>l. l @ bytes_at (bytes s) buf (nat n)) s))"

definition recvd :: "ptr \<Rightarrow> 'n \<Rightarrow> nat \<Rightarrow> bytes \<Rightarrow> byte list \<Rightarrow> ('o, 'p, 'n, byte list) ns \<Rightarrow> ('o, 'p, 'n, byte list) ns" where
  "recvd sei k d m l s = net_heap.more_update (\<lambda>_. l)
     (s\<lparr>kernel := k, bytes := m, ses_bytes_recv := (ses_bytes_recv s)(sei := of_nat d)\<rparr>)"

lemma recvd_sel [simp]:
  "kernel (recvd sei k d m l s) = k" "bytes (recvd sei k d m l s) = m" "ses_bytes_recv (recvd sei k d m l s) sei = of_nat d"
  "net_heap.more (recvd sei k d m l s) = l" "ses_recv_buf (recvd sei k d m l s) = ses_recv_buf s"
  "ses_recv_buf_len (recvd sei k d m l s) = ses_recv_buf_len s" "nt_sock_fd (recvd sei k d m l s) = nt_sock_fd s"
  by (simp_all add: recvd_def)

lemma call_recv_records:
  assumes rec: "records E rf sei" and B: "ses_recv_buf s sei = B" and d: "unat (of_nat d :: u32) = d"
  shows "call_recv E rf sei (recvd sei k d m l s) = Some (recvd sei k d m (l @ bytes_at m B d) s)"
proof -
  have "uint (of_nat d :: u32) = int d" using d by (simp only: uint_nat)
  then show ?thesis using rec B by (simp add: call_recv_def records_def) (simp add: recvd_def comp_def)
qed

lemma put_bytes_behind:
  assumes z: "unat B + L \<le> 2 ^ 64" and d: "d + length xs \<le> L"
  shows "bytes_at (put_bytes (B + of_nat d) xs m) B (d + length xs) = bytes_at m B d @ xs"
proof -
  have "bytes_at (put_bytes (B + of_nat d) xs m) B d = bytes_at m B d"
  proof (rule bytes_at_cong)
    fix i assume i: "i < d"
    have "\<not> unat (of_nat i - of_nat d :: u64) < length xs"
    proof
      assume lt: "unat (of_nat i - of_nat d :: u64) < length xs"
      then have "unat (of_nat i - of_nat d :: u64) + d < 2 ^ 64" using z d by linarith
      then have "unat (of_nat i - of_nat d + of_nat d :: u64) = unat (of_nat i - of_nat d :: u64) + d" by (rule unat_add_of_nat)
      moreover have "i < 2 ^ 64" using i z d by linarith
      ultimately show False using i by (simp add: unat_of_nat_small)
    qed
    then show "put_bytes (B + of_nat d) xs m (B + of_nat i) = m (B + of_nat i)" by (simp add: put_bytes_def)
  qed
  moreover have "bytes_at (put_bytes (B + of_nat d) xs m) (B + of_nat d) (length xs) = xs"
  proof (rule nth_equalityI)
    fix i assume "i < length (bytes_at (put_bytes (B + of_nat d) xs m) (B + of_nat d) (length xs))"
    then have i: "i < length xs" by simp
    then have "i < 2 ^ 64" using z d by linarith
    then show "bytes_at (put_bytes (B + of_nat d) xs m) (B + of_nat d) (length xs) ! i = xs ! i"
      using i by (simp add: bytes_at_def put_bytes_def unat_of_nat_small)
  qed simp
  ultimately show ?thesis by (simp add: bytes_at_append)
qed

lemma recv_loop_ok:
  fixes s :: "('o, 'p, 'n, byte list) ns"
  assumes B: "ses_recv_buf s sei = B" "unat B + L \<le> 2 ^ 64" and L: "ses_recv_buf_len s sei = of_nat L" "L < 2 ^ 32"
    and rec: "records E rf sei" and rcv: "receives E inp (nt_sock_fd s sei)" and d: "d < L"
  shows "\<exists>c k' d' m' l'. recv_loop E rf sei (B + of_nat d) (recvd sei k d m l s) = Some (c, recvd sei k' d' m' l' s) \<and>
    inp k' = [] \<and> sys_errno E k' = EAGAIN \<and> d' < L \<and> l' @ bytes_at m' B d' = l @ bytes_at m B d @ inp k"
  using d
proof (induction "length (inp k)" arbitrary: k d m l rule: less_induct)
  case less
  have d32: "unat (of_nat d :: u32) = d" "unat (of_nat L :: u32) = L" using less.prems L(2) by (simp_all add: unat_of_nat)
  then have "(of_nat d :: u32) \<le> of_nat L" using less.prems by (simp add: word_le_nat_alt)
  then have room: "unat (of_nat L - of_nat d :: u32) = L - d" using d32 by (simp add: unat_sub)
  obtain c xs k1 where r: "sys_recv E (nt_sock_fd s sei) (L - d) k = ((c, xs), k1)" by (metis surj_pair)
  have n0: "0 < L - d" using less.prems by simp
  note R = rcv [unfolded receives_def, rule_format, OF n0 r]
  have u: "on_kernel (sys_recv E (nt_sock_fd s sei) (L - d)) (recvd sei k d m l s) = Some ((c, xs), recvd sei k1 d m l s)"
    using r by (simp add: on_kernel_def recvd_def)
  show ?case
  proof (cases "inp k = []")
    case True
    then have "recv_loop E rf sei (B + of_nat d) (recvd sei k d m l s) = Some (c, recvd sei k1 d m l s)"
      using R u room L(1) by (subst recv_loop.simps) simp
    then show ?thesis using True R less.prems by (intro exI [of _ c] exI [of _ k1] exI [of _ d] exI [of _ m] exI [of _ l]) simp
  next
    case False
    define j where "j = nat c"
    have R': "0 < c" "c \<le> int (L - d)" "c \<le> int (length (inp k))" "xs = take j (inp k)" "inp k1 = drop j (inp k)"
      using R False by (simp_all add: j_def)
    have cj: "c = int j" using R'(1) by (simp add: j_def)
    then have le: "j \<le> L - d" "j \<le> length (inp k)" using R'(2,3) by (simp_all only: of_nat_le_iff)
    have c: "c = int j" "0 < j" "d + j \<le> L" "xs = take j (inp k)" "length xs = j" "inp k1 = drop j (inp k)"
      using R' cj le less.prems by simp_all
    have shorter: "length (inp k1) < length (inp k)" using c(2,6) False by simp
    define m1 where "m1 = put_bytes (B + of_nat d) xs m"
    have m1: "bytes_at m1 B (d + j) = bytes_at m B d @ xs"
      using put_bytes_behind [OF B(2), of d xs m] c(3,5) by (simp add: m1_def)
    have in_k: "xs @ inp k1 = inp k" using c(4,6) by simp
    have s1: "(recvd sei k1 d m l s)\<lparr>bytes := m1, ses_bytes_recv := (ses_bytes_recv (recvd sei k1 d m l s))
        (sei := ses_bytes_recv (recvd sei k1 d m l s) sei + of_int c)\<rparr> = recvd sei k1 (d + j) m1 l s"
      using c(1) by (simp add: recvd_def)
    have u32: "unat (of_nat (d + j) :: u32) = d + j" unfolding unat_of_nat by (rule mod_less) (use c(3) L(2) in simp)
    have full: "(of_nat L :: u32) \<le> of_nat (d + j) \<longleftrightarrow> d + j = L" using c(3) unfolding word_le_nat_alt u32 d32 by linarith
    have step: "recv_loop E rf sei (B + of_nat d) (recvd sei k d m l s) =
      (if d + j = L then do { s \<leftarrow> call_recv E rf sei (recvd sei k1 (d + j) m1 l s);
          recv_loop E rf sei (ses_recv_buf s sei) (s\<lparr>ses_bytes_recv := (ses_bytes_recv s)(sei := 0)\<rparr>) }
       else recv_loop E rf sei (B + of_nat d + of_int c) (recvd sei k1 (d + j) m1 l s))"
      using u room L(1) c(1,2,5) s1 full by (subst recv_loop.simps) (simp add: m1_def Let_def)
    show ?thesis
    proof (cases "d + j = L")
      case True
      have "call_recv E rf sei (recvd sei k1 (d + j) m1 l s) = Some (recvd sei k1 (d + j) m1 (l @ bytes_at m1 B (d + j)) s)"
        by (rule call_recv_records [OF rec B(1) u32])
      moreover have "(recvd sei k1 (d + j) m1 l1 s)\<lparr>ses_bytes_recv := (ses_bytes_recv (recvd sei k1 (d + j) m1 l1 s))(sei := 0)\<rparr>
          = recvd sei k1 0 m1 l1 s" for l1 by (simp add: recvd_def)
      ultimately have go: "recv_loop E rf sei (B + of_nat d) (recvd sei k d m l s) =
        recv_loop E rf sei (B + of_nat 0) (recvd sei k1 0 m1 (l @ bytes_at m1 B (d + j)) s)"
        using step True B(1) by simp
      have "0 < L" using less.prems by simp
      from less.hyps [OF shorter this, of m1 "l @ bytes_at m1 B (d + j)"]
      show ?thesis unfolding go m1 using in_k by auto
    next
      case False
      then have go: "recv_loop E rf sei (B + of_nat d) (recvd sei k d m l s) =
        recv_loop E rf sei (B + of_nat (d + j)) (recvd sei k1 (d + j) m1 l s)"
        using step c(1) by (simp add: add.assoc)
      have "d + j < L" using False c(3) by simp
      from less.hyps [OF shorter this, of m1 l] show ?thesis unfolding go m1 using in_k by auto
    qed
  qed
qed

text \<open>
  C8.  \<open>_net_on_recv\<close> on a standing connection ends, and by then the user has been given everything that had
  come in, in order, in pieces that fit the buffer: a user that records its pieces has recorded just the bytes
  that were waiting at the socket.
\<close>

theorem net_on_recv_delivers:
  fixes s :: "('o, 'p, 'n, byte list) ns"
  assumes buf: "ses_recv_buf s sei \<noteq> 0" "ses_recv_buf_len s sei \<noteq> 0"
      "unat (ses_recv_buf s sei) + unat (ses_recv_buf_len s sei) \<le> 2 ^ 64"
    and rf: "rf = (if ses_func_recv (ses_ops s sei) \<noteq> 0 then ses_func_recv (ses_ops s sei) else func_recv (inet_ops s (nt_inet s sei)))"
      "nt_inet s sei \<noteq> 0"
    and rec: "records E rf sei" and rcv: "receives E inp (nt_sock_fd s sei)"
  shows "\<exists>s'. net_on_recv E sei s = Some s' \<and> inp (kernel s') = [] \<and> net_heap.more s' = net_heap.more s @ inp (kernel s)"
proof -
  define B where "B = ses_recv_buf s sei"
  define L where "L = unat (ses_recv_buf_len s sei)"
  have L: "ses_recv_buf_len s sei = of_nat L" "0 < L" "L < 2 ^ 32"
    using buf(2) unsigned_less [of "ses_recv_buf_len s sei", where 'a = nat] by (simp_all add: L_def unat_gt_0)
  have z: "unat B + L \<le> 2 ^ 64" using buf(3) by (simp add: B_def L_def)
  have s0: "s\<lparr>ses_bytes_recv := (ses_bytes_recv s)(sei := 0)\<rparr> = recvd sei (kernel s) 0 (bytes s) (net_heap.more s) s"
    by (simp add: recvd_def)
  obtain c k' d' m' l' where r: "recv_loop E rf sei (B + of_nat 0) (recvd sei (kernel s) 0 (bytes s) (net_heap.more s) s) =
      Some (c, recvd sei k' d' m' l' s)" "inp k' = []" "sys_errno E k' = EAGAIN" "d' < L"
    "l' @ bytes_at m' B d' = net_heap.more s @ bytes_at (bytes s) B 0 @ inp (kernel s)"
    using recv_loop_ok [OF B_def [symmetric] z L(1,3) rec rcv L(2), of "kernel s" "bytes s" "net_heap.more s"] by blast
  define s1 where "s1 = recvd sei (kernel s) 0 (bytes s) (net_heap.more s) s"
  have f: "(if ses_func_recv (ses_ops s1 sei) \<noteq> 0 then Some (ses_func_recv (ses_ops s1 sei))
      else deref (nt_inet s sei) (func_recv (inet_ops s1 (nt_inet s sei)))) = Some rf"
    using rf by (simp add: s1_def recvd_def)
  have pos: "\<not> ses_recv_buf_len s sei \<le> 0" using buf(2) by simp
  have u: "unat (of_nat d' :: u32) = d'" using r(4) L(3) by (simp add: unat_of_nat)
  have run: "net_on_recv E sei s = (if (of_nat d' :: u32) > 0 then call_recv E rf sei (recvd sei k' d' m' l' s)
      else Some (recvd sei k' d' m' l' s))"
  proof -
    have "ses_recv_buf s1 sei \<noteq> 0" "\<not> ses_recv_buf_len s1 sei \<le> 0" using buf(1) pos by (simp_all add: s1_def)
    then show ?thesis using r(1,3) unfolding net_on_recv_def Let_def s0 s1_def [symmetric] f B_def by simp
  qed
  show ?thesis
  proof (cases "d' = 0")
    case True
    then show ?thesis using run r(2,5) by simp
  next
    case False
    have "call_recv E rf sei (recvd sei k' d' m' l' s) = Some (recvd sei k' d' m' (l' @ bytes_at m' B d') s)"
      by (rule call_recv_records [OF rec B_def [symmetric] u])
    moreover have "(0 :: u32) < of_nat d'" using u False by (simp add: word_less_nat_alt)
    ultimately show ?thesis using run r(2,5) by simp
  qed
qed

section \<open>The loop over \<open>poll\<close>\<close>

lemma poll_entries_walk:
  assumes "linked (links s) (xs @ [tail_of lst])" and "0 \<notin> set xs" and "tail_of lst \<notin> set xs"
    and "int (length fds + length xs) \<le> limit"
  shows "poll_entries conv evs lst (hd (xs @ [tail_of lst])) limit fds s = Some (fds @ map (\<lambda>x. (nt_sock_fd s (conv x), evs)) xs)"
  using assms
proof (induction xs arbitrary: fds)
  case Nil
  then show ?case by (subst poll_entries.simps) simp
next
  case (Cons x xs)
  have n: "ld_next (links s) x = Some (hd (xs @ [tail_of lst]))" "linked (links s) (xs @ [tail_of lst])"
    using Cons.prems(1,2) by (cases xs; simp add: ld_next_def)+
  have "poll_entries conv evs lst x limit fds s =
      poll_entries conv evs lst (hd (xs @ [tail_of lst])) limit (fds @ [(nt_sock_fd s (conv x), evs)]) s"
    using Cons.prems(3,4) n(1) by (subst poll_entries.simps) (auto simp del: One_nat_def)
  then show ?case using Cons.IH [OF n(2), of "fds @ [(nt_sock_fd s (conv x), evs)]"] Cons.prems by simp
qed

lemma poll_entries_ok:
  assumes l: "dl_list (links s) lst xs" and lim: "int (length fds + length xs) \<le> limit"
  shows "do { dln \<leftarrow> ld_next (links s) (head_of lst); poll_entries conv evs lst dln limit fds s } =
    Some (fds @ map (\<lambda>x. (nt_sock_fd s (conv x), evs)) xs)"
proof -
  note d = dl_listD [OF l]
  have "linked (links s) (xs @ [tail_of lst])" using d(9) by (cases xs) auto
  then show ?thesis using poll_entries_walk [OF _ d(6,5) lim] dl_list_ends(1) [OF l] d(1) by (simp add: ld_next_def)
qed

text \<open>The socket \<open>fd\<close> is that of a session in the tree of the network.\<close>

definition registered :: "('o, 'p, 'n, 'z) ns \<Rightarrow> ptr \<Rightarrow> int \<Rightarrow> bool" where
  "registered s inet fd \<longleftrightarrow> (\<exists>rbn hot. rb_search (po_tree s inet) (of_int fd) local_var = Some (rbn, hot) \<and> rbn \<noteq> 0 \<and>
     po_obj s rbn \<noteq> 0 \<and> nt_type_info s (po_obj s rbn) = SES_TYPE_INFO)"

lemma dispatch_idle:
  "obj \<noteq> 0 \<Longrightarrow> nt_type_info s obj = SES_TYPE_INFO \<Longrightarrow> net_dispatch E obj (\<lambda>s. Some 0) s = Some s"
  by (simp add: net_dispatch_def SES_TYPE_INFO_def ACC_TYPE_INFO_def)

lemma intranet_events_idle:
  assumes "i \<le> n" and "n \<le> length fds" and "n \<le> length revs" and "\<forall>j < n. revs ! j = 0"
    and "\<forall>j < n. registered s inet (fst (fds ! j))"
  shows "intranet_events E inet fds revs (int n) i s = Some (0, s)"
  using assms(1)
proof (induction "n - i" arbitrary: i)
  case 0
  then show ?case by (subst intranet_events.simps) simp
next
  case (Suc d)
  then have i: "i < n" by simp
  obtain fd ev where f: "fds ! i = (fd, ev)" by fastforce
  have "registered s inet fd" using assms(5) i f by force
  then obtain rbn hot where r: "rb_search (po_tree s inet) (of_int fd) local_var = Some (rbn, hot)" "rbn \<noteq> 0"
    "po_obj s rbn \<noteq> 0" "nt_type_info s (po_obj s rbn) = SES_TYPE_INFO" unfolding registered_def by blast
  have "intranet_events E inet fds revs (int n) i s = intranet_events E inet fds revs (int n) (i + 1) s"
    using i assms(2-4) f r dispatch_idle [OF r(3,4)] by (subst intranet_events.simps) (simp add: nth_opt_def)
  also have "\<dots> = Some (0, s)" using Suc.hyps(1) [of "i + 1"] Suc.hyps(2) i by simp
  finally show ?case .
qed

text \<open>
  C40.  \<open>_intranet_run\<close> takes the number of ready sockets that \<open>poll\<close> returns for the number of entries to look
  at: when as many sessions at the front of the list have no event as there are ready ones, the call returns 0
  without sending, receiving or closing anything on the ready ones, and will do so again.
\<close>

theorem intranet_run_misses:
  assumes net: "inet \<noteq> 0" "dl_list (links s) (acc_list inet) []" "dl_list (links s) (ses_list inet) xs"
    and cnt: "int (length xs) \<le> inet_po_cnt s inet"
    and poll: "sys_poll E (map (\<lambda>x. (nt_sock_fd s (conv_ses_dln x), EV_IN OR EV_OUT OR EV_RDHUP OR EV_ERR)) xs) timeout (kernel s)
      = ((int n, revs), k')" "length revs = length xs" "n \<le> length xs"
    and idle: "\<forall>i < n. revs ! i = 0" "\<forall>i < n. registered s inet (nt_sock_fd s (conv_ses_dln (xs ! i)))"
  shows "intranet_run E inet timeout s = Some (0, s\<lparr>kernel := k'\<rparr>)"
proof -
  let ?fds = "map (\<lambda>x. (nt_sock_fd s (conv_ses_dln x), EV_IN OR EV_OUT OR EV_RDHUP OR EV_ERR)) xs"
  have a: "do { dln \<leftarrow> ld_next (links s) (head_of (acc_list inet));
      poll_entries conv_acc_dln EV_IN (acc_list inet) dln (inet_po_cnt s inet) [] s } = Some []"
    using poll_entries_ok [OF net(2), of "[]"] cnt by simp
  have b: "do { dln \<leftarrow> ld_next (links s) (head_of (ses_list inet));
      poll_entries conv_ses_dln (EV_IN OR EV_OUT OR EV_RDHUP OR EV_ERR) (ses_list inet) dln (inet_po_cnt s inet) [] s } = Some ?fds"
    using poll_entries_ok [OF net(3), of "[]"] cnt by simp
  define s1 where "s1 = s\<lparr>kernel := k'\<rparr>"
  have reg: "registered s1 inet fd = registered s inet fd" for fd by (simp add: registered_def s1_def po_tree_def)
  have ev: "intranet_events E inet ?fds revs (int n) 0 s1 = Some (0, s1)"
    by (rule intranet_events_idle) (use poll(2,3) idle in \<open>auto simp: reg\<close>)
  have "intranet_run E inet timeout s = do {
      fds \<leftarrow> do { dln \<leftarrow> ld_next (links s) (head_of (acc_list inet));
        poll_entries conv_acc_dln EV_IN (acc_list inet) dln (inet_po_cnt s inet) [] s };
      fds \<leftarrow> do { dln \<leftarrow> ld_next (links s) (head_of (ses_list inet));
        poll_entries conv_ses_dln (EV_IN OR EV_OUT OR EV_RDHUP OR EV_ERR) (ses_list inet) dln (inet_po_cnt s inet) fds s };
      if int (length fds) > inet_po_cnt s inet then Some (-1, s)
      else do {
        ((cnt, revs), s) \<leftarrow> on_kernel (sys_poll E fds timeout) s;
        if cnt < 0 then Some (-1, s) else intranet_events E inet fds revs cnt 0 s } }"
    by (simp add: intranet_run_def)
  also have "\<dots> = Some (0, s1)" unfolding a Option.bind.bind_lunit b using cnt poll(1) ev by (simp add: on_kernel_def s1_def)
  finally show ?thesis unfolding s1_def .
qed

section \<open>Error exits\<close>

text \<open>
  A session that is not on the list, as after a failed allocation of its buffers, is neither freed nor is its
  socket closed: \<open>lst_remove\<close> fails first.
\<close>

lemma net_close_unlinked:
  assumes "sei \<noteq> 0" and "nt_inet s sei \<noteq> 0" and "ses_state_of s sei = SES_INVALID" and "ses_recv_buf s sei = 0" "ses_send_buf s sei = 0"
    and "dl_prev (links s) (ses_lst_node sei) = 0"
  shows "net_close E sei s = Some (-1, s)"
  using assms by (simp add: net_close_def sei_free_buf_def lst_remove_def on_links_def Let_def fun_upd_idem)

text \<open>An acceptor that could not be set up is null, and the error exit reads its fields.\<close>

lemma create_acceptor_crashes:
  assumes "net_create_acc E inet ip port s = Some (0, s')"
  shows "internet_create_acceptor E inet ip port s = None"
  using assms by (simp add: internet_create_acceptor_def internet_destroy_acceptor_def Let_def)

section \<open>A small network\<close>

type_synonym net_ex_state = "(unit, unit, byte list \<times> byte list, byte list) ns"

text \<open>
  The kernel is what waits to be received and what was sent; it takes three bytes at a time, and \<open>poll\<close> reports
  that the second of two sockets can be written to.
\<close>

definition net_ex_env :: "(unit, unit, byte list \<times> byte list, net_ex_state) net_env" where
  "net_ex_env =
     \<lparr>nt_mm = \<lparr>env_ops = ops_ex, env_sys = \<lparr>sys_shmget = (\<lambda>_ _ _ k. (0, k)), sys_shmat = (\<lambda>_ _ _ k. (0, k)),
        sys_shmdt = (\<lambda>_ k. (0, k)), sys_shmctl_rmid = (\<lambda>_ k. (0, k))\<rparr>, env_uninit = 0, env_uninit_mzi = 0,
        env_call = (\<lambda>_ _ s. Some s)\<rparr>,
      acc_zone_name = 0x100, ses_zone_name = 0x200, po_zone_name = 0x300, addr_sei_ctor = 0x400, addr_sei_dtor = 0x500,
      addr_po_ctor = 0x600, uninit_po = 0, uninit_addr = (0, 0), cb_acc = (\<lambda>_ _ _ s. Some s), cb_ses = (\<lambda>_ _ s. Some s),
      cb_recv = (\<lambda>_ _ buf n s. Some (net_heap.more_update (\<lambda>l. l @ bytes_at (bytes s) buf (nat n)) s)),
      sys_errno = (\<lambda>_. EAGAIN), sys_socket = (\<lambda>k. (3, k)), sys_setsockopt = (\<lambda>_ _ _ k. (0, k)), sys_bind = (\<lambda>_ _ _ k. (0, k)),
      sys_listen = (\<lambda>_ _ k. (0, k)), sys_accept = (\<lambda>_ k. (-1, k)), sys_connect = (\<lambda>_ _ _ k. (0, k)),
      sys_recv = (\<lambda>_ n k. if fst k = [] then ((-1, []), k) else let c = min n (length (fst k)) in
        ((int c, take c (fst k)), (drop c (fst k), snd k))),
      sys_send = (\<lambda>_ xs k. (int (min 3 (length xs)), (fst k, snd k @ take 3 xs))),
      sys_shutdown = (\<lambda>_ k. (0, k)), sys_close = (\<lambda>_ k. (0, k)), sys_epoll_create = (\<lambda>_ k. (4, k)),
      sys_epoll_add = (\<lambda>_ _ _ _ k. (0, k)), sys_epoll_del = (\<lambda>_ _ k. (0, k)), sys_epoll_wait = (\<lambda>_ _ _ k. ((0, []), k)),
      sys_poll = (\<lambda>_ _ k. ((1, [0, EV_OUT]), k))\<rparr>"

definition net_ex :: net_ex_state where
  "net_ex = (mm_heap.extend mm_ex
     \<lparr>kernel = ([1, 2, 3, 4, 5, 6], []), acc_zone = 0x100, ses_zone = 0x200, poll_obj_zone = 0x300,
      inet_cfg = (\<lambda>_. \<lparr>send_buff_len = 16, recv_buff_len = 4, max_fd_count = 2\<rparr>),
      inet_ops = (\<lambda>_. \<lparr>func_acc = 0, func_conn = 0, func_recv = 0x7000, func_disconn = 0\<rparr>),
      inet_handler = (\<lambda>_. NT_INTRANET), inet_ep_ev = (\<lambda>_. 0), inet_epoll_fd = (\<lambda>_. 0), inet_po_cnt = (\<lambda>_. 2),
      po_size = (\<lambda>_. 1), po_depth = (\<lambda>_. 0), po_root = (\<lambda>_. 0x9000),
      po_nodes = \<lparr>rb_key = (\<lambda>_. 5), rb_lc = (\<lambda>_. 0), rb_rc = (\<lambda>_. 0), rb_pw = (\<lambda>_. 1), rb_size = 0, rb_depth = 0, rb_root = 0,
        rb_cfunc = None\<rparr>,
      po_obj = (\<lambda>_. 0x1000), ep_events = (\<lambda>_. []), nt_type_info = (\<lambda>_. SES_TYPE_INFO),
      nt_sock_fd = (\<lambda>a. if a = 0x1000 then 5 else 6), nt_inet = (\<lambda>_. 0x8000), nt_obj = (\<lambda>_. 0x9000),
      ses_remote_ip = (\<lambda>_. 0), ses_remote_port = (\<lambda>_. 0), ses_usr_ptr = (\<lambda>_. 0),
      ses_ops = (\<lambda>_. \<lparr>ses_func_conn = 0, ses_func_recv = 0, ses_func_disconn = 0\<rparr>),
      ses_recv_buf = (\<lambda>_. 0x4000), ses_send_buf = (\<lambda>_. 0x2000), ses_bytes_recv = (\<lambda>_. 0), ses_recv_buf_len = (\<lambda>_. 4),
      ses_send_buf_len = (\<lambda>_. 16), ses_r_offset = (\<lambda>_. 12), ses_w_offset = (\<lambda>_. 4), ses_po_idx = (\<lambda>_. 0),
      ses_state_of = (\<lambda>_. SES_NORMAL), ses_debug_type = (\<lambda>_. 0), \<dots> = []\<rparr>)
     \<lparr>bytes := (\<lambda>a. ucast a),
      links := \<lparr>dl_prev = (\<lambda>a. if a = 0x8040 then 0x8030 else if a = 0x1020 then 0x8050 else if a = 0x1120 then 0x1020
          else if a = 0x8060 then 0x1120 else 0),
        dl_next = (\<lambda>a. if a = 0x8030 then 0x8040 else if a = 0x8050 then 0x1020 else if a = 0x1020 then 0x1120
          else if a = 0x1120 then 0x8060 else 0)\<rparr>\<rparr>"

lemma net_ex_sel:
  "kernel net_ex = ([1, 2, 3, 4, 5, 6], [])" "bytes net_ex = (\<lambda>a. ucast a)" "net_heap.more net_ex = []"
  "ses_send_buf net_ex a = 0x2000" "ses_send_buf_len net_ex a = 16" "ses_r_offset net_ex a = 12" "ses_w_offset net_ex a = 4"
  "ses_recv_buf net_ex a = 0x4000" "ses_recv_buf_len net_ex a = 4" "ses_state_of net_ex a = SES_NORMAL"
  "ses_ops net_ex a = \<lparr>ses_func_conn = 0, ses_func_recv = 0, ses_func_disconn = 0\<rparr>"
  "inet_ops net_ex a = \<lparr>func_acc = 0, func_conn = 0, func_recv = 0x7000, func_disconn = 0\<rparr>" "nt_inet net_ex a = 0x8000"
  by (simp_all add: net_ex_def mm_heap.defs mm_ex_def)

lemmas net_ring_ex = send_ring_def ring_inv_def ring_accepts_def ring_room_def ring_content_def net_ex_sel apart_def Let_def

theorem write_send_buf_ring_witness:
  "write_send_buf 0x1000 0x3000 3 net_ex = do {
     (rslt, q) \<leftarrow> rbuf_write_block 1 0x3000 3 \<lparr>rings = (\<lambda>_. send_ring net_ex 0x1000), rb_mem = bytes net_ex\<rparr>;
     Some (rslt, net_ex\<lparr>ses_w_offset := (ses_w_offset net_ex)(0x1000 := w_offset (rings q 1)), bytes := rb_mem q\<rparr>) }"
  by (rule write_send_buf_ring) (simp_all add: net_ring_ex)

theorem net_send_stream_witness:
  "\<exists>s'. net_send net_ex_env 0x1010 0x3000 3 net_ex = Some (0, s') \<and>
     snd (kernel s') @ unsent s' 0x1000 = [12, 13, 14, 15, 0, 1, 2, 3, 0, 1, 2]"
proof -
  have acc: "ring_accepts (send_ring net_ex 0x1000) 3" by (simp add: net_ring_ex)
  have c: "snd (kernel net_ex) @ unsent net_ex 0x1000 @ bytes_at (bytes net_ex) 0x3000 (nat 3) = [12, 13, 14, 15, 0, 1, 2, 3, 0, 1, 2]"
    by (simp add: unsent_def net_ring_ex bytes_at_numeral bytes_at_Suc)
  have snd: "sends net_ex_env snd (nt_sock_fd net_ex 0x1000)" by (auto simp: sends_def net_ex_env_def min_def)
  have pre: "ring_inv (send_ring net_ex 0x1000)" "uint (ses_send_buf_len net_ex 0x1000) < 2 ^ 30" "(0 :: int) < 3" "(3 :: int) < 2 ^ 31"
    "(0x1000 :: ptr) \<noteq> 0" "(0x1000 :: ptr) + 16 \<noteq> 0" "(0x3000 :: ptr) \<noteq> 0" "ses_state_of net_ex 0x1000 = SES_NORMAL"
    "apart (ses_send_buf net_ex 0x1000) (unat (ring_size (send_ring net_ex 0x1000))) 0x3000 (nat 3)"
    by (simp_all add: net_ring_ex)
  have ne: "\<not> (ses_w_offset net_ex 0x1000 < ses_r_offset net_ex 0x1000 \<and> 3 = ring_room (send_ring net_ex 0x1000))"
    by (simp add: net_ring_ex)
  show ?thesis using net_send_stream [OF pre snd] unfolding if_P [OF acc] if_not_P [OF ne] c by auto
qed

theorem net_on_recv_delivers_witness:
  "\<exists>s'. net_on_recv net_ex_env 0x1000 net_ex = Some s' \<and> fst (kernel s') = [] \<and> net_heap.more s' = [1, 2, 3, 4, 5, 6]"
proof -
  have pre: "ses_recv_buf net_ex 0x1000 \<noteq> 0" "ses_recv_buf_len net_ex 0x1000 \<noteq> 0"
    "unat (ses_recv_buf net_ex 0x1000) + unat (ses_recv_buf_len net_ex 0x1000) \<le> 2 ^ 64"
    "0x7000 = (if ses_func_recv (ses_ops net_ex 0x1000) \<noteq> 0 then ses_func_recv (ses_ops net_ex 0x1000)
      else func_recv (inet_ops net_ex (nt_inet net_ex 0x1000)))" "nt_inet net_ex 0x1000 \<noteq> 0"
    by (simp_all add: net_ex_sel)
  have rec: "records net_ex_env 0x7000 0x1000" by (simp add: records_def net_ex_env_def)
  have rcv: "receives net_ex_env fst (nt_sock_fd net_ex 0x1000)"
    by (auto simp: receives_def net_ex_env_def Let_def min_def split: if_splits)
  show ?thesis using net_on_recv_delivers [OF pre rec rcv] unfolding net_ex_sel by simp
qed

theorem intranet_run_misses_witness:
  "intranet_run net_ex_env 0x8000 0 net_ex = Some (0, net_ex\<lparr>kernel := ([1, 2, 3, 4, 5, 6], [])\<rparr>)"
proof (rule intranet_run_misses [where xs = "[0x1020, 0x1120]" and n = 1 and revs = "[0, EV_OUT]"])
  show "dl_list (links net_ex) (acc_list 0x8000) []" "dl_list (links net_ex) (ses_list 0x8000) [0x1020, 0x1120]"
    by (simp_all add: dl_list_def dl_nodes_def net_ex_def mm_heap.defs)
  show "\<forall>i < 1. registered net_ex 0x8000 (nt_sock_fd net_ex (conv_ses_dln ([0x1020, 0x1120] ! i)))"
    by (simp add: registered_def po_tree_def rb_search_def rb_search_loop.simps compare_key_def def_order_func_def Let_def
      local_var_def conv_ses_dln_def net_ex_def mm_heap.defs mm_ex_def)
qed (simp_all add: net_ex_def mm_heap.defs mm_ex_def net_ex_env_def)

end
