(* ===== verification/Spec2Isabelle.thy ===== *)
theory Spec2Isabelle
  imports Misc Mmops Dlist Ringbuf Rbtree_Map Hash Bintree Graph Pgpool_Spec Mmpool_Free Shmem Stkpool_Spec Mmspace_Spec Mmcache_Pool Timer_Spec Ipc Utask Net_Spec
begin

text \<open>
  A model of syslib, a C library for processes that share memory: containers whose nodes are
  embedded in the objects they hold (\<open>src/src/dlist.c\<close>, \<open>rbtree.c\<close>, \<open>hash.c\<close>, \<open>bin_tree.c\<close>, \<open>graph.c\<close>), a ring
  buffer (\<open>ringbuf.c\<close>), helpers on bits and memory (\<open>misc.c\<close>, \<open>asm_misc.s\<close>), blocks of shared memory
  (\<open>shmem.c\<close>, keys in \<open>mmops.c\<close>), and the pools that hand out pieces of such blocks: pages (\<open>pgpool.c\<close>),
  buddy blocks (\<open>mmpool.c\<close>) and stack frames (\<open>stkpool.c\<close>).  The memory space (\<open>mmspace.c\<close>) creates
  blocks of shared memory as the sections of its areas, lays a pool over each and builds object caches
  on top; timers (\<open>timer.c\<close>), message channels (\<open>ipc.c\<close>), user tasks (\<open>utask.c\<close>) and the sessions and
  acceptors of the network (\<open>net.c\<close>, a loop over the events of \<open>epoll\<close> or \<open>poll\<close>) take their objects from
  such caches.

  \<^bold>\<open>Conventions.\<close>  Addresses and \<open>unsigned long\<close> are 64-bit words (\<open>Prelude\<close>).  A C function is a
  function of its arguments and the memory it works on, to \<open>Some (result, memory)\<close>; \<open>None\<close> stands for
  a run the code does not survive: a null pointer is dereferenced, a buffer is accessed out of its
  bounds, the processor divides by zero, or a loop never ends.  Status codes and signed counts are
  integers, unless their width matters, in which case they are words.  Loops are structural or
  \<open>function\<close> with a measure where they always end, and \<open>partial_function (option)\<close> otherwise; no
  fuel is used, and properties that say a loop ends show that its value is \<open>Some\<close>.

  \<^bold>\<open>Memory.\<close>  Each field of a C struct is a map from the address of the struct to its value, as in a
  typed memory: objects of different types do not overlap.  Embedded structs have the address of
  their container plus an offset, which the theories name; the conversions from an embedded node to
  its container are the subtraction of this offset.  Lists live in one \<open>dl_heap\<close>, bytes in one map
  (\<open>Memory\<close>), and the records of the components extend these.  A red-black tree and its nodes are a
  record of their own (\<open>Rbtree\<close>).

  \<^bold>\<open>Outside the sources.\<close>  Arguments stand for what the sources do not define: system calls over a
  state of the operating system (\<open>shm_sys\<close>, \<open>stk_sys\<close>, the sockets in \<open>net_env\<close>), function pointers, what \<open>bsr\<close> leaves for a zero
  operand (\<open>junk\<close>) and variables the code reads before it assigns them (\<open>uninit\<close>).  The parts of the C
  library the sources use, \<open>memcpy\<close>, \<open>strcmp\<close> and \<open>strncpy\<close>, are modelled.

  \<^bold>\<open>Theories.\<close>
  \<^item> \<open>Misc\<close>: \<open>misc.c\<close> and \<open>asm_misc.s\<close>.  Rounding to boundaries and powers of two, copying.
  \<^item> \<open>Mmops\<close>: keys of shared memory segments; the record \<open>mm_ops\<close> is \<open>struct mm_ops\<close>, the functions
    every kind of pool offers.
  \<^item> \<open>Dlist\<close>: every operation of \<open>dlist.c\<close>.  \<open>dl_list h l xs\<close> says that the list at \<open>l\<close> holds the
    nodes \<open>xs\<close>; each operation is shown to act on \<open>xs\<close> and to leave other lists alone.  The locale
    \<open>intrusive_list\<close> states this interface, \<open>dl\<close> is its interpretation.  \<open>Dlist_Family\<close> extends it to
    many lists in one heap, which the pools use.
  \<^item> \<open>Ringbuf\<close>: the ring buffer refines a queue of bytes, but for a block that fills the gap of a wrapped buffer
    exactly, with which the code loses all the content.
  \<^item> \<open>Rbtree\<close>: the definitions of \<open>rbtree.c\<close>.  \<open>Rbtree_Rep\<close> relates the node fields to a tree and
    proves rotations and recolouring on a tree with a hole; \<open>Rbtree_Insert\<close>, \<open>Rbtree_Fix\<close>,
    \<open>Rbtree_Swap\<close>, \<open>Rbtree_Remove\<close> follow the two loops of insertion and removal; \<open>Rbtree_Map\<close> states the
    tree as a finite map in key order, and bounds the rounds of a search by its height.
  \<^item> \<open>Hash\<close>, \<open>Bintree\<close>, \<open>Graph\<close>: the containers of the same names.
  \<^item> \<open>Pgpool\<close>: the definitions of \<open>pgpool.c\<close>.  \<open>Pgpool_Inv\<close> has the invariant \<open>pg_ok\<close>: the nodes of the
    search tree tile the chunk, the free ones are on the list of their size class, the rest is
    spare.  \<open>Pgpool_Take\<close> and \<open>Pgpool_Spec\<close> show that allocation and release keep it, and refine
    a set of regions in use; \<open>freed\<close> says which neighbours a release merges.
  \<^item> \<open>Mmpool\<close>: the definitions of \<open>mmpool.c\<close>.  \<open>Mmpool_Inv\<close> has the invariant \<open>mmp_ok\<close>: blocks of a power of
    two bytes tile the chunk, each of which carries its head and tail; the free ones are on the list of
    their order.  \<open>Mmpool_Alloc\<close> and \<open>Mmpool_Free\<close> show that allocation, with splitting, and release, with
    merging up to the block \<open>merge_end\<close> gives, end and keep it; the release of a block at the start of the chunk that
    does not grow to the largest order is left out, as the code then takes it for its own buddy (\<open>merge_with_itself\<close>).  Orders lie between 4 and 29, as the code computes sizes in 32 bits.
  \<^item> \<open>Shmem\<close>: \<open>shmem.c\<close> over the System V calls.
  \<^item> \<open>Stkpool\<close>, \<open>Stkpool_Spec\<close>: \<open>stkpool.c\<close>; the pool refines a queue of free frames.
  \<^item> \<open>Mmspace\<close>, \<open>Mmcache\<close>: \<open>mmspace.c\<close>, the space with its sections and the object caches.  The pools are
    reached through a table of \<open>mm_ops\<close>, as in the code.  \<open>Mmspace_Spec\<close> shows how a section is created and how
    \<open>mm_free\<close> finds the pool of a pointer; \<open>Mmcache_Spec\<close> shows that a slab is a set of objects in use, and
    \<open>Mmcache_Pool\<close> that a zone is one: \<open>zone_ok\<close> relates its lists of full, empty and partial slabs to the
    objects in use, \<open>zone_layout\<close> has the sizes \<open>mm_cache_create\<close> gives it (\<open>cache_create_layout\<close>), and slabs hold two
    objects at least.  Constructors and destructors write to their objects only (\<open>own_memory\<close>).
    \<open>mm_env\<close> bundles what the users of the space pass on to it.
  \<^item> \<open>Timer\<close>, \<open>Timer_Spec\<close>: the timer wheel of \<open>timer.c\<close>, and the tick at which a timer runs.
  \<^item> \<open>Ipc\<close>: the channels of \<open>ipc.c\<close>, and the creation of ring buffers (\<open>ringbuf.c\<close>).
  \<^item> \<open>Utask\<close>: the states of the tasks of \<open>utask.c\<close>.
  \<^item> \<open>Net\<close>: \<open>net.c\<close>, both the network over \<open>epoll\<close> (\<open>internet\<close>) and the one over \<open>poll\<close> (\<open>intranet\<close>).  The
    functions the users bind are addresses that \<open>net_env\<close> calls.  \<open>Net_Spec\<close> shows that the send buffer is the
    ring buffer of \<open>Ringbuf\<close>, for lengths below a gigabyte, so that offsets of 32 bits do not wrap; that a
    session is a queue of bytes on a socket that \<open>sends\<close> parts of what it is given; that a user which \<open>records\<close>
    what it gets has, in the end, all that a socket \<open>receives\<close>; and which sockets the loop over \<open>poll\<close> misses.

  \<^bold>\<open>Not modelled.\<close>  The switches between stacks in
  \<open>asm_run_task.s\<close>, \<open>asm_yield_task.s\<close> and \<open>asm_resume_task.s\<close> (arguments of \<open>Utask\<close>), \<open>rdtsc\<close>, the statistics
  that \<open>mmp_check\<close> prints, \<open>radix.c\<close> (empty) and the tests.
\<close>

end
